(* ===== verification/Prelude.thy ===== *)
theory Prelude
  imports Main "HOL-Library.Word"
begin

text \<open>
  Shared material of the development: the machine types, the flat byte memory with its
  little-endian accessors, the frame relation on memories, and the collections of facts
  (\<open>pb_consts\<close> for the numeric constants of \<open>pb.h\<close>, \<open>pb_calls\<close> for the unfolding of small
  helpers) that the component theories extend.

  An address is an \<open>int\<close> (pointer arithmetic inside one C object never wraps), a byte an
  \<open>8 word\<close>, and the memory is a total function from addresses to bytes.  The target is
  the one the Xcode project builds for: little-endian, 64-bit pointers and \<open>size_t\<close>.
\<close>

unbundle bit_operations_syntax

named_theorems pb_consts \<open>numeric constants of the C headers\<close>
named_theorems pb_calls \<open>unfolding of small helper functions\<close>
named_theorems frame_rules \<open>what an operation leaves unchanged in memory\<close>

type_synonym u8 = "8 word"
type_synonym u16 = "16 word"
type_synonym u32 = "32 word"
type_synonym u64 = "64 word"
type_synonym byte = "8 word"
type_synonym addr = int
type_synonym mem = "int \<Rightarrow> byte"

section \<open>The byte memory\<close>

definition store :: "mem \<Rightarrow> addr \<Rightarrow> byte list \<Rightarrow> mem" where
  "store m a bs = (\<lambda>x. if a \<le> x \<and> x < a + int (length bs) then bs ! nat (x - a) else m x)"

definition load :: "mem \<Rightarrow> addr \<Rightarrow> nat \<Rightarrow> byte list" where
  "load m a n = map (\<lambda>i. m (a + int i)) [0..<n]"

lemma length_load [simp]: "length (load m a n) = n"
  by (simp add: load_def)

lemma load_0 [simp]: "load m a 0 = []"
  by (simp add: load_def)

lemma load_nth [simp]: "i < n \<Longrightarrow> load m a n ! i = m (a + int i)"
  by (simp add: load_def)

lemma load_Suc: "load m a (Suc n) = m a # load m (a + 1) n"
  by (rule nth_equalityI) (auto simp: nth_Cons' algebra_simps of_nat_diff)

lemma load_cong:
  "(\<And>x. a \<le> x \<Longrightarrow> x < a + int n \<Longrightarrow> m x = m' x) \<Longrightarrow> load m a n = load m' a n"
  by (rule nth_equalityI) auto

lemma load_store_same [simp]: "load (store m a bs) a (length bs) = bs"
  by (rule nth_equalityI) (auto simp: store_def)

lemma load_store_len: "length bs = n \<Longrightarrow> load (store m a bs) a n = bs"
  by auto

lemma load_store_disjoint:
  "a + int (length bs) \<le> b \<or> b + int n \<le> a \<Longrightarrow> load (store m a bs) b n = load m b n"
  by (rule load_cong) (auto simp: store_def)

lemma store_Nil [simp]: "store m a [] = m"
  by (rule ext) (auto simp: store_def)

lemma store_outside: "x < a \<or> a + int (length bs) \<le> x \<Longrightarrow> store m a bs x = m x"
  by (auto simp: store_def)

lemma store_hd: "bs \<noteq> [] \<Longrightarrow> store m a bs a = hd bs"
  by (simp add: store_def hd_conv_nth)

lemma store_append:
  "store m a (bs @ cs) = store (store m a bs) (a + int (length bs)) cs"
  by (rule ext) (auto simp: store_def nth_append nat_less_iff nat_diff_distrib algebra_simps
      intro!: arg_cong [where f = "nth cs"])

lemma store_load_id: "store m a (load m a n) = m"
  by (rule ext) (auto simp: store_def)

lemma load_append: "load m a (n + k) = load m a n @ load m (a + int n) k"
  by (rule nth_equalityI) (auto simp: nth_append algebra_simps of_nat_diff)

section \<open>Frames\<close>

text \<open>\<open>eq_outside a n m m'\<close>: the two memories agree outside the \<open>n\<close> bytes at \<open>a\<close>.\<close>

definition eq_outside :: "addr \<Rightarrow> int \<Rightarrow> mem \<Rightarrow> mem \<Rightarrow> bool" where
  "eq_outside a n m m' \<longleftrightarrow> (\<forall>x. x < a \<or> a + n \<le> x \<longrightarrow> m' x = m x)"

lemma eq_outside_refl [simp, intro]: "eq_outside a n m m"
  by (simp add: eq_outside_def)

lemma eq_outside_trans [trans]:
  "eq_outside a n m m' \<Longrightarrow> eq_outside a n m' m'' \<Longrightarrow> eq_outside a n m m''"
  by (simp add: eq_outside_def)

lemma eq_outside_mono:
  "eq_outside b k m m' \<Longrightarrow> a \<le> b \<Longrightarrow> b + k \<le> a + n \<Longrightarrow> eq_outside a n m m'"
  by (auto simp: eq_outside_def)

lemma eq_outside_store [frame_rules]:
  "a \<le> b \<Longrightarrow> b + int (length bs) \<le> a + n \<Longrightarrow> eq_outside a n m (store m b bs)"
  by (auto simp: eq_outside_def store_def)

lemma eq_outside_load:
  "eq_outside a n m m' \<Longrightarrow> b + int k \<le> a \<or> a + n \<le> b \<Longrightarrow> load m' b k = load m b k"
  by (rule load_cong) (auto simp: eq_outside_def)

section \<open>Little-endian integers\<close>

text \<open>\<open>le_bytes n w\<close> is the C representation of the low \<open>n\<close> bytes of \<open>w\<close>, and
  \<open>of_le\<close> reads a representation back, zero-extended.\<close>

definition le_bytes :: "nat \<Rightarrow> 'a::len word \<Rightarrow> byte list" where
  "le_bytes n w = map (\<lambda>i. ucast (drop_bit (8 * i) w)) [0..<n]"

fun of_le :: "byte list \<Rightarrow> 'a::len word" where
  "of_le [] = 0"
| "of_le (b # bs) = ucast b OR push_bit 8 (of_le bs)"

lemma length_le_bytes [simp]: "length (le_bytes n w) = n"
  by (simp add: le_bytes_def)

lemma le_bytes_0 [simp]: "le_bytes 0 w = []"
  by (simp add: le_bytes_def)

lemma le_bytes_Suc: "le_bytes (Suc n) w = ucast w # le_bytes n (drop_bit 8 w)"
  by (simp add: le_bytes_def map_upt_Suc drop_bit_drop_bit algebra_simps del: upt_Suc)

lemma bit_of_le:
  fixes bs :: "byte list"
  shows "bit (of_le bs :: 'a::len word) n \<longleftrightarrow>
    n < LENGTH('a) \<and> n div 8 < length bs \<and> bit (bs ! (n div 8)) (n mod 8)"
proof (induction bs arbitrary: n)
  case Nil
  then show ?case by simp
next
  case (Cons b bs)
  show ?case
  proof (cases "n < 8")
    case True
    then show ?thesis
      by (auto simp: bit_or_iff bit_push_bit_iff bit_ucast_iff)
  next
    case False
    then have d: "n div 8 = Suc ((n - 8) div 8)" "n mod 8 = (n - 8) mod 8"
      by (auto simp: le_div_geq le_mod_geq)
    have "bit (ucast b :: 'a word) n = False"
      using False by (auto simp: bit_ucast_iff dest: bit_imp_le_length)
    with False d show ?thesis
      by (auto simp: bit_or_iff bit_push_bit_iff Cons.IH not_less)
  qed
qed

lemma bit_le_bytes_nth:
  "i < n \<Longrightarrow> bit (le_bytes n w ! i) k \<longleftrightarrow> k < 8 \<and> bit w (8 * i + k)"
  by (auto simp: le_bytes_def bit_ucast_iff bit_drop_bit_eq)

text \<open>Reading back what was written gives the low \<open>8 * n\<close> bits.\<close>

lemma of_le_le_bytes:
  "(of_le (le_bytes n (w :: 'a::len word)) :: 'a word) = take_bit (8 * n) w"
proof (rule bit_word_eqI)
  fix k assume "k < LENGTH('a)"
  have "8 * (k div 8) + k mod 8 = k" by simp
  moreover have "k div 8 < n \<longleftrightarrow> k < 8 * n"
    by (simp add: div_less_iff_less_mult mult.commute)
  ultimately show "bit (of_le (le_bytes n w) :: 'a word) k \<longleftrightarrow> bit (take_bit (8 * n) w) k"
    using \<open>k < LENGTH('a)\<close>
    by (auto simp: bit_of_le bit_take_bit_iff bit_le_bytes_nth)
qed

lemma of_le_le_bytes_full:
  "LENGTH('a) \<le> 8 * n \<Longrightarrow> (of_le (le_bytes n (w :: 'a::len word)) :: 'a word) = w"
  by (simp add: of_le_le_bytes take_bit_word_eq_self)

lemma le_bytes_of_le:
  assumes "8 * length bs \<le> LENGTH('a)"
  shows "le_bytes (length bs) (of_le bs :: 'a::len word) = bs"
proof (rule nth_equalityI)
  fix i assume i: "i < length (le_bytes (length bs) (of_le bs :: 'a word))"
  show "le_bytes (length bs) (of_le bs :: 'a word) ! i = bs ! i"
  proof (rule bit_word_eqI)
    fix k assume "k < LENGTH(8)"
    then have k: "k < 8" by simp
    then have "(8 * i + k) div 8 = i" "(8 * i + k) mod 8 = k" by auto
    moreover have "8 * i + k < LENGTH('a)"
      using assms i k by simp
    ultimately show "bit (le_bytes (length bs) (of_le bs :: 'a word) ! i) k = bit (bs ! i) k"
      using i k by (simp add: bit_le_bytes_nth bit_of_le)
  qed
qed simp

text \<open>Typed loads of the C program.\<close>

definition load_u32 :: "mem \<Rightarrow> addr \<Rightarrow> u32" where
  "load_u32 m a = of_le (load m a 4)"

definition store_u32 :: "mem \<Rightarrow> addr \<Rightarrow> u32 \<Rightarrow> mem" where
  "store_u32 m a w = store m a (le_bytes 4 w)"

definition load_ptr :: "mem \<Rightarrow> addr \<Rightarrow> addr" where
  "load_ptr m a = uint (of_le (load m a 8) :: u64)"

definition store_ptr :: "mem \<Rightarrow> addr \<Rightarrow> addr \<Rightarrow> mem" where
  "store_ptr m a p = store m a (le_bytes 8 (word_of_int p :: u64))"

definition load_bool :: "mem \<Rightarrow> addr \<Rightarrow> bool" where
  "load_bool m a \<longleftrightarrow> m a \<noteq> 0"

definition store_bool :: "mem \<Rightarrow> addr \<Rightarrow> bool \<Rightarrow> mem" where
  "store_bool m a b = store m a [if b then 1 else 0]"

lemma load_u32_store_u32 [simp]: "load_u32 (store_u32 m a w) a = w"
  by (simp add: load_u32_def store_u32_def load_store_len of_le_le_bytes_full)

lemma load_bool_store_bool [simp]: "load_bool (store_bool m a b) a = b"
  by (simp add: load_bool_def store_bool_def store_def)

lemma load_ptr_store_ptr:
  "0 \<le> p \<Longrightarrow> p < 2 ^ 64 \<Longrightarrow> load_ptr (store_ptr m a p) a = p"
  by (simp add: load_ptr_def store_ptr_def load_store_len of_le_le_bytes_full
      uint_word_of_int)

lemma eq_outside_store_u32 [frame_rules]:
  "a \<le> b \<Longrightarrow> b + 4 \<le> a + n \<Longrightarrow> eq_outside a n m (store_u32 m b w)"
  unfolding store_u32_def by (rule eq_outside_store) simp_all

lemma eq_outside_store_bool [frame_rules]:
  "a \<le> b \<Longrightarrow> b + 1 \<le> a + n \<Longrightarrow> eq_outside a n m (store_bool m b w)"
  unfolding store_bool_def by (rule eq_outside_store) simp_all

lemma eq_outside_load_u32:
  "eq_outside a n m m' \<Longrightarrow> b + 4 \<le> a \<or> a + n \<le> b \<Longrightarrow> load_u32 m' b = load_u32 m b"
  unfolding load_u32_def by (subst eq_outside_load [of a n m m' b 4]) auto

lemma unat_drop_bit: "unat (drop_bit n w) = unat w div 2 ^ n"
  by (simp only: unsigned_drop_bit_eq take_bit_nat_eq_self [OF unsigned_less]) (simp add: drop_bit_eq_div)

lemma take_bit_lt: "w < 2 ^ n \<Longrightarrow> take_bit n w = w" for w :: "'a::len word"
  by (simp only: take_bit_eq_mask less_mask_eq)

lemma ucast_word_of_nat:
  "LENGTH('b) \<le> LENGTH('a) \<Longrightarrow> ucast (word_of_nat n :: 'a::len word) = (word_of_nat n :: 'b::len word)"
  using ucast_down_wi [where 'a = 'a and 'b = 'b and x = "int n"]
  by (simp add: is_down_def source_size_def target_size_def word_size)

text \<open>The constants of the seven-bit groups, bit by bit.\<close>

lemma bit_7F: "bit (0x7F :: 'a::len word) n \<longleftrightarrow> n < 7 \<and> n < LENGTH('a)"
proof -
  have m: "(0x7F :: 'a word) = mask 7" by (simp add: mask_eq_exp_minus_1)
  show ?thesis unfolding m by (simp add: bit_mask_iff) blast
qed

lemma bit_80: "bit (0x80 :: 'a::len word) n \<longleftrightarrow> n = 7 \<and> 7 < LENGTH('a)"
proof -
  have m: "(0x80 :: 'a word) = push_bit 7 1" by (simp add: push_bit_eq_mult)
  show ?thesis unfolding m by (simp only: bit_push_bit_iff bit_1_iff) (auto simp: not_less)
qed

lemma unat_and_7F: "unat (v AND 0x7F) = unat v mod 128" for v :: "'a::len word"
proof -
  have "v AND 0x7F = take_bit 7 v" by (simp add: take_bit_eq_mask mask_eq_exp_minus_1)
  then show ?thesis by (simp only: unsigned_take_bit_eq) (simp add: take_bit_eq_mod)
qed

section \<open>Sizes\<close>

text \<open>Addition on \<open>size_t\<close>, which wraps at 64 bits.\<close>

definition size_add :: "nat \<Rightarrow> nat \<Rightarrow> nat" where
  "size_add a b = (a + b) mod 2 ^ 64"

lemma size_add_exact: "a + b < 2 ^ 64 \<Longrightarrow> size_add a b = a + b"
  by (simp add: size_add_def)

lemma size_add_assoc: "size_add (size_add a b) c = size_add a (b + c)"
  by (simp add: size_add_def mod_simps algebra_simps)

lemma size_add_lt: "size_add a b < 2 ^ 64"
  by (simp add: size_add_def)

lemmas size_add_lt_simp [simp] = size_add_lt [simplified]

end
