(* ===== verification/Pb_Types.thy ===== *)
theory Pb_Types
  imports Prelude
begin

text \<open>
  \<open>nanopb/pb.h\<close>: the type byte of a field (data type, repetition rule, allocation), the
  field descriptor \<open>pb_field_t\<close>, the wire types, and the macros \<open>PB_FIELD\<close> and
  \<open>PB_ONEOF_FIELD\<close> that compute a descriptor from the layout of a C struct.  The build
  defines \<open>PB_FIELD_32BIT\<close>, so \<open>pb_size_t\<close> is \<open>uint32_t\<close>; it does not define
  \<open>PB_ENABLE_MALLOC\<close>.
\<close>

section \<open>The type byte\<close>

definition PB_LTYPE_VARINT :: u8 where [pb_consts]: "PB_LTYPE_VARINT = 0x00"
definition PB_LTYPE_UVARINT :: u8 where [pb_consts]: "PB_LTYPE_UVARINT = 0x01"
definition PB_LTYPE_SVARINT :: u8 where [pb_consts]: "PB_LTYPE_SVARINT = 0x02"
definition PB_LTYPE_FIXED32 :: u8 where [pb_consts]: "PB_LTYPE_FIXED32 = 0x03"
definition PB_LTYPE_FIXED64 :: u8 where [pb_consts]: "PB_LTYPE_FIXED64 = 0x04"
definition PB_LTYPE_LAST_PACKABLE :: u8 where [pb_consts]: "PB_LTYPE_LAST_PACKABLE = 0x04"
definition PB_LTYPE_BYTES :: u8 where [pb_consts]: "PB_LTYPE_BYTES = 0x05"
definition PB_LTYPE_STRING :: u8 where [pb_consts]: "PB_LTYPE_STRING = 0x06"
definition PB_LTYPE_SUBMESSAGE :: u8 where [pb_consts]: "PB_LTYPE_SUBMESSAGE = 0x07"
definition PB_LTYPE_EXTENSION :: u8 where [pb_consts]: "PB_LTYPE_EXTENSION = 0x08"
definition PB_LTYPE_FIXED_LENGTH_BYTES :: u8 where [pb_consts]: "PB_LTYPE_FIXED_LENGTH_BYTES = 0x09"
definition PB_LTYPE_MASK :: u8 where [pb_consts]: "PB_LTYPE_MASK = 0x0F"

definition PB_HTYPE_REQUIRED :: u8 where [pb_consts]: "PB_HTYPE_REQUIRED = 0x00"
definition PB_HTYPE_OPTIONAL :: u8 where [pb_consts]: "PB_HTYPE_OPTIONAL = 0x10"
definition PB_HTYPE_REPEATED :: u8 where [pb_consts]: "PB_HTYPE_REPEATED = 0x20"
definition PB_HTYPE_ONEOF :: u8 where [pb_consts]: "PB_HTYPE_ONEOF = 0x30"
definition PB_HTYPE_MASK :: u8 where [pb_consts]: "PB_HTYPE_MASK = 0x30"

definition PB_ATYPE_STATIC :: u8 where [pb_consts]: "PB_ATYPE_STATIC = 0x00"
definition PB_ATYPE_POINTER :: u8 where [pb_consts]: "PB_ATYPE_POINTER = 0x80"
definition PB_ATYPE_CALLBACK :: u8 where [pb_consts]: "PB_ATYPE_CALLBACK = 0x40"
definition PB_ATYPE_MASK :: u8 where [pb_consts]: "PB_ATYPE_MASK = 0xC0"

definition PB_ATYPE :: "u8 \<Rightarrow> u8" where "PB_ATYPE x = x AND PB_ATYPE_MASK"
definition PB_HTYPE :: "u8 \<Rightarrow> u8" where "PB_HTYPE x = x AND PB_HTYPE_MASK"
definition PB_LTYPE :: "u8 \<Rightarrow> u8" where "PB_LTYPE x = x AND PB_LTYPE_MASK"

definition PB_SIZE_MAX :: u32 where [pb_consts]: "PB_SIZE_MAX = - 1"

lemmas pb_type_defs = PB_ATYPE_def PB_HTYPE_def PB_LTYPE_def

text \<open>The three parts of a type byte are independent bit fields.\<close>

lemma pb_type_parts:
  assumes "a AND PB_ATYPE_MASK = a" "h AND PB_HTYPE_MASK = h" "l AND PB_LTYPE_MASK = l"
  shows "PB_ATYPE (a OR h OR l) = a" "PB_HTYPE (a OR h OR l) = h" "PB_LTYPE (a OR h OR l) = l"
proof -
  have m: "PB_ATYPE_MASK AND PB_HTYPE_MASK = 0" "PB_ATYPE_MASK AND PB_LTYPE_MASK = 0"
    "PB_HTYPE_MASK AND PB_LTYPE_MASK = 0" "PB_HTYPE_MASK AND PB_ATYPE_MASK = 0"
    "PB_LTYPE_MASK AND PB_ATYPE_MASK = 0" "PB_LTYPE_MASK AND PB_HTYPE_MASK = 0"
    by (simp_all add: pb_consts)
  have z: "x AND z = 0" if "x AND y = x" "y AND z = 0" for x y z :: u8
    by (metis that and.assoc and_zero_eq)
  show "PB_ATYPE (a OR h OR l) = a" "PB_HTYPE (a OR h OR l) = h" "PB_LTYPE (a OR h OR l) = l"
    unfolding pb_type_defs bit.conj_disj_distrib2
    using assms m z [OF assms(1)] z [OF assms(2)] z [OF assms(3)] by simp_all
qed

text \<open>The mask leaves exactly four repetition rules, so the \<open>default\<close> branches of the
  switches over \<open>PB_HTYPE\<close> are dead.\<close>

lemma PB_HTYPE_cases:
  "PB_HTYPE x = PB_HTYPE_REQUIRED \<or> PB_HTYPE x = PB_HTYPE_OPTIONAL \<or>
   PB_HTYPE x = PB_HTYPE_REPEATED \<or> PB_HTYPE x = PB_HTYPE_ONEOF"
proof -
  have "x AND 0x30 = (if bit x 4 then 0x10 else 0) OR (if bit x 5 then 0x20 else 0)"
  proof (rule bit_word_eqI)
    fix n assume "n < LENGTH(8)"
    then have "n \<in> {0,1,2,3,4,5,6,7}" by auto
    then show "bit (x AND 0x30) n =
      bit ((if bit x 4 then 0x10 else 0) OR (if bit x 5 then 0x20 else (0::u8))) n"
      by (auto simp: bit_and_iff bit_or_iff bit_numeral_rec)
  qed
  then show ?thesis by (auto simp: PB_HTYPE_def pb_consts)
qed

lemma htype_distinct [simp]:
  "PB_HTYPE_REQUIRED \<noteq> PB_HTYPE_OPTIONAL" "PB_HTYPE_OPTIONAL \<noteq> PB_HTYPE_REQUIRED"
  "PB_HTYPE_REQUIRED \<noteq> PB_HTYPE_REPEATED" "PB_HTYPE_REPEATED \<noteq> PB_HTYPE_REQUIRED"
  "PB_HTYPE_REQUIRED \<noteq> PB_HTYPE_ONEOF" "PB_HTYPE_ONEOF \<noteq> PB_HTYPE_REQUIRED"
  "PB_HTYPE_OPTIONAL \<noteq> PB_HTYPE_REPEATED" "PB_HTYPE_REPEATED \<noteq> PB_HTYPE_OPTIONAL"
  "PB_HTYPE_OPTIONAL \<noteq> PB_HTYPE_ONEOF" "PB_HTYPE_ONEOF \<noteq> PB_HTYPE_OPTIONAL"
  "PB_HTYPE_REPEATED \<noteq> PB_HTYPE_ONEOF" "PB_HTYPE_ONEOF \<noteq> PB_HTYPE_REPEATED"
  by (simp_all add: pb_consts)

section \<open>Wire types\<close>

type_synonym pb_wire_type = u32

definition PB_WT_VARINT :: pb_wire_type where [pb_consts]: "PB_WT_VARINT = 0"
definition PB_WT_64BIT :: pb_wire_type where [pb_consts]: "PB_WT_64BIT = 1"
definition PB_WT_STRING :: pb_wire_type where [pb_consts]: "PB_WT_STRING = 2"
definition PB_WT_32BIT :: pb_wire_type where [pb_consts]: "PB_WT_32BIT = 5"

section \<open>Field descriptors\<close>

text \<open>
  \<open>pb_field_t\<close>.  The untyped \<open>ptr\<close> is what the code uses it as: the descriptor array of a
  submessage, or the default value of another field, or NULL.  A descriptor array is the
  list of its entries before the terminator \<open>PB_LAST_FIELD\<close>; \<open>field_at\<close> reads the
  terminator at the index after the last entry.
\<close>

datatype pb_field =
  PbField (pf_tag: u32) (pf_type: u8) (pf_data_offset: u32) (pf_size_offset: u32)
    (pf_data_size: u32) (pf_array_size: u32) (pf_ptr: pb_ptr)
and pb_ptr = NullPtr | Submsg "pb_field list" | DefaultVal "byte list"

definition PB_LAST_FIELD :: pb_field where
  "PB_LAST_FIELD = PbField 0 0 0 0 0 0 NullPtr"

definition field_at :: "pb_field list \<Rightarrow> nat \<Rightarrow> pb_field" where
  "field_at fs i = (if i < length fs then fs ! i else PB_LAST_FIELD)"

definition submsg_fields :: "pb_field \<Rightarrow> pb_field list" where
  "submsg_fields f = (case pf_ptr f of Submsg fs \<Rightarrow> fs | _ \<Rightarrow> [])"

text \<open>The type-byte accessors of a descriptor, and the sizes as integers.\<close>

abbreviation "ltype f \<equiv> PB_LTYPE (pf_type f)"
abbreviation "htype f \<equiv> PB_HTYPE (pf_type f)"
abbreviation "atype f \<equiv> PB_ATYPE (pf_type f)"
abbreviation "dsize f \<equiv> unat (pf_data_size f)"

lemma PB_LAST_FIELD_simps [simp]:
  "pf_tag PB_LAST_FIELD = 0" "pf_type PB_LAST_FIELD = 0" "pf_data_offset PB_LAST_FIELD = 0"
  "pf_size_offset PB_LAST_FIELD = 0" "pf_data_size PB_LAST_FIELD = 0"
  "pf_array_size PB_LAST_FIELD = 0" "pf_ptr PB_LAST_FIELD = NullPtr"
  by (simp_all add: PB_LAST_FIELD_def)

lemma field_at_less [simp]: "i < length fs \<Longrightarrow> field_at fs i = fs ! i"
  by (simp add: field_at_def)

lemma field_at_end [simp]: "length fs \<le> i \<Longrightarrow> field_at fs i = PB_LAST_FIELD"
  by (simp add: field_at_def)

lemma size_submsg_fields:
  "pf_ptr f = Submsg fs \<Longrightarrow> size_list size fs < size f"
  by (cases f) auto

section \<open>Error messages\<close>

text \<open>\<open>PB_SET_ERROR\<close> keeps the first message; \<open>PB_GET_ERROR\<close> has a default.\<close>

definition PB_SET_ERROR :: "string option \<Rightarrow> string \<Rightarrow> string option" where
  "PB_SET_ERROR errmsg msg = (case errmsg of None \<Rightarrow> Some msg | Some e \<Rightarrow> Some e)"

definition PB_GET_ERROR :: "string option \<Rightarrow> string" where
  "PB_GET_ERROR errmsg = (case errmsg of None \<Rightarrow> ''(none)'' | Some e \<Rightarrow> e)"

lemma PB_SET_ERROR_some [simp]: "PB_SET_ERROR e msg \<noteq> None"
  by (simp add: PB_SET_ERROR_def split: option.splits)

section \<open>Descriptors from struct layouts\<close>

text \<open>
  What the macros ask the compiler about a struct member \<open>m\<close>: \<open>offsetof (st, m)\<close>,
  \<open>sizeof st->m\<close>, \<open>sizeof st->m[0]\<close>, and the offset of the member that goes with it
  (\<open>has_m\<close>, \<open>m_count\<close> or \<open>which_u\<close>, by the kind of field).
\<close>

record pb_member =
  mb_offset :: nat
  mb_size :: nat
  mb_elem :: nat
  mb_aux :: nat

definition pb_arraysize :: "pb_member \<Rightarrow> nat" where
  "pb_arraysize m = mb_size m div mb_elem m"

definition pb_delta :: "nat \<Rightarrow> nat \<Rightarrow> int" where
  "pb_delta o1 o2 = int o1 - int o2"

definition PB_DATAOFFSET_FIRST :: "pb_member \<Rightarrow> pb_member \<Rightarrow> int" where
  "PB_DATAOFFSET_FIRST m1 m2 = int (mb_offset m1)"

definition PB_DATAOFFSET_OTHER :: "pb_member \<Rightarrow> pb_member \<Rightarrow> int" where
  "PB_DATAOFFSET_OTHER m1 m2 = int (mb_offset m1) - int (mb_offset m2) - int (mb_size m2)"

definition PB_DATAOFFSET_UNION :: "pb_member \<Rightarrow> pb_member \<Rightarrow> int" where
  "PB_DATAOFFSET_UNION m1 m2 = uint PB_SIZE_MAX"

definition PB_DATAOFFSET_CHOOSE :: "pb_member \<Rightarrow> pb_member \<Rightarrow> int" where
  "PB_DATAOFFSET_CHOOSE m1 m2 = (if mb_offset m1 = mb_offset m2
     then PB_DATAOFFSET_FIRST m1 m2 else PB_DATAOFFSET_OTHER m1 m2)"

text \<open>The initialiser list of a descriptor: each value is converted to its C field.\<close>

definition mk_field :: "u32 \<Rightarrow> u8 \<Rightarrow> int \<Rightarrow> int \<Rightarrow> nat \<Rightarrow> nat \<Rightarrow> pb_ptr \<Rightarrow> pb_field" where
  "mk_field tag ty fd sd ds n p =
     PbField tag ty (word_of_int fd) (word_of_int sd) (word_of_nat ds) (word_of_nat n) p"

definition PB_REQUIRED_STATIC :: "u32 \<Rightarrow> pb_member \<Rightarrow> int \<Rightarrow> u8 \<Rightarrow> pb_ptr \<Rightarrow> pb_field" where
  "PB_REQUIRED_STATIC tag m fd lt p =
     mk_field tag (PB_ATYPE_STATIC OR PB_HTYPE_REQUIRED OR lt) fd 0 (mb_size m) 0 p"

definition PB_OPTIONAL_STATIC :: "u32 \<Rightarrow> pb_member \<Rightarrow> int \<Rightarrow> u8 \<Rightarrow> pb_ptr \<Rightarrow> pb_field" where
  "PB_OPTIONAL_STATIC tag m fd lt p =
     mk_field tag (PB_ATYPE_STATIC OR PB_HTYPE_OPTIONAL OR lt) fd
       (pb_delta (mb_aux m) (mb_offset m)) (mb_size m) 0 p"

definition PB_SINGULAR_STATIC :: "u32 \<Rightarrow> pb_member \<Rightarrow> int \<Rightarrow> u8 \<Rightarrow> pb_ptr \<Rightarrow> pb_field" where
  "PB_SINGULAR_STATIC tag m fd lt p =
     mk_field tag (PB_ATYPE_STATIC OR PB_HTYPE_OPTIONAL OR lt) fd 0 (mb_size m) 0 p"

definition PB_REPEATED_STATIC :: "u32 \<Rightarrow> pb_member \<Rightarrow> int \<Rightarrow> u8 \<Rightarrow> pb_ptr \<Rightarrow> pb_field" where
  "PB_REPEATED_STATIC tag m fd lt p =
     mk_field tag (PB_ATYPE_STATIC OR PB_HTYPE_REPEATED OR lt) fd
       (pb_delta (mb_aux m) (mb_offset m)) (mb_elem m) (pb_arraysize m) p"

definition PB_REQUIRED_POINTER :: "u32 \<Rightarrow> pb_member \<Rightarrow> int \<Rightarrow> u8 \<Rightarrow> pb_ptr \<Rightarrow> pb_field" where
  "PB_REQUIRED_POINTER tag m fd lt p =
     mk_field tag (PB_ATYPE_POINTER OR PB_HTYPE_REQUIRED OR lt) fd 0 (mb_elem m) 0 p"

definition PB_OPTIONAL_POINTER :: "u32 \<Rightarrow> pb_member \<Rightarrow> int \<Rightarrow> u8 \<Rightarrow> pb_ptr \<Rightarrow> pb_field" where
  "PB_OPTIONAL_POINTER tag m fd lt p =
     mk_field tag (PB_ATYPE_POINTER OR PB_HTYPE_OPTIONAL OR lt) fd 0 (mb_elem m) 0 p"

definition PB_SINGULAR_POINTER :: "u32 \<Rightarrow> pb_member \<Rightarrow> int \<Rightarrow> u8 \<Rightarrow> pb_ptr \<Rightarrow> pb_field" where
  "PB_SINGULAR_POINTER tag m fd lt p =
     mk_field tag (PB_ATYPE_POINTER OR PB_HTYPE_OPTIONAL OR lt) fd 0 (mb_elem m) 0 p"

definition PB_REPEATED_POINTER :: "u32 \<Rightarrow> pb_member \<Rightarrow> int \<Rightarrow> u8 \<Rightarrow> pb_ptr \<Rightarrow> pb_field" where
  "PB_REPEATED_POINTER tag m fd lt p =
     mk_field tag (PB_ATYPE_POINTER OR PB_HTYPE_REPEATED OR lt) fd
       (pb_delta (mb_aux m) (mb_offset m)) (mb_elem m) 0 p"

definition PB_REQUIRED_CALLBACK :: "u32 \<Rightarrow> pb_member \<Rightarrow> int \<Rightarrow> u8 \<Rightarrow> pb_ptr \<Rightarrow> pb_field" where
  "PB_REQUIRED_CALLBACK tag m fd lt p =
     mk_field tag (PB_ATYPE_CALLBACK OR PB_HTYPE_REQUIRED OR lt) fd 0 (mb_size m) 0 p"

definition PB_OPTIONAL_CALLBACK :: "u32 \<Rightarrow> pb_member \<Rightarrow> int \<Rightarrow> u8 \<Rightarrow> pb_ptr \<Rightarrow> pb_field" where
  "PB_OPTIONAL_CALLBACK tag m fd lt p =
     mk_field tag (PB_ATYPE_CALLBACK OR PB_HTYPE_OPTIONAL OR lt) fd 0 (mb_size m) 0 p"

definition PB_SINGULAR_CALLBACK :: "u32 \<Rightarrow> pb_member \<Rightarrow> int \<Rightarrow> u8 \<Rightarrow> pb_ptr \<Rightarrow> pb_field" where
  "PB_SINGULAR_CALLBACK tag m fd lt p =
     mk_field tag (PB_ATYPE_CALLBACK OR PB_HTYPE_OPTIONAL OR lt) fd 0 (mb_size m) 0 p"

definition PB_REPEATED_CALLBACK :: "u32 \<Rightarrow> pb_member \<Rightarrow> int \<Rightarrow> u8 \<Rightarrow> pb_ptr \<Rightarrow> pb_field" where
  "PB_REPEATED_CALLBACK tag m fd lt p =
     mk_field tag (PB_ATYPE_CALLBACK OR PB_HTYPE_REPEATED OR lt) fd 0 (mb_size m) 0 p"

definition PB_OPTEXT_STATIC :: "u32 \<Rightarrow> pb_member \<Rightarrow> int \<Rightarrow> u8 \<Rightarrow> pb_ptr \<Rightarrow> pb_field" where
  "PB_OPTEXT_STATIC tag m fd lt p =
     mk_field tag (PB_ATYPE_STATIC OR PB_HTYPE_REQUIRED OR lt) 0 0 (mb_size m) 0 p"

definition PB_OPTEXT_POINTER :: "u32 \<Rightarrow> pb_member \<Rightarrow> int \<Rightarrow> u8 \<Rightarrow> pb_ptr \<Rightarrow> pb_field" where
  "PB_OPTEXT_POINTER = PB_OPTIONAL_POINTER"

definition PB_OPTEXT_CALLBACK :: "u32 \<Rightarrow> pb_member \<Rightarrow> int \<Rightarrow> u8 \<Rightarrow> pb_ptr \<Rightarrow> pb_field" where
  "PB_OPTEXT_CALLBACK = PB_OPTIONAL_CALLBACK"

text \<open>For a member of a union \<open>u\<close>, \<open>mb_aux\<close> is the offset of \<open>which_u\<close>.\<close>

definition PB_ONEOF_STATIC :: "u32 \<Rightarrow> pb_member \<Rightarrow> int \<Rightarrow> u8 \<Rightarrow> pb_ptr \<Rightarrow> pb_field" where
  "PB_ONEOF_STATIC tag m fd lt p =
     mk_field tag (PB_ATYPE_STATIC OR PB_HTYPE_ONEOF OR lt) fd
       (pb_delta (mb_aux m) (mb_offset m)) (mb_size m) 0 p"

definition PB_ONEOF_POINTER :: "u32 \<Rightarrow> pb_member \<Rightarrow> int \<Rightarrow> u8 \<Rightarrow> pb_ptr \<Rightarrow> pb_field" where
  "PB_ONEOF_POINTER tag m fd lt p =
     mk_field tag (PB_ATYPE_POINTER OR PB_HTYPE_ONEOF OR lt) fd
       (pb_delta (mb_aux m) (mb_offset m)) (mb_elem m) 0 p"

text \<open>The parameters that \<open>PB_FIELD\<close> pastes into macro names.\<close>

datatype pb_proto_type = BOOL | BYTES | DOUBLE | ENUM | UENUM | FIXED32 | FIXED64 | FLOAT
  | INT32 | INT64 | MESSAGE | SFIXED32 | SFIXED64 | SINT32 | SINT64 | STRING | UINT32
  | UINT64 | EXTENSION | FIXED_LENGTH_BYTES

datatype pb_rules = REQUIRED | OPTIONAL | SINGULAR | REPEATED | OPTEXT
datatype pb_alloc = STATIC | POINTER | CALLBACK
datatype pb_placement = FIRST | OTHER | UNION | CHOOSE

fun PB_LTYPE_MAP :: "pb_proto_type \<Rightarrow> u8" where
  "PB_LTYPE_MAP BOOL = PB_LTYPE_VARINT"
| "PB_LTYPE_MAP BYTES = PB_LTYPE_BYTES"
| "PB_LTYPE_MAP DOUBLE = PB_LTYPE_FIXED64"
| "PB_LTYPE_MAP ENUM = PB_LTYPE_VARINT"
| "PB_LTYPE_MAP UENUM = PB_LTYPE_UVARINT"
| "PB_LTYPE_MAP FIXED32 = PB_LTYPE_FIXED32"
| "PB_LTYPE_MAP FIXED64 = PB_LTYPE_FIXED64"
| "PB_LTYPE_MAP FLOAT = PB_LTYPE_FIXED32"
| "PB_LTYPE_MAP INT32 = PB_LTYPE_VARINT"
| "PB_LTYPE_MAP INT64 = PB_LTYPE_VARINT"
| "PB_LTYPE_MAP MESSAGE = PB_LTYPE_SUBMESSAGE"
| "PB_LTYPE_MAP SFIXED32 = PB_LTYPE_FIXED32"
| "PB_LTYPE_MAP SFIXED64 = PB_LTYPE_FIXED64"
| "PB_LTYPE_MAP SINT32 = PB_LTYPE_SVARINT"
| "PB_LTYPE_MAP SINT64 = PB_LTYPE_SVARINT"
| "PB_LTYPE_MAP STRING = PB_LTYPE_STRING"
| "PB_LTYPE_MAP UINT32 = PB_LTYPE_UVARINT"
| "PB_LTYPE_MAP UINT64 = PB_LTYPE_UVARINT"
| "PB_LTYPE_MAP EXTENSION = PB_LTYPE_EXTENSION"
| "PB_LTYPE_MAP FIXED_LENGTH_BYTES = PB_LTYPE_FIXED_LENGTH_BYTES"

fun PB_DATAOFFSET :: "pb_placement \<Rightarrow> pb_member \<Rightarrow> pb_member \<Rightarrow> int" where
  "PB_DATAOFFSET FIRST = PB_DATAOFFSET_FIRST"
| "PB_DATAOFFSET OTHER = PB_DATAOFFSET_OTHER"
| "PB_DATAOFFSET UNION = PB_DATAOFFSET_UNION"
| "PB_DATAOFFSET CHOOSE = PB_DATAOFFSET_CHOOSE"

fun PB_RULES_ALLOC ::
    "pb_rules \<Rightarrow> pb_alloc \<Rightarrow> u32 \<Rightarrow> pb_member \<Rightarrow> int \<Rightarrow> u8 \<Rightarrow> pb_ptr \<Rightarrow> pb_field" where
  "PB_RULES_ALLOC REQUIRED STATIC = PB_REQUIRED_STATIC"
| "PB_RULES_ALLOC OPTIONAL STATIC = PB_OPTIONAL_STATIC"
| "PB_RULES_ALLOC SINGULAR STATIC = PB_SINGULAR_STATIC"
| "PB_RULES_ALLOC REPEATED STATIC = PB_REPEATED_STATIC"
| "PB_RULES_ALLOC OPTEXT STATIC = PB_OPTEXT_STATIC"
| "PB_RULES_ALLOC REQUIRED POINTER = PB_REQUIRED_POINTER"
| "PB_RULES_ALLOC OPTIONAL POINTER = PB_OPTIONAL_POINTER"
| "PB_RULES_ALLOC SINGULAR POINTER = PB_SINGULAR_POINTER"
| "PB_RULES_ALLOC REPEATED POINTER = PB_REPEATED_POINTER"
| "PB_RULES_ALLOC OPTEXT POINTER = PB_OPTEXT_POINTER"
| "PB_RULES_ALLOC REQUIRED CALLBACK = PB_REQUIRED_CALLBACK"
| "PB_RULES_ALLOC OPTIONAL CALLBACK = PB_OPTIONAL_CALLBACK"
| "PB_RULES_ALLOC SINGULAR CALLBACK = PB_SINGULAR_CALLBACK"
| "PB_RULES_ALLOC REPEATED CALLBACK = PB_REPEATED_CALLBACK"
| "PB_RULES_ALLOC OPTEXT CALLBACK = PB_OPTEXT_CALLBACK"

definition PB_FIELD :: "u32 \<Rightarrow> pb_proto_type \<Rightarrow> pb_rules \<Rightarrow> pb_alloc \<Rightarrow> pb_placement \<Rightarrow>
    pb_member \<Rightarrow> pb_member \<Rightarrow> pb_ptr \<Rightarrow> pb_field" where
  "PB_FIELD tag ty rules alloc place m prev p =
     PB_RULES_ALLOC rules alloc tag m (PB_DATAOFFSET place m prev) (PB_LTYPE_MAP ty) p"

text \<open>\<open>PB_ONEOF_FIELD\<close>; the allocation \<open>CALLBACK\<close> has no macro.\<close>

fun PB_ONEOF_ALLOC ::
    "pb_alloc \<Rightarrow> (u32 \<Rightarrow> pb_member \<Rightarrow> int \<Rightarrow> u8 \<Rightarrow> pb_ptr \<Rightarrow> pb_field) option" where
  "PB_ONEOF_ALLOC STATIC = Some PB_ONEOF_STATIC"
| "PB_ONEOF_ALLOC POINTER = Some PB_ONEOF_POINTER"
| "PB_ONEOF_ALLOC CALLBACK = None"

definition PB_ONEOF_FIELD :: "u32 \<Rightarrow> pb_proto_type \<Rightarrow> pb_alloc \<Rightarrow> pb_placement \<Rightarrow>
    pb_member \<Rightarrow> pb_member \<Rightarrow> pb_ptr \<Rightarrow> pb_field option" where
  "PB_ONEOF_FIELD tag ty alloc place m prev p =
     map_option (\<lambda>mac. mac tag m (PB_DATAOFFSET place m prev) (PB_LTYPE_MAP ty) p)
       (PB_ONEOF_ALLOC alloc)"

text \<open>The same for an anonymous union, whose members are members of the struct: the macro bodies
  differ only in writing \<open>m\<close> for \<open>u.m\<close>, which is what \<open>pb_member\<close> abstracts from.\<close>

definition PB_ANONYMOUS_ONEOF_STATIC :: "u32 \<Rightarrow> pb_member \<Rightarrow> int \<Rightarrow> u8 \<Rightarrow> pb_ptr \<Rightarrow> pb_field" where
  "PB_ANONYMOUS_ONEOF_STATIC tag m fd lt p =
     mk_field tag (PB_ATYPE_STATIC OR PB_HTYPE_ONEOF OR lt) fd
       (pb_delta (mb_aux m) (mb_offset m)) (mb_size m) 0 p"

definition PB_ANONYMOUS_ONEOF_POINTER :: "u32 \<Rightarrow> pb_member \<Rightarrow> int \<Rightarrow> u8 \<Rightarrow> pb_ptr \<Rightarrow> pb_field" where
  "PB_ANONYMOUS_ONEOF_POINTER tag m fd lt p =
     mk_field tag (PB_ATYPE_POINTER OR PB_HTYPE_ONEOF OR lt) fd
       (pb_delta (mb_aux m) (mb_offset m)) (mb_elem m) 0 p"

fun PB_ANONYMOUS_ONEOF_FIELD :: "u32 \<Rightarrow> pb_proto_type \<Rightarrow> pb_alloc \<Rightarrow> pb_placement \<Rightarrow>
    pb_member \<Rightarrow> pb_member \<Rightarrow> pb_ptr \<Rightarrow> pb_field option" where
  "PB_ANONYMOUS_ONEOF_FIELD tag ty STATIC place m prev p =
     Some (PB_ANONYMOUS_ONEOF_STATIC tag m (PB_DATAOFFSET place m prev) (PB_LTYPE_MAP ty) p)"
| "PB_ANONYMOUS_ONEOF_FIELD tag ty POINTER place m prev p =
     Some (PB_ANONYMOUS_ONEOF_POINTER tag m (PB_DATAOFFSET place m prev) (PB_LTYPE_MAP ty) p)"
| "PB_ANONYMOUS_ONEOF_FIELD tag ty CALLBACK place m prev p = None"

lemma PB_LTYPE_MAP_masked: "PB_LTYPE_MAP ty AND PB_LTYPE_MASK = PB_LTYPE_MAP ty"
  by (cases ty) (simp_all add: pb_consts)

end
