(* ===== verification/Pb_Common.thy ===== *)
theory Pb_Common
  imports Pb_Types
begin

text \<open>
  \<open>nanopb/pb_common.c\<close>: the iterator over a descriptor array, which computes the address of
  each field of the message struct from the relative offsets of the descriptors.  The model
  of the three functions comes first; then the closed form of the iterator
  (\<open>field_iter\<close>), in which stepping and searching are statements about list indices; then
  the agreement of that closed form with the struct layout the \<open>PB_FIELD\<close> macros saw.
\<close>

section \<open>The iterator\<close>

record pb_field_iter =
  it_start :: "pb_field list"
  it_pos :: nat
  it_required_field_index :: nat
  it_dest_struct :: addr
  it_pData :: addr
  it_pSize :: addr

abbreviation it_field :: "pb_field_iter \<Rightarrow> pb_field" where
  "it_field it \<equiv> field_at (it_start it) (it_pos it)"

definition pb_field_iter_begin :: "pb_field list \<Rightarrow> addr \<Rightarrow> pb_field_iter \<times> bool" where
  "pb_field_iter_begin flds dest_struct =
     (let f = field_at flds 0;
          pData = dest_struct + uint (pf_data_offset f);
          pSize = pData + sint (pf_size_offset f)
      in (\<lparr>it_start = flds, it_pos = 0, it_required_field_index = 0,
           it_dest_struct = dest_struct, it_pData = pData, it_pSize = pSize\<rparr>,
          pf_tag f \<noteq> 0))"

text \<open>The size that the previous field takes up in the struct.\<close>

definition prev_size :: "pb_field \<Rightarrow> int" where
  "prev_size f =
     (if atype f = PB_ATYPE_STATIC \<and> htype f = PB_HTYPE_REPEATED
      then uint (pf_data_size f) * uint (pf_array_size f)
      else if atype f = PB_ATYPE_POINTER then 8
      else uint (pf_data_size f))"

text \<open>Whether the pointers stay where they are: inside one union.\<close>

definition same_union :: "pb_field \<Rightarrow> pb_field \<Rightarrow> bool" where
  "same_union prev f \<longleftrightarrow> htype prev = PB_HTYPE_ONEOF \<and> htype f = PB_HTYPE_ONEOF \<and>
     pf_data_offset f = PB_SIZE_MAX"

definition pb_field_iter_next :: "pb_field_iter \<Rightarrow> pb_field_iter \<times> bool" where
  "pb_field_iter_next it =
     (let prev_field = it_field it in
      if pf_tag prev_field = 0 then (it, False)
      else
        let it1 = it\<lparr>it_pos := Suc (it_pos it)\<rparr>; f = it_field it1 in
        if pf_tag f = 0
        then (fst (pb_field_iter_begin (it_start it) (it_dest_struct it)), False)
        else if same_union prev_field f then (it1, True)
        else
          let it2 = (if htype prev_field = PB_HTYPE_REQUIRED
                then it1\<lparr>it_required_field_index := Suc (it_required_field_index it)\<rparr> else it1);
              pData = it_pData it + prev_size prev_field + uint (pf_data_offset f)
          in (it2\<lparr>it_pData := pData, it_pSize := pData + sint (pf_size_offset f)\<rparr>, True))"

text \<open>
  The search goes round the array from the current entry back to it, so one pass over the
  array and the terminator bounds it: the fuel below is one more than the array's length,
  and \<open>pb_field_iter_find_spec\<close> shows that the search always ends before the fuel does.
\<close>

fun iter_find_loop :: "nat \<Rightarrow> nat \<Rightarrow> pb_field_iter \<Rightarrow> u32 \<Rightarrow> pb_field_iter \<times> bool" where
  "iter_find_loop 0 start it tag = (it, False)"
| "iter_find_loop (Suc n) start it tag =
     (if pf_tag (it_field it) = tag \<and> ltype (it_field it) \<noteq> PB_LTYPE_EXTENSION then (it, True)
      else let it' = fst (pb_field_iter_next it) in
        if it_pos it' \<noteq> start then iter_find_loop n start it' tag else (it', False))"

definition pb_field_iter_find :: "pb_field_iter \<Rightarrow> u32 \<Rightarrow> pb_field_iter \<times> bool" where
  "pb_field_iter_find it tag = iter_find_loop (Suc (length (it_start it))) (it_pos it) it tag"

section \<open>Closed form\<close>

text \<open>Offsets of field \<open>k\<close> and of its count or has member, from the start of the struct.\<close>

fun data_off :: "pb_field list \<Rightarrow> nat \<Rightarrow> int" where
  "data_off fs 0 = uint (pf_data_offset (field_at fs 0))"
| "data_off fs (Suc k) =
     (if same_union (field_at fs k) (field_at fs (Suc k)) then data_off fs k
      else data_off fs k + prev_size (field_at fs k) + uint (pf_data_offset (field_at fs (Suc k))))"

fun size_off :: "pb_field list \<Rightarrow> nat \<Rightarrow> int" where
  "size_off fs 0 = data_off fs 0 + sint (pf_size_offset (field_at fs 0))"
| "size_off fs (Suc k) =
     (if same_union (field_at fs k) (field_at fs (Suc k)) then size_off fs k
      else data_off fs (Suc k) + sint (pf_size_offset (field_at fs (Suc k))))"

definition n_required :: "pb_field list \<Rightarrow> nat" where
  "n_required fs = length (filter (\<lambda>f. htype f = PB_HTYPE_REQUIRED) fs)"

definition field_iter :: "pb_field list \<Rightarrow> addr \<Rightarrow> nat \<Rightarrow> pb_field_iter" where
  "field_iter fs dest k = \<lparr>it_start = fs, it_pos = k,
     it_required_field_index = n_required (take k fs), it_dest_struct = dest,
     it_pData = dest + data_off fs k, it_pSize = dest + size_off fs k\<rparr>"

text \<open>A descriptor array has no tag 0 before its terminator.\<close>

definition wf_tags :: "pb_field list \<Rightarrow> bool" where
  "wf_tags fs \<longleftrightarrow> list_all (\<lambda>f. pf_tag f \<noteq> 0) fs"

lemma field_iter_simps [simp]:
  "it_start (field_iter fs dest k) = fs" "it_pos (field_iter fs dest k) = k"
  "it_required_field_index (field_iter fs dest k) = n_required (take k fs)"
  "it_dest_struct (field_iter fs dest k) = dest"
  "it_pData (field_iter fs dest k) = dest + data_off fs k"
  "it_pSize (field_iter fs dest k) = dest + size_off fs k"
  by (simp_all add: field_iter_def)

lemma n_required_Nil [simp]: "n_required [] = 0"
  by (simp add: n_required_def)

lemma n_required_take_Suc:
  "k < length fs \<Longrightarrow> n_required (take (Suc k) fs) =
     n_required (take k fs) + (if htype (fs ! k) = PB_HTYPE_REQUIRED then 1 else 0)"
  by (simp add: n_required_def take_Suc_conv_app_nth)

lemma n_required_take_le: "n_required (take k fs) \<le> n_required fs"
  by (metis (no_types) append_take_drop_id filter_append le_add1 length_append n_required_def)

lemma wf_tagsD: "wf_tags fs \<Longrightarrow> k < length fs \<Longrightarrow> pf_tag (fs ! k) \<noteq> 0"
  by (auto simp: wf_tags_def list_all_length)

lemma field_at_tag_0: "wf_tags fs \<Longrightarrow> pf_tag (field_at fs k) = 0 \<longleftrightarrow> length fs \<le> k"
  by (cases "k < length fs") (auto dest: wf_tagsD)

lemma iter_begin_eq: "pb_field_iter_begin fs dest = (field_iter fs dest 0, pf_tag (field_at fs 0) \<noteq> 0)"
  by (simp add: pb_field_iter_begin_def field_iter_def Let_def)

lemma iter_begin_wf:
  "wf_tags fs \<Longrightarrow> pb_field_iter_begin fs dest = (field_iter fs dest 0, fs \<noteq> [])"
  by (simp add: iter_begin_eq field_at_tag_0)

text \<open>Stepping the closed form: to the next entry, or back to the first one.\<close>

lemma iter_next_step:
  assumes "wf_tags fs" "Suc k < length fs"
  shows "pb_field_iter_next (field_iter fs dest k) = (field_iter fs dest (Suc k), True)"
proof -
  have t: "pf_tag (fs ! k) \<noteq> 0" "pf_tag (fs ! Suc k) \<noteq> 0"
    using assms by (simp_all add: wf_tagsD)
  have r: "same_union (fs ! k) (fs ! Suc k) \<Longrightarrow> htype (fs ! k) \<noteq> PB_HTYPE_REQUIRED"
    by (simp add: same_union_def pb_consts)
  show ?thesis
    using assms t r
    by (auto simp: pb_field_iter_next_def field_iter_def Let_def n_required_take_Suc)
qed

lemma iter_next_wrap:
  assumes "wf_tags fs" "length fs \<le> Suc k"
  shows "pb_field_iter_next (field_iter fs dest k) =
    (if length fs \<le> k then field_iter fs dest k else field_iter fs dest 0, False)"
proof (cases "length fs \<le> k")
  case True
  then show ?thesis by (simp add: pb_field_iter_next_def)
next
  case False
  then have "pf_tag (fs ! k) \<noteq> 0" using assms by (simp add: wf_tagsD)
  with False assms show ?thesis
    by (simp add: pb_field_iter_next_def iter_begin_eq Let_def)
qed

text \<open>One rule for both: the iterator steps through indices modulo the length.\<close>

lemma iter_next_eq:
  "wf_tags fs \<Longrightarrow> k < length fs \<Longrightarrow> pb_field_iter_next (field_iter fs dest k) =
     (field_iter fs dest (Suc k mod length fs), Suc k < length fs)"
  by (cases "Suc k < length fs") (auto simp: iter_next_step iter_next_wrap not_less le_Suc_eq)

section \<open>Searching\<close>

definition tag_match :: "u32 \<Rightarrow> pb_field \<Rightarrow> bool" where
  "tag_match tag f \<longleftrightarrow> pf_tag f = tag \<and> ltype f \<noteq> PB_LTYPE_EXTENSION"

text \<open>\<open>cyc n k i\<close>: the \<open>i\<close>-th index visited when a walk over \<open>n\<close> entries starts at \<open>k\<close>.\<close>

definition cyc :: "nat \<Rightarrow> nat \<Rightarrow> nat \<Rightarrow> nat" where
  "cyc n k i = (k + i) mod n"

lemma cyc_Suc: "Suc (cyc n k i) mod n = cyc n k (Suc i)"
  by (simp add: cyc_def mod_Suc_eq)

lemma cyc_lt [simp]: "0 < n \<Longrightarrow> cyc n k i < n"
  by (simp add: cyc_def)

lemma cyc_0 [simp]: "k < n \<Longrightarrow> cyc n k 0 = k"
  by (simp add: cyc_def)

lemma cyc_eq_start:
  assumes "k < n" "i < n" "cyc n k (Suc i) = k"
  shows "Suc i = n"
proof (cases "k + Suc i < n")
  case True
  with assms(3) show ?thesis by (simp add: cyc_def)
next
  case False
  then have "(k + Suc i) mod n = (k + Suc i - n) mod n" by (simp add: le_mod_geq)
  also have "\<dots> = k + Suc i - n" using assms(1,2) by simp
  finally show ?thesis using assms False by (simp add: cyc_def)
qed

lemma cyc_wrap: "k < n \<Longrightarrow> cyc n k n = k"
  by (simp add: cyc_def)

lemma iter_find_loop_Suc:
  "iter_find_loop (Suc n) start it tag =
     (if tag_match tag (it_field it) then (it, True)
      else let it' = fst (pb_field_iter_next it) in
        if it_pos it' \<noteq> start then iter_find_loop n start it' tag else (it', False))"
  by (simp add: tag_match_def)

declare iter_find_loop.simps(2) [simp del]

lemma iter_find_loop_cyc:
  assumes wf: "wf_tags fs" and k: "k < length fs"
  shows "i < length fs \<Longrightarrow> length fs - i < fuel \<Longrightarrow>
    (\<forall>i' < i. \<not> tag_match tag (fs ! cyc (length fs) k i')) \<Longrightarrow>
    iter_find_loop fuel k (field_iter fs dest (cyc (length fs) k i)) tag =
      (case List.find (\<lambda>j. tag_match tag (fs ! cyc (length fs) k j)) [i..<length fs] of
         None \<Rightarrow> (field_iter fs dest k, False)
       | Some j \<Rightarrow> (field_iter fs dest (cyc (length fs) k j), True))"
proof (induction fuel arbitrary: i)
  case 0
  then show ?case by simp
next
  case (Suc fuel)
  let ?n = "length fs" and ?c = "cyc (length fs) k"
  have n: "0 < ?n" using k by linarith
  have upt: "[i..<?n] = i # [Suc i..<?n]" using Suc.prems(1) by (rule upt_conv_Cons)
  have nxt: "fst (pb_field_iter_next (field_iter fs dest (?c i))) = field_iter fs dest (?c (Suc i))"
    using wf n by (simp add: iter_next_eq cyc_Suc)
  show ?case
  proof (cases "tag_match tag (fs ! ?c i)")
    case True
    then show ?thesis using n by (simp add: upt iter_find_loop_Suc)
  next
    case F: False
    show ?thesis
    proof (cases "Suc i = ?n")
      case True
      then have "?c (Suc i) = k" using k by (simp add: cyc_wrap)
      with F True nxt n show ?thesis by (simp add: upt iter_find_loop_Suc)
    next
      case False
      then have lt: "Suc i < ?n" using Suc.prems(1) by simp
      then have ne: "?c (Suc i) \<noteq> k" using cyc_eq_start [OF k, of i] Suc.prems(1) by auto
      have "\<forall>i' < Suc i. \<not> tag_match tag (fs ! ?c i')"
        using Suc.prems(3) F by (auto simp: less_Suc_eq)
      moreover have "?n - Suc i < fuel" using Suc.prems(1,2) by linarith
      ultimately show ?thesis
        using Suc.IH [OF lt] F nxt ne n by (simp add: upt iter_find_loop_Suc)
    qed
  qed
qed

text \<open>The search finds the first match in cyclic order, and otherwise returns to its start.\<close>

lemma iter_find_eq:
  assumes "wf_tags fs" "k < length fs"
  shows "pb_field_iter_find (field_iter fs dest k) tag =
    (case List.find (\<lambda>j. tag_match tag (fs ! cyc (length fs) k j)) [0..<length fs] of
       None \<Rightarrow> (field_iter fs dest k, False)
     | Some j \<Rightarrow> (field_iter fs dest (cyc (length fs) k j), True))"
proof -
  have "0 < length fs" using assms(2) by linarith
  then show ?thesis
    using iter_find_loop_cyc [OF assms, of 0 "Suc (length fs)" tag dest] assms(2)
    by (simp add: pb_field_iter_find_def)
qed

lemma iter_find_Nil:
  "pb_field_iter_find (field_iter [] dest 0) tag = (field_iter [] dest 0, tag = 0)"
  by (simp add: pb_field_iter_find_def pb_field_iter_next_def iter_find_loop_Suc tag_match_def
      PB_LTYPE_def pb_consts)

lemma iter_find_True:
  assumes "wf_tags fs" "k < length fs"
    "pb_field_iter_find (field_iter fs dest k) tag = (it, True)"
  obtains j where "j < length fs" "tag_match tag (fs ! j)" "it = field_iter fs dest j"
proof -
  from assms obtain i where i:
    "List.find (\<lambda>j. tag_match tag (fs ! cyc (length fs) k j)) [0..<length fs] = Some i"
    "it = field_iter fs dest (cyc (length fs) k i)"
    by (auto simp: iter_find_eq split: option.splits)
  from i(1) have "tag_match tag (fs ! cyc (length fs) k i)"
    by (auto simp: find_Some_iff)
  then show thesis
    using that [of "cyc (length fs) k i"] i(2) assms(2) cyc_lt [of "length fs" k i]
    by fastforce
qed

lemma iter_find_False:
  assumes "wf_tags fs" "k < length fs"
    "pb_field_iter_find (field_iter fs dest k) tag = (it, False)"
  shows "it = field_iter fs dest k" "f \<in> set fs \<Longrightarrow> \<not> tag_match tag f"
proof -
  have none: "List.find (\<lambda>j. tag_match tag (fs ! cyc (length fs) k j)) [0..<length fs] = None"
    using assms by (auto simp: iter_find_eq split: option.splits)
  with assms show "it = field_iter fs dest k" by (simp add: iter_find_eq)
  assume "f \<in> set fs"
  then obtain j where j: "j < length fs" "f = fs ! j" by (auto simp: in_set_conv_nth)
  define i where "i = (if k \<le> j then j - k else j + length fs - k)"
  have "i < length fs" "cyc (length fs) k i = j"
    using j assms(2) by (auto simp: i_def cyc_def)
  with none j show "\<not> tag_match tag f" by (auto simp: find_None_iff)
qed

end
