(* ===== verification/Pb_Layout.thy ===== *)
theory Pb_Layout
  imports Pb_Common
begin

text \<open>
  The descriptor macros of \<open>pb.h\<close> against the iterator of \<open>pb_common.c\<close>: a list of member
  declarations (what a generated \<open>.pb.c\<close> file passes to \<open>PB_FIELD\<close> and
  \<open>PB_ONEOF_FIELD\<close>) is turned into descriptors by the macros; for every layout a C compiler
  may choose, the iterator's pointers are the members' addresses.
\<close>

section \<open>Declarations\<close>

datatype pb_kind = Plain pb_rules | Oneof nat

record pb_decl =
  d_tag :: u32
  d_type :: pb_proto_type
  d_kind :: pb_kind
  d_alloc :: pb_alloc
  d_member :: pb_member
  d_ptr :: pb_ptr

definition same_oneof :: "pb_decl \<Rightarrow> pb_decl \<Rightarrow> bool" where
  "same_oneof p d \<longleftrightarrow> (case (d_kind p, d_kind d) of (Oneof u, Oneof v) \<Rightarrow> u = v | _ \<Rightarrow> False)"

text \<open>\<open>FIRST\<close> for the first member, \<open>UNION\<close> for the next member of one union, else \<open>OTHER\<close>.\<close>

definition decl_place :: "pb_decl option \<Rightarrow> pb_decl \<Rightarrow> pb_placement" where
  "decl_place prev d = (case prev of None \<Rightarrow> FIRST
     | Some p \<Rightarrow> if same_oneof p d then UNION else OTHER)"

definition decl_field :: "pb_decl option \<Rightarrow> pb_decl \<Rightarrow> pb_field" where
  "decl_field prev d =
     (let pm = (case prev of None \<Rightarrow> d_member d | Some p \<Rightarrow> d_member p) in
      case d_kind d of
        Plain r \<Rightarrow> PB_FIELD (d_tag d) (d_type d) r (d_alloc d) (decl_place prev d) (d_member d) pm (d_ptr d)
      | Oneof u \<Rightarrow> (case PB_ONEOF_FIELD (d_tag d) (d_type d) (d_alloc d) (decl_place prev d)
            (d_member d) pm (d_ptr d) of Some f \<Rightarrow> f | None \<Rightarrow> PB_LAST_FIELD))"

fun decl_fields :: "pb_decl option \<Rightarrow> pb_decl list \<Rightarrow> pb_field list" where
  "decl_fields prev [] = []"
| "decl_fields prev (d # ds) = decl_field prev d # decl_fields (Some d) ds"

section \<open>Layouts a compiler may choose\<close>

definition valid_decl :: "pb_decl \<Rightarrow> bool" where
  "valid_decl d \<longleftrightarrow> (let m = d_member d in
     d_tag d \<noteq> 0 \<and> mb_offset m < 2 ^ 31 \<and> mb_size m < 2 ^ 31 \<and> mb_elem m < 2 ^ 31 \<and> mb_aux m < 2 ^ 31 \<and>
     (case d_kind d of Plain r \<Rightarrow> r \<noteq> OPTEXT | Oneof u \<Rightarrow> d_alloc d \<noteq> CALLBACK) \<and>
     (d_alloc d = POINTER \<longrightarrow> mb_size m = 8) \<and>
     (d_alloc d = STATIC \<and> d_kind d = Plain REPEATED \<longrightarrow> mb_elem m dvd mb_size m \<and> mb_elem m \<noteq> 0))"

definition valid_next :: "pb_decl \<Rightarrow> pb_decl \<Rightarrow> bool" where
  "valid_next p d \<longleftrightarrow>
     (if same_oneof p d
      then mb_offset (d_member d) = mb_offset (d_member p) \<and> mb_aux (d_member d) = mb_aux (d_member p)
      else mb_offset (d_member p) + mb_size (d_member p) \<le> mb_offset (d_member d))"

fun valid_layout :: "pb_decl list \<Rightarrow> bool" where
  "valid_layout [] = True"
| "valid_layout [d] = valid_decl d"
| "valid_layout (p # d # ds) = (valid_decl p \<and> valid_next p d \<and> valid_layout (d # ds))"

text \<open>Where the count, has or which member is; a member without one has none of its own.\<close>

definition decl_aux :: "pb_decl \<Rightarrow> nat" where
  "decl_aux d = (case (d_kind d, d_alloc d) of
       (Plain OPTIONAL, STATIC) \<Rightarrow> mb_aux (d_member d)
     | (Plain REPEATED, STATIC) \<Rightarrow> mb_aux (d_member d)
     | (Plain REPEATED, POINTER) \<Rightarrow> mb_aux (d_member d)
     | (Oneof u, _) \<Rightarrow> mb_aux (d_member d)
     | _ \<Rightarrow> mb_offset (d_member d))"

section \<open>The macros give back the layout\<close>

lemmas pb_macro_defs =
  PB_REQUIRED_STATIC_def PB_OPTIONAL_STATIC_def PB_SINGULAR_STATIC_def PB_REPEATED_STATIC_def
  PB_REQUIRED_POINTER_def PB_OPTIONAL_POINTER_def PB_SINGULAR_POINTER_def PB_REPEATED_POINTER_def
  PB_REQUIRED_CALLBACK_def PB_OPTIONAL_CALLBACK_def PB_SINGULAR_CALLBACK_def PB_REPEATED_CALLBACK_def
  PB_OPTEXT_STATIC_def PB_OPTEXT_POINTER_def PB_OPTEXT_CALLBACK_def
  PB_ONEOF_STATIC_def PB_ONEOF_POINTER_def mk_field_def

lemma masked_types:
  "PB_ATYPE_STATIC AND PB_ATYPE_MASK = PB_ATYPE_STATIC"
  "PB_ATYPE_POINTER AND PB_ATYPE_MASK = PB_ATYPE_POINTER"
  "PB_ATYPE_CALLBACK AND PB_ATYPE_MASK = PB_ATYPE_CALLBACK"
  "PB_HTYPE_REQUIRED AND PB_HTYPE_MASK = PB_HTYPE_REQUIRED"
  "PB_HTYPE_OPTIONAL AND PB_HTYPE_MASK = PB_HTYPE_OPTIONAL"
  "PB_HTYPE_REPEATED AND PB_HTYPE_MASK = PB_HTYPE_REPEATED"
  "PB_HTYPE_ONEOF AND PB_HTYPE_MASK = PB_HTYPE_ONEOF"
  by (simp_all add: pb_consts)

definition alloc_atype :: "pb_alloc \<Rightarrow> u8" where
  "alloc_atype a = (case a of STATIC \<Rightarrow> PB_ATYPE_STATIC | POINTER \<Rightarrow> PB_ATYPE_POINTER
     | CALLBACK \<Rightarrow> PB_ATYPE_CALLBACK)"

definition kind_htype :: "pb_kind \<Rightarrow> u8" where
  "kind_htype k = (case k of Plain REQUIRED \<Rightarrow> PB_HTYPE_REQUIRED | Plain REPEATED \<Rightarrow> PB_HTYPE_REPEATED
     | Oneof u \<Rightarrow> PB_HTYPE_ONEOF | _ \<Rightarrow> PB_HTYPE_OPTIONAL)"

lemma decl_field_shape:
  assumes "valid_decl d"
  shows "decl_field prev d = mk_field (d_tag d)
      (alloc_atype (d_alloc d) OR kind_htype (d_kind d) OR PB_LTYPE_MAP (d_type d))
      (PB_DATAOFFSET (decl_place prev d) (d_member d)
        (case prev of None \<Rightarrow> d_member d | Some p \<Rightarrow> d_member p))
      (pb_delta (decl_aux d) (mb_offset (d_member d)))
      (if d_alloc d = POINTER \<or> (d_alloc d = STATIC \<and> d_kind d = Plain REPEATED)
       then mb_elem (d_member d) else mb_size (d_member d))
      (if d_alloc d = STATIC \<and> d_kind d = Plain REPEATED then pb_arraysize (d_member d) else 0)
      (d_ptr d)"
proof (cases "d_kind d")
  case (Plain r)
  with assms show ?thesis
    by (cases r; cases "d_alloc d") (simp_all add: decl_field_def PB_FIELD_def pb_macro_defs
        decl_aux_def alloc_atype_def kind_htype_def valid_decl_def Let_def pb_delta_def)
next
  case (Oneof u)
  with assms show ?thesis
    by (cases "d_alloc d") (simp_all add: decl_field_def PB_ONEOF_FIELD_def pb_macro_defs
        decl_aux_def alloc_atype_def kind_htype_def valid_decl_def Let_def pb_delta_def)
qed

lemma kind_masked: "kind_htype k AND PB_HTYPE_MASK = kind_htype k"
  by (simp add: kind_htype_def masked_types split: pb_kind.splits pb_rules.splits)

lemma alloc_masked: "alloc_atype a AND PB_ATYPE_MASK = alloc_atype a"
  by (simp add: alloc_atype_def masked_types split: pb_alloc.splits)

lemma decl_field_types:
  assumes "valid_decl d"
  shows "pf_tag (decl_field prev d) = d_tag d"
    "atype (decl_field prev d) = alloc_atype (d_alloc d)"
    "htype (decl_field prev d) = kind_htype (d_kind d)"
    "ltype (decl_field prev d) = PB_LTYPE_MAP (d_type d)"
    "pf_ptr (decl_field prev d) = d_ptr d"
  unfolding decl_field_shape [OF assms] mk_field_def pb_field.sel
  by (simp_all add: pb_type_parts alloc_masked kind_masked PB_LTYPE_MAP_masked)

lemma sint_of_small: "- (2 ^ 31) \<le> i \<Longrightarrow> i < 2 ^ 31 \<Longrightarrow> sint (word_of_int i :: u32) = i"
  by (simp add: signed_of_int signed_take_bit_int_eq_self)

lemma sint_of_delta: "x < 2 ^ 31 \<Longrightarrow> y < 2 ^ 31 \<Longrightarrow> sint (word_of_int (pb_delta x y) :: u32) = pb_delta x y"
  by (rule sint_of_small) (simp_all add: pb_delta_def)

lemma decl_field_size_offset:
  "valid_decl d \<Longrightarrow> sint (pf_size_offset (decl_field prev d)) = int (decl_aux d) - int (mb_offset (d_member d))"
  unfolding decl_field_shape mk_field_def pb_field.sel
  by (subst sint_of_delta)
    (auto simp: pb_delta_def decl_aux_def valid_decl_def Let_def split: pb_kind.splits pb_rules.splits pb_alloc.splits)

lemma uint_of_small: "0 \<le> i \<Longrightarrow> i < 2 ^ 32 \<Longrightarrow> uint (word_of_int i :: u32) = i"
  by (simp add: uint_word_of_int)

lemma uint_of_nat_small: "n < 2 ^ 32 \<Longrightarrow> uint (word_of_nat n :: u32) = int n"
  by (metis of_int_of_nat_eq uint_of_small of_nat_0_le_iff of_nat_less_iff of_nat_numeral of_nat_power)

lemma decl_field_prev_size:
  assumes "valid_decl d"
  shows "prev_size (decl_field prev d) = int (mb_size (d_member d))"
proof (cases "d_alloc d = STATIC \<and> d_kind d = Plain REPEATED")
  case True
  let ?m = "d_member d"
  from True assms have e: "mb_elem ?m dvd mb_size ?m" "mb_elem ?m \<noteq> 0"
    and b: "mb_elem ?m < 2 ^ 32" "mb_size ?m < 2 ^ 31"
    by (auto simp: valid_decl_def Let_def)
  have "mb_size ?m div mb_elem ?m < 2 ^ 32"
    by (rule le_less_trans [OF div_le_dividend less_trans [OF b(2)]]) simp
  moreover have "int (mb_elem ?m) * int (mb_size ?m div mb_elem ?m) = int (mb_size ?m)"
    using e by (metis dvd_mult_div_cancel of_nat_mult)
  ultimately show ?thesis
    using True b unfolding prev_size_def decl_field_types [OF assms]
    by (simp add: alloc_atype_def kind_htype_def decl_field_shape [OF assms] mk_field_def
        uint_of_nat_small pb_arraysize_def)
next
  case False
  have "mb_size (d_member d) < 2 ^ 32" using assms by (simp add: valid_decl_def Let_def)
  with False assms show ?thesis
    unfolding prev_size_def decl_field_types [OF assms]
    by (auto simp: alloc_atype_def kind_htype_def decl_field_shape [OF assms] mk_field_def
        uint_of_nat_small pb_consts valid_decl_def Let_def
        split: pb_alloc.splits pb_kind.splits pb_rules.splits)
qed

section \<open>The offsets of a whole array\<close>

lemma length_decl_fields [simp]: "length (decl_fields prev ds) = length ds"
  by (induction ds arbitrary: prev) auto

lemma nth_decl_fields:
  "k < length ds \<Longrightarrow> decl_fields prev ds ! k =
     decl_field (if k = 0 then prev else Some (ds ! (k - 1))) (ds ! k)"
proof (induction ds arbitrary: prev k)
  case (Cons d ds)
  then show ?case by (cases k; cases "k - 1") auto
qed simp

lemma valid_layout_nth: "valid_layout ds \<Longrightarrow> k < length ds \<Longrightarrow> valid_decl (ds ! k)"
proof (induction ds arbitrary: k rule: valid_layout.induct)
  case (3 p d ds)
  then show ?case by (cases k) auto
qed auto

lemma valid_layout_next:
  "valid_layout ds \<Longrightarrow> Suc k < length ds \<Longrightarrow> valid_next (ds ! k) (ds ! Suc k)"
proof (induction ds arbitrary: k rule: valid_layout.induct)
  case (3 p d ds)
  then show ?case by (cases k) auto
qed auto

lemma decl_fields_wf_tags: "valid_layout ds \<Longrightarrow> wf_tags (decl_fields None ds)"
  unfolding wf_tags_def list_all_length
  by (auto simp: nth_decl_fields decl_field_types valid_layout_nth) (auto simp: valid_decl_def Let_def dest: valid_layout_nth)

lemma same_union_decl:
  assumes "valid_decl p" "valid_decl d" "valid_next p d"
  shows "same_union (decl_field prev p) (decl_field (Some p) d) \<longleftrightarrow> same_oneof p d"
proof -
  let ?off = "int (mb_offset (d_member d)) - int (mb_offset (d_member p)) - int (mb_size (d_member p))"
  have "word_of_int ?off \<noteq> PB_SIZE_MAX" if "\<not> same_oneof p d"
  proof
    assume max: "word_of_int ?off = PB_SIZE_MAX"
    have b: "0 \<le> ?off" "?off < 2 ^ 31"
      using assms that by (auto simp: valid_next_def valid_decl_def Let_def)
    then have "uint (word_of_int ?off :: u32) = ?off" by (intro uint_of_small) simp_all
    moreover have "uint PB_SIZE_MAX = 2 ^ 32 - 1" by (simp add: PB_SIZE_MAX_def unsigned_minus_1_eq_mask mask_eq_exp_minus_1)
    ultimately show False using b max by simp
  qed
  moreover have "kind_htype k = PB_HTYPE_ONEOF \<longleftrightarrow> (\<exists>u. k = Oneof u)" for k
    by (auto simp: kind_htype_def pb_consts split: pb_kind.splits pb_rules.splits)
  ultimately show ?thesis
    unfolding same_union_def decl_field_types [OF assms(1)] decl_field_types [OF assms(2)]
    by (auto simp: decl_field_shape [OF assms(2)] mk_field_def decl_place_def same_oneof_def
        PB_DATAOFFSET_OTHER_def PB_DATAOFFSET_UNION_def split: pb_kind.splits)
qed

lemma decl_data_offset:
  assumes "valid_decl d"
  shows "uint (pf_data_offset (decl_field None d)) = int (mb_offset (d_member d))"
    and "valid_decl p \<Longrightarrow> valid_next p d \<Longrightarrow> \<not> same_oneof p d \<Longrightarrow>
      uint (pf_data_offset (decl_field (Some p) d)) =
        int (mb_offset (d_member d)) - int (mb_offset (d_member p)) - int (mb_size (d_member p))"
  unfolding decl_field_shape [OF assms] mk_field_def pb_field.sel
  using assms
  by (auto simp: decl_place_def PB_DATAOFFSET_FIRST_def PB_DATAOFFSET_OTHER_def valid_decl_def
      valid_next_def Let_def simp del: of_int_diff of_int_of_nat_eq intro!: uint_of_small)

lemma decl_offsets:
  assumes "valid_layout ds"
  shows "k < length ds \<Longrightarrow>
    data_off (decl_fields None ds) k = int (mb_offset (d_member (ds ! k))) \<and>
    size_off (decl_fields None ds) k = int (decl_aux (ds ! k))"
proof (induction k)
  case 0
  with assms have v: "valid_decl (ds ! 0)" by (simp add: valid_layout_nth)
  from 0 v show ?case
    by (simp add: nth_decl_fields decl_data_offset decl_field_size_offset)
next
  case (Suc k)
  let ?p = "ds ! k" and ?d = "ds ! Suc k"
  have v: "valid_decl ?p" "valid_decl ?d" "valid_next ?p ?d"
    using assms Suc.prems by (simp_all add: valid_layout_nth valid_layout_next)
  have su: "same_union (decl_fields None ds ! k) (decl_fields None ds ! Suc k) \<longleftrightarrow> same_oneof ?p ?d"
    using Suc.prems same_union_decl [OF v] by (simp add: nth_decl_fields)
  show ?case
  proof (cases "same_oneof ?p ?d")
    case True
    then have "decl_aux ?d = decl_aux ?p"
      using v(3) by (auto simp: decl_aux_def same_oneof_def valid_next_def split: pb_kind.splits)
    with True su Suc v(3) show ?thesis by (simp add: valid_next_def)
  next
    case False
    with su Suc v show ?thesis
      by (simp add: nth_decl_fields decl_data_offset decl_field_size_offset decl_field_prev_size)
  qed
qed

end
