(* ===== verification/Pb_Input.thy ===== *)
theory Pb_Input
  imports Pb_Types
begin

text \<open>
  The input half of nanopb's stream layer (\<open>pb_decode.c\<close>, lines 72-350 and 1116-1163): the
  stream record \<open>pb_istream_t\<close>, \<open>pb_read\<close>, the decoders of varints, tags and fixed-width
  integers, field skipping, and length-limited substreams.

  A memory-buffer stream carries the bytes from its read pointer to the end of the buffer
  object (\<open>BufRead\<close>); a custom stream carries the user's callback and the user's state
  (\<open>UserIn\<close>).  The callback is not code of the repository: it is a parameter, whose reply
  says whether it succeeded, which bytes it stored, its next state, and whether it signalled
  end of file (by clearing \<open>bytes_left\<close> while failing).  Each function returns its result,
  \<open>None\<close> or \<open>False\<close> where the C function returns \<open>false\<close>, and the updated stream.
\<close>

section \<open>Streams\<close>

record 's in_reply =
  reply_ok :: bool
  reply_bytes :: "byte list"
  reply_state :: 's
  reply_eof :: bool

datatype 's in_source = BufRead "byte list" | UserIn "'s \<Rightarrow> nat \<Rightarrow> 's in_reply" 's

record 's istream =
  in_src :: "'s in_source"
  bytes_left :: nat
  in_err :: "string option"

definition pb_istream_from_buffer :: "byte list \<Rightarrow> nat \<Rightarrow> 's istream" where
  "pb_istream_from_buffer buf bufsize =
     \<lparr>in_src = BufRead buf, bytes_left = bufsize, in_err = None\<rparr>"

definition in_fail :: "string \<Rightarrow> 's istream \<Rightarrow> 's istream" where
  "in_fail msg s = s\<lparr>in_err := PB_SET_ERROR (in_err s) msg\<rparr>"

text \<open>\<open>fill n bs\<close>: what a destination of \<open>n\<close> bytes holds after \<open>bs\<close> was stored in it.\<close>

definition fill :: "nat \<Rightarrow> byte list \<Rightarrow> byte list" where
  "fill n bs = take n (bs @ replicate n 0)"

definition buf_read :: "byte list \<Rightarrow> nat \<Rightarrow> byte list \<times> byte list" where
  "buf_read source count = (fill count (take count source), drop count source)"

text \<open>Calling \<open>stream->callback\<close>: success, the bytes stored, the stream afterwards.\<close>

definition in_callback :: "'s istream \<Rightarrow> nat \<Rightarrow> bool \<times> byte list \<times> 's istream" where
  "in_callback s count = (case in_src s of
     BufRead source \<Rightarrow> let (bs, rest) = buf_read source count in (True, bs, s\<lparr>in_src := BufRead rest\<rparr>)
   | UserIn cb st \<Rightarrow> let r = cb st count; s' = s\<lparr>in_src := UserIn cb (reply_state r)\<rparr> in
       if reply_ok r then (True, fill count (reply_bytes r), s')
       else (False, take count (reply_bytes r),
             if reply_eof r then s'\<lparr>bytes_left := 0\<rparr> else s'))"

text \<open>\<open>pb_read\<close> into a non-NULL buffer.\<close>

definition pb_read_buf :: "'s istream \<Rightarrow> nat \<Rightarrow> bool \<times> byte list \<times> 's istream" where
  "pb_read_buf s count =
     (if bytes_left s < count then (False, [], in_fail ''end-of-stream'' s)
      else case in_callback s count of
        (False, bs, s') \<Rightarrow> (False, bs, in_fail ''io error'' s')
      | (True, bs, s') \<Rightarrow> (True, bs, s'\<lparr>bytes_left := bytes_left s' - count\<rparr>))"

text \<open>The loop that skips bytes of a custom stream, 16 at a time.\<close>

fun pb_read_skip :: "nat \<Rightarrow> 's istream \<Rightarrow> bool \<times> byte list \<times> 's istream" where
  "pb_read_skip count s =
     (if 16 < count then
        (case pb_read_buf s 16 of
           (False, _, s') \<Rightarrow> (False, [], s')
         | (True, _, s') \<Rightarrow> pb_read_skip (count - 16) s')
      else (case pb_read_buf s count of (ok, _, s') \<Rightarrow> (ok, [], s')))"

declare pb_read_skip.simps [simp del]

definition is_buf :: "'s istream \<Rightarrow> bool" where
  "is_buf s \<longleftrightarrow> (case in_src s of BufRead _ \<Rightarrow> True | UserIn _ _ \<Rightarrow> False)"

definition pb_read :: "'s istream \<Rightarrow> bool \<Rightarrow> nat \<Rightarrow> bool \<times> byte list \<times> 's istream" where
  "pb_read s null count =
     (if null \<and> \<not> is_buf s then pb_read_skip count s else pb_read_buf s count)"

definition pb_readbyte :: "'s istream \<Rightarrow> byte option \<times> 's istream" where
  "pb_readbyte s =
     (if bytes_left s = 0 then (None, in_fail ''end-of-stream'' s)
      else case in_callback s 1 of
        (False, _, s') \<Rightarrow> (None, in_fail ''io error'' s')
      | (True, bs, s') \<Rightarrow> (Some (hd bs), s'\<lparr>bytes_left := bytes_left s' - 1\<rparr>))"

section \<open>Varints\<close>

function varint32_loop :: "nat \<Rightarrow> u32 \<Rightarrow> 's istream \<Rightarrow> u32 option \<times> 's istream" where
  "varint32_loop bitpos result s =
     (if 32 \<le> bitpos then (None, in_fail ''varint overflow'' s)
      else case pb_readbyte s of
        (None, s') \<Rightarrow> (None, s')
      | (Some b, s') \<Rightarrow>
          let result' = result OR push_bit bitpos (ucast (b AND 0x7F)) in
          if b AND 0x80 \<noteq> 0 then varint32_loop (bitpos + 7) result' s' else (Some result', s'))"
  by pat_completeness auto
termination by (relation "measure (\<lambda>(bitpos, _). 39 - bitpos)") auto

declare varint32_loop.simps [simp del]

definition pb_decode_varint32 :: "'s istream \<Rightarrow> u32 option \<times> 's istream" where
  "pb_decode_varint32 s = (case pb_readbyte s of
     (None, s') \<Rightarrow> (None, s')
   | (Some b, s') \<Rightarrow>
       if b AND 0x80 = 0 then (Some (ucast b), s')
       else varint32_loop 7 (ucast (b AND 0x7F)) s')"

function varint_loop :: "nat \<Rightarrow> u64 \<Rightarrow> 's istream \<Rightarrow> u64 option \<times> 's istream" where
  "varint_loop bitpos result s =
     (if 64 \<le> bitpos then (None, in_fail ''varint overflow'' s)
      else case pb_readbyte s of
        (None, s') \<Rightarrow> (None, s')
      | (Some b, s') \<Rightarrow>
          let result' = result OR push_bit bitpos (ucast (b AND 0x7F)) in
          if b AND 0x80 \<noteq> 0 then varint_loop (bitpos + 7) result' s' else (Some result', s'))"
  by pat_completeness auto
termination by (relation "measure (\<lambda>(bitpos, _). 71 - bitpos)") auto

declare varint_loop.simps [simp del]

definition pb_decode_varint :: "'s istream \<Rightarrow> u64 option \<times> 's istream" where
  "pb_decode_varint s = varint_loop 0 0 s"

lemma in_callback_left: "in_callback s n = (True, bs, s') \<Longrightarrow> bytes_left s' = bytes_left s"
  by (auto simp: in_callback_def Let_def split: in_source.splits if_splits prod.splits)

lemma pb_read_buf_left:
  "pb_read_buf s n = (True, bs, s') \<Longrightarrow> n \<le> bytes_left s \<and> bytes_left s' = bytes_left s - n"
  by (auto simp: pb_read_buf_def split: if_splits prod.splits bool.splits dest: in_callback_left)

function pb_skip_varint :: "'s istream \<Rightarrow> bool \<times> 's istream" where
  "pb_skip_varint s = (case pb_read_buf s 1 of
     (False, _, s') \<Rightarrow> (False, s')
   | (True, bs, s') \<Rightarrow> if hd bs AND 0x80 \<noteq> 0 then pb_skip_varint s' else (True, s'))"
  by pat_completeness auto
termination
  by (relation "measure bytes_left")
    (auto dest!: pb_read_buf_left [OF sym] pb_read_buf_left)

declare pb_skip_varint.simps [simp del]

section \<open>Strings, tags, skipping\<close>

definition pb_skip_string :: "'s istream \<Rightarrow> bool \<times> 's istream" where
  "pb_skip_string s = (case pb_decode_varint32 s of
     (None, s') \<Rightarrow> (False, s')
   | (Some len, s') \<Rightarrow> (case pb_read s' True (unat len) of (ok, _, s'') \<Rightarrow> (ok, s'')))"

text \<open>\<open>pb_decode_tag\<close>: the wire type and the tag, or \<open>Inl eof\<close> where it returns \<open>false\<close>.\<close>

definition pb_decode_tag :: "'s istream \<Rightarrow> (bool + pb_wire_type \<times> u32) \<times> 's istream" where
  "pb_decode_tag s = (case pb_decode_varint32 s of
     (None, s') \<Rightarrow> (Inl (bytes_left s' = 0), s')
   | (Some temp, s') \<Rightarrow>
       if temp = 0 then (Inl True, s')
       else (Inr (temp AND 7, drop_bit 3 temp), s'))"

definition pb_skip_field :: "'s istream \<Rightarrow> pb_wire_type \<Rightarrow> bool \<times> 's istream" where
  "pb_skip_field s wire_type =
     (if wire_type = PB_WT_VARINT then pb_skip_varint s
      else if wire_type = PB_WT_64BIT then (case pb_read s True 8 of (ok, _, s') \<Rightarrow> (ok, s'))
      else if wire_type = PB_WT_STRING then pb_skip_string s
      else if wire_type = PB_WT_32BIT then (case pb_read s True 4 of (ok, _, s') \<Rightarrow> (ok, s'))
      else (False, in_fail ''invalid wire_type'' s))"

text \<open>\<open>read_raw_value\<close>: the bytes of one scalar value, at most \<open>max_size\<close> of them.\<close>

fun raw_varint_loop :: "nat \<Rightarrow> 's istream \<Rightarrow> byte list option \<times> 's istream" where
  "raw_varint_loop 0 s = (None, s)"
| "raw_varint_loop (Suc room) s = (case pb_read_buf s 1 of
     (False, _, s') \<Rightarrow> (None, s')
   | (True, bs, s') \<Rightarrow>
       if hd bs AND 0x80 \<noteq> 0
       then (case raw_varint_loop room s' of
           (None, s'') \<Rightarrow> (None, s'') | (Some rest, s'') \<Rightarrow> (Some (hd bs # rest), s''))
       else (Some [hd bs], s'))"

definition read_raw_value ::
    "'s istream \<Rightarrow> pb_wire_type \<Rightarrow> nat \<Rightarrow> byte list option \<times> 's istream" where
  "read_raw_value s wire_type max_size =
     (if wire_type = PB_WT_VARINT then raw_varint_loop max_size s
      else if wire_type = PB_WT_64BIT then
        (case pb_read_buf s 8 of (ok, bs, s') \<Rightarrow> (if ok then Some bs else None, s'))
      else if wire_type = PB_WT_32BIT then
        (case pb_read_buf s 4 of (ok, bs, s') \<Rightarrow> (if ok then Some bs else None, s'))
      else (None, in_fail ''invalid wire_type'' s))"

section \<open>Substreams\<close>

text \<open>\<open>pb_make_string_substream\<close> returns the substream (on success) and the parent.\<close>

definition pb_make_string_substream :: "'s istream \<Rightarrow> 's istream option \<times> 's istream" where
  "pb_make_string_substream s = (case pb_decode_varint32 s of
     (None, s') \<Rightarrow> (None, s')
   | (Some len, s') \<Rightarrow>
       if bytes_left s' < unat len then (None, in_fail ''parent stream too short'' s')
       else (Some (s'\<lparr>bytes_left := unat len\<rparr>),
             s'\<lparr>bytes_left := bytes_left s' - unat len\<rparr>))"

definition pb_close_string_substream :: "'s istream \<Rightarrow> 's istream \<Rightarrow> bool \<times> 's istream" where
  "pb_close_string_substream s sub =
     (case (if bytes_left sub \<noteq> 0 then pb_read sub True (bytes_left sub) else (True, [], sub)) of
        (False, _, sub') \<Rightarrow> (False, s)
      | (True, _, sub') \<Rightarrow> (True, s\<lparr>in_src := in_src sub', in_err := in_err sub'\<rparr>))"

section \<open>Fixed-width and zig-zag integers\<close>

definition pb_decode_svarint :: "'s istream \<Rightarrow> u64 option \<times> 's istream" where
  "pb_decode_svarint s = (case pb_decode_varint s of
     (None, s') \<Rightarrow> (None, s')
   | (Some v, s') \<Rightarrow> (Some (if v AND 1 \<noteq> 0 then NOT (drop_bit 1 v) else drop_bit 1 v), s'))"

definition pb_decode_fixed32 :: "'s istream \<Rightarrow> u32 option \<times> 's istream" where
  "pb_decode_fixed32 s = (case pb_read_buf s 4 of
     (False, _, s') \<Rightarrow> (None, s')
   | (True, b, s') \<Rightarrow> (Some (push_bit 0 (ucast (b ! 0)) OR push_bit 8 (ucast (b ! 1)) OR
       push_bit 16 (ucast (b ! 2)) OR push_bit 24 (ucast (b ! 3))), s'))"

definition pb_decode_fixed64 :: "'s istream \<Rightarrow> u64 option \<times> 's istream" where
  "pb_decode_fixed64 s = (case pb_read_buf s 8 of
     (False, _, s') \<Rightarrow> (None, s')
   | (True, b, s') \<Rightarrow> (Some (push_bit 0 (ucast (b ! 0)) OR push_bit 8 (ucast (b ! 1)) OR
       push_bit 16 (ucast (b ! 2)) OR push_bit 24 (ucast (b ! 3)) OR
       push_bit 32 (ucast (b ! 4)) OR push_bit 40 (ucast (b ! 5)) OR
       push_bit 48 (ucast (b ! 6)) OR push_bit 56 (ucast (b ! 7))), s'))"

end
