(* ===== verification/Pb_Buffer.thy ===== *)
theory Pb_Buffer
  imports Pb_Input
begin

text \<open>
  Reading from a memory buffer: \<open>contents s\<close> are the bytes the stream may still read,
  \<open>adv k s\<close> is the stream after reading \<open>k\<close> of them.  Every decoder of \<open>Pb_Input\<close> is
  described as a function of the contents: what it returns, how far it advances, which error
  it records.
\<close>

definition buf_ok :: "'s istream \<Rightarrow> bool" where
  "buf_ok s \<longleftrightarrow> (case in_src s of BufRead d \<Rightarrow> bytes_left s \<le> length d | UserIn _ _ \<Rightarrow> False)"

definition contents :: "'s istream \<Rightarrow> byte list" where
  "contents s = (case in_src s of BufRead d \<Rightarrow> take (bytes_left s) d | UserIn _ _ \<Rightarrow> [])"

definition adv :: "nat \<Rightarrow> 's istream \<Rightarrow> 's istream" where
  "adv k s = s\<lparr>in_src := (case in_src s of BufRead d \<Rightarrow> BufRead (drop k d) | u \<Rightarrow> u),
     bytes_left := bytes_left s - k\<rparr>"

lemma adv_0 [simp]: "adv 0 s = s"
  by (cases s) (simp add: adv_def split: in_source.splits)

lemma adv_adv [simp]: "adv j (adv k s) = adv (k + j) s"
  by (simp add: adv_def add.commute split: in_source.splits)

lemma bytes_left_adv [simp]: "bytes_left (adv k s) = bytes_left s - k"
  by (simp add: adv_def)

lemma in_err_adv [simp]: "in_err (adv k s) = in_err s"
  by (simp add: adv_def)

lemma bytes_left_in_fail [simp]: "bytes_left (in_fail msg s) = bytes_left s"
  by (simp add: in_fail_def)

lemma in_src_in_fail [simp]: "in_src (in_fail msg s) = in_src s"
  by (simp add: in_fail_def)

lemma contents_in_fail [simp]: "contents (in_fail msg s) = contents s"
  by (cases "in_src s") (simp_all add: contents_def)

lemma buf_ok_in_fail [simp]: "buf_ok (in_fail msg s) = buf_ok s"
  by (cases "in_src s") (simp_all add: buf_ok_def)

lemma buf_ok_adv [simp]: "buf_ok s \<Longrightarrow> buf_ok (adv k s)"
  by (auto simp: buf_ok_def adv_def split: in_source.splits)

lemma contents_adv [simp]: "contents (adv k s) = drop k (contents s)"
  by (simp add: contents_def adv_def take_drop drop_take split: in_source.splits)

lemma length_contents [simp]: "buf_ok s \<Longrightarrow> length (contents s) = bytes_left s"
  by (auto simp: contents_def buf_ok_def split: in_source.splits)

lemma buf_ok_from_buffer [simp]: "n \<le> length buf \<Longrightarrow> buf_ok (pb_istream_from_buffer buf n)"
  by (simp add: buf_ok_def pb_istream_from_buffer_def)

lemma contents_from_buffer [simp]: "contents (pb_istream_from_buffer buf n) = take n buf"
  by (simp add: contents_def pb_istream_from_buffer_def)

lemma bytes_left_from_buffer [simp]: "bytes_left (pb_istream_from_buffer buf n) = n"
  by (simp add: pb_istream_from_buffer_def)

lemma adv_from_buffer [simp]:
  "adv k (pb_istream_from_buffer buf n) = pb_istream_from_buffer (drop k buf) (n - k)"
  by (simp add: adv_def pb_istream_from_buffer_def)

lemma from_buffer_limit [simp]:
  "(pb_istream_from_buffer buf n)\<lparr>bytes_left := k\<rparr> = pb_istream_from_buffer buf k"
  by (simp add: pb_istream_from_buffer_def)

lemma is_buf_ok: "buf_ok s \<Longrightarrow> is_buf s"
  by (simp add: buf_ok_def is_buf_def split: in_source.splits)

section \<open>Raw reads\<close>

lemma pb_read_buf_eq:
  assumes "buf_ok s"
  shows "pb_read_buf s k = (if k \<le> bytes_left s then (True, take k (contents s), adv k s)
    else (False, [], in_fail ''end-of-stream'' s))"
  using assms
  by (auto simp: pb_read_buf_def in_callback_def buf_read_def fill_def contents_def adv_def buf_ok_def
      min_absorb1 min_absorb2 Let_def split: in_source.splits)

lemma pb_read_eq:
  "buf_ok s \<Longrightarrow> pb_read s null k = (if k \<le> bytes_left s then (True, take k (contents s), adv k s)
    else (False, [], in_fail ''end-of-stream'' s))"
  by (simp add: pb_read_def is_buf_ok pb_read_buf_eq)

lemma pb_readbyte_eq:
  assumes "buf_ok s"
  shows "pb_readbyte s = (case contents s of [] \<Rightarrow> (None, in_fail ''end-of-stream'' s)
    | b # _ \<Rightarrow> (Some b, adv 1 s))"
proof -
  from assms obtain d where d: "in_src s = BufRead d" "bytes_left s \<le> length d"
    by (auto simp: buf_ok_def split: in_source.splits)
  show ?thesis
  proof (cases "bytes_left s = 0")
    case True
    with d show ?thesis by (simp add: pb_readbyte_def contents_def)
  next
    case False
    with d obtain b d' where "d = b # d'" by (cases d) auto
    with d False show ?thesis
      by (cases "bytes_left s") (auto simp: pb_readbyte_def in_callback_def buf_read_def fill_def contents_def adv_def)
  qed
qed

section \<open>The varint at the head of a byte string\<close>

text \<open>\<open>split_varint\<close> cuts off the bytes up to and including the first one without its top
  bit; \<open>varint_val\<close> is their value, seven bits per byte, unbounded.\<close>

fun split_varint :: "byte list \<Rightarrow> (byte list \<times> byte list) option" where
  "split_varint [] = None"
| "split_varint (b # bs) = (if b AND 0x80 \<noteq> 0
     then map_option (\<lambda>(p, r). (b # p, r)) (split_varint bs) else Some ([b], bs))"

fun varint_val :: "byte list \<Rightarrow> nat" where
  "varint_val [] = 0"
| "varint_val (b # bs) = unat (b AND 0x7F) + 128 * varint_val bs"

lemma split_varint_append: "split_varint bs = Some (p, r) \<Longrightarrow> bs = p @ r \<and> p \<noteq> []"
  by (induction bs arbitrary: p) (auto split: if_splits)

lemma low7_or:
  "(ucast (b AND 0x7F) :: 'a::len word) OR push_bit 7 (word_of_nat n) =
     word_of_nat (unat (b AND 0x7F) + 128 * n)" for b :: byte
proof -
  have "(ucast (b AND 0x7F) :: 'a word) AND push_bit 7 (word_of_nat n) = 0"
  proof (rule bit_word_eqI)
    fix k
    have m: "(0x7F :: byte) = mask 7" by (simp add: mask_eq_exp_minus_1)
    have "bit (b AND 0x7F) k \<Longrightarrow> k < 7" unfolding m by (simp add: bit_and_iff bit_mask_iff)
    then show "bit ((ucast (b AND 0x7F) :: 'a word) AND push_bit 7 (word_of_nat n)) k = bit (0 :: 'a word) k"
      by (auto simp: bit_push_bit_iff bit_ucast_iff bit_and_iff [of "ucast _"])
  qed
  then have 1: "(ucast (b AND 0x7F) :: 'a word) OR push_bit 7 (word_of_nat n) =
      ucast (b AND 0x7F) + push_bit 7 (word_of_nat n)"
    by (simp only: disjunctive_add_eq_or)
  have 2: "push_bit 7 (word_of_nat n :: 'a word) = word_of_nat (128 * n)"
    by (simp add: push_bit_eq_mult)
  have 3: "ucast (b AND 0x7F) = (word_of_nat (unat (b AND 0x7F)) :: 'a word)" by simp
  show ?thesis unfolding 1 unfolding 2 3 by (simp only: of_nat_add)
qed

text \<open>
  The loops of \<open>pb_decode_varint32\<close> and \<open>pb_decode_varint\<close> differ in the width of the
  result only.  The interface they share is the loop's equation; what follows from it is proved
  once, for every width.
\<close>

locale varint_reader =
  fixes loop :: "nat \<Rightarrow> 'a::len word \<Rightarrow> 's istream \<Rightarrow> 'a word option \<times> 's istream"
    and width :: nat
  assumes loop_eq: "loop bitpos result s =
     (if width \<le> bitpos then (None, in_fail ''varint overflow'' s)
      else case pb_readbyte s of
        (None, s') \<Rightarrow> (None, s')
      | (Some b, s') \<Rightarrow>
          let result' = result OR push_bit bitpos (ucast (b AND 0x7F)) in
          if b AND 0x80 \<noteq> 0 then loop (bitpos + 7) result' s' else (Some result', s'))"
begin

text \<open>The bytes up to the last group are consumed and their value is merged in, provided the
  position limit is not reached first.\<close>

lemma loop_ok:
  assumes "buf_ok s" "split_varint (contents s) = Some (p, r)"
    "bitpos + 7 * (length p - 1) < width"
  shows "loop bitpos result s =
    (Some (result OR push_bit bitpos (word_of_nat (varint_val p))), adv (length p) s)"
  using assms
proof (induction p arbitrary: bitpos result s)
  case Nil
  then show ?case by (auto dest: split_varint_append)
next
  case (Cons b p)
  from Cons.prems(2) obtain bs where bs: "contents s = b # bs"
    by (cases "contents s") (auto split: if_splits)
  note unf = loop_eq [of bitpos result s] pb_readbyte_eq [OF Cons.prems(1)] bs
  show ?case
  proof (cases "b AND 0x80 = 0")
    case True
    with Cons.prems bs have "p = []" by simp
    with True Cons.prems low7_or [of b 0, where 'a = 'a] show ?thesis by (simp add: unf)
  next
    case False
    with Cons.prems bs have sp: "split_varint (contents (adv 1 s)) = Some (p, r)"
      by auto
    then have "p \<noteq> []" by (auto dest: split_varint_append)
    then have lim: "bitpos + 7 + 7 * (length p - 1) < width" "bitpos < width"
      using Cons.prems(3) by (cases p; simp)+
    let ?r = "result OR push_bit bitpos (ucast (b AND 0x7F))"
    have "loop bitpos result s = loop (bitpos + 7) ?r (adv 1 s)"
      using False lim(2) by (simp add: unf)
    also have "\<dots> = (Some (?r OR push_bit (bitpos + 7) (word_of_nat (varint_val p))),
        adv (length p) (adv 1 s))"
      using Cons.prems(1) sp lim(1) by (intro Cons.IH) auto
    also have "?r OR push_bit (bitpos + 7) (word_of_nat (varint_val p)) =
        result OR push_bit bitpos (ucast (b AND 0x7F) OR push_bit 7 (word_of_nat (varint_val p)))"
      by (simp only: push_bit_or push_bit_push_bit or.assoc)
    finally show ?thesis by (simp add: low7_or del: of_nat_add of_nat_mult)
  qed
qed

text \<open>Otherwise the loop fails: at the end of the data, or after its last group.\<close>

definition groups :: "nat \<Rightarrow> nat" where
  "groups bitpos = (width - bitpos + 6) div 7"

lemma groups_step: "bitpos < width \<Longrightarrow> groups bitpos = Suc (groups (bitpos + 7))"
proof (cases "width - bitpos < 7")
  case True
  assume "bitpos < width"
  with True have "width - bitpos \<in> {1, 2, 3, 4, 5, 6}" "width - (bitpos + 7) = 0" by auto
  then show ?thesis by (auto simp: groups_def)
next
  case False
  then have "groups bitpos = ((width - (bitpos + 7) + 6) + 7) div 7"
    unfolding groups_def by (intro arg_cong2 [where f = "(div)"]) simp_all
  also have "\<dots> = Suc (groups (bitpos + 7))"
    unfolding groups_def by (subst div_add_self2) simp_all
  finally show ?thesis .
qed

lemma loop_fail:
  assumes "buf_ok s"
    "\<And>p r. split_varint (contents s) = Some (p, r) \<Longrightarrow> width \<le> bitpos + 7 * (length p - 1)"
  shows "loop bitpos result s = (None,
    if bytes_left s < groups bitpos then in_fail ''end-of-stream'' (adv (bytes_left s) s)
    else in_fail ''varint overflow'' (adv (groups bitpos) s))"
  using assms
proof (induction "contents s" arbitrary: bitpos result s)
  case Nil
  then have "bytes_left s = 0" by (metis length_contents list.size(3))
  with Nil show ?case
    by (cases "bitpos < width") (auto simp: loop_eq [of bitpos] pb_readbyte_eq groups_step groups_def)
next
  case (Cons b bs)
  have len: "bytes_left s = Suc (length bs)"
    using Cons.hyps(2) Cons.prems(1) by (metis length_Cons length_contents)
  show ?case
  proof (cases "bitpos < width")
    case False
    then show ?thesis by (simp add: loop_eq [of bitpos] groups_def)
  next
    case True
    have bs: "contents s = b # bs" using Cons.hyps(2) by simp
    have msb: "b AND 0x80 \<noteq> 0"
      using Cons.prems(2) [of "[b]" bs] True by (auto simp: bs)
    let ?r = "result OR push_bit bitpos (ucast (b AND 0x7F))"
    have "loop bitpos result s = loop (bitpos + 7) ?r (adv 1 s)"
      using True msb by (simp add: loop_eq [of bitpos] pb_readbyte_eq [OF Cons.prems(1)] bs)
    also have "\<dots> = (None,
        if bytes_left (adv 1 s) < groups (bitpos + 7)
        then in_fail ''end-of-stream'' (adv (bytes_left (adv 1 s)) (adv 1 s))
        else in_fail ''varint overflow'' (adv (groups (bitpos + 7)) (adv 1 s)))"
    proof (rule Cons.hyps(1))
      fix p r assume "split_varint (contents (adv 1 s)) = Some (p, r)"
      then have "split_varint (contents s) = Some (b # p, r)" "p \<noteq> []"
        using bs msb by (auto dest: split_varint_append)
      with Cons.prems(2) [of "b # p" r] show "width \<le> bitpos + 7 + 7 * (length p - 1)"
        by (cases p) auto
    qed (use Cons.prems(1) bs in simp_all)
    finally show ?thesis using True by (simp add: len groups_step)
  qed
qed

end

interpretation v32: varint_reader varint32_loop 32
  by unfold_locales (rule varint32_loop.simps)

interpretation v64: varint_reader varint_loop 64
  by unfold_locales (rule varint_loop.simps)

section \<open>Varints\<close>

lemma byte_msb_clear: "b AND 0x7F = b" if "b AND 0x80 = 0" for b :: byte
proof (rule bit_word_eqI)
  fix n assume n: "n < LENGTH(8)"
  have m: "(0x7F :: byte) = mask 7" by (simp add: mask_eq_exp_minus_1)
  have t: "(0x80 :: byte) = push_bit 7 1" by (simp add: push_bit_eq_mult)
  have "\<not> bit (b AND 0x80) 7" using that by simp
  then have "\<not> bit b 7" unfolding t by (simp only: bit_and_iff bit_push_bit_iff) simp
  with n show "bit (b AND 0x7F) n = bit b n"
    unfolding m by (cases "n = 7") (auto simp: bit_and_iff bit_mask_iff)
qed

text \<open>The 32-bit decoder treats a first byte without top bit apart; it is the same loop.\<close>

lemma pb_decode_varint32_loop: "pb_decode_varint32 s = varint32_loop 0 0 s"
  by (auto simp: pb_decode_varint32_def varint32_loop.simps [of 0] byte_msb_clear
      split: prod.splits option.splits)

text \<open>The complete behaviour of both decoders on a buffer.\<close>

definition decoded :: "nat \<Rightarrow> 's istream \<Rightarrow> 'a::len word option \<times> 's istream" where
  "decoded limit s = (case split_varint (contents s) of
     Some (p, r) \<Rightarrow>
       if length p \<le> limit then (Some (word_of_nat (varint_val p)), adv (length p) s)
       else (None, in_fail ''varint overflow'' (adv limit s))
   | None \<Rightarrow> (None,
       if bytes_left s < limit then in_fail ''end-of-stream'' (adv (bytes_left s) s)
       else in_fail ''varint overflow'' (adv limit s)))"

lemma split_varint_le: "buf_ok s \<Longrightarrow> split_varint (contents s) = Some (p, r) \<Longrightarrow> length p \<le> bytes_left s"
  by (metis length_append length_contents le_add1 split_varint_append)

lemma pb_decode_varint_eq: "buf_ok s \<Longrightarrow> pb_decode_varint s = decoded 10 s"
proof (cases "split_varint (contents s)")
  case None
  assume "buf_ok s"
  with None v64.loop_fail [of s 0 0] show ?thesis
    by (simp add: pb_decode_varint_def decoded_def v64.groups_def)
next
  case (Some pr)
  assume b: "buf_ok s"
  obtain p r where pr: "pr = (p, r)" by fastforce
  have "length p \<noteq> 0" using Some pr by (auto dest: split_varint_append)
  with b Some pr v64.loop_ok [of s p r 0 0] v64.loop_fail [of s 0 0] split_varint_le [of s p r] show ?thesis
    by (cases "length p \<le> 10") (auto simp: pb_decode_varint_def decoded_def v64.groups_def)
qed

lemma pb_decode_varint32_eq: "buf_ok s \<Longrightarrow> pb_decode_varint32 s = decoded 5 s"
proof (cases "split_varint (contents s)")
  case None
  assume "buf_ok s"
  with None v32.loop_fail [of s 0 0] show ?thesis
    by (simp add: pb_decode_varint32_loop decoded_def v32.groups_def)
next
  case (Some pr)
  assume b: "buf_ok s"
  obtain p r where pr: "pr = (p, r)" by fastforce
  have "length p \<noteq> 0" using Some pr by (auto dest: split_varint_append)
  with b Some pr v32.loop_ok [of s p r 0 0] v32.loop_fail [of s 0 0] split_varint_le [of s p r] show ?thesis
    by (cases "length p \<le> 5") (auto simp: pb_decode_varint32_loop decoded_def v32.groups_def)
qed

lemma pb_skip_varint_eq:
  assumes "buf_ok s"
  shows "pb_skip_varint s = (case split_varint (contents s) of
     Some (p, r) \<Rightarrow> (True, adv (length p) s)
   | None \<Rightarrow> (False, in_fail ''end-of-stream'' (adv (bytes_left s) s)))"
  using assms
proof (induction "contents s" arbitrary: s)
  case Nil
  then have "bytes_left s = 0" by (metis length_contents list.size(3))
  with Nil show ?case by (simp add: pb_skip_varint.simps [of s] pb_read_buf_eq)
next
  case (Cons b bs)
  have bs: "contents s = b # bs" using Cons.hyps(2) by simp
  have len: "bytes_left s = Suc (length bs)"
    using bs Cons.prems by (metis length_Cons length_contents)
  have step: "pb_skip_varint s = (if b AND 0x80 \<noteq> 0 then pb_skip_varint (adv 1 s) else (True, adv 1 s))"
    using len by (simp add: pb_skip_varint.simps [of s] pb_read_buf_eq [OF Cons.prems] bs)
  have "pb_skip_varint (adv 1 s) = (case split_varint (contents (adv 1 s)) of
     Some (p, r) \<Rightarrow> (True, adv (length p) (adv 1 s))
   | None \<Rightarrow> (False, in_fail ''end-of-stream'' (adv (bytes_left (adv 1 s)) (adv 1 s))))"
    by (rule Cons.hyps(1)) (simp_all add: bs Cons.prems)
  then show ?case using len by (auto simp: step bs split: option.splits)
qed

end
