(* ===== verification/Pb_Output.thy ===== *)
theory Pb_Output
  imports Pb_Types
begin

text \<open>
  The output half of nanopb's stream layer (\<open>pb_encode.c\<close>, lines 58-109 and 491-598): the
  stream record \<open>pb_ostream_t\<close>, \<open>pb_write\<close>, and the encoders of varints, tags, strings and
  fixed-width integers.

  The sink of a stream is \<open>NoSink\<close> for a sizing stream (\<open>callback\<close> NULL), \<open>BufSink out\<close>
  for a memory buffer, with \<open>out\<close> the bytes laid down so far from the start of the buffer,
  or \<open>UserOut\<close> with the user's callback and state, which are parameters.  \<open>size_t\<close> sums
  wrap (\<open>size_add\<close>).  The second part states what it means for an encoder to produce a given
  byte string (\<open>encodes\<close>): the same bytes are counted on a sizing stream and laid down on a
  buffer, and a buffer that is too small makes the encoder fail without passing its end.
\<close>

section \<open>Streams\<close>

datatype 's out_sink = NoSink | BufSink "byte list" | UserOut "'s \<Rightarrow> byte list \<Rightarrow> bool \<times> 's" 's

record 's ostream =
  out_sink :: "'s out_sink"
  max_size :: nat
  bytes_written :: nat
  out_err :: "string option"

definition pb_ostream_from_buffer :: "nat \<Rightarrow> 's ostream" where
  "pb_ostream_from_buffer bufsize =
     \<lparr>out_sink = BufSink [], max_size = bufsize, bytes_written = 0, out_err = None\<rparr>"

definition PB_OSTREAM_SIZING :: "'s ostream" where
  "PB_OSTREAM_SIZING = \<lparr>out_sink = NoSink, max_size = 0, bytes_written = 0, out_err = None\<rparr>"

definition out_fail :: "string \<Rightarrow> 's ostream \<Rightarrow> 's ostream" where
  "out_fail msg s = s\<lparr>out_err := PB_SET_ERROR (out_err s) msg\<rparr>"

definition buf_write :: "byte list \<Rightarrow> byte list \<Rightarrow> byte list" where
  "buf_write out buf = out @ buf"

text \<open>Calling \<open>stream->callback\<close> on \<open>count\<close> bytes of \<open>buf\<close>.\<close>

definition out_callback :: "'s ostream \<Rightarrow> byte list \<Rightarrow> bool \<times> 's ostream" where
  "out_callback s bs = (case out_sink s of
     NoSink \<Rightarrow> (True, s)
   | BufSink out \<Rightarrow> (True, s\<lparr>out_sink := BufSink (buf_write out bs)\<rparr>)
   | UserOut cb st \<Rightarrow> let (ok, st') = cb st bs in (ok, s\<lparr>out_sink := UserOut cb st'\<rparr>))"

definition pb_write :: "'s ostream \<Rightarrow> byte list \<Rightarrow> nat \<Rightarrow> bool \<times> 's ostream" where
  "pb_write s buf count =
     (case out_sink s of
        NoSink \<Rightarrow> (True, s\<lparr>bytes_written := size_add (bytes_written s) count\<rparr>)
      | _ \<Rightarrow>
        if max_size s < size_add (bytes_written s) count then (False, out_fail ''stream full'' s)
        else case out_callback s (take count buf) of
            (False, s') \<Rightarrow> (False, out_fail ''io error'' s')
          | (True, s') \<Rightarrow> (True, s'\<lparr>bytes_written := size_add (bytes_written s') count\<rparr>))"

section \<open>Varints, tags, strings, fixed-width integers\<close>

function varint_groups :: "u64 \<Rightarrow> byte list" where
  "varint_groups v =
     (if v = 0 then [] else ucast ((v AND 0x7F) OR 0x80) # varint_groups (drop_bit 7 v))"
  by pat_completeness auto
termination
  by (relation "measure unat") (auto simp only: in_measure unat_drop_bit unat_gt_0 wf_measure
      intro!: div_less_dividend, simp)

declare varint_groups.simps [simp del]

text \<open>The bytes in \<open>buffer\<close>, whose last one has its top bit cleared.\<close>

definition varint_buffer :: "u64 \<Rightarrow> byte list" where
  "varint_buffer v =
     (let buffer = varint_groups v; i = length buffer in
      buffer[i - 1 := (buffer ! (i - 1)) AND 0x7F])"

definition pb_encode_varint :: "'s ostream \<Rightarrow> u64 \<Rightarrow> bool \<times> 's ostream" where
  "pb_encode_varint s v =
     (if v \<le> 0x7F then pb_write s [ucast v] 1
      else let buffer = varint_buffer v in pb_write s buffer (length buffer))"

definition zigzag :: "u64 \<Rightarrow> u64" where
  "zigzag v = (if v <s 0 then NOT (push_bit 1 v) else push_bit 1 v)"

definition pb_encode_svarint :: "'s ostream \<Rightarrow> u64 \<Rightarrow> bool \<times> 's ostream" where
  "pb_encode_svarint s v = pb_encode_varint s (zigzag v)"

definition pb_encode_fixed32 :: "'s ostream \<Rightarrow> u32 \<Rightarrow> bool \<times> 's ostream" where
  "pb_encode_fixed32 s v = pb_write s
     [ucast (v AND 0xFF), ucast (drop_bit 8 v AND 0xFF), ucast (drop_bit 16 v AND 0xFF),
      ucast (drop_bit 24 v AND 0xFF)] 4"

definition pb_encode_fixed64 :: "'s ostream \<Rightarrow> u64 \<Rightarrow> bool \<times> 's ostream" where
  "pb_encode_fixed64 s v = pb_write s
     [ucast (v AND 0xFF), ucast (drop_bit 8 v AND 0xFF), ucast (drop_bit 16 v AND 0xFF),
      ucast (drop_bit 24 v AND 0xFF), ucast (drop_bit 32 v AND 0xFF),
      ucast (drop_bit 40 v AND 0xFF), ucast (drop_bit 48 v AND 0xFF),
      ucast (drop_bit 56 v AND 0xFF)] 8"

definition tag_word :: "pb_wire_type \<Rightarrow> u32 \<Rightarrow> u64" where
  "tag_word wiretype field_number = push_bit 3 (ucast field_number) OR ucast wiretype"

definition pb_encode_tag :: "'s ostream \<Rightarrow> pb_wire_type \<Rightarrow> u32 \<Rightarrow> bool \<times> 's ostream" where
  "pb_encode_tag s wiretype field_number = pb_encode_varint s (tag_word wiretype field_number)"

definition field_wire_type :: "pb_field \<Rightarrow> pb_wire_type option" where
  "field_wire_type f =
     (let l = ltype f in
      if l = PB_LTYPE_VARINT \<or> l = PB_LTYPE_UVARINT \<or> l = PB_LTYPE_SVARINT then Some PB_WT_VARINT
      else if l = PB_LTYPE_FIXED32 then Some PB_WT_32BIT
      else if l = PB_LTYPE_FIXED64 then Some PB_WT_64BIT
      else if l = PB_LTYPE_BYTES \<or> l = PB_LTYPE_STRING \<or> l = PB_LTYPE_SUBMESSAGE \<or>
        l = PB_LTYPE_FIXED_LENGTH_BYTES then Some PB_WT_STRING
      else None)"

definition pb_encode_tag_for_field :: "'s ostream \<Rightarrow> pb_field \<Rightarrow> bool \<times> 's ostream" where
  "pb_encode_tag_for_field s f = (case field_wire_type f of
     None \<Rightarrow> (False, out_fail ''invalid field type'' s)
   | Some wt \<Rightarrow> pb_encode_tag s wt (pf_tag f))"

definition pb_encode_string :: "'s ostream \<Rightarrow> byte list \<Rightarrow> nat \<Rightarrow> bool \<times> 's ostream" where
  "pb_encode_string s buffer n = (case pb_encode_varint s (word_of_nat n) of
     (False, s') \<Rightarrow> (False, s')
   | (True, s') \<Rightarrow> pb_write s' buffer n)"

section \<open>What an encoder produces\<close>

text \<open>
  A plain stream: a sizing stream, or a buffer stream with room for at most half the address
  space, that has recorded no error.  The bytes counted by a buffer stream are the last ones
  laid down; a substream starts counting in the middle of the buffer.
\<close>

definition plain :: "'s ostream \<Rightarrow> bool" where
  "plain s \<longleftrightarrow> out_err s = None \<and> (case out_sink s of
     NoSink \<Rightarrow> bytes_written s < 2 ^ 64
   | BufSink out \<Rightarrow> bytes_written s \<le> max_size s \<and> max_size s \<le> 2 ^ 63
   | UserOut _ _ \<Rightarrow> False)"

definition fits :: "'s ostream \<Rightarrow> nat \<Rightarrow> bool" where
  "fits s n \<longleftrightarrow> out_sink s = NoSink \<or> bytes_written s + n \<le> max_size s"

definition put :: "byte list \<Rightarrow> 's ostream \<Rightarrow> 's ostream" where
  "put bs s = s\<lparr>out_sink := (case out_sink s of BufSink out \<Rightarrow> BufSink (out @ bs) | k \<Rightarrow> k),
     bytes_written := size_add (bytes_written s) (length bs)\<rparr>"

text \<open>\<open>within s s'\<close>: \<open>s'\<close> is \<open>s\<close> with bytes appended and counted, still inside the buffer.\<close>

definition within :: "'s ostream \<Rightarrow> 's ostream \<Rightarrow> bool" where
  "within s s' \<longleftrightarrow> max_size s' = max_size s \<and> (case out_sink s of
     NoSink \<Rightarrow> out_sink s' = NoSink
   | BufSink out \<Rightarrow> (\<exists>bs. out_sink s' = BufSink (out @ bs) \<and>
       bytes_written s' = bytes_written s + length bs \<and> bytes_written s' \<le> max_size s)
   | UserOut _ _ \<Rightarrow> True)"

text \<open>The intended result of an encoder: bytes, an error, or nothing specified (for lengths of
  more than a quarter of the address space, and where user code decides).\<close>

datatype enc_result = Enc "byte list" | EncFail | NoClaim

definition encodes :: "('s ostream \<Rightarrow> bool \<times> 's ostream) \<Rightarrow> enc_result \<Rightarrow> bool" where
  "encodes e r \<longleftrightarrow> r \<noteq> NoClaim \<longrightarrow> (\<forall>s. plain s \<longrightarrow> within s (snd (e s)) \<and> (case r of
     Enc bs \<Rightarrow> if fits s (length bs) then e s = (True, put bs s) else \<not> fst (e s)
   | _ \<Rightarrow> \<not> fst (e s)))"

lemma put_Nil [simp]: "plain s \<Longrightarrow> put [] s = s"
  by (cases s) (auto simp: put_def plain_def size_add_def split: out_sink.splits)

lemma put_put: "put cs (put bs s) = put (bs @ cs) s"
  by (simp add: put_def size_add_assoc split: out_sink.splits)

lemma fits_mono: "fits s n \<Longrightarrow> k \<le> n \<Longrightarrow> fits s k"
  by (auto simp: fits_def)

lemma plain_put: "plain s \<Longrightarrow> fits s (length bs) \<Longrightarrow> plain (put bs s)"
  by (auto simp: plain_def fits_def put_def size_add_exact split: out_sink.splits)

lemma bytes_written_put:
  "plain s \<Longrightarrow> fits s (length bs) \<Longrightarrow> out_sink s \<noteq> NoSink \<Longrightarrow>
   bytes_written (put bs s) = bytes_written s + length bs"
  by (auto simp: plain_def fits_def put_def size_add_exact split: out_sink.splits)

lemma out_sink_put [simp]: "out_sink (put bs s) = NoSink \<longleftrightarrow> out_sink s = NoSink"
  by (simp add: put_def split: out_sink.splits)

lemma max_size_put [simp]: "max_size (put bs s) = max_size s"
  by (simp add: put_def)

lemma out_err_put [simp]: "out_err (put bs s) = out_err s"
  by (simp add: put_def)

lemma fits_put:
  "plain s \<Longrightarrow> fits s (length bs) \<Longrightarrow> fits (put bs s) n \<longleftrightarrow> fits s (length bs + n)"
  by (cases "out_sink s = NoSink") (auto simp: fits_def bytes_written_put)

lemma within_put: "plain s \<Longrightarrow> fits s (length bs) \<Longrightarrow> within s (put bs s)"
  by (auto simp: plain_def fits_def put_def within_def size_add_exact split: out_sink.splits)

lemma within_refl: "plain s \<Longrightarrow> within s s"
  by (auto simp: plain_def within_def split: out_sink.splits)

lemma within_fail [simp]: "within s (out_fail msg s') \<longleftrightarrow> within s s'"
  by (simp add: within_def out_fail_def split: out_sink.splits)

lemma within_trans:
  assumes "within s s'" "within s' s''" shows "within s s''"
proof (cases "out_sink s")
  case (BufSink out)
  with assms(1) obtain bs where "out_sink s' = BufSink (out @ bs)"
      "bytes_written s' = bytes_written s + length bs" by (auto simp: within_def)
  with assms BufSink show ?thesis by (auto simp: within_def)
qed (use assms in \<open>auto simp: within_def\<close>)

lemma encodesI:
  assumes "\<And>s. plain s \<Longrightarrow> within s (snd (e s))"
    and "\<And>s bs. plain s \<Longrightarrow> r = Enc bs \<Longrightarrow> fits s (length bs) \<Longrightarrow> e s = (True, put bs s)"
    and "\<And>s bs. plain s \<Longrightarrow> r = Enc bs \<Longrightarrow> \<not> fits s (length bs) \<Longrightarrow> \<not> fst (e s)"
    and "\<And>s. plain s \<Longrightarrow> r = EncFail \<Longrightarrow> \<not> fst (e s)"
  shows "encodes e r"
  using assms by (cases r) (auto simp: encodes_def)

lemma encodesD:
  assumes "encodes e r" "r \<noteq> NoClaim" "plain s"
  shows "within s (snd (e s))"
    and "r = Enc bs \<Longrightarrow> fits s (length bs) \<Longrightarrow> e s = (True, put bs s)"
    and "r = Enc bs \<Longrightarrow> \<not> fits s (length bs) \<Longrightarrow> \<not> fst (e s)"
    and "r = EncFail \<Longrightarrow> \<not> fst (e s)"
  using assms by (auto simp: encodes_def split: enc_result.splits)

lemma encodes_NoClaim [simp]: "encodes e NoClaim"
  by (simp add: encodes_def)

text \<open>Success tells which bytes were produced.\<close>

lemma encodes_True:
  assumes "encodes e r" "r \<noteq> NoClaim" "plain s" "e s = (True, s')"
  obtains bs where "r = Enc bs" "fits s (length bs)" "s' = put bs s"
  using assms by (cases r) (fastforce simp: encodes_def split: if_splits)+

lemma encodes_fail: "encodes (\<lambda>s. (False, out_fail msg s)) EncFail"
  by (rule encodesI) (auto intro: within_refl)

lemma encodes_skip: "encodes (\<lambda>s. (True, s)) (Enc [])"
  by (rule encodesI) (auto simp: fits_def plain_def intro: within_refl split: out_sink.splits)

text \<open>Sequencing with early return, the shape \<open>if (!e1) return false; return e2;\<close>.\<close>

definition seq_out :: "('s ostream \<Rightarrow> bool \<times> 's ostream) \<Rightarrow> ('s ostream \<Rightarrow> bool \<times> 's ostream) \<Rightarrow>
    's ostream \<Rightarrow> bool \<times> 's ostream" where
  "seq_out e1 e2 s = (case e1 s of (False, s') \<Rightarrow> (False, s') | (True, s') \<Rightarrow> e2 s')"

fun cat_enc :: "enc_result \<Rightarrow> enc_result \<Rightarrow> enc_result" where
  "cat_enc (Enc x) (Enc y) = Enc (x @ y)"
| "cat_enc (Enc x) r = r"
| "cat_enc r _ = r"

lemma cat_enc_Enc: "cat_enc a b = Enc ds \<longleftrightarrow> (\<exists>x y. a = Enc x \<and> b = Enc y \<and> ds = x @ y)"
  by (cases a; cases b) auto

lemma cat_enc_Fail: "cat_enc a b = EncFail \<longleftrightarrow> a = EncFail \<or> (\<exists>x. a = Enc x) \<and> b = EncFail"
  by (cases a; cases b) auto

lemma cat_enc_NoClaim: "cat_enc a b = NoClaim \<longleftrightarrow> a = NoClaim \<or> (\<exists>x. a = Enc x) \<and> b = NoClaim"
  by (cases a; cases b) auto

lemma cat_enc_Nil [simp]: "cat_enc a (Enc []) = a"
  by (cases a) auto

lemma encodes_seq:
  assumes e1: "encodes e1 a" and e2: "\<And>bs. a = Enc bs \<Longrightarrow> encodes e2 b"
  shows "encodes (seq_out e1 e2) (cat_enc a b)"
proof (cases "cat_enc a b = NoClaim")
  case nc: False
  then have na: "a \<noteq> NoClaim" and nb: "a = Enc x \<Longrightarrow> b \<noteq> NoClaim" for x by (auto simp: cat_enc_NoClaim)
  show ?thesis
  proof (rule encodesI)
    fix s :: "'a ostream" assume p: "plain s"
    obtain ok s1 where s1: "e1 s = (ok, s1)" by fastforce
    have w1: "within s s1" using encodesD(1) [OF e1 na p] s1 by simp
    have step: "\<exists>bs. a = Enc bs \<and> fits s (length bs) \<and> s1 = put bs s" if ok
      using s1 that by (auto elim: encodes_True [OF e1 na p])
    show "within s (snd (seq_out e1 e2 s))"
    proof (cases ok)
      case True
      then obtain bs where bs: "a = Enc bs" "fits s (length bs)" "s1 = put bs s" using step by blast
      with p have "within s1 (snd (e2 s1))"
        by (intro encodesD(1) [OF e2 nb]) (auto intro: plain_put)
      with w1 True s1 show ?thesis by (auto simp: seq_out_def intro: within_trans)
    qed (use w1 s1 in \<open>simp add: seq_out_def\<close>)
    show "\<not> fst (seq_out e1 e2 s)" if "cat_enc a b = EncFail"
    proof (cases ok)
      case True
      then obtain bs where bs: "a = Enc bs" "fits s (length bs)" "s1 = put bs s" using step by blast
      with that have "b = EncFail" by (auto simp: cat_enc_Fail)
      with encodesD(4) [OF e2 [OF bs(1)] nb [OF bs(1)] plain_put [OF p bs(2)]] bs True s1
      show ?thesis by (simp add: seq_out_def)
    qed (use s1 in \<open>simp add: seq_out_def\<close>)
    fix ds assume "cat_enc a b = Enc ds"
    then obtain x y where xy: "a = Enc x" "b = Enc y" "ds = x @ y" by (auto simp: cat_enc_Enc)
    note e2 = e2 [OF xy(1)] nb [OF xy(1)]
    { assume f: "fits s (length ds)"
      then have fx: "fits s (length x)" using xy by (auto elim: fits_mono)
      with f have fy: "fits (put x s) (length y)" using xy p by (simp add: fits_put)
      from encodesD(2) [OF e1 na p xy(1) fx] encodesD(2) [OF e2 plain_put [OF p fx] xy(2) fy]
      show "seq_out e1 e2 s = (True, put ds s)" by (simp add: seq_out_def put_put xy(3)) }
    { assume f: "\<not> fits s (length ds)"
      show "\<not> fst (seq_out e1 e2 s)"
      proof (cases "fits s (length x)")
        case True
        with f xy p have "\<not> fits (put x s) (length y)" by (simp add: fits_put)
        from encodesD(2) [OF e1 na p xy(1) True] encodesD(3) [OF e2 plain_put [OF p True] xy(2) this]
        show ?thesis by (simp add: seq_out_def)
      next
        case False
        from encodesD(3) [OF e1 na p xy(1) False] show ?thesis
          by (auto simp: seq_out_def split: prod.splits)
      qed }
  qed
qed simp

text \<open>The base case: one write.\<close>

lemma encodes_write:
  assumes "length bs \<le> 2 ^ 62"
  shows "encodes (\<lambda>s. pb_write s bs (length bs)) (Enc bs)"
proof -
  have *: "max_size s < size_add (bytes_written s) (length bs) \<longleftrightarrow> \<not> fits s (length bs)"
    if "plain s" "out_sink s \<noteq> NoSink" for s :: "'a ostream"
    using assms that by (auto simp: plain_def fits_def size_add_exact split: out_sink.splits)
  show ?thesis
  proof (rule encodesI)
    fix s :: "'a ostream" assume p: "plain s"
    then show "within s (snd (pb_write s bs (length bs)))"
    proof (cases "out_sink s = NoSink \<or> fits s (length bs)")
      case True
      with * [OF p] p show ?thesis
        by (cases "out_sink s") (auto simp: pb_write_def out_callback_def buf_write_def plain_def
            within_def fits_def size_add_exact)
    next
      case False
      with * [OF p] within_refl [OF p] show ?thesis
        by (cases "out_sink s") (auto simp: pb_write_def)
    qed
  next
    fix s :: "'a ostream" and ds assume p: "plain s" and e: "Enc bs = Enc ds" and f: "fits s (length ds)"
    then show "pb_write s bs (length bs) = (True, put ds s)"
      using * [OF p]
      by (cases "out_sink s") (auto simp: pb_write_def out_callback_def buf_write_def plain_def put_def)
  next
    fix s :: "'a ostream" and ds assume p: "plain s" and e: "Enc bs = Enc ds" and f: "\<not> fits s (length ds)"
    then show "\<not> fst (pb_write s bs (length bs))"
      using * [OF p]
      by (cases "out_sink s") (auto simp: pb_write_def plain_def fits_def)
  qed simp
qed

end
