(* ===== verification/Pb_Varint.thy ===== *)
theory Pb_Varint
  imports Pb_Buffer Pb_Output
begin

text \<open>
  The scalar encodings of nanopb, encoder against decoder: which bytes each encoder of
  \<open>Pb_Output\<close> writes, and that the decoders of \<open>Pb_Input\<close> give the value back.  The contract
  between the two is the locale \<open>codec\<close>, interpreted for varints of both widths, zig-zag
  varints, both fixed widths and tags.
\<close>

section \<open>The bytes of a varint\<close>

definition varint_bytes :: "u64 \<Rightarrow> byte list" where
  "varint_bytes v = (if v \<le> 0x7F then [ucast v] else varint_buffer v)"

lemma pb_encode_varint_bytes:
  "pb_encode_varint s v = pb_write s (varint_bytes v) (length (varint_bytes v))"
  by (simp add: pb_encode_varint_def varint_bytes_def Let_def)

text \<open>A group with its continuation bit.\<close>

definition cont_byte :: "u64 \<Rightarrow> byte" where
  "cont_byte v = ucast ((v AND 0x7F) OR 0x80)"

lemma cont_byte_low: "cont_byte v AND 0x7F = ucast (v AND 0x7F)"
  by (rule bit_word_eqI) (simp only: cont_byte_def bit_and_iff bit_or_iff bit_ucast_iff bit_7F bit_80, auto)

lemma cont_byte_msb: "cont_byte v AND 0x80 \<noteq> 0"
proof -
  have "bit (cont_byte v AND 0x80) 7" 
    by (simp only: cont_byte_def bit_and_iff bit_or_iff bit_ucast_iff bit_80) simp
  then show ?thesis by auto
qed

lemma small_byte: "v \<le> 0x7F \<Longrightarrow> ucast v AND (0x80 :: byte) = 0 \<and> v AND 0x7F = v" for v :: u64
proof -
  assume "v \<le> 0x7F"
  then have u: "unat v \<le> 127" by (simp add: word_le_nat_alt)
  have "unat (v AND 0x7F) = unat v" using u by (simp add: unat_and_7F)
  then have v: "v AND 0x7F = v" by (rule word_unat_eq_iff [THEN iffD2])
  have "ucast v AND (0x80 :: byte) = ucast (v AND 0x7F) AND 0x80" by (simp only: v)
  also have "\<dots> = 0" by (rule bit_word_eqI) (simp only: bit_and_iff bit_ucast_iff bit_7F bit_80, auto)
  finally show ?thesis using v by simp
qed

lemma varint_groups_step: "v \<noteq> 0 \<Longrightarrow> varint_groups v = cont_byte v # varint_groups (drop_bit 7 v)"
  by (simp add: varint_groups.simps [of v] cont_byte_def)

lemma drop_7_zero: "drop_bit 7 v = 0 \<longleftrightarrow> v \<le> 0x7F" for v :: u64
proof -
  have "drop_bit 7 v = 0 \<longleftrightarrow> unat (drop_bit 7 v) = 0" by (simp only: unsigned_eq_0_iff)
  also have "\<dots> \<longleftrightarrow> unat v < 128" by (simp only: unat_drop_bit) auto
  also have "\<dots> \<longleftrightarrow> v \<le> 0x7F" by (simp add: word_le_nat_alt) linarith
  finally show ?thesis .
qed

text \<open>The loop and the final masking of \<open>pb_encode_varint\<close>, as one recursion.\<close>

lemma varint_bytes_small: "v \<le> 0x7F \<Longrightarrow> varint_bytes v = [ucast v]"
  by (simp add: varint_bytes_def)

lemma varint_buffer_one:
  assumes "v \<noteq> 0" "v \<le> 0x7F" shows "varint_buffer v = [ucast v]"
proof -
  from assms have "varint_groups v = [cont_byte v]"
    by (simp add: varint_groups_step drop_7_zero [THEN iffD2] varint_groups.simps [of 0])
  then show ?thesis
    using small_byte [OF assms(2)] by (simp add: varint_buffer_def cont_byte_low)
qed

lemma varint_bytes_big:
  assumes "\<not> v \<le> 0x7F"
  shows "varint_bytes v = cont_byte v # varint_bytes (drop_bit 7 v)"
proof -
  let ?w = "drop_bit 7 v"
  have v: "v \<noteq> 0" and w: "?w \<noteq> 0" using assms drop_7_zero [of v] by auto
  then have ne: "varint_groups ?w \<noteq> []" by (simp add: varint_groups_step)
  have "varint_buffer v = cont_byte v # varint_buffer ?w"
    using ne by (cases "varint_groups ?w") (auto simp: varint_buffer_def varint_groups_step [OF v] Let_def
        split: nat.splits)
  moreover have "varint_bytes ?w = varint_buffer ?w"
    using w by (simp add: varint_bytes_def varint_buffer_one)
  ultimately show ?thesis using assms by (simp add: varint_bytes_def)
qed

lemma drop_7_less: "\<not> v \<le> 0x7F \<Longrightarrow> unat (drop_bit 7 v) < unat v" for v :: u64
  by (simp only: unat_drop_bit word_le_nat_alt) auto

lemma varint_bytes_induct [case_names small big]:
  fixes v :: u64
  assumes "\<And>v. v \<le> 0x7F \<Longrightarrow> P v" "\<And>v. \<not> v \<le> 0x7F \<Longrightarrow> P (drop_bit 7 v) \<Longrightarrow> P v"
  shows "P v"
proof (induction v rule: measure_induct_rule [of unat])
  case (less v)
  then show ?case by (cases "v \<le> 0x7F") (blast intro: assms drop_7_less)+
qed

lemma varint_bytes_ne [simp]: "varint_bytes v \<noteq> []"
  by (cases "v \<le> 0x7F") (simp_all add: varint_bytes_small varint_bytes_big)

text \<open>The size: one byte for each started group of seven bits.\<close>

lemma length_varint_bytes: "unat v < 2 ^ (7 * k) \<Longrightarrow> 0 < k \<Longrightarrow> length (varint_bytes v) \<le> k"
proof (induction v arbitrary: k rule: varint_bytes_induct)
  case (small v)
  then show ?case by (simp add: varint_bytes_small)
next
  case (big v)
  then have "k \<noteq> 1" by (auto simp: word_le_nat_alt)
  with big.prems(2) obtain k' where k': "k = Suc k'" "0 < k'" by (cases k) auto
  have "unat (drop_bit 7 v) < 2 ^ (7 * k')"
    using big.prems(1) k'(1) by (simp only: unat_drop_bit) (simp add: div_less_iff_less_mult power_add)
  from big.IH [OF this k'(2)] show ?case using big.hyps k' by (simp add: varint_bytes_big)
qed

lemma length_varint_bytes_10: "length (varint_bytes v) \<le> 10"
proof -
  have "unat v < 2 ^ 64" using unsigned_less [of v] by simp
  then have "unat v < 2 ^ (7 * 10)" by simp
  then show ?thesis by (rule length_varint_bytes) simp
qed

text \<open>The decoder's view of these bytes.\<close>

lemma split_varint_bytes: "split_varint (varint_bytes v @ rest) = Some (varint_bytes v, rest)"
proof (induction v rule: varint_bytes_induct)
  case (small v)
  then show ?case using small_byte [OF small] by (simp add: varint_bytes_small)
next
  case (big v)
  then show ?case by (simp add: varint_bytes_big cont_byte_msb)
qed

lemma varint_val_bytes: "varint_val (varint_bytes v) = unat v"
proof (induction v rule: varint_bytes_induct)
  case (small v)
  have b: "ucast v AND (0x7F :: byte) = ucast v"
    using small_byte [OF small] by (intro byte_msb_clear) simp
  have "unat v \<le> 127" using small by (simp add: word_le_nat_alt)
  then have "unat (ucast v :: byte) = unat v"
    by (simp add: unsigned_ucast_eq take_bit_nat_eq_self)
  with small b show ?case by (simp add: varint_bytes_small)
next
  case (big v)
  have "unat (v AND 0x7F) \<le> 127" by (simp add: unat_and_7F)
  then have "unat (ucast (v AND 0x7F) :: byte) = unat v mod 128"
    by (simp add: unsigned_ucast_eq take_bit_nat_eq_self) (simp add: unat_and_7F)
  moreover have "unat (drop_bit 7 v) = unat v div 128" by (simp only: unat_drop_bit) simp
  ultimately show ?case using big by (simp add: varint_bytes_big cont_byte_low)
qed

section \<open>The contract between an encoder and a decoder\<close>

text \<open>
  \<open>bytes v\<close> is the encoding of \<open>v\<close>; the decoder reads it off the front of any buffer, whatever
  follows, and leaves the rest alone.
\<close>

locale codec =
  fixes enc :: "'s ostream \<Rightarrow> 'v \<Rightarrow> bool \<times> 's ostream"
    and dec :: "'t istream \<Rightarrow> 'w option \<times> 't istream"
    and bytes :: "'v \<Rightarrow> byte list"
    and val :: "'v \<Rightarrow> 'w"
    and valid :: "'v \<Rightarrow> bool"
  assumes enc_bytes: "encodes (\<lambda>s. enc s v) (Enc (bytes v))"
    and dec_bytes: "valid v \<Longrightarrow> buf_ok s \<Longrightarrow> contents s = bytes v @ rest \<Longrightarrow>
      dec s = (Some (val v), adv (length (bytes v)) s)"
begin

lemma enc_fits: "plain s \<Longrightarrow> fits s (length (bytes v)) \<Longrightarrow> enc s v = (True, put (bytes v) s)"
  using encodesD(2) [OF enc_bytes] by blast

lemma enc_sizing:
  "enc PB_OSTREAM_SIZING v = (True, PB_OSTREAM_SIZING\<lparr>bytes_written := size_add 0 (length (bytes v))\<rparr>)"
  by (subst enc_fits) (simp_all add: plain_def fits_def PB_OSTREAM_SIZING_def put_def)

lemma dec_front:
  assumes "valid v"
  shows "dec (pb_istream_from_buffer (bytes v @ rest) (length (bytes v @ rest))) =
     (Some (val v), pb_istream_from_buffer rest (length rest))"
proof -
  have "adv (length (bytes v)) (pb_istream_from_buffer (bytes v @ rest) (length (bytes v @ rest))) =
      pb_istream_from_buffer rest (length rest)"
    by (simp add: adv_def pb_istream_from_buffer_def)
  with dec_bytes [OF assms buf_ok_from_buffer [OF order_refl], of "bytes v @ rest" rest]
  show ?thesis by simp
qed
text \<open>Through a real buffer that is large enough.\<close>

lemma enc_buffer:
  assumes "length (bytes v) \<le> n" "n \<le> 2 ^ 63"
  shows "enc (pb_ostream_from_buffer n) v =
    (True, put (bytes v) (pb_ostream_from_buffer n))"
  by (rule enc_fits) (use assms in \<open>simp_all add: plain_def fits_def pb_ostream_from_buffer_def\<close>)

end

definition written :: "'s ostream \<Rightarrow> byte list" where
  "written s = (case out_sink s of BufSink out \<Rightarrow> out | _ \<Rightarrow> [])"

lemma written_put [simp]: "written (put bs (pb_ostream_from_buffer n)) = bs"
  by (simp add: written_def put_def pb_ostream_from_buffer_def)

text \<open>Encoding to a buffer and decoding the result followed by anything.\<close>

definition roundtrips :: "nat \<Rightarrow> ('s ostream \<Rightarrow> bool \<times> 's ostream) \<Rightarrow> ('t istream \<Rightarrow> 'w option \<times> 't istream) \<Rightarrow> 'w \<Rightarrow> bool" where
  "roundtrips n e d v \<longleftrightarrow> (let (ok, s) = e (pb_ostream_from_buffer n) in ok \<and> length (written s) \<le> n \<and>
     (\<forall>rest. d (pb_istream_from_buffer (written s @ rest) (length (written s @ rest))) =
        (Some v, pb_istream_from_buffer rest (length rest))))"

lemma (* shared by the round trips below *) codec_roundtrips:
  assumes "codec enc dec bytes val valid" "valid v" "length (bytes v) \<le> n" "n \<le> 2 ^ 63"
  shows "roundtrips n (\<lambda>s. enc s v) dec (val v)"
  using codec.enc_buffer [OF assms(1,3,4)] codec.dec_front [OF assms(1,2)] assms(3)
  by (simp add: roundtrips_def)

section \<open>The codecs\<close>

lemma encodes_varint: "encodes (\<lambda>s. pb_encode_varint s v) (Enc (varint_bytes v))"
  unfolding pb_encode_varint_bytes
  by (rule encodes_write) (rule order_trans [OF length_varint_bytes_10], simp)

lemma decode_varint_bytes:
  "buf_ok s \<Longrightarrow> contents s = varint_bytes v @ rest \<Longrightarrow>
   pb_decode_varint s = (Some v, adv (length (varint_bytes v)) s)"
  by (simp add: pb_decode_varint_eq decoded_def split_varint_bytes length_varint_bytes_10 varint_val_bytes)

lemma decode_varint32_bytes:
  assumes "buf_ok s" "contents s = varint_bytes (ucast v) @ rest"
  shows "pb_decode_varint32 s = (Some v, adv (length (varint_bytes (ucast v))) s)"
proof -
  have lt: "unat v < 2 ^ 32" using unsigned_less [of v, where ?'a = nat] by simp
  then have "unat v < 2 ^ 64" by (rule less_trans) simp
  then have u: "unat (ucast v :: u64) = unat v" by (simp add: unsigned_ucast_eq take_bit_nat_eq_self)
  have "unat (ucast v :: u64) < 2 ^ (7 * 5)"
    unfolding u by (rule less_trans [OF lt]) simp
  then have "length (varint_bytes (ucast v)) \<le> 5" by (rule length_varint_bytes) simp
  with assms u show ?thesis
    by (simp add: pb_decode_varint32_eq decoded_def split_varint_bytes varint_val_bytes)
qed

interpretation varint: codec pb_encode_varint pb_decode_varint varint_bytes "\<lambda>v. v" "\<lambda>_. True"
  by unfold_locales (auto intro: encodes_varint decode_varint_bytes)

interpretation varint32: codec "\<lambda>s v. pb_encode_varint s (ucast v)" pb_decode_varint32
    "\<lambda>v. varint_bytes (ucast v)" "\<lambda>v. v" "\<lambda>_. True"
  by unfold_locales (auto intro: encodes_varint decode_varint32_bytes)

text \<open>Zig-zag.\<close>

lemma sless_0_bit: "v <s 0 \<longleftrightarrow> bit v 63" for v :: u64
  using bit_last_iff [of v] by (simp add: word_sless_alt)

lemma shift_neg: "bit v 63 \<Longrightarrow> NOT (drop_bit 1 (NOT (push_bit 1 v))) = v" for v :: u64
  by (rule bit_word_eqI)
    (simp only: bit_not_iff bit_drop_bit_eq bit_push_bit_iff o_def possible_bit_word,
     use less_antisym [of _ 63] in \<open>fastforce simp: less_Suc_eq\<close>)

lemma shift_pos: "\<not> bit v 63 \<Longrightarrow> drop_bit 1 (push_bit 1 v) = v" for v :: u64
  by (rule bit_word_eqI)
    (simp only: bit_drop_bit_eq bit_push_bit_iff o_def possible_bit_word,
     use less_antisym [of _ 63] in \<open>fastforce simp: less_Suc_eq\<close>)

lemma unzigzag:
  "(if zigzag v AND 1 \<noteq> 0 then NOT (drop_bit 1 (zigzag v)) else drop_bit 1 (zigzag v)) = v"
proof -
  have odd: "zigzag v AND 1 \<noteq> 0 \<longleftrightarrow> bit v 63"
  proof -
    have "zigzag v AND 1 \<noteq> 0 \<longleftrightarrow> bit (zigzag v) 0"
      by (simp add: and_one_eq bit_0 odd_iff_mod_2_eq_one)
    also have "\<dots> \<longleftrightarrow> bit v 63"
      unfolding zigzag_def sless_0_bit by (simp only: if_distrib [where f = "\<lambda>w. bit w 0"] bit_not_iff bit_push_bit_iff) simp
    finally show ?thesis .
  qed
  show ?thesis
  proof (cases "bit v 63")
    case True
    then have "zigzag v = NOT (push_bit 1 v)" unfolding zigzag_def sless_0_bit by simp
    with True show ?thesis unfolding odd by (simp only: if_True shift_neg [OF True])
  next
    case False
    then have "zigzag v = push_bit 1 v" unfolding zigzag_def sless_0_bit by simp
    with False show ?thesis unfolding odd by (simp only: if_False shift_pos [OF False])
  qed
qed

interpretation svarint: codec pb_encode_svarint pb_decode_svarint "\<lambda>v. varint_bytes (zigzag v)"
    "\<lambda>v. v" "\<lambda>_. True"
proof
  show "encodes (\<lambda>s. pb_encode_svarint s v) (Enc (varint_bytes (zigzag v)))" for v
    unfolding pb_encode_svarint_def by (rule encodes_varint)
next
  fix v rest and s :: "'b istream"
  assume "buf_ok s" "contents s = varint_bytes (zigzag v) @ rest"
  from decode_varint_bytes [OF this] unzigzag [of v]
  show "pb_decode_svarint s = (Some v, adv (length (varint_bytes (zigzag v))) s)"
    by (simp add: pb_decode_svarint_def)
qed

text \<open>Fixed width: the encoder's bytes are the little-endian ones.\<close>

lemma ucast_and_FF: "ucast (v AND 0xFF) = (ucast v :: byte)" for v :: "'a::len word"
proof -
  have m: "(0xFF :: 'a word) = mask 8" by (simp add: mask_eq_exp_minus_1)
  show ?thesis unfolding m by (rule bit_word_eqI) (auto simp: bit_ucast_iff bit_and_iff bit_mask_iff dest: bit_imp_le_length)
qed

lemma encode_fixed32_le: "pb_encode_fixed32 s v = pb_write s (le_bytes 4 v) (length (le_bytes 4 v))"
  by (simp add: pb_encode_fixed32_def ucast_and_FF le_bytes_def upt_rec numeral_eq_Suc)

lemma encode_fixed64_le: "pb_encode_fixed64 s v = pb_write s (le_bytes 8 v) (length (le_bytes 8 v))"
  by (simp add: pb_encode_fixed64_def ucast_and_FF le_bytes_def upt_rec numeral_eq_Suc)

lemma length_4: "length xs = 4 \<Longrightarrow> xs = [xs ! 0, xs ! 1, xs ! 2, xs ! 3]"
  by (rule nth_equalityI) (auto simp: less_Suc_eq numeral_eq_Suc)

lemma length_8: "length xs = 8 \<Longrightarrow> xs = [xs ! 0, xs ! 1, xs ! 2, xs ! 3, xs ! 4, xs ! 5, xs ! 6, xs ! 7]"
  by (rule nth_equalityI) (auto simp: less_Suc_eq numeral_eq_Suc)

lemma decode_fixed32_le:
  assumes "buf_ok s"
  shows "pb_decode_fixed32 s = (if 4 \<le> bytes_left s then (Some (of_le (take 4 (contents s))), adv 4 s)
    else (None, in_fail ''end-of-stream'' s))"
proof (cases "4 \<le> bytes_left s")
  case True
  let ?b = "take 4 (contents s)"
  have "of_le ?b = (of_le [?b ! 0, ?b ! 1, ?b ! 2, ?b ! 3] :: u32)"
    using length_4 [of ?b] True assms by simp
  with True show ?thesis
    by (simp add: pb_decode_fixed32_def pb_read_buf_eq [OF assms] push_bit_or push_bit_push_bit del: nth_take)
qed (simp add: pb_decode_fixed32_def pb_read_buf_eq [OF assms])

lemma decode_fixed64_le:
  assumes "buf_ok s"
  shows "pb_decode_fixed64 s = (if 8 \<le> bytes_left s then (Some (of_le (take 8 (contents s))), adv 8 s)
    else (None, in_fail ''end-of-stream'' s))"
proof (cases "8 \<le> bytes_left s")
  case True
  let ?b = "take 8 (contents s)"
  have "of_le ?b = (of_le [?b ! 0, ?b ! 1, ?b ! 2, ?b ! 3, ?b ! 4, ?b ! 5, ?b ! 6, ?b ! 7] :: u64)"
    using length_8 [of ?b] True assms by simp
  with True show ?thesis
    by (simp add: pb_decode_fixed64_def pb_read_buf_eq [OF assms] push_bit_or push_bit_push_bit del: nth_take)
qed (simp add: pb_decode_fixed64_def pb_read_buf_eq [OF assms])

interpretation fixed32: codec pb_encode_fixed32 pb_decode_fixed32 "le_bytes 4" "\<lambda>v. v" "\<lambda>_. True"
proof
  show "encodes (\<lambda>s. pb_encode_fixed32 s v) (Enc (le_bytes 4 v))" for v
    unfolding encode_fixed32_le by (rule encodes_write) simp
next
  fix v :: u32 and rest and s :: "'b istream"
  assume b: "buf_ok s" and c: "contents s = le_bytes 4 v @ rest"
  from length_contents [OF b] have "4 \<le> bytes_left s" by (simp add: c)
  then show "pb_decode_fixed32 s = (Some v, adv (length (le_bytes 4 v)) s)"
    by (simp add: decode_fixed32_le [OF b] c of_le_le_bytes_full)
qed

interpretation fixed64: codec pb_encode_fixed64 pb_decode_fixed64 "le_bytes 8" "\<lambda>v. v" "\<lambda>_. True"
proof
  show "encodes (\<lambda>s. pb_encode_fixed64 s v) (Enc (le_bytes 8 v))" for v
    unfolding encode_fixed64_le by (rule encodes_write) simp
next
  fix v :: u64 and rest and s :: "'b istream"
  assume b: "buf_ok s" and c: "contents s = le_bytes 8 v @ rest"
  from length_contents [OF b] have "8 \<le> bytes_left s" by (simp add: c)
  then show "pb_decode_fixed64 s = (Some v, adv (length (le_bytes 8 v)) s)"
    by (simp add: decode_fixed64_le [OF b] c of_le_le_bytes_full)
qed

text \<open>Tags: the wire type in the low three bits, the field number above them.\<close>

definition tag32 :: "pb_wire_type \<times> u32 \<Rightarrow> u32" where
  "tag32 t = push_bit 3 (snd t) OR fst t"

text \<open>Only the low 29 bits of a field number reach the decoder, and the tag 0 ends a message.\<close>

definition valid_tag :: "pb_wire_type \<times> u32 \<Rightarrow> bool" where
  "valid_tag t \<longleftrightarrow> fst t < 8 \<and> snd t < 2 ^ 29 \<and> t \<noteq> (0, 0)"

definition tag_result :: "(bool + 'a) \<times> 'b \<Rightarrow> 'a option \<times> 'b" where
  "tag_result r = (case fst r of Inl _ \<Rightarrow> None | Inr x \<Rightarrow> Some x, snd r)"

lemma valid_tag_bits:
  assumes "valid_tag (wt, n)"
  shows "bit wt k \<Longrightarrow> k < 3" "bit n k \<Longrightarrow> k < 29"
proof -
  have wt: "take_bit 3 wt = wt" and n: "take_bit 29 n = n"
    using assms by (simp_all add: valid_tag_def take_bit_lt)
  show "bit wt k \<Longrightarrow> k < 3" using wt by (metis bit_take_bit_iff)
  show "bit n k \<Longrightarrow> k < 29" using n by (metis bit_take_bit_iff)
qed

lemma tag_word_32: "valid_tag t \<Longrightarrow> tag_word (fst t) (snd t) = ucast (tag32 t)"
  using valid_tag_bits [of "fst t" "snd t"]
  by (intro bit_word_eqI)
    (simp only: tag_word_def tag32_def bit_or_iff bit_push_bit_iff bit_ucast_iff possible_bit_word,
     fastforce dest: bit_imp_le_length)

lemma tag32_parts:
  assumes "valid_tag t"
  shows "tag32 t AND 7 = fst t" "drop_bit 3 (tag32 t) = snd t" "tag32 t \<noteq> 0"
proof -
  note b = valid_tag_bits [of "fst t" "snd t", simplified, OF assms]
  have m: "(7 :: u32) = mask 3" by (simp add: mask_eq_exp_minus_1)
  show 1: "tag32 t AND 7 = fst t" unfolding m
    by (rule bit_word_eqI)
      (simp only: tag32_def bit_and_iff bit_or_iff bit_push_bit_iff bit_mask_iff possible_bit_word,
       use b in fastforce)
  show 2: "drop_bit 3 (tag32 t) = snd t"
    by (rule bit_word_eqI)
      (simp only: tag32_def bit_drop_bit_eq bit_or_iff bit_push_bit_iff possible_bit_word o_def,
       use b in fastforce)
  show "tag32 t \<noteq> 0" using assms 1 2 by (cases t) (auto simp: valid_tag_def)
qed

lemma decode_tag_bytes:
  assumes "valid_tag t" "buf_ok s" "contents s = varint_bytes (tag_word (fst t) (snd t)) @ rest"
  shows "pb_decode_tag s = (Inr t, adv (length (varint_bytes (tag_word (fst t) (snd t)))) s)"
  using decode_varint32_bytes [OF assms(2), of "tag32 t" rest] assms(3) tag32_parts [OF assms(1)]
  by (simp add: pb_decode_tag_def tag_word_32 [OF assms(1)])

interpretation tag: codec "\<lambda>s t. pb_encode_tag s (fst t) (snd t)" "\<lambda>s. tag_result (pb_decode_tag s)"
    "\<lambda>t. varint_bytes (tag_word (fst t) (snd t))" "\<lambda>t. t" valid_tag
  by unfold_locales
    (auto simp: pb_encode_tag_def tag_result_def decode_tag_bytes intro: encodes_varint)

section \<open>Properties\<close>

text \<open>C29: any 64-bit value survives \<open>pb_encode_varint\<close> into a 10-byte buffer followed by
  \<open>pb_decode_varint\<close>, and the decoder stops exactly behind it, whatever follows.\<close>

theorem varint_roundtrip: "roundtrips 10 (\<lambda>s. pb_encode_varint s v) pb_decode_varint v"
  by (rule codec_roundtrips [OF varint.codec_axioms]) (simp_all add: length_varint_bytes_10)

text \<open>The same for zig-zag varints: every signed 64-bit value survives.\<close>

theorem svarint_roundtrip: "roundtrips 10 (\<lambda>s. pb_encode_svarint s v) pb_decode_svarint v"
  by (rule codec_roundtrips [OF svarint.codec_axioms]) (simp_all add: length_varint_bytes_10)

text \<open>Fixed-width integers of both sizes survive, in exactly 4 and 8 bytes.\<close>

theorem fixed_roundtrip:
  "roundtrips 4 (\<lambda>s. pb_encode_fixed32 s v) pb_decode_fixed32 v \<and>
   roundtrips 8 (\<lambda>s. pb_encode_fixed64 s w) pb_decode_fixed64 w"
  by (simp add: codec_roundtrips [OF fixed32.codec_axioms] codec_roundtrips [OF fixed64.codec_axioms])

text \<open>A tag with a wire type below 8 and a field number below \<open>2 ^ 29\<close>, not both zero,
  survives; the decoder reports neither an error nor the end of the message.\<close>

theorem tag_roundtrip:
  "valid_tag t \<Longrightarrow>
   roundtrips 10 (\<lambda>s. pb_encode_tag s (fst t) (snd t)) (\<lambda>s. tag_result (pb_decode_tag s)) t"
  by (rule codec_roundtrips [OF tag.codec_axioms]) (simp_all add: length_varint_bytes_10)

theorem tag_roundtrip_witness:
  "roundtrips 10 (\<lambda>s. pb_encode_tag s 2 536870911) (\<lambda>s. tag_result (pb_decode_tag s)) (2, 536870911)"
  using tag_roundtrip [of "(2, 536870911)"] by (simp add: valid_tag_def)

text \<open>\<open>pb_decode_varint\<close> on any memory buffer: it succeeds exactly when one of the first
  ten bytes ends a varint and then returns its value modulo \<open>2 ^ 64\<close>; on a buffer that is too
  short it consumes everything and reports the end of the stream, and after ten continuation
  bytes it reports an overflow.\<close>

theorem decode_varint_total:
  "pb_decode_varint (pb_istream_from_buffer buf (length buf)) =
    (case split_varint buf of
       Some (p, rest) \<Rightarrow>
         if length p \<le> 10 then (Some (word_of_nat (varint_val p)), pb_istream_from_buffer rest (length rest))
         else (None, in_fail ''varint overflow'' (adv 10 (pb_istream_from_buffer buf (length buf))))
     | None \<Rightarrow>
         (None, if length buf < 10
           then in_fail ''end-of-stream'' (pb_istream_from_buffer [] 0)
           else in_fail ''varint overflow'' (adv 10 (pb_istream_from_buffer buf (length buf)))))"
  by (cases "split_varint buf") (auto simp: pb_decode_varint_eq decoded_def dest!: split_varint_append)


end
