(* ===== verification/Pb_Decode.thy ===== *)
theory Pb_Decode
  imports Pb_Common Pb_Input
begin

text \<open>
  \<open>nanopb/pb_decode.c\<close>, lines 353-1379: the decoders of single values, the dispatch on the
  type byte of a field, unknown fields and extensions, default values, and the message loop.

  A message struct is a piece of the byte memory.  Every function takes the stream and the
  memory and returns whether it succeeded, the stream and the memory.  The functions of the C
  file call each other in a cycle (a field may be a submessage); here each takes the decoder
  of submessages (\<open>sub\<close>) and the initialiser of submessages (\<open>dflt\<close>) as arguments, and the
  cycle is closed at the end of the file by recursion on a bound on the nesting depth.

  User code reached through function pointers is a parameter (\<open>env\<close>): the decode callbacks by
  address, and the extension types by address.  A loop that user code may keep alive takes its
  bound from \<open>loop_fuel\<close>; running out of any bound is the error \<open>out_of_fuel\<close>.
  Calling a NULL entry of \<open>PB_DECODERS\<close> is undefined in C and fails here (\<open>bad_call\<close>).
\<close>

type_synonym 's dec_result = "bool \<times> 's istream \<times> mem"
type_synonym 's sub_decoder = "'s istream \<Rightarrow> pb_field list \<Rightarrow> addr \<Rightarrow> mem \<Rightarrow> bool \<times> 's istream \<times> mem"
type_synonym sub_default = "pb_field list \<Rightarrow> addr \<Rightarrow> mem \<Rightarrow> mem"
type_synonym 's pb_decoder = "'s istream \<Rightarrow> pb_field \<Rightarrow> addr \<Rightarrow> mem \<Rightarrow> bool \<times> 's istream \<times> mem"

record 's dec_env =
  user_decode :: "addr \<Rightarrow> 's istream \<Rightarrow> pb_field \<Rightarrow> addr \<Rightarrow> mem \<Rightarrow> bool \<times> 's istream \<times> mem"
  ext_arg :: "addr \<Rightarrow> pb_field"
  ext_decode :: "addr \<Rightarrow> ('s istream \<Rightarrow> addr \<Rightarrow> u32 \<Rightarrow> pb_wire_type \<Rightarrow> mem \<Rightarrow> bool \<times> 's istream \<times> mem) option"
  loop_fuel :: nat

definition dec_error :: "string \<Rightarrow> 's istream \<Rightarrow> mem \<Rightarrow> bool \<times> 's istream \<times> mem" where
  "dec_error msg s m = (False, in_fail msg s, m)"

definition out_of_fuel :: "'s istream \<Rightarrow> mem \<Rightarrow> bool \<times> 's istream \<times> mem" where
  "out_of_fuel = dec_error ''(out of fuel)''"

definition bad_call :: "'s istream \<Rightarrow> mem \<Rightarrow> bool \<times> 's istream \<times> mem" where
  "bad_call = dec_error ''(call of a null pointer)''"

section \<open>Decoders of single values\<close>

text \<open>The assignment \<open>clamped = *(intN_t * )dest = (intN_t)svalue\<close> for the four sizes: the
  value read back, sign-extended or zero-extended to 64 bits.\<close>

definition clamp_signed :: "nat \<Rightarrow> u64 \<Rightarrow> u64 option" where
  "clamp_signed n v =
     (if n = 8 then Some v
      else if n = 4 then Some (scast (ucast v :: u32))
      else if n = 2 then Some (scast (ucast v :: u16))
      else if n = 1 then Some (scast (ucast v :: u8))
      else None)"

definition clamp_unsigned :: "nat \<Rightarrow> u64 \<Rightarrow> u64 option" where
  "clamp_unsigned n v =
     (if n = 8 then Some v
      else if n = 4 then Some (ucast (ucast v :: u32))
      else if n = 2 then Some (ucast (ucast v :: u16))
      else if n = 1 then Some (ucast (ucast v :: u8))
      else None)"

definition store_clamped ::
    "u64 option \<Rightarrow> u64 \<Rightarrow> 's istream \<Rightarrow> pb_field \<Rightarrow> addr \<Rightarrow> mem \<Rightarrow> bool \<times> 's istream \<times> mem" where
  "store_clamped clamped v s f dest m = (case clamped of
     None \<Rightarrow> dec_error ''invalid data_size'' s m
   | Some c \<Rightarrow>
       let m' = store m dest (le_bytes (dsize f) v) in
       if c \<noteq> v then dec_error ''integer too large'' s m' else (True, s, m'))"

definition pb_dec_varint :: "'s pb_decoder" where
  "pb_dec_varint s f dest m = (case pb_decode_varint s of
     (None, s') \<Rightarrow> (False, s', m)
   | (Some value, s') \<Rightarrow>
       let svalue = (if dsize f = 8 then value else scast (ucast value :: u32)) in
       store_clamped (clamp_signed (dsize f) svalue) svalue s' f dest m)"

definition pb_dec_uvarint :: "'s pb_decoder" where
  "pb_dec_uvarint s f dest m = (case pb_decode_varint s of
     (None, s') \<Rightarrow> (False, s', m)
   | (Some value, s') \<Rightarrow> store_clamped (clamp_unsigned (dsize f) value) value s' f dest m)"

definition pb_dec_svarint :: "'s pb_decoder" where
  "pb_dec_svarint s f dest m = (case pb_decode_svarint s of
     (None, s') \<Rightarrow> (False, s', m)
   | (Some value, s') \<Rightarrow> store_clamped (clamp_signed (dsize f) value) value s' f dest m)"

definition pb_dec_fixed32 :: "'s pb_decoder" where
  "pb_dec_fixed32 s f dest m = (case pb_decode_fixed32 s of
     (None, s') \<Rightarrow> (False, s', m)
   | (Some v, s') \<Rightarrow> (True, s', store m dest (le_bytes 4 v)))"

definition pb_dec_fixed64 :: "'s pb_decoder" where
  "pb_dec_fixed64 s f dest m = (case pb_decode_fixed64 s of
     (None, s') \<Rightarrow> (False, s', m)
   | (Some v, s') \<Rightarrow> (True, s', store m dest (le_bytes 8 v)))"

text \<open>\<open>pb_read\<close> into the memory at \<open>dest\<close>.\<close>

definition read_to :: "'s istream \<Rightarrow> addr \<Rightarrow> nat \<Rightarrow> mem \<Rightarrow> bool \<times> 's istream \<times> mem" where
  "read_to s dest count m = (case pb_read s False count of
     (ok, bs, s') \<Rightarrow> (ok, s', store m dest bs))"

text \<open>\<open>PB_BYTES_ARRAY_T_ALLOCSIZE\<close>: the bytes follow the four bytes of \<open>size\<close>.\<close>

definition PB_BYTES_ARRAY_T_ALLOCSIZE :: "nat \<Rightarrow> nat" where
  "PB_BYTES_ARRAY_T_ALLOCSIZE n = size_add n 4"

definition pb_dec_bytes :: "'s pb_decoder" where
  "pb_dec_bytes s f dest m = (case pb_decode_varint32 s of
     (None, s') \<Rightarrow> (False, s', m)
   | (Some sz, s') \<Rightarrow>
       if PB_SIZE_MAX < sz then dec_error ''bytes overflow'' s' m
       else let alloc_size = PB_BYTES_ARRAY_T_ALLOCSIZE (unat sz) in
       if alloc_size < unat sz then dec_error ''size too large'' s' m
       else if atype f = PB_ATYPE_POINTER then dec_error ''no malloc support'' s' m
       else if dsize f < alloc_size then dec_error ''bytes overflow'' s' m
       else read_to s' (dest + 4) (unat sz) (store_u32 m dest sz))"

definition pb_dec_string :: "'s pb_decoder" where
  "pb_dec_string s f dest m = (case pb_decode_varint32 s of
     (None, s') \<Rightarrow> (False, s', m)
   | (Some sz, s') \<Rightarrow>
       let alloc_size = unat (sz + 1) in
       if alloc_size < unat sz then dec_error ''size too large'' s' m
       else if atype f = PB_ATYPE_POINTER then dec_error ''no malloc support'' s' m
       else if dsize f < alloc_size then dec_error ''string overflow'' s' m
       else case read_to s' dest (unat sz) m of
           (status, s'', m') \<Rightarrow> (status, s'', store m' (dest + int (unat sz)) [0]))"

definition memset0 :: "mem \<Rightarrow> addr \<Rightarrow> nat \<Rightarrow> mem" where
  "memset0 m a n = store m a (replicate n 0)"

definition pb_dec_fixed_length_bytes :: "'s pb_decoder" where
  "pb_dec_fixed_length_bytes s f dest m = (case pb_decode_varint32 s of
     (None, s') \<Rightarrow> (False, s', m)
   | (Some sz, s') \<Rightarrow>
       if PB_SIZE_MAX < sz then dec_error ''bytes overflow'' s' m
       else if sz = 0 then (True, s', memset0 m dest (dsize f))
       else if unat sz \<noteq> dsize f then dec_error ''incorrect fixed length bytes size'' s' m
       else read_to s' dest (dsize f) m)"

text \<open>Submessages.  In a new array entry the defaults are set first (\<open>pb_decode\<close>).\<close>

definition pb_dec_submessage :: "'s sub_decoder \<Rightarrow> sub_default \<Rightarrow> 's pb_decoder" where
  "pb_dec_submessage sub dflt s f dest m = (case pb_make_string_substream s of
     (None, s') \<Rightarrow> (False, s', m)
   | (Some substream, s') \<Rightarrow>
       if pf_ptr f = NullPtr then dec_error ''invalid field descriptor'' s' m
       else
         let flds = submsg_fields f in
         case (if htype f = PB_HTYPE_REPEATED then sub substream flds dest (dflt flds dest m)
               else sub substream flds dest m) of
           (status, substream', m') \<Rightarrow>
             (case pb_close_string_substream s' substream' of
                (False, s'') \<Rightarrow> (False, s'', m')
              | (True, s'') \<Rightarrow> (status, s'', m')))"

text \<open>The table \<open>PB_DECODERS\<close>, indexed by \<open>PB_LTYPE\<close>.\<close>

definition PB_DECODERS :: "'s sub_decoder \<Rightarrow> sub_default \<Rightarrow> u8 \<Rightarrow> 's pb_decoder" where
  "PB_DECODERS sub dflt l =
     (if l = PB_LTYPE_VARINT then pb_dec_varint
      else if l = PB_LTYPE_UVARINT then pb_dec_uvarint
      else if l = PB_LTYPE_SVARINT then pb_dec_svarint
      else if l = PB_LTYPE_FIXED32 then pb_dec_fixed32
      else if l = PB_LTYPE_FIXED64 then pb_dec_fixed64
      else if l = PB_LTYPE_BYTES then pb_dec_bytes
      else if l = PB_LTYPE_STRING then pb_dec_string
      else if l = PB_LTYPE_SUBMESSAGE then pb_dec_submessage sub dflt
      else if l = PB_LTYPE_FIXED_LENGTH_BYTES then pb_dec_fixed_length_bytes
      else (\<lambda>s f dest m. bad_call s m))"

section \<open>Decoding one field\<close>

text \<open>The packed array: items are decoded while there is data and room.  Each item takes at
  least a byte, so the length of the data bounds the loop.\<close>

fun packed_loop :: "'s pb_decoder \<Rightarrow> nat \<Rightarrow> 's istream \<Rightarrow> pb_field_iter \<Rightarrow> mem \<Rightarrow> bool \<times> 's istream \<times> mem" where
  "packed_loop func fuel s it m =
     (let f = it_field it; sz = load_u32 m (it_pSize it) in
      if 0 < bytes_left s \<and> sz < pf_array_size f then
        (case fuel of 0 \<Rightarrow> out_of_fuel s m
         | Suc fuel' \<Rightarrow>
            (case func s f (it_pData it + uint (pf_data_size f * sz)) m of
               (False, s', m') \<Rightarrow> (False, s', m')
             | (True, s', m') \<Rightarrow> packed_loop func fuel' s' it
                 (store_u32 m' (it_pSize it) (load_u32 m' (it_pSize it) + 1))))
      else (True, s, m))"

declare packed_loop.simps [simp del]

definition decode_packed :: "'s pb_decoder \<Rightarrow> 's istream \<Rightarrow> pb_field_iter \<Rightarrow> mem \<Rightarrow> bool \<times> 's istream \<times> mem" where
  "decode_packed func s it m = (case pb_make_string_substream s of
     (None, s') \<Rightarrow> (False, s', m)
   | (Some substream, s') \<Rightarrow>
      (case packed_loop func (bytes_left substream) substream it m of
         (status, substream', m') \<Rightarrow>
           if bytes_left substream' \<noteq> 0 then dec_error ''array overflow'' s' m'
           else (case pb_close_string_substream s' substream' of
              (False, s'') \<Rightarrow> (False, s'', m')
            | (True, s'') \<Rightarrow> (status, s'', m'))))"

definition decode_repeated :: "'s pb_decoder \<Rightarrow> 's istream \<Rightarrow> pb_field_iter \<Rightarrow> mem \<Rightarrow> bool \<times> 's istream \<times> mem" where
  "decode_repeated func s it m =
     (let f = it_field it; sz = load_u32 m (it_pSize it);
          pItem = it_pData it + uint (pf_data_size f * sz) in
      if pf_array_size f \<le> sz then dec_error ''array overflow'' s m
      else func s f pItem (store_u32 m (it_pSize it) (sz + 1)))"

definition decode_static_field :: "'s sub_decoder \<Rightarrow> sub_default \<Rightarrow> 's istream \<Rightarrow> pb_wire_type \<Rightarrow>
    pb_field_iter \<Rightarrow> mem \<Rightarrow> bool \<times> 's istream \<times> mem" where
  "decode_static_field sub dflt s wire_type it m =
     (let f = it_field it; func = PB_DECODERS sub dflt (ltype f) in
      if htype f = PB_HTYPE_REQUIRED then func s f (it_pData it) m
      else if htype f = PB_HTYPE_OPTIONAL then
        func s f (it_pData it)
          (if it_pSize it \<noteq> it_pData it then store_bool m (it_pSize it) True else m)
      else if htype f = PB_HTYPE_REPEATED then
        if wire_type = PB_WT_STRING \<and> ltype f \<le> PB_LTYPE_LAST_PACKABLE
        then decode_packed func s it m
        else decode_repeated func s it m
      else if htype f = PB_HTYPE_ONEOF then
        let m1 = store_u32 m (it_pSize it) (pf_tag f) in
        func s f (it_pData it)
          (if ltype f = PB_LTYPE_SUBMESSAGE
           then dflt (submsg_fields f) (it_pData it) (memset0 m1 (it_pData it) (dsize f))
           else m1)
      else dec_error ''invalid field type'' s m)"

definition decode_pointer_field :: "'s istream \<Rightarrow> pb_wire_type \<Rightarrow> pb_field_iter \<Rightarrow> mem \<Rightarrow> bool \<times> 's istream \<times> mem" where
  "decode_pointer_field s wire_type it m = dec_error ''no malloc support'' s m"

text \<open>\<open>pb_callback_t\<close>: the function pointer, then \<open>arg\<close>.  The function pointer is read again
  before every call.\<close>

fun callback_loop :: "'s dec_env \<Rightarrow> nat \<Rightarrow> 's istream \<Rightarrow> pb_field_iter \<Rightarrow> mem \<Rightarrow> bool \<times> 's istream \<times> mem" where
  "callback_loop env 0 s it m = out_of_fuel s m"
| "callback_loop env (Suc fuel) s it m =
     (case user_decode env (load_ptr m (it_pData it)) s (it_field it) (it_pData it + 8) m of
        (False, s', m') \<Rightarrow> (False, s', m')
      | (True, s', m') \<Rightarrow>
          if bytes_left s' \<noteq> 0 then callback_loop env fuel s' it m' else (True, s', m'))"

definition decode_callback_field :: "'s dec_env \<Rightarrow> 's istream \<Rightarrow> pb_wire_type \<Rightarrow> pb_field_iter \<Rightarrow> mem \<Rightarrow>
    bool \<times> 's istream \<times> mem" where
  "decode_callback_field env s wire_type it m =
     (if load_ptr m (it_pData it) = 0 then (case pb_skip_field s wire_type of (ok, s') \<Rightarrow> (ok, s', m))
      else if wire_type = PB_WT_STRING then
        (case pb_make_string_substream s of
           (None, s') \<Rightarrow> (False, s', m)
         | (Some substream, s') \<Rightarrow>
            (case callback_loop env (loop_fuel env) substream it m of
               (False, substream', m') \<Rightarrow> dec_error ''callback failed'' s' m'
             | (True, substream', m') \<Rightarrow>
                (case pb_close_string_substream s' substream' of (ok, s'') \<Rightarrow> (ok, s'', m'))))
      else
        (case read_raw_value s wire_type 10 of
           (None, s') \<Rightarrow> (False, s', m)
         | (Some buffer, s') \<Rightarrow>
            (case user_decode env (load_ptr m (it_pData it))
                (pb_istream_from_buffer buffer (length buffer)) (it_field it) (it_pData it + 8) m of
               (ok, _, m') \<Rightarrow> (ok, s', m'))))"

definition decode_field :: "'s dec_env \<Rightarrow> 's sub_decoder \<Rightarrow> sub_default \<Rightarrow> 's istream \<Rightarrow> pb_wire_type \<Rightarrow>
    pb_field_iter \<Rightarrow> mem \<Rightarrow> bool \<times> 's istream \<times> mem" where
  "decode_field env sub dflt s wire_type it m =
     (let a = atype (it_field it) in
      if a = PB_ATYPE_STATIC then decode_static_field sub dflt s wire_type it m
      else if a = PB_ATYPE_POINTER then decode_pointer_field s wire_type it m
      else if a = PB_ATYPE_CALLBACK then decode_callback_field env s wire_type it m
      else dec_error ''invalid field type'' s m)"

section \<open>Extensions\<close>

text \<open>\<open>pb_extension_t\<close> on a 64-bit target: \<open>type\<close>, \<open>dest\<close>, \<open>next\<close>, \<open>found\<close> at these offsets.\<close>

definition ext_type :: "mem \<Rightarrow> addr \<Rightarrow> addr" where "ext_type m ext = load_ptr m ext"
definition ext_dest :: "mem \<Rightarrow> addr \<Rightarrow> addr" where "ext_dest m ext = load_ptr m (ext + 8)"
definition ext_next :: "mem \<Rightarrow> addr \<Rightarrow> addr" where "ext_next m ext = load_ptr m (ext + 16)"
definition set_found :: "mem \<Rightarrow> addr \<Rightarrow> bool \<Rightarrow> mem" where "set_found m ext b = store_bool m (ext + 24) b"

definition iter_from_extension :: "'s dec_env \<Rightarrow> addr \<Rightarrow> mem \<Rightarrow> pb_field_iter" where
  "iter_from_extension env ext m =
     (let field = ext_arg env (ext_type m ext);
          it = fst (pb_field_iter_begin [field] (ext_dest m ext))
      in it\<lparr>it_pData := (if atype field = PB_ATYPE_POINTER then ext + 8 else ext_dest m ext),
            it_pSize := ext + 24\<rparr>)"

definition default_extension_decoder :: "'s dec_env \<Rightarrow> 's sub_decoder \<Rightarrow> sub_default \<Rightarrow> 's istream \<Rightarrow> addr \<Rightarrow>
    u32 \<Rightarrow> pb_wire_type \<Rightarrow> mem \<Rightarrow> bool \<times> 's istream \<times> mem" where
  "default_extension_decoder env sub dflt s ext tag wire_type m =
     (if pf_tag (ext_arg env (ext_type m ext)) \<noteq> tag then (True, s, m)
      else decode_field env sub dflt s wire_type (iter_from_extension env ext m) (set_found m ext True))"

fun extension_loop :: "'s dec_env \<Rightarrow> 's sub_decoder \<Rightarrow> sub_default \<Rightarrow> nat \<Rightarrow> nat \<Rightarrow> 's istream \<Rightarrow> addr \<Rightarrow>
    u32 \<Rightarrow> pb_wire_type \<Rightarrow> mem \<Rightarrow> bool \<times> 's istream \<times> mem" where
  "extension_loop env sub dflt fuel pos s ext tag wire_type m =
     (if ext \<noteq> 0 \<and> pos = bytes_left s then
        (case fuel of 0 \<Rightarrow> out_of_fuel s m
         | Suc fuel' \<Rightarrow>
            (case (case ext_decode env (ext_type m ext) of
                     Some dec \<Rightarrow> dec s ext tag wire_type m
                   | None \<Rightarrow> default_extension_decoder env sub dflt s ext tag wire_type m) of
               (False, s', m') \<Rightarrow> (False, s', m')
             | (True, s', m') \<Rightarrow>
                 extension_loop env sub dflt fuel' pos s' (ext_next m' ext) tag wire_type m'))
      else (True, s, m))"

declare extension_loop.simps [simp del]

definition decode_extension :: "'s dec_env \<Rightarrow> 's sub_decoder \<Rightarrow> sub_default \<Rightarrow> 's istream \<Rightarrow> u32 \<Rightarrow>
    pb_wire_type \<Rightarrow> pb_field_iter \<Rightarrow> mem \<Rightarrow> bool \<times> 's istream \<times> mem" where
  "decode_extension env sub dflt s tag wire_type it m =
     extension_loop env sub dflt (loop_fuel env) (bytes_left s) s (load_ptr m (it_pData it)) tag wire_type m"

text \<open>One round over the entries, like \<open>pb_field_iter_find\<close>.\<close>

fun find_ext_loop :: "nat \<Rightarrow> nat \<Rightarrow> pb_field_iter \<Rightarrow> pb_field_iter \<times> bool" where
  "find_ext_loop 0 start it = (it, False)"
| "find_ext_loop (Suc n) start it =
     (if ltype (it_field it) = PB_LTYPE_EXTENSION then (it, True)
      else let it' = fst (pb_field_iter_next it) in
        if it_pos it' \<noteq> start then find_ext_loop n start it' else (it', False))"

definition find_extension_field :: "pb_field_iter \<Rightarrow> pb_field_iter \<times> bool" where
  "find_extension_field it = find_ext_loop (Suc (length (it_start it))) (it_pos it) it"

section \<open>Default values\<close>

text \<open>The loop \<open>do f (&iter); while (pb_field_iter_next (&iter))\<close>, at most once per entry.\<close>

fun do_fields :: "(pb_field_iter \<Rightarrow> mem \<Rightarrow> mem) \<Rightarrow> nat \<Rightarrow> pb_field_iter \<Rightarrow> mem \<Rightarrow> mem" where
  "do_fields f 0 it m = m"
| "do_fields f (Suc n) it m =
     (case pb_field_iter_next it of
        (it', True) \<Rightarrow> do_fields f n it' (f it m)
      | (it', False) \<Rightarrow> f it m)"

definition message_defaults :: "(pb_field_iter \<Rightarrow> mem \<Rightarrow> mem) \<Rightarrow> pb_field list \<Rightarrow> addr \<Rightarrow> mem \<Rightarrow> mem" where
  "message_defaults set_field flds dest m = (case pb_field_iter_begin flds dest of
     (it, False) \<Rightarrow> m
   | (it, True) \<Rightarrow> do_fields set_field (length flds) it m)"

text \<open>Walking the linked list of extensions; the next pointer is read after the field is set.\<close>

fun ext_defaults :: "'s dec_env \<Rightarrow> (pb_field_iter \<Rightarrow> mem \<Rightarrow> mem) \<Rightarrow> nat \<Rightarrow> addr \<Rightarrow> mem \<Rightarrow> mem" where
  "ext_defaults env set_field 0 ext m = m"
| "ext_defaults env set_field (Suc n) ext m =
     (if ext = 0 then m
      else
        let m1 = set_found m ext False;
            m2 = set_field (iter_from_extension env ext m1) m1
        in ext_defaults env set_field n (ext_next m2 ext) m2)"

text \<open>The value a static field without count gets: \<open>memcpy\<close> of \<open>data_size\<close> bytes from the
  default, which a generated descriptor holds in full, or zeros.\<close>

definition init_data :: "(pb_field_iter \<Rightarrow> mem \<Rightarrow> mem) \<Rightarrow> pb_field_iter \<Rightarrow> mem \<Rightarrow> mem" where
  "init_data set_field it m =
     (let f = it_field it in
      if ltype f = PB_LTYPE_SUBMESSAGE then message_defaults set_field (submsg_fields f) (it_pData it) m
      else case pf_ptr f of
          DefaultVal bs \<Rightarrow> store m (it_pData it) (take (dsize f) bs)
        | _ \<Rightarrow> memset0 m (it_pData it) (dsize f))"

definition field_to_default :: "'s dec_env \<Rightarrow> (pb_field_iter \<Rightarrow> mem \<Rightarrow> mem) \<Rightarrow> pb_field_iter \<Rightarrow> mem \<Rightarrow> mem" where
  "field_to_default env set_field it m =
     (let f = it_field it in
      if ltype f = PB_LTYPE_EXTENSION then
        ext_defaults env set_field (loop_fuel env) (load_ptr m (it_pData it)) m
      else if atype f = PB_ATYPE_STATIC then
        if htype f = PB_HTYPE_OPTIONAL \<and> it_pSize it \<noteq> it_pData it
        then init_data set_field it (store_bool m (it_pSize it) False)
        else if htype f = PB_HTYPE_REPEATED \<or> htype f = PB_HTYPE_ONEOF
        then store_u32 m (it_pSize it) 0
        else init_data set_field it m
      else if atype f = PB_ATYPE_POINTER then
        let m1 = store_ptr m (it_pData it) 0 in
        if htype f = PB_HTYPE_REPEATED \<or> htype f = PB_HTYPE_ONEOF
        then store_u32 m1 (it_pSize it) 0 else m1
      else m)"

primrec pb_field_set_to_default :: "'s dec_env \<Rightarrow> nat \<Rightarrow> pb_field_iter \<Rightarrow> mem \<Rightarrow> mem" where
  "pb_field_set_to_default env 0 = (\<lambda>it m. m)"
| "pb_field_set_to_default env (Suc depth) = field_to_default env (pb_field_set_to_default env depth)"

definition pb_message_set_to_defaults :: "'s dec_env \<Rightarrow> nat \<Rightarrow> pb_field list \<Rightarrow> addr \<Rightarrow> mem \<Rightarrow> mem" where
  "pb_message_set_to_defaults env depth = message_defaults (pb_field_set_to_default env depth)"

section \<open>Decoding a message\<close>

definition PB_MAX_REQUIRED_FIELDS :: nat where "PB_MAX_REQUIRED_FIELDS = 64"

definition mark_required :: "pb_field_iter \<Rightarrow> u32 list \<Rightarrow> u32 list" where
  "mark_required it seen =
     (let i = it_required_field_index it in
      if htype (it_field it) = PB_HTYPE_REQUIRED \<and> i < PB_MAX_REQUIRED_FIELDS
      then seen[i div 32 := (seen ! (i div 32)) OR push_bit (i mod 32) 1]
      else seen)"

text \<open>A tag without a field: an extension may take it, or else it is skipped.\<close>

definition skip_unknown :: "'s istream \<Rightarrow> pb_wire_type \<Rightarrow> pb_field_iter \<Rightarrow> u32 \<Rightarrow> mem \<Rightarrow>
    bool \<times> 's istream \<times> pb_field_iter \<times> u32 \<times> mem" where
  "skip_unknown s wire_type it ext_start m =
     (case pb_skip_field s wire_type of (ok, s') \<Rightarrow> (ok, s', it, ext_start, m))"

definition unknown_field :: "'s dec_env \<Rightarrow> 's sub_decoder \<Rightarrow> sub_default \<Rightarrow> 's istream \<Rightarrow> pb_wire_type \<Rightarrow>
    u32 \<Rightarrow> pb_field_iter \<Rightarrow> u32 \<Rightarrow> mem \<Rightarrow> bool \<times> 's istream \<times> pb_field_iter \<times> u32 \<times> mem" where
  "unknown_field env sub dflt s wire_type tag it ext_start m =
     (if ext_start \<le> tag then
        (case find_extension_field it of (it', found) \<Rightarrow>
          let ext_start' = (if found then pf_tag (it_field it') else - 1) in
          if ext_start' \<le> tag then
            (case decode_extension env sub dflt s tag wire_type it' m of
               (False, s', m') \<Rightarrow> (False, s', it', ext_start', m')
             | (True, s', m') \<Rightarrow>
                 if bytes_left s \<noteq> bytes_left s' then (True, s', it', ext_start', m')
                 else skip_unknown s' wire_type it' ext_start' m')
          else skip_unknown s wire_type it' ext_start' m)
      else skip_unknown s wire_type it ext_start m)"

text \<open>The loop over the fields of the message; every round takes at least the byte of a tag,
  so the length of the data bounds it.\<close>

fun decode_loop :: "'s dec_env \<Rightarrow> 's sub_decoder \<Rightarrow> sub_default \<Rightarrow> nat \<Rightarrow> 's istream \<Rightarrow> pb_field_iter \<Rightarrow>
    u32 list \<Rightarrow> u32 \<Rightarrow> mem \<Rightarrow> bool \<times> 's istream \<times> pb_field_iter \<times> u32 list \<times> mem" where
  "decode_loop env sub dflt fuel s it seen ext_start m =
     (if bytes_left s = 0 then (True, s, it, seen, m)
      else case fuel of 0 \<Rightarrow> (False, in_fail ''(out of fuel)'' s, it, seen, m)
      | Suc fuel' \<Rightarrow>
        (case pb_decode_tag s of
           (Inl eof, s1) \<Rightarrow> (eof, s1, it, seen, m)
         | (Inr (wire_type, tag), s1) \<Rightarrow>
            (case pb_field_iter_find it tag of
               (it1, False) \<Rightarrow>
                 (case unknown_field env sub dflt s1 wire_type tag it1 ext_start m of
                    (False, s2, it2, _, m2) \<Rightarrow> (False, s2, it2, seen, m2)
                  | (True, s2, it2, ext_start2, m2) \<Rightarrow>
                      decode_loop env sub dflt fuel' s2 it2 seen ext_start2 m2)
             | (it1, True) \<Rightarrow>
                 let seen1 = mark_required it1 seen in
                 (case decode_field env sub dflt s1 wire_type it1 m of
                    (False, s2, m2) \<Rightarrow> (False, s2, it1, seen1, m2)
                  | (True, s2, m2) \<Rightarrow> decode_loop env sub dflt fuel' s2 it1 seen1 ext_start m2))))"

declare decode_loop.simps [simp del]

text \<open>Seeking to the end of the array: the last index, the last type, and the iterator, which
  is back at the first entry.\<close>

fun seek_end :: "nat \<Rightarrow> pb_field_iter \<Rightarrow> nat \<times> u8 \<times> pb_field_iter" where
  "seek_end 0 it = (it_required_field_index it, pf_type (it_field it), it)"
| "seek_end (Suc n) it =
     (case pb_field_iter_next it of
        (it', True) \<Rightarrow> seek_end n it'
      | (it', False) \<Rightarrow> (it_required_field_index it, pf_type (it_field it), it'))"

definition req_field_count :: "pb_field_iter \<Rightarrow> nat" where
  "req_field_count it = (case seek_end (length (it_start it)) it of
     (n, last_type, it') \<Rightarrow>
       if PB_HTYPE last_type = PB_HTYPE_REQUIRED \<and> pf_tag (it_field it') \<noteq> 0 then n + 1 else n)"

text \<open>
  \<open>allbits >> (32 - (n & 31))\<close>: for \<open>n\<close> a multiple of 32 the shift is by 32, which C leaves
  undefined; the processor shifts by the amount modulo 32.  Reading \<open>fields_seen\<close> behind its
  two words is undefined too; the value 0 stands for it.
\<close>

definition last_bits :: "nat \<Rightarrow> u32" where
  "last_bits n = drop_bit ((32 - n mod 32) mod 32) (- 1)"

definition seen_word :: "u32 list \<Rightarrow> nat \<Rightarrow> u32" where
  "seen_word seen i = (if i < length seen then seen ! i else 0)"

definition required_present :: "nat \<Rightarrow> u32 list \<Rightarrow> bool" where
  "required_present n seen \<longleftrightarrow>
     (n > 0 \<longrightarrow> list_all (\<lambda>i. seen_word seen i = - 1) [0..<n div 32] \<and>
       seen_word seen (n div 32) = last_bits n)"

definition decode_message :: "'s dec_env \<Rightarrow> 's sub_decoder \<Rightarrow> sub_default \<Rightarrow> 's sub_decoder" where
  "decode_message env sub dflt s flds dest m =
     (case decode_loop env sub dflt (bytes_left s) s (fst (pb_field_iter_begin flds dest)) [0, 0] 0 m of
        (False, s', it, seen, m') \<Rightarrow> (False, s', m')
      | (True, s', it, seen, m') \<Rightarrow>
          if required_present (req_field_count it) seen then (True, s', m')
          else dec_error ''missing required field'' s' m')"

text \<open>The knot: submessages are decoded with one level of nesting less.\<close>

primrec pb_decode_noinit :: "'s dec_env \<Rightarrow> nat \<Rightarrow> 's sub_decoder" where
  "pb_decode_noinit env 0 = (\<lambda>s flds dest m. out_of_fuel s m)"
| "pb_decode_noinit env (Suc depth) =
     decode_message env (pb_decode_noinit env depth) (pb_message_set_to_defaults env depth)"

definition pb_decode :: "'s dec_env \<Rightarrow> nat \<Rightarrow> 's sub_decoder" where
  "pb_decode env depth s flds dest m =
     pb_decode_noinit env depth s flds dest (pb_message_set_to_defaults env depth flds dest m)"

definition pb_decode_delimited :: "'s dec_env \<Rightarrow> nat \<Rightarrow> 's sub_decoder" where
  "pb_decode_delimited env depth s flds dest m = (case pb_make_string_substream s of
     (None, s') \<Rightarrow> (False, s', m)
   | (Some substream, s') \<Rightarrow>
      (case pb_decode env depth substream flds dest m of
         (status, substream', m') \<Rightarrow>
           (case pb_close_string_substream s' substream' of
              (False, s'') \<Rightarrow> (False, s'', m')
            | (True, s'') \<Rightarrow> (status, s'', m'))))"

end
