(* ===== verification/Pb_Account.thy ===== *)
theory Pb_Account
  imports Pb_Buffer Pb_Decode
begin

text \<open>
  Accounting of input bytes on memory-buffer streams.  \<open>left s s'\<close>: \<open>s'\<close> is \<open>s\<close> with the read
  pointer moved forward and \<open>bytes_left\<close> reduced by at least as much, so it still lies in the
  buffer.  \<open>reads s s'\<close>: exactly as much, which is what a successful call promises.
\<close>

definition moved :: "nat \<Rightarrow> nat \<Rightarrow> string option \<Rightarrow> 's istream \<Rightarrow> 's istream" where
  "moved j b e s = \<lparr>in_src = (case in_src s of BufRead d \<Rightarrow> BufRead (drop j d) | u \<Rightarrow> u),
     bytes_left = b, in_err = e\<rparr>"

definition left :: "'s istream \<Rightarrow> 's istream \<Rightarrow> bool" where
  "left s s' \<longleftrightarrow> (\<exists>j b e. j + b \<le> bytes_left s \<and> s' = moved j b e s)"

definition reads :: "'s istream \<Rightarrow> 's istream \<Rightarrow> bool" where
  "reads s s' \<longleftrightarrow> (\<exists>j b e. j + b = bytes_left s \<and> s' = moved j b e s)"

lemma moved_moved [simp]: "moved i b' e' (moved j b e s) = moved (j + i) b' e' s"
  by (simp add: moved_def add.commute split: in_source.splits)

lemma moved_simps [simp]:
  "bytes_left (moved j b e s) = b" "in_err (moved j b e s) = e"
  "(moved j b e s)\<lparr>bytes_left := c\<rparr> = moved j c e s"
  "in_fail msg (moved j b e s) = moved j b (PB_SET_ERROR e msg) s"
  by (simp_all add: moved_def in_fail_def)

lemma moved_id: "moved 0 (bytes_left s) (in_err s) s = s"
  by (simp add: moved_def split: in_source.splits)

lemma adv_moved: "adv k s = moved k (bytes_left s - k) (in_err s) s"
  by (cases s) (simp add: adv_def moved_def split: in_source.splits)

lemma in_fail_moved: "in_fail msg s = moved 0 (bytes_left s) (PB_SET_ERROR (in_err s) msg) s"
  by (cases s) (simp add: in_fail_def moved_def split: in_source.splits)

lemma buf_ok_moved [simp]: "buf_ok s \<Longrightarrow> j + b \<le> bytes_left s \<Longrightarrow> buf_ok (moved j b e s)"
  by (auto simp: buf_ok_def moved_def split: in_source.splits)

lemma leftI: "j + b \<le> bytes_left s \<Longrightarrow> left s (moved j b e s)"
  by (auto simp: left_def)

lemma readsI: "j + b = bytes_left s \<Longrightarrow> reads s (moved j b e s)"
  by (auto simp: reads_def)

lemma reads_left: "reads s s' \<Longrightarrow> left s s'"
  unfolding reads_def left_def by (metis order_refl)

lemma left_refl [simp, intro]: "left s s"
  using leftI [of 0 "bytes_left s" s "in_err s"] by (simp add: moved_id)

lemma reads_refl [simp, intro]: "reads s s"
  using readsI [of 0 "bytes_left s" s "in_err s"] by (simp add: moved_id)

lemma left_trans [trans]: "left s s' \<Longrightarrow> left s' s'' \<Longrightarrow> left s s''"
  unfolding left_def by clarsimp (metis add.assoc add_le_mono1 le_trans add_le_cancel_left)

lemma reads_trans [trans]: "reads s s' \<Longrightarrow> reads s' s'' \<Longrightarrow> reads s s''"
  unfolding reads_def by clarsimp (metis add.assoc)

lemma left_buf_ok: "left s s' \<Longrightarrow> buf_ok s \<Longrightarrow> buf_ok s'"
  by (auto simp: left_def)

lemma reads_buf_ok: "reads s s' \<Longrightarrow> buf_ok s \<Longrightarrow> buf_ok s'"
  by (auto simp: reads_def)

lemma left_bytes_left: "left s s' \<Longrightarrow> bytes_left s' \<le> bytes_left s"
  by (auto simp: left_def)

lemma left_in_fail [simp]: "left s (in_fail msg s') \<longleftrightarrow> left s s'"
  unfolding left_def in_fail_moved [of msg s']
  by (metis moved_id moved_moved moved_simps(1) add.right_neutral)

lemma reads_in_fail [simp]: "reads s (in_fail msg s') \<longleftrightarrow> reads s s'"
  unfolding reads_def in_fail_moved [of msg s']
  by (metis moved_id moved_moved moved_simps(1) add.right_neutral)

lemma reads_adv: "k \<le> bytes_left s \<Longrightarrow> reads s (adv k s)"
  unfolding adv_moved by (rule readsI) simp

lemma contents_reads:
  "reads s s' \<Longrightarrow> buf_ok s \<Longrightarrow> contents s' = drop (bytes_left s - bytes_left s') (contents s)"
  by (auto simp: reads_def contents_def moved_def buf_ok_def drop_take split: in_source.splits)
    (metis diff_add_inverse2)

section \<open>Scalars\<close>

text \<open>Every scalar decoder leaves a good stream, and where it succeeds it has read at least a
  byte and no more than there was.\<close>

definition scalar_ok :: "('s istream \<Rightarrow> 'v option \<times> 's istream) \<Rightarrow> bool" where
  "scalar_ok d \<longleftrightarrow> (\<forall>s r s'. buf_ok s \<longrightarrow> d s = (r, s') \<longrightarrow> left s s' \<and>
     (r \<noteq> None \<longrightarrow> reads s s' \<and> bytes_left s' < bytes_left s))"

lemma scalar_okD:
  assumes "scalar_ok d" "buf_ok s" "d s = (r, s')"
  shows "left s s'" "r = Some v \<Longrightarrow> reads s s'" "r = Some v \<Longrightarrow> bytes_left s' < bytes_left s"
  using assms by (auto simp: scalar_ok_def)

lemma scalar_decoded:
  assumes "\<And>s. buf_ok s \<Longrightarrow> d s = decoded n s"
  shows "scalar_ok d"
proof -
  have "left s s' \<and> (r \<noteq> None \<longrightarrow> reads s s' \<and> bytes_left s' < bytes_left s)"
    if b: "buf_ok s" and d: "decoded n s = (r, s')" for s r s'
  proof (cases "split_varint (contents s)")
    case None
    with d show ?thesis
      by (auto simp: decoded_def intro!: reads_left [OF reads_adv] split: if_splits)
  next
    case (Some pr)
    obtain p q where pq: "split_varint (contents s) = Some (p, q)" using Some by (cases pr) auto
    note le = split_varint_le [OF b pq]
    have "length p \<noteq> 0" using split_varint_append [OF pq] by simp
    with le have "bytes_left s - length p < bytes_left s" by linarith
    then show ?thesis using pq d le
      by (auto simp: decoded_def intro!: reads_left [OF reads_adv] reads_adv split: if_splits)
  qed
  then show ?thesis unfolding scalar_ok_def using assms by metis
qed

lemma scalar_varint: "scalar_ok pb_decode_varint"
  by (rule scalar_decoded [OF pb_decode_varint_eq])

lemma scalar_varint32: "scalar_ok pb_decode_varint32"
  by (rule scalar_decoded [OF pb_decode_varint32_eq])

lemma scalar_svarint: "scalar_ok pb_decode_svarint"
  using scalar_varint unfolding scalar_ok_def pb_decode_svarint_def
  by (fastforce split: prod.splits option.splits)

lemma scalar_fixed32: "scalar_ok pb_decode_fixed32"
  by (auto simp: scalar_ok_def pb_decode_fixed32_def pb_read_buf_eq intro!: reads_left [OF reads_adv] reads_adv)

lemma scalar_fixed64: "scalar_ok pb_decode_fixed64"
  by (auto simp: scalar_ok_def pb_decode_fixed64_def pb_read_buf_eq intro!: reads_left [OF reads_adv] reads_adv)

lemmas scalar_rules = scalar_varint scalar_varint32 scalar_svarint scalar_fixed32 scalar_fixed64

lemma tag_reads:
  assumes "buf_ok s" "pb_decode_tag s = (r, s')"
  shows "left s s'" "r = Inr x \<Longrightarrow> reads s s'" "r = Inr x \<Longrightarrow> bytes_left s' < bytes_left s"
    "r = Inl True \<Longrightarrow> reads s s'"
proof -
  obtain v s1 where v: "pb_decode_varint32 s = (v, s1)" by fastforce
  note ok = scalar_okD [OF scalar_varint32 assms(1) v]
  have s: "s' = s1" using assms(2) v by (auto simp: pb_decode_tag_def split: option.splits if_splits)
  show "left s s'" "r = Inr x \<Longrightarrow> reads s s'" "r = Inr x \<Longrightarrow> bytes_left s' < bytes_left s"
    using assms(2) v ok s by (auto simp: pb_decode_tag_def split: option.splits if_splits)
  have none: "v = None \<Longrightarrow> bytes_left s1 = 0 \<Longrightarrow> reads s s1"
    using v assms(1)
    by (auto simp: pb_decode_varint32_eq decoded_def dest!: split_varint_le split: option.splits if_splits
        intro!: reads_adv)
  show "r = Inl True \<Longrightarrow> reads s s'"
    using assms(2) v ok s none by (auto simp: pb_decode_tag_def split: option.splits if_splits)
qed

lemma skip_field_reads:
  assumes "buf_ok s" "pb_skip_field s wt = (ok, s')"
  shows "left s s'" "ok \<Longrightarrow> reads s s'"
proof -
  have str: "left s s' \<and> (ok \<longrightarrow> reads s s')" if "pb_skip_string s = (ok, s')"
  proof -
    obtain v s1 where v: "pb_decode_varint32 s = (v, s1)" by fastforce
    note o1 = scalar_okD [OF scalar_varint32 assms(1) v]
    note b1 = left_buf_ok [OF o1(1) assms(1)]
    have r: "k \<le> bytes_left s1 \<Longrightarrow> v = Some w \<Longrightarrow> reads s (adv k s1)" for k w
      using o1(2) reads_adv reads_trans by metis
    from that v o1 r show ?thesis
      by (auto simp: pb_skip_string_def pb_read_eq [OF b1] split: option.splits if_splits intro!: reads_left [OF r])
  qed
  have var: "left s s' \<and> (ok \<longrightarrow> reads s s')" if "pb_skip_varint s = (ok, s')"
    using that split_varint_le [OF assms(1)]
    by (auto simp: pb_skip_varint_eq [OF assms(1)] intro!: reads_left [OF reads_adv] reads_adv split: option.splits)
  show "left s s'" "ok \<Longrightarrow> reads s s'"
    using assms str var
    by (auto simp: pb_skip_field_def pb_read_eq intro!: reads_left [OF reads_adv] reads_adv split: if_splits)
qed

section \<open>Substreams\<close>

text \<open>After a substream is closed the parent has moved behind the whole string, or not as far
  when the user of the substream failed.\<close>

lemma make_substream:
  assumes "buf_ok s" "pb_make_string_substream s = (r, s')"
  shows "left s s'" "buf_ok s'"
    and "r = Some sub \<Longrightarrow> \<exists>k len. k + len \<le> bytes_left s \<and> 0 < k \<and>
      sub = moved k len (in_err s) s \<and> s' = moved k (bytes_left s - (k + len)) (in_err s) s"
proof -
  obtain v s1 where v: "pb_decode_varint32 s = (v, s1)" by fastforce
  note o1 = scalar_okD [OF scalar_varint32 assms(1) v]
  have s1: "\<exists>k. 0 < k \<and> k + bytes_left s1 = bytes_left s \<and> s1 = moved k (bytes_left s1) (in_err s) s"
    if w: "v = Some w" for w
  proof -
    obtain p q where p: "split_varint (contents s) = Some (p, q)" "s1 = adv (length p) s"
      using w v by (auto simp: pb_decode_varint32_eq [OF assms(1)] decoded_def split: option.splits if_splits)
    with split_varint_le [OF assms(1) p(1)] split_varint_append [OF p(1)] show ?thesis
      by (intro exI [of _ "length p"]) (simp add: adv_moved)
  qed
  have mv: "left s (s1\<lparr>bytes_left := b\<rparr>)" if "v = Some w" "b \<le> bytes_left s1" for w b
    using s1 [OF that(1)] that(2) by (metis leftI moved_simps(3) add_le_mono1 add.commute)
  show l: "left s s'"
  proof (cases v)
    case (Some w)
    with assms(2) v o1(1) mv [OF Some] show ?thesis
      by (auto simp: pb_make_string_substream_def split: if_splits)
  qed (use assms(2) v o1 in \<open>auto simp: pb_make_string_substream_def\<close>)
  show "buf_ok s'" using left_buf_ok [OF l assms(1)] .
  assume "r = Some sub"
  then obtain w where w: "v = Some w" "unat w \<le> bytes_left s1"
      "sub = s1\<lparr>bytes_left := unat w\<rparr>" "s' = s1\<lparr>bytes_left := bytes_left s1 - unat w\<rparr>"
    using assms(2) v by (auto simp: pb_make_string_substream_def split: option.splits if_splits)
  from s1 [OF w(1)] obtain k where k: "0 < k" "k + bytes_left s1 = bytes_left s"
      "s1 = moved k (bytes_left s1) (in_err s) s" by blast
  have "bytes_left s1 - unat w = bytes_left s - (k + unat w)" using k(2) by simp
  moreover have "s1\<lparr>bytes_left := c\<rparr> = moved k c (in_err s) s" for c
    by (subst k(3)) simp
  ultimately show "\<exists>k len. k + len \<le> bytes_left s \<and> 0 < k \<and>
      sub = moved k len (in_err s) s \<and> s' = moved k (bytes_left s - (k + len)) (in_err s) s"
    using k(1,2) w(2-4) by (intro exI [of _ k] exI [of _ "unat w"]) simp_all
qed

lemma close_substream:
  assumes b: "buf_ok s" and m: "pb_make_string_substream s = (Some sub, s')"
    and l: "left sub sub'" and c: "pb_close_string_substream s' sub' = (ok, s'')"
  shows "ok" "left s s''" "reads sub sub' \<Longrightarrow> reads s s''"
proof -
  obtain k len where k: "k + len \<le> bytes_left s" "sub = moved k len (in_err s) s"
      "s' = moved k (bytes_left s - (k + len)) (in_err s) s"
    using make_substream(3) [OF b m refl] by blast
  obtain j b' e where j: "j + b' \<le> len" "sub' = moved j b' e sub" using l k by (auto simp: left_def)
  have b': "buf_ok sub'" using b k(1) j by (simp add: k(2))
  have s'': "ok \<and> s'' = moved (k + j + b') (bytes_left s - (k + len)) e s"
    using c pb_read_eq [OF b', of True b'] j
    by (cases "b' = 0") (auto simp: pb_close_string_substream_def k(2,3) adv_moved moved_def ac_simps split: in_source.splits)
  then show ok: "ok" by simp
  show "left s s''" using s'' k(1) j(1) by (auto intro!: leftI)
  assume "reads sub sub'"
  then obtain i c' e' where i: "i + c' = len" "sub' = moved i c' e' sub" using k by (auto simp: reads_def)
  show "reads s s''"
  proof -
    have s3: "s'' = moved (k + i + c') (bytes_left s - (k + len)) e' s"
      using c pb_read_eq [OF b', of True c'] i b'
      by (cases "c' = 0") (auto simp: pb_close_string_substream_def k(2,3) adv_moved moved_def ac_simps split: in_source.splits)
    show ?thesis unfolding s3 using k(1) i(1) by (intro readsI) simp
  qed
qed

end
