(* ===== verification/Pb_Sound.thy ===== *)
theory Pb_Sound
  imports Pb_Account
begin

text \<open>
  What every decoder of \<open>Pb_Decode\<close> promises, for any descriptor array that fits its struct:
  it stays inside the input buffer, accounts for the bytes it read, and writes only where the
  descriptors say.  The condition on writes is abstract (locale \<open>writable\<close>): a relation
  between the memory before and after, and the regions in which a store keeps it.  It is
  interpreted twice, with no condition (\<open>free\<close>) and with one allowed region (\<open>region\<close>).
\<close>

definition dec_ok :: "bool \<Rightarrow> (mem \<Rightarrow> mem \<Rightarrow> bool) \<Rightarrow> ('s istream \<Rightarrow> mem \<Rightarrow> bool \<times> 's istream \<times> mem) \<Rightarrow> bool" where
  "dec_ok eats R d \<longleftrightarrow> (\<forall>s m ok s' m'. buf_ok s \<longrightarrow> d s m = (ok, s', m') \<longrightarrow>
     left s s' \<and> (ok \<longrightarrow> reads s s' \<and> (eats \<longrightarrow> bytes_left s' < bytes_left s)) \<and> R m m')"

lemma dec_okI:
  assumes "\<And>s m ok s' m'. buf_ok s \<Longrightarrow> d s m = (ok, s', m') \<Longrightarrow>
     left s s' \<and> (ok \<longrightarrow> reads s s' \<and> (eats \<longrightarrow> bytes_left s' < bytes_left s)) \<and> R m m'"
  shows "dec_ok eats R d"
  using assms by (auto simp: dec_ok_def)

lemma dec_okD:
  assumes "dec_ok eats R d" "buf_ok s" "d s m = (ok, s', m')"
  shows "left s s'" "R m m'" "ok \<Longrightarrow> reads s s'" "ok \<Longrightarrow> eats \<Longrightarrow> bytes_left s' < bytes_left s"
  using assms by (auto simp: dec_ok_def)

lemma dec_ok_weaken: "dec_ok eats R d \<Longrightarrow> dec_ok False R d"
  by (auto simp: dec_ok_def)

section \<open>Descriptors that fit\<close>

text \<open>The bytes the decoder of an item may write, and an item at an address.\<close>

definition item_room :: "pb_field \<Rightarrow> nat" where
  "item_room f = (if ltype f = PB_LTYPE_FIXED32 then max 4 (dsize f)
     else if ltype f = PB_LTYPE_FIXED64 then max 8 (dsize f) else dsize f)"

definition item_ok :: "(addr \<Rightarrow> nat \<Rightarrow> bool) \<Rightarrow> (pb_field list \<Rightarrow> addr \<Rightarrow> bool) \<Rightarrow> pb_field \<Rightarrow> addr \<Rightarrow> bool" where
  "item_ok room lay f a \<longleftrightarrow> room a (item_room f) \<and>
     (ltype f = PB_LTYPE_SUBMESSAGE \<longrightarrow> lay (submsg_fields f) a)"

definition field_ok :: "(addr \<Rightarrow> nat \<Rightarrow> bool) \<Rightarrow> (pb_field list \<Rightarrow> addr \<Rightarrow> bool) \<Rightarrow> pb_field_iter \<Rightarrow> bool" where
  "field_ok room lay it \<longleftrightarrow> (let f = it_field it in
     ltype f \<noteq> PB_LTYPE_EXTENSION \<and>
     (if atype f = PB_ATYPE_STATIC then
        (if htype f = PB_HTYPE_REPEATED then room (it_pSize it) 4 \<and>
           list_all (\<lambda>i. item_ok room lay f (it_pData it + uint (pf_data_size f * word_of_nat i)))
             [0..<unat (pf_array_size f)]
         else item_ok room lay f (it_pData it) \<and>
           (htype f = PB_HTYPE_OPTIONAL \<and> it_pSize it \<noteq> it_pData it \<longrightarrow> room (it_pSize it) 1) \<and>
           (htype f = PB_HTYPE_ONEOF \<longrightarrow> room (it_pSize it) 4))
      else atype f = PB_ATYPE_POINTER \<longrightarrow> room (it_pData it) 8 \<and>
           (htype f = PB_HTYPE_REPEATED \<or> htype f = PB_HTYPE_ONEOF \<longrightarrow> room (it_pSize it) 4)))"

text \<open>Down to the nesting depth that the decoder is given.\<close>

primrec layout_ok :: "(addr \<Rightarrow> nat \<Rightarrow> bool) \<Rightarrow> nat \<Rightarrow> pb_field list \<Rightarrow> addr \<Rightarrow> bool" where
  "layout_ok room 0 = (\<lambda>fs dest. True)"
| "layout_ok room (Suc depth) = (\<lambda>fs dest. wf_tags fs \<and>
     list_all (\<lambda>k. field_ok room (layout_ok room depth) (field_iter fs dest k)) [0..<length fs])"

text \<open>The contract of the decode callbacks of the user.\<close>

definition callbacks_ok :: "(mem \<Rightarrow> mem \<Rightarrow> bool) \<Rightarrow> 's dec_env \<Rightarrow> bool" where
  "callbacks_ok R env \<longleftrightarrow> (\<forall>fn f a. dec_ok False R (\<lambda>s m. user_decode env fn s f a m))"

section \<open>The interface to the memory\<close>

locale writable =
  fixes R :: "mem \<Rightarrow> mem \<Rightarrow> bool" and room :: "addr \<Rightarrow> nat \<Rightarrow> bool"
  assumes R_refl [simp, intro]: "R m m"
    and R_trans: "R m m' \<Longrightarrow> R m' m'' \<Longrightarrow> R m m''"
    and R_store: "room a (length bs) \<Longrightarrow> R m (store m a bs)"
    and room_sub: "room a n \<Longrightarrow> a \<le> b \<Longrightarrow> b + int k \<le> a + int n \<Longrightarrow> room b k"
    and room_0 [simp]: "room a 0"
begin

lemma R_store_in: "room a n \<Longrightarrow> i + length bs \<le> n \<Longrightarrow> R m (store m (a + int i) bs)"
  by (rule R_store) (rule room_sub, auto)

lemma R_store_u32: "room a 4 \<Longrightarrow> R m (store_u32 m a w)"
  unfolding store_u32_def by (rule R_store) simp

lemma R_store_bool: "room a 1 \<Longrightarrow> R m (store_bool m a b)"
  unfolding store_bool_def by (rule R_store) simp

lemma R_store_ptr: "room a 8 \<Longrightarrow> R m (store_ptr m a p)"
  unfolding store_ptr_def by (rule R_store) simp

lemma R_memset0: "room a n \<Longrightarrow> R m (memset0 m a n)"
  unfolding memset0_def by (rule R_store) simp

lemmas R_rules = R_store_u32 R_store_bool R_store_ptr R_memset0

subsection \<open>Combinators\<close>

lemma dec_error_ok: "dec_ok eats R (dec_error msg)"
  by (auto simp: dec_ok_def dec_error_def)

lemma bad_call_ok: "dec_ok eats R bad_call"
  unfolding bad_call_def by (rule dec_error_ok)

lemma out_of_fuel_ok: "dec_ok eats R out_of_fuel"
  unfolding out_of_fuel_def by (rule dec_error_ok)

lemma dec_if_ok: "(c \<Longrightarrow> dec_ok eats R d1) \<Longrightarrow> (\<not> c \<Longrightarrow> dec_ok eats R d2) \<Longrightarrow> dec_ok eats R (\<lambda>s m. if c then d1 s m else d2 s m)"
  by (simp add: dec_ok_def)

lemma dec_pre_ok: "dec_ok eats R d \<Longrightarrow> (\<And>m. R m (g m)) \<Longrightarrow> dec_ok eats R (\<lambda>s m. d s (g m))"
  by (fastforce simp: dec_ok_def intro: R_trans)

lemma dec_post_ok:
  assumes "dec_ok eats R d" "\<And>m. R m (g m)"
  shows "dec_ok eats R (\<lambda>s m. case d s m of (ok, s', m') \<Rightarrow> (ok, s', g m'))"
proof (rule dec_okI)
  fix s m ok s' m' assume b: "buf_ok s" and r: "(case d s m of (ok, s', m') \<Rightarrow> (ok, s', g m')) = (ok, s', m')"
  obtain m1 where "d s m = (ok, s', m1)" "m' = g m1" using r by (cases "d s m") auto
  with dec_okD [OF assms(1) b] assms(2) [of m1]
  show "left s s' \<and> (ok \<longrightarrow> reads s s' \<and> (eats \<longrightarrow> bytes_left s' < bytes_left s)) \<and> R m m'"
    using R_trans [of m m1 m'] by metis
qed

lemma dec_bind_ok:
  assumes d: "scalar_ok d" and k: "\<And>v. dec_ok False R (k v)"
  shows "dec_ok eats R (\<lambda>s m. case d s of (None, s') \<Rightarrow> (False, s', m) | (Some v, s') \<Rightarrow> k v s' m)"
proof (rule dec_okI)
  fix s m ok s' m' assume b: "buf_ok s"
    and r: "(case d s of (None, s') \<Rightarrow> (False, s', m) | (Some v, s') \<Rightarrow> k v s' m) = (ok, s', m')"
  obtain v s1 where v: "d s = (v, s1)" by fastforce
  note o = scalar_okD [OF d b v]
  show "left s s' \<and> (ok \<longrightarrow> reads s s' \<and> (eats \<longrightarrow> bytes_left s' < bytes_left s)) \<and> R m m'"
  proof (cases v)
    case None
    with r v o show ?thesis by auto
  next
    case (Some w)
    with r v have kw: "k w s1 m = (ok, s', m')" by simp
    note q = dec_okD [OF k left_buf_ok [OF o(1) b] kw]
    have "left s s'" using o(1) q(1) by (rule left_trans)
    moreover have "ok \<Longrightarrow> reads s s'" using o(2) [OF Some] q(3) by (metis reads_trans)
    moreover have "bytes_left s' < bytes_left s"
      using o(3) [OF Some] left_bytes_left [OF q(1)] by simp
    ultimately show ?thesis using q(2) by simp
  qed
qed

lemma read_to_ok:
  assumes "room a n" "i + count \<le> n"
  shows "dec_ok False R (\<lambda>s m. read_to s (a + int i) count m)"
proof (rule dec_okI)
  fix s m ok s' m' assume b: "buf_ok s" and r: "read_to s (a + int i) count m = (ok, s', m')"
  have "R m (store m (a + int i) (take count (contents s)))"
    by (rule R_store_in [OF assms(1)]) (use assms(2) in \<open>simp add: min_def\<close>)
  with r show "left s s' \<and> (ok \<longrightarrow> reads s s' \<and> (False \<longrightarrow> bytes_left s' < bytes_left s)) \<and> R m m'"
    by (auto simp: read_to_def pb_read_eq [OF b] intro: reads_adv reads_left split: if_splits)
qed

text \<open>A call on a substream, as \<open>pb_dec_submessage\<close> and the packed arrays make it.\<close>

lemma substream_ok:
  assumes g: "dec_ok False R g"
    and shape: "\<And>s m. d s m = (case pb_make_string_substream s of
      (None, s') \<Rightarrow> (False, s', m)
    | (Some sub, s') \<Rightarrow> (case g sub m of (status, sub', m') \<Rightarrow>
        if bad sub' then dec_error msg s' m'
        else (case pb_close_string_substream s' sub' of
            (False, s'') \<Rightarrow> (False, s'', m')
          | (True, s'') \<Rightarrow> (status, s'', m'))))"
  shows "dec_ok False R d"
proof (rule dec_okI)
  fix s m ok s' m' assume b: "buf_ok s" and r: "d s m = (ok, s', m')"
  obtain so s1 where mk: "pb_make_string_substream s = (so, s1)" by fastforce
  note l = make_substream(1) [OF b mk]
  show "left s s' \<and> (ok \<longrightarrow> reads s s' \<and> (False \<longrightarrow> bytes_left s' < bytes_left s)) \<and> R m m'"
  proof (cases so)
    case None
    with r mk l show ?thesis by (simp add: shape)
  next
    case (Some sub)
    note mk = mk [unfolded Some]
    obtain st sub' m1 where gs: "g sub m = (st, sub', m1)" by (metis prod_cases3)
    have "buf_ok sub" using make_substream(3) [OF b mk refl] b by auto
    note q = dec_okD [OF g this gs]
    show ?thesis
    proof (cases "bad sub'")
      case True
      with r mk gs l q show ?thesis by (auto simp: shape dec_error_def)
    next
      case False
      obtain c s2 where cl: "pb_close_string_substream s1 sub' = (c, s2)" by fastforce
      note z = close_substream [OF b mk q(1) cl]
      from r mk gs cl False z(1) have "ok = st \<and> s' = s2 \<and> m' = m1" by (auto simp: shape)
      with q z show ?thesis by auto
    qed
  qed
qed

subsection \<open>Single values\<close>

lemma store_clamped_ok:
  assumes "room dest (dsize f)"
  shows "dec_ok False R (\<lambda>s m. store_clamped c v s f dest m)"
  using R_store [of dest "le_bytes (dsize f) v"] assms
  by (auto simp: dec_ok_def store_clamped_def dec_error_def Let_def split: option.splits if_splits)

lemma dec_store_ok: "room a n \<Longrightarrow> n = length bs \<Longrightarrow> dec_ok False R (\<lambda>s m. (True, s, store m a bs))"
  using R_store [of a bs] by (auto simp: dec_ok_def)

lemma item_room_bounds:
  "dsize f \<le> item_room f" "ltype f = PB_LTYPE_FIXED32 \<Longrightarrow> 4 \<le> item_room f"
  "ltype f = PB_LTYPE_FIXED64 \<Longrightarrow> 8 \<le> item_room f"
  by (auto simp: item_room_def pb_consts)

lemma room_le: "room a n \<Longrightarrow> k \<le> n \<Longrightarrow> room a k"
  by (rule room_sub) auto

lemma dec_integers_ok:
  assumes "room dest (dsize f)"
  shows "dec_ok eats R (\<lambda>s m. pb_dec_varint s f dest m)"
    "dec_ok eats R (\<lambda>s m. pb_dec_uvarint s f dest m)"
    "dec_ok eats R (\<lambda>s m. pb_dec_svarint s f dest m)"
  unfolding pb_dec_varint_def pb_dec_uvarint_def pb_dec_svarint_def Let_def
  by (intro dec_bind_ok scalar_rules store_clamped_ok assms)+

lemma dec_fixed_ok:
  shows "room dest 4 \<Longrightarrow> dec_ok eats R (\<lambda>s m. pb_dec_fixed32 s f dest m)"
    and "room dest 8 \<Longrightarrow> dec_ok eats R (\<lambda>s m. pb_dec_fixed64 s f dest m)"
  unfolding pb_dec_fixed32_def pb_dec_fixed64_def
  by (rule dec_bind_ok [OF scalar_fixed32]; rule dec_store_ok; simp)
     (rule dec_bind_ok [OF scalar_fixed64]; rule dec_store_ok; simp)

lemma dec_bytes_ok:
  assumes "room dest (dsize f)"
  shows "dec_ok eats R (\<lambda>s m. pb_dec_bytes s f dest m)"
proof -
  have "dec_ok False R (\<lambda>s m. read_to s (dest + 4) (unat sz) (store_u32 m dest sz))"
    if "\<not> dsize f < PB_BYTES_ARRAY_T_ALLOCSIZE (unat sz)" for sz :: u32
  proof (rule dec_pre_ok)
    have "unat sz < 2 ^ 32" using unsigned_less [of sz, where ?'a = nat] by simp
    then have a: "unat sz + 4 \<le> dsize f"
      using that by (simp add: PB_BYTES_ARRAY_T_ALLOCSIZE_def size_add_exact)
    then show "dec_ok False R (\<lambda>s m. read_to s (dest + 4) (unat sz) m)"
      using read_to_ok [OF assms, of 4 "unat sz"] by simp
    show "R m (store_u32 m dest sz)" for m
      using a by (intro R_store_u32 room_le [OF assms]) simp
  qed
  then show ?thesis
    unfolding pb_dec_bytes_def Let_def
    by (intro dec_bind_ok scalar_rules dec_if_ok dec_error_ok)
qed

lemma dec_string_ok:
  assumes "room dest (dsize f)"
  shows "dec_ok eats R (\<lambda>s m. pb_dec_string s f dest m)"
proof -
  have "dec_ok False R (\<lambda>s m. case read_to s dest (unat sz) m of
      (status, s'', m') \<Rightarrow> (status, s'', store m' (dest + int (unat sz)) [0]))"
    if a: "\<not> unat (sz + 1) < unat sz" "\<not> dsize f < unat (sz + 1)" for sz :: u32
  proof -
    have "unat (sz + 1) = unat sz + 1"
      using a(1) unsigned_less [of sz, where ?'a = nat] unat_word_ariths(1) [of sz 1]
      by (cases "unat sz + 1 = 2 ^ 32") auto
    with a have le: "unat sz + 1 \<le> dsize f" by simp
    have rd: "dec_ok False R (\<lambda>s m. read_to s dest (unat sz) m)"
      using read_to_ok [OF assms, of 0 "unat sz"] le by simp
    have st: "R m (store m (dest + int (unat sz)) [0])" for m
      by (rule R_store_in [OF assms]) (use le in simp)
    show ?thesis by (rule dec_post_ok [OF rd st])
  qed
  then show ?thesis
    unfolding pb_dec_string_def Let_def
    by (intro dec_bind_ok scalar_rules dec_if_ok dec_error_ok)
qed

lemma dec_fixed_length_bytes_ok:
  assumes "room dest (dsize f)"
  shows "dec_ok eats R (\<lambda>s m. pb_dec_fixed_length_bytes s f dest m)"
proof -
  have "dec_ok False R (\<lambda>s m. (True, s, memset0 m dest (dsize f)))"
    using R_memset0 [OF assms] by (auto simp: dec_ok_def)
  moreover have "dec_ok False R (\<lambda>s m. read_to s dest (dsize f) m)"
    using read_to_ok [OF assms, of 0 "dsize f"] by simp
  ultimately show ?thesis
    unfolding pb_dec_fixed_length_bytes_def
    by (intro dec_bind_ok scalar_rules dec_if_ok dec_error_ok)
qed

subsection \<open>Submessages and the table of decoders\<close>

text \<open>What the recursive calls promise, for descriptors that fit (\<open>lay\<close>).\<close>

definition sub_ok :: "(pb_field list \<Rightarrow> addr \<Rightarrow> bool) \<Rightarrow> 's sub_decoder \<Rightarrow> sub_default \<Rightarrow> bool" where
  "sub_ok lay sub dflt \<longleftrightarrow> (\<forall>fs a. lay fs a \<longrightarrow>
     dec_ok False R (\<lambda>s m. sub s fs a m) \<and> (\<forall>m. R m (dflt fs a m)))"

lemma dec_submessage_ok:
  assumes "sub_ok lay sub dflt" "lay (submsg_fields f) dest"
  shows "dec_ok False R (\<lambda>s m. pb_dec_submessage sub dflt s f dest m)"
proof -
  let ?fs = "submsg_fields f"
  let ?g = "\<lambda>s m. if htype f = PB_HTYPE_REPEATED then sub s ?fs dest (dflt ?fs dest m)
    else sub s ?fs dest m"
  have s: "dec_ok False R (\<lambda>s m. sub s ?fs dest m)" "\<And>m. R m (dflt ?fs dest m)"
    using assms by (auto simp: sub_ok_def)
  have g: "dec_ok False R ?g" by (intro dec_if_ok dec_pre_ok [OF s] s(1))
  show ?thesis
  proof (cases "pf_ptr f = NullPtr")
    case True
    then have e: "pb_dec_submessage sub dflt s f dest m =
        (let s' = snd (pb_make_string_substream s); e = fst (pb_make_string_substream s) in
         (False, if e = None then s' else in_fail ''invalid field descriptor'' s', m))" for s m
      by (simp add: pb_dec_submessage_def dec_error_def Let_def split: prod.split option.split)
    show ?thesis
    proof (rule dec_okI)
      fix s m ok s' m' assume "buf_ok s" "pb_dec_submessage sub dflt s f dest m = (ok, s', m')"
      with make_substream(1) [of s "fst (pb_make_string_substream s)" "snd (pb_make_string_substream s)"]
      show "left s s' \<and> (ok \<longrightarrow> reads s s' \<and> (False \<longrightarrow> bytes_left s' < bytes_left s)) \<and> R m m'"
        by (auto simp: e Let_def)
    qed
  next
    case False
    show ?thesis
      by (rule substream_ok [OF g, where bad = "\<lambda>_. False" and msg = "[]"])
        (simp add: pb_dec_submessage_def False Let_def cong: option.case_cong prod.case_cong)
  qed
qed

lemma PB_DECODERS_ok:
  assumes "sub_ok lay sub dflt" "item_ok room lay f dest"
  shows "dec_ok False R (\<lambda>s m. PB_DECODERS sub dflt (ltype f) s f dest m)"
    and "ltype f \<le> PB_LTYPE_LAST_PACKABLE \<Longrightarrow> dec_ok True R (\<lambda>s m. PB_DECODERS sub dflt (ltype f) s f dest m)"
proof -
  have r: "room dest (item_room f)" using assms(2) by (simp add: item_ok_def)
  note rs = room_le [OF r item_room_bounds(1)] room_le [OF r item_room_bounds(2)]
    room_le [OF r item_room_bounds(3)]
  note ds = dec_integers_ok [OF rs(1)] dec_fixed_ok(1) [OF rs(2)] dec_fixed_ok(2) [OF rs(3)]
    dec_bytes_ok [OF rs(1)] dec_string_ok [OF rs(1)] dec_fixed_length_bytes_ok [OF rs(1)] bad_call_ok
  have sm: "ltype f = PB_LTYPE_SUBMESSAGE \<Longrightarrow> dec_ok False R (\<lambda>s m. pb_dec_submessage sub dflt s f dest m)"
    by (rule dec_submessage_ok [OF assms(1)]) (use assms(2) in \<open>simp add: item_ok_def\<close>)
  have no: "ltype f \<le> PB_LTYPE_LAST_PACKABLE \<Longrightarrow> ltype f \<noteq> PB_LTYPE_SUBMESSAGE"
    by (auto simp: pb_consts)
  show "dec_ok False R (\<lambda>s m. PB_DECODERS sub dflt (ltype f) s f dest m)"
    by (simp only: PB_DECODERS_def split: if_split) (intro conjI impI ds sm; assumption)
  assume l: "ltype f \<le> PB_LTYPE_LAST_PACKABLE"
  show "dec_ok True R (\<lambda>s m. PB_DECODERS sub dflt (ltype f) s f dest m)"
    by (simp only: PB_DECODERS_def no [OF l] if_False split: if_split) (intro conjI impI ds; assumption)
qed

end

end
