(* ===== verification/Pb_Message_Sound.thy ===== *)
theory Pb_Message_Sound
  imports Pb_Sound
begin

text \<open>
  The contract of \<open>Pb_Sound\<close> for fields, default values and whole messages: by induction on
  the nesting depth, every decoder stays inside its input and inside the struct it fills.
\<close>

section \<open>The loops over a descriptor array\<close>

text \<open>The positions the iterator can be at: an entry, or the terminator of an empty array.\<close>

definition valid_pos :: "pb_field list \<Rightarrow> nat \<Rightarrow> bool" where
  "valid_pos fs k \<longleftrightarrow> k < length fs \<or> k = 0"

lemma valid_pos_0 [simp]: "valid_pos fs 0"
  by (simp add: valid_pos_def)

lemma valid_pos_Nil [simp]: "valid_pos [] k \<longleftrightarrow> k = 0"
  by (simp add: valid_pos_def)

lemma valid_pos_Cons: "fs \<noteq> [] \<Longrightarrow> valid_pos fs k \<longleftrightarrow> k < length fs"
  by (auto simp: valid_pos_def)

lemma iter_next_pos:
  assumes "wf_tags fs" "valid_pos fs k"
  obtains k' where "valid_pos fs k'" "fst (pb_field_iter_next (field_iter fs dest k)) = field_iter fs dest k'"
proof (cases "fs = []")
  case True
  with assms that [of 0] show thesis by (simp add: iter_next_wrap)
next
  case False
  with assms have "k < length fs" by (simp add: valid_pos_Cons)
  with that [of "Suc k mod length fs"] assms False show thesis
    by (simp add: iter_next_eq valid_pos_Cons)
qed

lemma iter_find_pos:
  assumes "wf_tags fs" "valid_pos fs k" "pb_field_iter_find (field_iter fs dest k) tag = (it, b)"
  obtains k' where "valid_pos fs k'" "it = field_iter fs dest k'"
proof (cases "fs = []")
  case True
  with assms that [of 0] show thesis by (simp add: iter_find_Nil)
next
  case False
  with assms have k: "k < length fs" by (simp add: valid_pos_Cons)
  show thesis
  proof (cases b)
    case True
    then obtain j where "j < length fs" "it = field_iter fs dest j"
      using iter_find_True [OF assms(1) k, of dest tag it] assms(3) by auto
    then show thesis using that [of j] by (simp add: valid_pos_def)
  next
    case False
    then have "it = field_iter fs dest k"
      using iter_find_False(1) [OF assms(1) k, of dest tag it] assms(3) by simp
    then show thesis using that assms(2) by simp
  qed
qed

lemma do_fields_fold:
  assumes "wf_tags fs"
  shows "k < length fs \<Longrightarrow> length fs \<le> k + n \<Longrightarrow>
    do_fields f n (field_iter fs dest k) m = fold (\<lambda>j. f (field_iter fs dest j)) [k..<length fs] m"
proof (induction n arbitrary: k m)
  case 0
  then show ?case by simp
next
  case (Suc n)
  have upt: "[k..<length fs] = k # [Suc k..<length fs]" using Suc.prems(1) by (rule upt_conv_Cons)
  show ?case
  proof (cases "Suc k < length fs")
    case True
    with Suc.prems Suc.IH [of "Suc k"] show ?thesis by (simp add: upt iter_next_step [OF assms])
  next
    case False
    then have "Suc k = length fs" using Suc.prems(1) by simp
    then show ?thesis using Suc.prems(1) by (simp add: upt iter_next_eq [OF assms])
  qed
qed

lemma message_defaults_fold:
  "wf_tags fs \<Longrightarrow> message_defaults f fs dest m = fold (\<lambda>j. f (field_iter fs dest j)) [0..<length fs] m"
  by (cases "fs = []") (auto simp: message_defaults_def iter_begin_wf do_fields_fold)

definition no_extensions :: "pb_field list \<Rightarrow> bool" where
  "no_extensions fs \<longleftrightarrow> list_all (\<lambda>f. ltype f \<noteq> PB_LTYPE_EXTENSION) fs"

lemma no_extensions_at: "no_extensions fs \<Longrightarrow> ltype (field_at fs k) \<noteq> PB_LTYPE_EXTENSION"
  by (cases "k < length fs") (auto simp: no_extensions_def list_all_length PB_LTYPE_def pb_consts)

lemma find_ext_loop_none:
  assumes "wf_tags fs" "no_extensions fs"
  shows "valid_pos fs k \<Longrightarrow> \<exists>k'. valid_pos fs k' \<and>
    find_ext_loop n start (field_iter fs dest k) = (field_iter fs dest k', False)"
proof (induction n arbitrary: k)
  case (Suc n)
  obtain k' where k': "valid_pos fs k'" "fst (pb_field_iter_next (field_iter fs dest k)) = field_iter fs dest k'"
    using iter_next_pos [OF assms(1) Suc.prems] by metis
  with Suc.IH [OF k'(1)] no_extensions_at [OF assms(2), of k] show ?case by (auto simp: Let_def)
qed auto

text \<open>A tag has 29 bits, so it never reaches the mark \<open>(uint32_t)-1\<close> of "no extensions".\<close>

lemma decoded_tag_small:
  assumes "pb_decode_tag s = (Inr (wt, tag), s')"
  shows "\<not> - 1 \<le> tag"
proof
  assume "- 1 \<le> tag"
  then have "tag = - 1" by (metis word_order.extremum antisym)
  moreover obtain temp where "tag = drop_bit 3 (temp :: u32)"
    using assms by (auto simp: pb_decode_tag_def split: option.splits prod.splits if_splits)
  ultimately have "bit (drop_bit 3 temp :: u32) 31" by simp
  then show False by (auto simp: bit_drop_bit_eq dest: bit_imp_le_length)
qed

lemma unknown_field_skips:
  assumes "wf_tags fs" "no_extensions fs" "valid_pos fs k" "\<not> - 1 \<le> tag"
  shows "\<exists>k' es'. valid_pos fs k' \<and> unknown_field env sub dflt s wt tag (field_iter fs dest k) es m =
    (fst (pb_skip_field s wt), snd (pb_skip_field s wt), field_iter fs dest k', es', m)"
proof -
  obtain k' where "valid_pos fs k'" "find_extension_field (field_iter fs dest k) = (field_iter fs dest k', False)"
    using find_ext_loop_none [OF assms(1-3)] unfolding find_extension_field_def by metis
  with assms(3,4) show ?thesis
    by (auto simp: unknown_field_def skip_unknown_def split: prod.splits)
qed

section \<open>Fields\<close>

context writable
begin

lemma packed_loop_ok:
  assumes func: "\<And>i. i < unat (pf_array_size (it_field it)) \<Longrightarrow> dec_ok True R (\<lambda>s m.
      func s (it_field it) (it_pData it + uint (pf_data_size (it_field it) * word_of_nat i)) m)"
    and size: "room (it_pSize it) 4"
  shows "dec_ok False R (\<lambda>s m. packed_loop func fuel s it m)"
proof (induction fuel)
  case 0
  have "(\<lambda>s m. packed_loop func 0 s it m) = (\<lambda>s m. if 0 < bytes_left s \<and>
      load_u32 m (it_pSize it) < pf_array_size (it_field it) then out_of_fuel s m else (True, s, m))"
    by (simp add: packed_loop.simps [of func 0] fun_eq_iff Let_def)
  then show ?case by (auto simp: dec_ok_def out_of_fuel_def dec_error_def)
next
  case (Suc fuel)
  show ?case
  proof (rule dec_okI)
    fix s m ok s' m'
    assume b: "buf_ok s" and r: "packed_loop func (Suc fuel) s it m = (ok, s', m')"
    let ?sz = "load_u32 m (it_pSize it)" and ?f = "it_field it"
    let ?a = "it_pData it + uint (pf_data_size ?f * ?sz)"
    show "left s s' \<and> (ok \<longrightarrow> reads s s' \<and> (False \<longrightarrow> bytes_left s' < bytes_left s)) \<and> R m m'"
    proof (cases "0 < bytes_left s \<and> ?sz < pf_array_size ?f")
      case False
      with r show ?thesis by (auto simp: packed_loop.simps [of func "Suc fuel"])
    next
      case True
      obtain st s1 m1 where f: "func s ?f ?a m = (st, s1, m1)" by (metis prod_cases3)
      have "unat ?sz < unat (pf_array_size ?f)" using True by (simp add: word_less_nat_alt)
      from func [OF this] have "dec_ok True R (\<lambda>s m. func s ?f ?a m)" by simp
      note q = dec_okD [OF this b f]
      show ?thesis
      proof (cases st)
        case False
        with r f True q show ?thesis by (auto simp: packed_loop.simps [of func "Suc fuel"] Let_def)
      next
        case st: True
        let ?m2 = "store_u32 m1 (it_pSize it) (load_u32 m1 (it_pSize it) + 1)"
        have "packed_loop func fuel s1 it ?m2 = (ok, s', m')"
          using r f True st by (simp add: packed_loop.simps [of func "Suc fuel"])
        note z = dec_okD [OF Suc.IH left_buf_ok [OF q(1) b] this]
        have "R m m'" using q(2) R_store_u32 [OF size] z(2) R_trans by metis
        with q z st show ?thesis by (auto intro: left_trans reads_trans)
      qed
    qed
  qed
qed

lemma decode_packed_ok:
  assumes "\<And>i. i < unat (pf_array_size (it_field it)) \<Longrightarrow> dec_ok True R (\<lambda>s m.
      func s (it_field it) (it_pData it + uint (pf_data_size (it_field it) * word_of_nat i)) m)"
    and "room (it_pSize it) 4"
  shows "dec_ok False R (\<lambda>s m. decode_packed func s it m)"
proof (rule substream_ok)
  show "dec_ok False R (\<lambda>sub m. packed_loop func (bytes_left sub) sub it m)"
    by (rule dec_okI) (use dec_okD [OF packed_loop_ok [where it = it and func = func, OF assms]] in blast)
  show "decode_packed func s it m = (case pb_make_string_substream s of
      (None, s') \<Rightarrow> (False, s', m)
    | (Some sub, s') \<Rightarrow> (case packed_loop func (bytes_left sub) sub it m of (status, sub', m') \<Rightarrow>
        if bytes_left sub' \<noteq> 0 then dec_error ''array overflow'' s' m'
        else (case pb_close_string_substream s' sub' of
            (False, s'') \<Rightarrow> (False, s'', m') | (True, s'') \<Rightarrow> (status, s'', m'))))" for s m
    by (simp add: decode_packed_def)
qed

lemma decode_repeated_ok:
  assumes "\<And>i. i < unat (pf_array_size (it_field it)) \<Longrightarrow> dec_ok False R (\<lambda>s m.
      func s (it_field it) (it_pData it + uint (pf_data_size (it_field it) * word_of_nat i)) m)"
    and "room (it_pSize it) 4"
  shows "dec_ok False R (\<lambda>s m. decode_repeated func s it m)"
proof (rule dec_okI)
  fix s m ok s' m'
  assume b: "buf_ok s" and r: "decode_repeated func s it m = (ok, s', m')"
  let ?sz = "load_u32 m (it_pSize it)" and ?f = "it_field it"
  let ?a = "it_pData it + uint (pf_data_size ?f * ?sz)" and ?m1 = "store_u32 m (it_pSize it) (?sz + 1)"
  show "left s s' \<and> (ok \<longrightarrow> reads s s' \<and> (False \<longrightarrow> bytes_left s' < bytes_left s)) \<and> R m m'"
  proof (cases "pf_array_size ?f \<le> ?sz")
    case True
    with r show ?thesis by (auto simp: decode_repeated_def dec_error_def Let_def)
  next
    case False
    then have "unat ?sz < unat (pf_array_size ?f)" by (simp add: word_le_nat_alt)
    from assms(1) [OF this] have "dec_ok False R (\<lambda>s m. func s ?f ?a m)" by simp
    moreover have "func s ?f ?a ?m1 = (ok, s', m')" using r False by (simp add: decode_repeated_def Let_def)
    ultimately show ?thesis using dec_okD [of False R "\<lambda>s m. func s ?f ?a m", OF _ b]
      R_store_u32 [OF assms(2)] R_trans by metis
  qed
qed

lemma decode_static_field_ok:
  assumes sub: "sub_ok lay sub dflt" and f: "field_ok room lay it" and a: "atype (it_field it) = PB_ATYPE_STATIC"
  shows "dec_ok False R (\<lambda>s m. decode_static_field sub dflt s wt it m)"
proof (cases "htype (it_field it) = PB_HTYPE_REPEATED")
  case True
  let ?f = "it_field it"
  have room: "room (it_pSize it) 4" and
    item: "\<And>i. i < unat (pf_array_size ?f) \<Longrightarrow>
        item_ok room lay ?f (it_pData it + uint (pf_data_size ?f * word_of_nat i))"
    using f a True by (auto simp: field_ok_def Let_def list_all_length)
  have "dec_ok False R (\<lambda>s m. decode_repeated (PB_DECODERS sub dflt (ltype ?f)) s it m)"
    by (rule decode_repeated_ok [where it = it, OF _ room]) (rule PB_DECODERS_ok(1) [OF sub item])
  moreover have "ltype ?f \<le> PB_LTYPE_LAST_PACKABLE \<Longrightarrow>
      dec_ok False R (\<lambda>s m. decode_packed (PB_DECODERS sub dflt (ltype ?f)) s it m)"
    by (rule decode_packed_ok [where it = it, OF _ room]) (rule PB_DECODERS_ok(2) [OF sub item])
  ultimately show ?thesis
    unfolding decode_static_field_def Let_def
    using True by (auto simp: pb_consts intro: dec_if_ok)
next
  case False
  let ?f = "it_field it" and ?d = "\<lambda>s m. PB_DECODERS sub dflt (ltype (it_field it)) s (it_field it) (it_pData it) m"
  have item: "item_ok room lay ?f (it_pData it)"
    and has: "htype ?f = PB_HTYPE_OPTIONAL \<Longrightarrow> it_pSize it \<noteq> it_pData it \<Longrightarrow> room (it_pSize it) 1"
    and which: "htype ?f = PB_HTYPE_ONEOF \<Longrightarrow> room (it_pSize it) 4"
    using f a False by (auto simp: field_ok_def Let_def)
  note d = PB_DECODERS_ok(1) [OF sub item]
  have "R m (if it_pSize it \<noteq> it_pData it then store_bool m (it_pSize it) True else m)"
    if "htype ?f = PB_HTYPE_OPTIONAL" for m using has [OF that] by (auto intro: R_store_bool)
  note opt = dec_pre_ok [OF d this]
  have mem: "R m (memset0 m (it_pData it) (dsize ?f))" for m
    using item by (auto simp: item_ok_def intro: R_memset0 room_le item_room_bounds(1))
  have df: "ltype ?f = PB_LTYPE_SUBMESSAGE \<Longrightarrow> R m (dflt (submsg_fields ?f) (it_pData it) m)" for m
    using sub item by (auto simp: item_ok_def sub_ok_def)
  have "R m (let m1 = store_u32 m (it_pSize it) (pf_tag ?f) in if ltype ?f = PB_LTYPE_SUBMESSAGE
       then dflt (submsg_fields ?f) (it_pData it) (memset0 m1 (it_pData it) (dsize ?f)) else m1)"
    if "htype ?f = PB_HTYPE_ONEOF" for m
    using R_trans [OF R_trans [OF R_store_u32 [OF which [OF that]] mem] df] R_store_u32 [OF which [OF that]]
    by (simp add: Let_def)
  note one = dec_pre_ok [OF d this]
  show ?thesis
    unfolding decode_static_field_def Let_def
    by (intro dec_if_ok) (use d opt one dec_error_ok [of False] False in \<open>simp_all add: Let_def\<close>)
qed

lemma callback_loop_ok:
  assumes "callbacks_ok R env"
  shows "dec_ok False R (\<lambda>s m. callback_loop env fuel s it m)"
proof (induction fuel)
  case 0
  show ?case by (simp add: out_of_fuel_ok)
next
  case (Suc fuel)
  show ?case
  proof (rule dec_okI)
    fix s m ok s' m'
    assume b: "buf_ok s" and r: "callback_loop env (Suc fuel) s it m = (ok, s', m')"
    let ?d = "user_decode env (load_ptr m (it_pData it))"
    obtain st s1 m1 where u: "?d s (it_field it) (it_pData it + 8) m = (st, s1, m1)" by (metis prod_cases3)
    have "dec_ok False R (\<lambda>s m'. ?d s (it_field it) (it_pData it + 8) m')"
      using assms by (simp add: callbacks_ok_def)
    note q = dec_okD [OF this b u]
    show "left s s' \<and> (ok \<longrightarrow> reads s s' \<and> (False \<longrightarrow> bytes_left s' < bytes_left s)) \<and> R m m'"
    proof (cases "st \<and> bytes_left s1 \<noteq> 0")
      case False
      with r u q show ?thesis by (auto split: bool.splits)
    next
      case True
      with r u have "callback_loop env fuel s1 it m1 = (ok, s', m')" by simp
      note z = dec_okD [OF Suc.IH left_buf_ok [OF q(1) b] this]
      with q True show ?thesis by (auto intro: left_trans reads_trans R_trans)
    qed
  qed
qed

lemma raw_varint_loop_reads:
  "buf_ok s \<Longrightarrow> raw_varint_loop n s = (r, s') \<Longrightarrow> reads s s'"
proof (induction n arbitrary: s r)
  case (Suc n)
  show ?case
  proof (cases "1 \<le> bytes_left s \<and> hd (take 1 (contents s)) AND 0x80 \<noteq> 0")
    case True
    obtain r1 where "raw_varint_loop n (adv 1 s) = (r1, s')"
      using Suc.prems True by (auto simp: pb_read_buf_eq split: prod.splits option.splits)
    then have "reads (adv 1 s) s'" using Suc.IH [of "adv 1 s"] Suc.prems(1) by simp
    with True show ?thesis by (meson reads_adv reads_trans)
  next
    case False
    with Suc.prems show ?thesis
      by (auto simp: pb_read_buf_eq intro!: reads_adv split: if_splits)
  qed
qed simp

lemma read_raw_value_reads:
  "buf_ok s \<Longrightarrow> read_raw_value s wt n = (r, s') \<Longrightarrow> reads s s'"
  by (auto simp: read_raw_value_def pb_read_buf_eq dest: raw_varint_loop_reads
      intro!: reads_adv split: if_splits)

lemma decode_callback_field_ok:
  assumes "callbacks_ok R env"
  shows "dec_ok False R (\<lambda>s m. decode_callback_field env s wt it m)"
proof (rule dec_okI)
  fix s m ok s' m'
  assume b: "buf_ok s" and r: "decode_callback_field env s wt it m = (ok, s', m')"
  let ?goal = "left s s' \<and> (ok \<longrightarrow> reads s s' \<and> (False \<longrightarrow> bytes_left s' < bytes_left s)) \<and> R m m'"
  consider (skip) "load_ptr m (it_pData it) = 0"
    | (string) "load_ptr m (it_pData it) \<noteq> 0" "wt = PB_WT_STRING"
    | (scalar) "load_ptr m (it_pData it) \<noteq> 0" "wt \<noteq> PB_WT_STRING" by blast
  then show ?goal
  proof cases
    case skip
    obtain ok1 s1 where "pb_skip_field s wt = (ok1, s1)" by fastforce
    with skip r skip_field_reads [OF b this] show ?thesis by (simp add: decode_callback_field_def)
  next
    case string
    let ?g = "\<lambda>s m. callback_loop env (loop_fuel env) s it m"
    obtain so s1 where mk: "pb_make_string_substream s = (so, s1)" by fastforce
    note l = make_substream(1) [OF b mk]
    show ?thesis
    proof (cases so)
      case None
      with r string mk l show ?thesis by (simp add: decode_callback_field_def)
    next
      case (Some sub)
      note mk = mk [unfolded Some]
      obtain st sub' m1 where g: "?g sub m = (st, sub', m1)" by (metis prod_cases3)
      have "buf_ok sub" using make_substream(3) [OF b mk refl] b by auto
      note q = dec_okD [OF callback_loop_ok [OF assms] this g]
      show ?thesis
      proof (cases st)
        case False
        with r string mk g l q show ?thesis by (simp add: decode_callback_field_def dec_error_def) auto
      next
        case True
        obtain c s2 where cl: "pb_close_string_substream s1 sub' = (c, s2)" by fastforce
        note z = close_substream [OF b mk q(1) cl]
        from r string mk g cl True z(1) have "ok \<and> s' = s2 \<and> m' = m1" by (simp add: decode_callback_field_def)
        with True q z show ?thesis by auto
      qed
    qed
  next
    case scalar
    obtain ro s1 where rd: "read_raw_value s wt 10 = (ro, s1)" by fastforce
    note l = read_raw_value_reads [OF b rd]
    show ?thesis
    proof (cases ro)
      case None
      with r scalar rd l show ?thesis by (simp add: decode_callback_field_def reads_left)
    next
      case (Some buf)
      let ?d = "user_decode env (load_ptr m (it_pData it))"
      obtain st u m1 where d: "?d (pb_istream_from_buffer buf (length buf)) (it_field it) (it_pData it + 8) m = (st, u, m1)"
        by (metis prod_cases3)
      have "dec_ok False R (\<lambda>s m'. ?d s (it_field it) (it_pData it + 8) m')"
        using assms by (simp add: callbacks_ok_def)
      from dec_okD(2) [OF this _ d] have "R m m1" by simp
      with r scalar rd Some d l show ?thesis by (simp add: decode_callback_field_def reads_left)
    qed
  qed
qed

lemma decode_field_ok:
  assumes "callbacks_ok R env" "sub_ok lay sub dflt" "field_ok room lay it"
  shows "dec_ok False R (\<lambda>s m. decode_field env sub dflt s wt it m)"
  unfolding decode_field_def Let_def decode_pointer_field_def
  by (intro dec_if_ok decode_static_field_ok [OF assms(2,3)] decode_callback_field_ok [OF assms(1)]
      dec_error_ok)

section \<open>Default values\<close>

lemma fold_R: "(\<And>j m. j \<in> set js \<Longrightarrow> R m (g j m)) \<Longrightarrow> R m (fold g js m)"
  by (induction js arbitrary: m) (auto intro: R_trans)

lemma message_defaults_ok:
  assumes "\<And>it m. field_ok room lay it \<Longrightarrow> R m (set_field it m)"
    and "wf_tags fs" "list_all (\<lambda>k. field_ok room lay (field_iter fs dest k)) [0..<length fs]"
  shows "R m (message_defaults set_field fs dest m)"
  using assms by (auto simp: message_defaults_fold list_all_length intro!: fold_R)

lemma field_to_default_ok:
  assumes msg: "\<And>fs dest m. lay fs dest \<Longrightarrow> R m (message_defaults set_field fs dest m)"
    and f: "field_ok room lay it"
  shows "R m (field_to_default env set_field it m)"
proof -
  let ?f = "it_field it"
  have ext: "ltype ?f \<noteq> PB_LTYPE_EXTENSION" using f by (simp add: field_ok_def Let_def)
  have init: "R m (init_data set_field it m)" if "item_ok room lay ?f (it_pData it)" for m
  proof -
    have r: "room (it_pData it) (dsize ?f)"
      using that by (auto simp: item_ok_def intro: room_le item_room_bounds(1))
    have "R m (store m (it_pData it) (take (dsize ?f) bs))" for bs
      by (rule R_store [OF room_le [OF r]]) simp
    with that msg R_memset0 [OF r] show ?thesis
      by (auto simp: init_data_def item_ok_def Let_def split: pb_ptr.split)
  qed
  show ?thesis
  proof (cases "atype ?f = PB_ATYPE_STATIC")
    case True
    have opt: "R m (init_data set_field it (store_bool m (it_pSize it) False))"
      if "room (it_pSize it) 1" "item_ok room lay ?f (it_pData it)"
      using R_trans [OF R_store_bool [OF that(1)] init [OF that(2)]] .
    from PB_HTYPE_cases [of "pf_type ?f"] show ?thesis
      using f ext init opt R_store_u32 True
      by (elim disjE) (simp_all add: field_to_default_def field_ok_def Let_def)
  next
    case False
    have "R m (store_u32 (store_ptr m (it_pData it) 0) (it_pSize it) 0)"
      if "room (it_pData it) 8" "room (it_pSize it) 4"
      using R_trans [OF R_store_ptr [OF that(1)] R_store_u32 [OF that(2)]] .
    with False f ext show ?thesis
      by (auto simp: field_to_default_def field_ok_def Let_def intro: R_store_ptr)
  qed
qed

lemma set_to_default_ok:
  "layout_ok room depth fs dest \<Longrightarrow> R m (pb_message_set_to_defaults env depth fs dest m)"
proof (induction depth arbitrary: fs dest m)
  case 0
  have "R m (do_fields (\<lambda>it m. m) n it m)" for n it m
    by (induction n arbitrary: it) (auto split: prod.splits bool.splits)
  then show ?case
    by (auto simp: pb_message_set_to_defaults_def message_defaults_def split: prod.splits bool.splits)
next
  case (Suc depth)
  have "R m (pb_field_set_to_default env (Suc depth) it m)"
    if "field_ok room (layout_ok room depth) it" for it m
    unfolding pb_field_set_to_default.simps
    by (rule field_to_default_ok [OF _ that]) (rule Suc.IH [unfolded pb_message_set_to_defaults_def])
  with Suc.prems show ?case
    unfolding pb_message_set_to_defaults_def
    by (intro message_defaults_ok) auto
qed

section \<open>Messages\<close>

lemma field_ok_terminator: "field_ok room lay (field_iter [] dest 0)"
  by (simp add: field_ok_def item_ok_def item_room_def PB_LTYPE_def PB_HTYPE_def PB_ATYPE_def pb_consts)

definition fits_fields :: "(pb_field list \<Rightarrow> addr \<Rightarrow> bool) \<Rightarrow> pb_field list \<Rightarrow> addr \<Rightarrow> bool" where
  "fits_fields lay fs dest \<longleftrightarrow> wf_tags fs \<and>
     list_all (\<lambda>k. field_ok room lay (field_iter fs dest k)) [0..<length fs]"

lemma fits_fieldsD:
  assumes "fits_fields lay fs dest"
  shows "wf_tags fs" "no_extensions fs" "valid_pos fs k \<Longrightarrow> field_ok room lay (field_iter fs dest k)"
proof -
  show "wf_tags fs" using assms by (simp add: fits_fields_def)
  show "no_extensions fs"
    using assms by (auto simp: fits_fields_def no_extensions_def list_all_length field_ok_def Let_def)
  show "valid_pos fs k \<Longrightarrow> field_ok room lay (field_iter fs dest k)"
    using assms field_ok_terminator
    by (cases "fs = []") (auto simp: fits_fields_def list_all_length valid_pos_Cons)
qed

lemma decode_loop_ok:
  assumes env: "callbacks_ok R env" and sub: "sub_ok lay sub dflt" and fits: "fits_fields lay fs dest"
  shows "valid_pos fs k \<Longrightarrow> buf_ok s \<Longrightarrow>
    decode_loop env sub dflt fuel s (field_iter fs dest k) seen es m = (ok, s', it', seen', m') \<Longrightarrow>
    left s s' \<and> (ok \<longrightarrow> reads s s') \<and> R m m' \<and> (\<exists>k'. valid_pos fs k' \<and> it' = field_iter fs dest k')"
proof (induction fuel arbitrary: k s seen es m)
  case 0
  then show ?case by (auto simp: decode_loop.simps [of env sub dflt 0] split: if_splits)
next
  case (Suc fuel)
  note unf = decode_loop.simps [of env sub dflt "Suc fuel" s]
  note b = Suc.prems(2) and r = Suc.prems(3)
  show ?case
  proof (cases "bytes_left s = 0")
    case True
    with r Suc.prems(1) show ?thesis by (auto simp: unf)
  next
    case more: False
    obtain tr s1 where t: "pb_decode_tag s = (tr, s1)" by fastforce
    note tags = tag_reads [OF b t]
    note b1 = left_buf_ok [OF tags(1) b]
    show ?thesis
    proof (cases tr)
      case (Inl eof)
      with r more t tags Suc.prems(1) show ?thesis by (auto simp: unf)
    next
      case (Inr wt_tag)
      obtain wt tag where wt: "wt_tag = (wt, tag)" by fastforce
      note s1 = tags(2) [OF Inr]
      obtain it1 found where fd: "pb_field_iter_find (field_iter fs dest k) tag = (it1, found)" by fastforce
      obtain k1 where k1: "valid_pos fs k1" "it1 = field_iter fs dest k1"
        using iter_find_pos [OF fits_fieldsD(1) [OF fits] Suc.prems(1) fd] by blast
      show ?thesis
      proof (cases found)
        case False
        obtain k2 es2 where u: "valid_pos fs k2" "unknown_field env sub dflt s1 wt tag it1 es m =
            (fst (pb_skip_field s1 wt), snd (pb_skip_field s1 wt), field_iter fs dest k2, es2, m)"
          using unknown_field_skips [OF fits_fieldsD(1,2) [OF fits] k1(1) decoded_tag_small, of s wt tag s1]
            t Inr wt k1(2) by metis
        obtain st s2 where sk: "pb_skip_field s1 wt = (st, s2)" by fastforce
        note q = skip_field_reads [OF b1 sk]
        show ?thesis
        proof (cases st)
          case False
          with r more t Inr wt fd \<open>\<not> found\<close> u sk q tags(1) show ?thesis
            by (auto simp: unf intro: left_trans)
        next
          case True
          with r more t Inr wt fd \<open>\<not> found\<close> u(2) sk
          have "decode_loop env sub dflt fuel s2 (field_iter fs dest k2) seen es2 m = (ok, s', it', seen', m')"
            by (simp add: unf)
          from Suc.IH [OF u(1) left_buf_ok [OF q(1) b1] this] q True tags(1) s1
          show ?thesis by (auto intro: left_trans reads_trans)
        qed
      next
        case True
        obtain st s2 m2 where f: "decode_field env sub dflt s1 wt it1 m = (st, s2, m2)" by (metis prod_cases3)
        have "field_ok room lay it1" using fits_fieldsD(3) [OF fits k1(1)] k1(2) by simp
        note q = dec_okD [OF decode_field_ok [OF env sub this] b1 f]
        show ?thesis
        proof (cases st)
          case False
          with r more t Inr wt fd True f q tags(1) k1 show ?thesis
            by (auto simp: unf Let_def intro: left_trans)
        next
          case st: True
          with r more t Inr wt fd True f
          have "decode_loop env sub dflt fuel s2 (field_iter fs dest k1) (mark_required it1 seen) es m2 =
              (ok, s', it', seen', m')"
            by (simp add: unf Let_def k1(2))
          from Suc.IH [OF k1(1) left_buf_ok [OF q(1) b1] this] q st tags(1) s1
          show ?thesis by (auto intro: left_trans reads_trans R_trans)
        qed
      qed
    qed
  qed
qed

lemma decode_message_ok:
  assumes "callbacks_ok R env" "sub_ok lay sub dflt" "fits_fields lay fs dest"
  shows "dec_ok False R (\<lambda>s m. decode_message env sub dflt s fs dest m)"
proof (rule dec_okI)
  fix s m ok s' m'
  assume b: "buf_ok s" and r: "decode_message env sub dflt s fs dest m = (ok, s', m')"
  obtain st s1 it seen m1 where l: "decode_loop env sub dflt (bytes_left s) s (field_iter fs dest 0) [0, 0] 0 m =
      (st, s1, it, seen, m1)" by (metis prod_cases5)
  from decode_loop_ok [OF assms valid_pos_0 b l] r l
  show "left s s' \<and> (ok \<longrightarrow> reads s s' \<and> (False \<longrightarrow> bytes_left s' < bytes_left s)) \<and> R m m'"
    by (auto simp: decode_message_def iter_begin_eq dec_error_def split: bool.splits if_splits)
qed

theorem decode_noinit_ok:
  assumes "callbacks_ok R env"
  shows "sub_ok (layout_ok room depth) (pb_decode_noinit env depth) (pb_message_set_to_defaults env depth)"
proof (induction depth)
  case 0
  show ?case
    by (simp add: sub_ok_def out_of_fuel_ok set_to_default_ok)
next
  case (Suc depth)
  have "dec_ok False R (\<lambda>s m. pb_decode_noinit env (Suc depth) s fs a m)"
    if "layout_ok room (Suc depth) fs a" for fs a
    unfolding pb_decode_noinit.simps
    by (rule decode_message_ok [OF assms Suc.IH]) (use that in \<open>simp add: fits_fields_def\<close>)
  then show ?case unfolding sub_ok_def by (intro allI impI conjI set_to_default_ok)
qed

lemma decode_ok:
  assumes "callbacks_ok R env" "layout_ok room depth fs dest"
  shows "dec_ok False R (\<lambda>s m. pb_decode env depth s fs dest m)"
  unfolding pb_decode_def
  by (rule dec_pre_ok [where g = "pb_message_set_to_defaults env depth fs dest"])
    (use decode_noinit_ok [OF assms(1), of depth] assms(2) in \<open>auto simp: sub_ok_def\<close>)

lemma decode_delimited_ok:
  assumes "callbacks_ok R env" "layout_ok room depth fs dest"
  shows "dec_ok False R (\<lambda>s m. pb_decode_delimited env depth s fs dest m)"
  by (rule substream_ok [OF decode_ok [OF assms], where bad = "\<lambda>_. False" and msg = "[]"])
    (simp add: pb_decode_delimited_def cong: option.case_cong prod.case_cong)

end

section \<open>The two instances\<close>

interpretation free: writable "\<lambda>_ _. True" "\<lambda>_ _. True"
  by unfold_locales simp_all

definition in_region :: "addr \<Rightarrow> nat \<Rightarrow> addr \<Rightarrow> nat \<Rightarrow> bool" where
  "in_region a n b k \<longleftrightarrow> k = 0 \<or> (a \<le> b \<and> b + int k \<le> a + int n)"

interpretation region: writable "eq_outside a (int n)" "in_region a n" for a n
proof
  show "eq_outside a (int n) m (store m b bs)" if "in_region a n b (length bs)" for m b bs
    using that by (auto simp: in_region_def intro: eq_outside_store)
qed (auto simp: in_region_def intro: eq_outside_trans)

text \<open>A descriptor array for the examples below: a required \<open>int32\<close>, an optional \<open>uint32\<close>
  with its has member, and a submessage with one required \<open>bool\<close>, in a struct of 16 bytes.\<close>

definition example_fields :: "pb_field list" where
  "example_fields = [PbField 1 0x00 0 0 4 0 NullPtr, PbField 2 0x11 4 (- 4) 4 0 NullPtr,
     PbField 3 0x07 0 0 1 0 (Submsg [PbField 1 0x00 0 0 1 0 NullPtr])]"

definition no_callbacks :: "'s dec_env" where
  "no_callbacks = \<lparr>user_decode = (\<lambda>fn s f a m. (False, s, m)), ext_arg = (\<lambda>_. PB_LAST_FIELD),
     ext_decode = (\<lambda>_. None), loop_fuel = 0\<rparr>"

lemma no_callbacks_ok: "(\<And>m. R m m) \<Longrightarrow> callbacks_ok R no_callbacks"
  by (auto simp: callbacks_ok_def no_callbacks_def dec_ok_def)

lemma example_layout:
  "layout_ok (in_region 0 16) 2 example_fields 0"
  by code_simp

end
