(* ===== verification/Pb_Decode_Loop.thy ===== *)
theory Pb_Decode_Loop
  imports Pb_Message_Sound Pb_Varint
begin

text \<open>
  The message loop in closed form, for descriptor arrays without extension fields: what one
  round does for a known and for an unknown tag, that the bounds of the loop and of the
  recursion do not matter once they are large enough, and that unknown fields leave no trace.
\<close>

section \<open>Unknown tags\<close>

text \<open>The search for an extension field goes once round and comes back.\<close>

lemma find_ext_as_find:
  assumes "wf_tags fs" "no_extensions fs" "fs \<noteq> []"
  shows "valid_pos fs k \<Longrightarrow> find_ext_loop n start (field_iter fs dest k) = iter_find_loop n start (field_iter fs dest k) 0"
proof (induction n arbitrary: k)
  case (Suc n)
  obtain k' where k': "valid_pos fs k'" "fst (pb_field_iter_next (field_iter fs dest k)) = field_iter fs dest k'"
    using iter_next_pos [OF assms(1) Suc.prems] by metis
  have "k < length fs" using Suc.prems assms(3) by (simp add: valid_pos_Cons)
  then have "pf_tag (fs ! k) \<noteq> 0" using assms(1) by (simp add: wf_tagsD)
  with k' Suc.IH [OF k'(1)] no_extensions_at [OF assms(2), of k] \<open>k < length fs\<close> show ?case
    by (simp add: iter_find_loop_Suc tag_match_def Let_def)
qed simp

lemma find_ext_eq:
  assumes "wf_tags fs" "no_extensions fs" "valid_pos fs k"
  shows "find_extension_field (field_iter fs dest k) = (field_iter fs dest k, False)"
proof (cases "fs = []")
  case True
  then show ?thesis using assms
    by (simp add: find_extension_field_def pb_field_iter_next_def PB_LTYPE_def pb_consts)
next
  case False
  with assms have k: "k < length fs" by (simp add: valid_pos_Cons)
  have "find_extension_field (field_iter fs dest k) = pb_field_iter_find (field_iter fs dest k) 0"
    by (simp add: find_extension_field_def pb_field_iter_find_def find_ext_as_find [OF assms(1,2) False assms(3)])
  moreover obtain it where "pb_field_iter_find (field_iter fs dest k) 0 = (it, False)"
  proof -
    obtain it b where ib: "pb_field_iter_find (field_iter fs dest k) 0 = (it, b)" by fastforce
    have "\<not> b"
    proof
      assume b
      then obtain j where "j < length fs" "tag_match 0 (fs ! j)"
        using iter_find_True [OF assms(1) k] ib by metis
      then show False using assms(1) by (simp add: tag_match_def wf_tagsD)
    qed
    with ib that show thesis by simp
  qed
  ultimately show ?thesis using iter_find_False(1) [OF assms(1) k] by simp
qed

lemma unknown_field_eq:
  assumes "wf_tags fs" "no_extensions fs" "valid_pos fs k" "\<not> - 1 \<le> tag"
  shows "unknown_field env sub dflt s wt tag (field_iter fs dest k) es m =
    skip_unknown s wt (field_iter fs dest k) (if es \<le> tag then - 1 else es) m"
  using assms by (simp add: unknown_field_def find_ext_eq)

section \<open>One round of the loop\<close>

lemma decode_loop_end: "bytes_left s = 0 \<Longrightarrow> decode_loop env sub dflt fuel s it seen es m = (True, s, it, seen, m)"
  by (simp add: decode_loop.simps)

lemma decode_loop_known:
  assumes "bytes_left s \<noteq> 0" "pb_decode_tag s = (Inr (wt, tag), s1)" "pb_field_iter_find it tag = (it1, True)"
  shows "decode_loop env sub dflt (Suc fuel) s it seen es m =
    (case decode_field env sub dflt s1 wt it1 m of
       (False, s2, m2) \<Rightarrow> (False, s2, it1, mark_required it1 seen, m2)
     | (True, s2, m2) \<Rightarrow> decode_loop env sub dflt fuel s2 it1 (mark_required it1 seen) es m2)"
  using assms by (simp add: decode_loop.simps [of env sub dflt "Suc fuel"] Let_def)

lemma decode_loop_unknown:
  assumes "wf_tags fs" "no_extensions fs" "valid_pos fs k"
    "bytes_left s \<noteq> 0" "pb_decode_tag s = (Inr (wt, tag), s1)"
    "pb_field_iter_find (field_iter fs dest k) tag = (field_iter fs dest k, False)"
  shows "decode_loop env sub dflt (Suc fuel) s (field_iter fs dest k) seen es m =
    (case pb_skip_field s1 wt of
       (False, s2) \<Rightarrow> (False, s2, field_iter fs dest k, seen, m)
     | (True, s2) \<Rightarrow> decode_loop env sub dflt fuel s2 (field_iter fs dest k) seen
         (if es \<le> tag then - 1 else es) m)"
proof -
  obtain ok s2 where sk: "pb_skip_field s1 wt = (ok, s2)" by fastforce
  then have "unknown_field env sub dflt s1 wt tag (field_iter fs dest k) es m =
      (ok, s2, field_iter fs dest k, if es \<le> tag then - 1 else es, m)"
    unfolding unknown_field_eq [OF assms(1-3) decoded_tag_small [OF assms(5)]] by (simp add: skip_unknown_def)
  with assms(4-6) sk show ?thesis by (simp add: decode_loop.simps [of env sub dflt "Suc fuel"] split: bool.split)
qed

text \<open>What a search in a valid array can return.\<close>

lemma find_cases:
  assumes "wf_tags fs" "valid_pos fs k"
  obtains (found) j where "valid_pos fs j" "pb_field_iter_find (field_iter fs dest k) tag = (field_iter fs dest j, True)"
      "tag_match tag (field_at fs j)" "fs \<noteq> [] \<Longrightarrow> j < length fs"
    | (none) "pb_field_iter_find (field_iter fs dest k) tag = (field_iter fs dest k, False)"
      "\<And>f. f \<in> set fs \<Longrightarrow> \<not> tag_match tag f"
proof -
  obtain it b where ib: "pb_field_iter_find (field_iter fs dest k) tag = (it, b)" by fastforce
  show thesis
  proof (cases "fs = []")
    case True
    with assms ib iter_find_Nil [of dest tag] found [of 0] none show thesis
      by (cases b) (auto simp: tag_match_def PB_LTYPE_def pb_consts)
  next
    case False
    with assms have k: "k < length fs" by (simp add: valid_pos_Cons)
    show thesis
    proof (cases b)
      case True
      with ib obtain j where "j < length fs" "tag_match tag (fs ! j)" "it = field_iter fs dest j"
        using iter_find_True [OF assms(1) k] by metis
      with ib True found [of j] show thesis by (simp add: valid_pos_def)
    next
      case False
      with iter_find_False [OF assms(1) k, of dest tag it] ib none show thesis by simp
    qed
  qed
qed

section \<open>The bounds\<close>

text \<open>A loop that was given at least as many rounds as there are bytes ends by itself; the mark
  for extensions does not matter.\<close>

lemma decode_loop_fuel:
  assumes env: "callbacks_ok (\<lambda>_ _. True) env" and sub: "free.sub_ok lay sub dflt"
    and fits: "free.fits_fields lay fs dest"
  shows "valid_pos fs k \<Longrightarrow> buf_ok s \<Longrightarrow> bytes_left s \<le> fuel \<Longrightarrow> bytes_left s \<le> fuel' \<Longrightarrow>
    decode_loop env sub dflt fuel s (field_iter fs dest k) seen es m =
    decode_loop env sub dflt fuel' s (field_iter fs dest k) seen es' m"
proof (induction fuel arbitrary: k s seen es es' m fuel')
  case 0
  then show ?case by (simp add: decode_loop_end)
next
  case (Suc fuel)
  note wf = free.fits_fieldsD(1,2) [OF fits] and b = Suc.prems(2)
  show ?case
  proof (cases "bytes_left s = 0")
    case True
    then show ?thesis by (simp add: decode_loop_end)
  next
    case more: False
    with Suc.prems(4) obtain f' where f': "fuel' = Suc f'" by (cases fuel') auto
    obtain tr s1 where t: "pb_decode_tag s = (tr, s1)" by fastforce
    note tags = tag_reads [OF b t]
    note b1 = left_buf_ok [OF tags(1) b]
    show ?thesis
    proof (cases tr)
      case (Inl eof)
      with t more show ?thesis
        by (simp add: f' decode_loop.simps [of env sub dflt "Suc fuel"] decode_loop.simps [of env sub dflt "Suc f'"])
    next
      case (Inr wt_tag)
      obtain wt tag where wt: "wt_tag = (wt, tag)" by fastforce
      have less: "bytes_left s1 \<le> fuel" "bytes_left s1 \<le> f'"
        using tags(3) [OF Inr] Suc.prems(3,4) f' by simp_all
      note t = t [unfolded Inr wt]
      show ?thesis
      proof (cases rule: find_cases [OF wf(1) Suc.prems(1), of dest tag, case_names found none])
        case (found j)
        obtain st s2 m2 where d: "decode_field env sub dflt s1 wt (field_iter fs dest j) m = (st, s2, m2)"
          by (metis prod_cases3)
        note q = dec_okD [OF free.decode_field_ok [OF env sub free.fits_fieldsD(3) [OF fits found(1)]] b1 d]
        have "bytes_left s2 \<le> fuel" "bytes_left s2 \<le> f'"
          using left_bytes_left [OF q(1)] less by simp_all
        from Suc.IH [OF found(1) left_buf_ok [OF q(1) b1] this, of _ es m2 es'] show ?thesis
          by (simp add: f' decode_loop_known [OF more t found(2)] d split: bool.split)
      next
        case none
        obtain st s2 where d: "pb_skip_field s1 wt = (st, s2)" by fastforce
        note q = skip_field_reads [OF b1 d]
        have "bytes_left s2 \<le> fuel" "bytes_left s2 \<le> f'"
          using left_bytes_left [OF q(1)] less by simp_all
        from Suc.IH [OF Suc.prems(1) left_buf_ok [OF q(1) b1] this] show ?thesis
          by (simp add: f' decode_loop_unknown [OF wf Suc.prems(1) more t none(1)] d split: bool.split)
      qed
    qed
  qed
qed

section \<open>The nesting depth\<close>

text \<open>Descriptors nested at most \<open>depth\<close> deep, without extension fields.\<close>

primrec desc_ok :: "nat \<Rightarrow> pb_field list \<Rightarrow> bool" where
  "desc_ok 0 = (\<lambda>fs. False)"
| "desc_ok (Suc depth) = (\<lambda>fs. wf_tags fs \<and> no_extensions fs \<and>
     list_all (\<lambda>f. ltype f = PB_LTYPE_SUBMESSAGE \<longrightarrow> desc_ok depth (submsg_fields f)) fs)"

text \<open>They are the descriptors whose fields fit anywhere.\<close>

lemma desc_ok_layout: "desc_ok depth fs \<Longrightarrow> layout_ok (\<lambda>_ _. True) depth fs dest"
proof (induction depth arbitrary: fs dest)
  case (Suc depth)
  have "field_ok (\<lambda>_ _. True) (layout_ok (\<lambda>_ _. True) depth) (field_iter fs a k)" if k: "k < length fs" for a k
  proof -
    have e: "ltype (fs ! k) \<noteq> PB_LTYPE_EXTENSION" using no_extensions_at [of fs k] Suc.prems k by simp
    have "ltype (fs ! k) = PB_LTYPE_SUBMESSAGE \<Longrightarrow> desc_ok depth (submsg_fields (fs ! k))"
      using Suc.prems k by (simp add: list_all_length)
    with e k Suc.IH show ?thesis by (simp add: field_ok_def item_ok_def Let_def list_all_iff)
  qed
  with Suc.prems show ?case by (simp add: list_all_iff)
qed simp

text \<open>Two pairs of decoders and initialisers for the submessages of a field or an array.\<close>

definition agree :: "'s sub_decoder \<Rightarrow> sub_default \<Rightarrow> 's sub_decoder \<Rightarrow> sub_default \<Rightarrow> pb_field \<Rightarrow> bool" where
  "agree sub dflt sub' dflt' f \<longleftrightarrow> (ltype f = PB_LTYPE_SUBMESSAGE \<longrightarrow>
     (\<forall>s a m. sub s (submsg_fields f) a m = sub' s (submsg_fields f) a m) \<and>
     (\<forall>a m. dflt (submsg_fields f) a m = dflt' (submsg_fields f) a m))"

lemma submessage_agree:
  assumes "\<And>s m. sub s (submsg_fields f) a m = sub' s (submsg_fields f) a m"
    "\<And>m. dflt (submsg_fields f) a m = dflt' (submsg_fields f) a m"
  shows "pb_dec_submessage sub dflt s f a m = pb_dec_submessage sub' dflt' s f a m"
  unfolding pb_dec_submessage_def Let_def assms ..

lemma decoders_agree:
  "agree sub dflt sub' dflt' f \<Longrightarrow> PB_DECODERS sub dflt (ltype f) s f a m = PB_DECODERS sub' dflt' (ltype f) s f a m"
  using submessage_agree [of sub f a sub' dflt dflt' s m] by (auto simp: PB_DECODERS_def agree_def)

lemma packed_agree:
  assumes "\<And>s a m. func s (it_field it) a m = func' s (it_field it) a m"
  shows "packed_loop func fuel s it m = packed_loop func' fuel s it m"
proof (induction fuel arbitrary: s m)
  case 0
  show ?case by (simp add: packed_loop.simps [of func 0] packed_loop.simps [of func' 0] Let_def)
next
  case (Suc fuel)
  then show ?case
    by (simp add: packed_loop.simps [of func "Suc fuel"] packed_loop.simps [of func' "Suc fuel"] assms Let_def
        split: prod.split bool.split)
qed

lemma static_agree:
  assumes "agree sub dflt sub' dflt' (it_field it)"
  shows "decode_static_field sub dflt s wt it m = decode_static_field sub' dflt' s wt it m"
proof -
  let ?l = "ltype (it_field it)"
  note d = decoders_agree [OF assms]
  have "decode_packed (PB_DECODERS sub dflt ?l) s it m = decode_packed (PB_DECODERS sub' dflt' ?l) s it m"
    unfolding decode_packed_def by (subst packed_agree [where it = it and func = "PB_DECODERS sub dflt ?l" and func' = "PB_DECODERS sub' dflt' ?l", OF d]) (rule refl)
  moreover have "decode_repeated (PB_DECODERS sub dflt ?l) s it m = decode_repeated (PB_DECODERS sub' dflt' ?l) s it m"
    by (simp add: decode_repeated_def d Let_def)
  moreover have "?l = PB_LTYPE_SUBMESSAGE \<Longrightarrow> dflt (submsg_fields (it_field it)) a m = dflt' (submsg_fields (it_field it)) a m" for a m
    using assms by (simp add: agree_def)
  ultimately show ?thesis by (simp add: decode_static_field_def d Let_def)
qed

lemma field_agree:
  "agree sub dflt sub' dflt' (it_field it) \<Longrightarrow>
   decode_field env sub dflt s wt it m = decode_field env sub' dflt' s wt it m"
  by (simp add: decode_field_def static_agree [of sub dflt sub' dflt'] Let_def)

lemma agree_terminator: "agree sub dflt sub' dflt' PB_LAST_FIELD"
  by (simp add: agree_def PB_LTYPE_def pb_consts)

lemma loop_agree:
  assumes "wf_tags fs" "no_extensions fs" "\<And>f. f \<in> set fs \<Longrightarrow> agree sub dflt sub' dflt' f"
  shows "valid_pos fs k \<Longrightarrow> decode_loop env sub dflt fuel s (field_iter fs dest k) seen es m =
    decode_loop env sub' dflt' fuel s (field_iter fs dest k) seen es m"
proof (induction fuel arbitrary: k s seen es m)
  case 0
  then show ?case by (simp add: decode_loop.simps [of env sub dflt 0] decode_loop.simps [of env sub' dflt' 0])
next
  case (Suc fuel)
  note ih = Suc.IH and unf = decode_loop.simps [of env sub dflt "Suc fuel"] decode_loop.simps [of env sub' dflt' "Suc fuel"]
  show ?case
  proof (cases "bytes_left s = 0")
    case more: False
    obtain tr s1 where t: "pb_decode_tag s = (tr, s1)" by fastforce
    show ?thesis
    proof (cases tr)
      case (Inr wt_tag)
      obtain wt tag where wt: "wt_tag = (wt, tag)" by fastforce
      note t = t [unfolded Inr wt]
      show ?thesis
      proof (cases rule: find_cases [OF assms(1) Suc.prems, of dest tag, case_names found none])
        case (found j)
        have "agree sub dflt sub' dflt' (field_at fs j)"
          using assms(3) agree_terminator by (cases "j < length fs") auto
        with found ih show ?thesis
          by (simp add: decode_loop_known [OF more t found(2)] field_agree [of sub dflt sub' dflt'] split: prod.split bool.split)
      next
        case none
        with ih Suc.prems show ?thesis
          by (simp add: decode_loop_unknown [OF assms(1,2) Suc.prems more t none(1)] split: prod.split bool.split)
      qed
    qed (use t more in \<open>simp add: unf\<close>)
  qed (simp add: decode_loop_end)
qed

lemma defaults_agree:
  assumes "wf_tags fs" "no_extensions fs"
    "\<And>f a m. f \<in> set fs \<Longrightarrow> ltype f = PB_LTYPE_SUBMESSAGE \<Longrightarrow>
      message_defaults g (submsg_fields f) a m = message_defaults g' (submsg_fields f) a m"
  shows "message_defaults (field_to_default env g) fs dest m = message_defaults (field_to_default env g') fs dest m"
proof -
  have "field_to_default env g (field_iter fs dest j) m = field_to_default env g' (field_iter fs dest j) m"
    if "j < length fs" for j m
  proof -
    have e: "ltype (fs ! j) \<noteq> PB_LTYPE_EXTENSION" using no_extensions_at [OF assms(2), of j] that by simp
    have "init_data g (field_iter fs dest j) m = init_data g' (field_iter fs dest j) m" for m
      using that assms(3) [of "fs ! j"] by (simp add: init_data_def Let_def)
    with e that show ?thesis by (simp add: field_to_default_def Let_def)
  qed
  then show ?thesis unfolding message_defaults_fold [OF assms(1)] by (intro fold_cong) auto
qed

lemma depth_enough:
  "desc_ok depth fs \<Longrightarrow> depth \<le> depth' \<Longrightarrow>
    pb_decode_noinit env depth s fs dest m = pb_decode_noinit env depth' s fs dest m \<and>
    pb_message_set_to_defaults env depth fs dest m = pb_message_set_to_defaults env depth' fs dest m"
proof (induction depth arbitrary: depth' fs s dest m)
  case (Suc depth)
  then obtain d' where d': "depth' = Suc d'" "depth \<le> d'" by (cases depth') auto
  have wf: "wf_tags fs" "no_extensions fs" using Suc.prems(1) by simp_all
  have sub: "f \<in> set fs \<Longrightarrow> ltype f = PB_LTYPE_SUBMESSAGE \<Longrightarrow> desc_ok depth (submsg_fields f)" for f
    using Suc.prems(1) by (simp add: list_all_iff)
  have ag: "f \<in> set fs \<Longrightarrow> agree (pb_decode_noinit env depth) (pb_message_set_to_defaults env depth)
      (pb_decode_noinit env d') (pb_message_set_to_defaults env d') f" for f
    using Suc.IH [OF sub d'(2)] by (simp add: agree_def)
  have "pb_message_set_to_defaults env (Suc depth) fs dest m = pb_message_set_to_defaults env (Suc d') fs dest m"
    unfolding pb_message_set_to_defaults_def pb_field_set_to_default.simps
    by (rule defaults_agree [OF wf])
      (use Suc.IH [OF sub d'(2)] in \<open>simp add: pb_message_set_to_defaults_def\<close>)
  moreover have "decode_message env (pb_decode_noinit env depth) (pb_message_set_to_defaults env depth) s fs dest m =
      decode_message env (pb_decode_noinit env d') (pb_message_set_to_defaults env d') s fs dest m"
    unfolding decode_message_def iter_begin_eq fst_conv
    by (subst loop_agree [OF wf ag valid_pos_0]) simp_all
  ultimately show ?case by (simp add: d'(1))
qed simp

end
