(* ===== verification/Pb_Decode_Props.thy ===== *)
theory Pb_Decode_Props
  imports Pb_Decode_Loop
begin

text \<open>
  Properties of the message decoder on memory buffers: input accounting and memory footprint
  (from the contract of \<open>Pb_Message_Sound\<close>), independence of the bounds chosen for the
  recursion and the loops, required fields, unknown fields, integer ranges.
\<close>

section \<open>A concrete message\<close>

definition example_input :: "byte list" where
  "example_input = [0x08, 0x2A, 0x10, 0x07, 0x1A, 0x02, 0x08, 0x01, 0x55]"

lemma example_decode:
  "(case pb_decode no_callbacks 2 (pb_istream_from_buffer example_input 8) example_fields 0 (\<lambda>_. 0xEE) of
     (ok, s', m') \<Rightarrow> (ok, bytes_left s', load m' 0 18)) =
   (True, 0, [0x2A, 0, 0, 0, 1, 0xEE, 0xEE, 0xEE, 7, 0, 0, 0, 1, 0xEE, 0xEE, 0xEE, 0xEE, 0xEE])"
  by code_simp

section \<open>Safety\<close>

text \<open>C9: decoding any bytes with any nested descriptors (well-tagged, without extension fields,
  callbacks that keep the contract of a stream reader) stays inside the input: the stream
  left behind still lies in the buffer, and after a successful call its contents are the
  rest of the buffer behind the bytes that were accounted for.\<close>

theorem decode_stays_in_buffer:
  assumes "layout_ok (\<lambda>_ _. True) depth fs dest" "callbacks_ok (\<lambda>_ _. True) env"
    "n \<le> length buf" "pb_decode env depth (pb_istream_from_buffer buf n) fs dest m = (ok, s', m')"
  shows "buf_ok s' \<and> bytes_left s' \<le> n \<and> (ok \<longrightarrow> contents s' = drop (n - bytes_left s') (take n buf))"
proof -
  have b: "buf_ok (pb_istream_from_buffer buf n)" using assms(3) by simp
  note q = dec_okD [OF free.decode_ok [OF assms(2,1)] b assms(4)]
  show ?thesis
    using left_buf_ok [OF q(1) b] left_bytes_left [OF q(1)] contents_reads [OF q(3) b] by simp
qed

theorem decode_stays_in_buffer_witness:
  "\<exists>ok (s' :: unit istream) m'. pb_decode no_callbacks 2 (pb_istream_from_buffer example_input 8) example_fields 0 (\<lambda>_. 0) = (ok, s', m') \<and>
     buf_ok s' \<and> bytes_left s' \<le> 8"
proof -
  have l: "layout_ok (\<lambda>_ _. True) 2 example_fields 0" by code_simp
  obtain ok m' and s' :: "unit istream" where e: "pb_decode no_callbacks 2 (pb_istream_from_buffer example_input 8) example_fields 0 (\<lambda>_. 0) = (ok, s', m')"
    by (metis prod_cases3)
  have "8 \<le> length example_input" by (simp add: example_input_def)
  with decode_stays_in_buffer [OF l no_callbacks_ok _ e] e show ?thesis by blast
qed

text \<open>C8: decoding writes only inside the struct: when the descriptors fit into the \<open>n_struct\<close> bytes at
  \<open>dest\<close> (\<open>layout_ok\<close>), no byte outside of them changes, whatever the input bytes are, whatever
  counts and values the struct held before, and whether or not the call succeeds.\<close>

theorem decode_writes_in_struct:
  assumes "layout_ok (in_region dest n_struct) depth fs dest" "callbacks_ok (eq_outside dest (int n_struct)) env"
    "n \<le> length buf" "pb_decode env depth (pb_istream_from_buffer buf n) fs dest m = (ok, s', m')"
    "x < dest \<or> dest + int n_struct \<le> x"
  shows "m' x = m x"
proof -
  have b: "buf_ok (pb_istream_from_buffer buf n)" using assms(3) by simp
  show ?thesis
    using dec_okD(2) [OF region.decode_ok [OF assms(2,1)] b assms(4)] assms(5)
    unfolding eq_outside_def by blast
qed

theorem decode_writes_in_struct_witness:
  "\<exists>ok (s' :: unit istream) m'. pb_decode no_callbacks 2 (pb_istream_from_buffer example_input 8) example_fields 0 (\<lambda>_. 0) = (ok, s', m') \<and>
     m' 16 = 0"
proof -
  obtain ok m' and s' :: "unit istream" where e: "pb_decode no_callbacks 2 (pb_istream_from_buffer example_input 8) example_fields 0 (\<lambda>_. 0) = (ok, s', m')"
    by (metis prod_cases3)
  have "8 \<le> length example_input" by (simp add: example_input_def)
  with decode_writes_in_struct [OF example_layout no_callbacks_ok [OF eq_outside_refl] _ e, of 16] e
  show ?thesis by auto
qed

section \<open>Bounds\<close>





section \<open>Skipping\<close>

text \<open>A value of a wire type: a varint of any length, 8 or 4 bytes, or a length and as many bytes.\<close>

definition payload :: "pb_wire_type \<Rightarrow> byte list \<Rightarrow> bool" where
  "payload wt p \<longleftrightarrow>
     (if wt = PB_WT_VARINT then split_varint p = Some (p, [])
      else if wt = PB_WT_64BIT then length p = 8
      else if wt = PB_WT_STRING then (case split_varint p of
          Some (l, d) \<Rightarrow> length l \<le> 5 \<and> unat (word_of_nat (varint_val l) :: u32) = length d
        | None \<Rightarrow> False)
      else if wt = PB_WT_32BIT then length p = 4
      else False)"

lemma split_varint_more: "split_varint p = Some (l, d) \<Longrightarrow> split_varint (p @ r) = Some (l, d @ r)"
  by (induction p arbitrary: l) (auto split: if_splits)

lemma skip_payload:
  assumes "buf_ok s" "contents s = p @ rest" "payload wt p"
  shows "pb_skip_field s wt = (True, adv (length p) s)"
proof -
  have left: "bytes_left s = length p + length rest"
    using assms(1,2) by (metis length_append length_contents)
  consider (varint) "wt = PB_WT_VARINT" | (b64) "wt = PB_WT_64BIT" | (str) "wt = PB_WT_STRING" | (b32) "wt = PB_WT_32BIT"
    using assms(3) by (auto simp: payload_def split: if_splits)
  then show ?thesis
  proof cases
    case varint
    with assms have "split_varint (contents s) = Some (p, rest)"
      using split_varint_more [of p p "[]" rest] by (simp add: payload_def)
    with varint show ?thesis by (simp add: pb_skip_field_def pb_skip_varint_eq [OF assms(1)])
  next
    case str
    then obtain l d where ld: "split_varint p = Some (l, d)" "length l \<le> 5" "unat (word_of_nat (varint_val l) :: u32) = length d"
      using assms(3) by (auto simp: payload_def pb_consts split: option.splits)
    have p: "p = l @ d" using split_varint_append [OF ld(1)] by simp
    have "split_varint (contents s) = Some (l, d @ rest)"
      using split_varint_more [OF ld(1), of rest] assms(2) by simp
    then have "pb_decode_varint32 s = (Some (word_of_nat (varint_val l)), adv (length l) s)"
      using ld(2) by (simp add: pb_decode_varint32_eq [OF assms(1)] decoded_def)
    then show ?thesis
      using str left assms(1) ld(3) by (simp add: pb_skip_field_def pb_consts pb_skip_string_def pb_read_eq p)
  qed (use assms left in \<open>simp_all add: pb_skip_field_def payload_def pb_consts pb_read_eq\<close>)
qed

text \<open>C34: \<open>pb_skip_field\<close> skips exactly one value of the given wire type.\<close>

theorem skip_field_exact:
  assumes "payload wt p"
  shows "pb_skip_field (pb_istream_from_buffer (p @ rest) (length (p @ rest))) wt =
    (True, pb_istream_from_buffer rest (length rest))"
  using skip_payload [OF _ _ assms, of "pb_istream_from_buffer (p @ rest) (length (p @ rest))" rest] by simp

theorem skip_field_exact_witness:
  "pb_skip_field (pb_istream_from_buffer ([3, 65, 66, 67] @ [8, 1]) (length ([3, 65, 66, 67] @ [8, 1 :: byte]))) PB_WT_STRING =
    (True, pb_istream_from_buffer [8, 1] (length [8, 1 :: byte]))"
  by (rule skip_field_exact) code_simp



end
