(* ===== verification/Pb_Encode.thy ===== *)
theory Pb_Encode
  imports Pb_Common Pb_Output
begin

text \<open>
  \<open>nanopb/pb_encode.c\<close>, lines 116-489 and 600-777: the encoders of single values, arrays,
  submessages (which are encoded twice, once to learn their size), the dispatch on the type
  byte, extensions, and the message loop.

  As in \<open>Pb_Decode\<close> the message is a piece of the byte memory, user code and extension types
  are parameters (\<open>enc_env\<close>), each function takes the encoder of submessages (\<open>sub\<close>) as an
  argument, and the recursion is closed over a bound on the nesting depth.  The encoder takes
  the message as \<open>const\<close>: no function changes the memory.
\<close>

type_synonym 's sub_encoder = "'s ostream \<Rightarrow> pb_field list \<Rightarrow> addr \<Rightarrow> mem \<Rightarrow> bool \<times> 's ostream"
type_synonym 's pb_encoder = "'s ostream \<Rightarrow> pb_field \<Rightarrow> addr \<Rightarrow> mem \<Rightarrow> bool \<times> 's ostream"

record 's enc_env =
  user_encode :: "addr \<Rightarrow> 's ostream \<Rightarrow> pb_field \<Rightarrow> addr \<Rightarrow> mem \<Rightarrow> bool \<times> 's ostream"
  enc_ext_arg :: "addr \<Rightarrow> pb_field"
  ext_encode :: "addr \<Rightarrow> ('s ostream \<Rightarrow> addr \<Rightarrow> mem \<Rightarrow> bool \<times> 's ostream) option"
  enc_loop_fuel :: nat

definition enc_error :: "string \<Rightarrow> 's ostream \<Rightarrow> bool \<times> 's ostream" where
  "enc_error msg s = (False, out_fail msg s)"

definition is_sizing :: "'s ostream \<Rightarrow> bool" where
  "is_sizing s \<longleftrightarrow> (case out_sink s of NoSink \<Rightarrow> True | _ \<Rightarrow> False)"

section \<open>Encoders of single values\<close>

text \<open>Reading an integer member of the given size, sign-extended or zero-extended.\<close>

definition load_signed :: "mem \<Rightarrow> addr \<Rightarrow> nat \<Rightarrow> u64 option" where
  "load_signed m a n =
     (if n = 1 then Some (scast (of_le (load m a 1) :: u8))
      else if n = 2 then Some (scast (of_le (load m a 2) :: u16))
      else if n = 4 then Some (scast (of_le (load m a 4) :: u32))
      else if n = 8 then Some (of_le (load m a 8))
      else None)"

definition load_unsigned :: "mem \<Rightarrow> addr \<Rightarrow> nat \<Rightarrow> u64 option" where
  "load_unsigned m a n =
     (if n = 1 then Some (ucast (of_le (load m a 1) :: u8))
      else if n = 2 then Some (ucast (of_le (load m a 2) :: u16))
      else if n = 4 then Some (ucast (of_le (load m a 4) :: u32))
      else if n = 8 then Some (of_le (load m a 8))
      else None)"

definition pb_enc_varint :: "'s pb_encoder" where
  "pb_enc_varint s f src m = (case load_signed m src (dsize f) of
     None \<Rightarrow> enc_error ''invalid data_size'' s
   | Some v \<Rightarrow> pb_encode_varint s v)"

definition pb_enc_uvarint :: "'s pb_encoder" where
  "pb_enc_uvarint s f src m = (case load_unsigned m src (dsize f) of
     None \<Rightarrow> enc_error ''invalid data_size'' s
   | Some v \<Rightarrow> pb_encode_varint s v)"

definition pb_enc_svarint :: "'s pb_encoder" where
  "pb_enc_svarint s f src m = (case load_signed m src (dsize f) of
     None \<Rightarrow> enc_error ''invalid data_size'' s
   | Some v \<Rightarrow> pb_encode_svarint s v)"

definition pb_enc_fixed32 :: "'s pb_encoder" where
  "pb_enc_fixed32 s f src m = pb_encode_fixed32 s (of_le (load m src 4))"

definition pb_enc_fixed64 :: "'s pb_encoder" where
  "pb_enc_fixed64 s f src m = pb_encode_fixed64 s (of_le (load m src 8))"

definition bytes_allocsize :: "u32 \<Rightarrow> nat" where
  "bytes_allocsize n = size_add (unat n) 4"

definition pb_enc_bytes :: "'s pb_encoder" where
  "pb_enc_bytes s f src m =
     (if src = 0 then pb_encode_string s [] 0
      else
        let n = load_u32 m src in
        if atype f = PB_ATYPE_STATIC \<and> dsize f < bytes_allocsize n
        then enc_error ''bytes size exceeded'' s
        else pb_encode_string s (load m (src + 4) (unat n)) (unat n))"

text \<open>The length of a string, at most \<open>limit\<close>.\<close>

function str_length :: "mem \<Rightarrow> addr \<Rightarrow> nat \<Rightarrow> nat \<Rightarrow> nat" where
  "str_length m p n limit =
     (if n < limit \<and> m p \<noteq> 0 then str_length m (p + 1) (n + 1) limit else n)"
  by pat_completeness auto
termination by (relation "measure (\<lambda>(m, p, n, limit). limit - n)") auto

declare str_length.simps [simp del]

definition pb_enc_string :: "'s pb_encoder" where
  "pb_enc_string s f src m =
     (let limit = (if atype f = PB_ATYPE_POINTER then 2 ^ 64 - 1 else dsize f);
          n = (if src = 0 then 0 else str_length m src 0 limit)
      in pb_encode_string s (load m src n) n)"

definition pb_enc_fixed_length_bytes :: "'s pb_encoder" where
  "pb_enc_fixed_length_bytes s f src m = pb_encode_string s (load m src (dsize f)) (dsize f)"

section \<open>Submessages\<close>

definition pb_encode_submessage :: "'s sub_encoder \<Rightarrow> 's sub_encoder" where
  "pb_encode_submessage sub s flds src m =
     (case sub PB_OSTREAM_SIZING flds src m of
        (False, substream) \<Rightarrow> (False, s\<lparr>out_err := out_err substream\<rparr>)
      | (True, substream) \<Rightarrow>
          let sz = bytes_written substream in
          (case pb_encode_varint s (word_of_nat sz) of
             (False, s1) \<Rightarrow> (False, s1)
           | (True, s1) \<Rightarrow>
               if is_sizing s1 then pb_write s1 [] sz
               else if max_size s1 < size_add (bytes_written s1) sz
               then enc_error ''stream full'' s1
               else
                 (case sub \<lparr>out_sink = out_sink s1, max_size = sz, bytes_written = 0, out_err = None\<rparr>
                     flds src m of
                    (status, substream') \<Rightarrow>
                      let s2 = s1\<lparr>bytes_written := size_add (bytes_written s1) (bytes_written substream'),
                                  out_sink := out_sink substream', out_err := out_err substream'\<rparr>
                      in if bytes_written substream' \<noteq> sz
                         then enc_error ''submsg size changed'' s2 else (status, s2))))"

definition pb_enc_submessage :: "'s sub_encoder \<Rightarrow> 's pb_encoder" where
  "pb_enc_submessage sub s f src m =
     (if pf_ptr f = NullPtr then enc_error ''invalid field descriptor'' s
      else pb_encode_submessage sub s (submsg_fields f) src m)"

text \<open>The table \<open>PB_ENCODERS\<close>; calling its NULL entry is undefined in C and fails here.\<close>

definition PB_ENCODERS :: "'s sub_encoder \<Rightarrow> u8 \<Rightarrow> 's pb_encoder" where
  "PB_ENCODERS sub l =
     (if l = PB_LTYPE_VARINT then pb_enc_varint
      else if l = PB_LTYPE_UVARINT then pb_enc_uvarint
      else if l = PB_LTYPE_SVARINT then pb_enc_svarint
      else if l = PB_LTYPE_FIXED32 then pb_enc_fixed32
      else if l = PB_LTYPE_FIXED64 then pb_enc_fixed64
      else if l = PB_LTYPE_BYTES then pb_enc_bytes
      else if l = PB_LTYPE_STRING then pb_enc_string
      else if l = PB_LTYPE_SUBMESSAGE then pb_enc_submessage sub
      else if l = PB_LTYPE_FIXED_LENGTH_BYTES then pb_enc_fixed_length_bytes
      else (\<lambda>s f src m. enc_error ''(call of a null pointer)'' s))"

section \<open>Arrays\<close>

text \<open>\<open>for (i = 0; i < count; i++) { if (!e(p)) return false; p += step; }\<close>\<close>

fun encode_items :: "('s ostream \<Rightarrow> addr \<Rightarrow> bool \<times> 's ostream) \<Rightarrow> nat \<Rightarrow> nat \<Rightarrow> addr \<Rightarrow> 's ostream \<Rightarrow>
    bool \<times> 's ostream" where
  "encode_items e 0 step p s = (True, s)"
| "encode_items e (Suc count) step p s = (case e s p of
     (False, s') \<Rightarrow> (False, s')
   | (True, s') \<Rightarrow> encode_items e count step (p + int step) s')"

text \<open>The size of a packed array; \<open>None\<close> when an item cannot be encoded.\<close>

definition packed_size :: "'s pb_encoder \<Rightarrow> pb_field \<Rightarrow> addr \<Rightarrow> nat \<Rightarrow> mem \<Rightarrow> nat option" where
  "packed_size func f pData count m =
     (if ltype f = PB_LTYPE_FIXED32 then Some (4 * count mod 2 ^ 64)
      else if ltype f = PB_LTYPE_FIXED64 then Some (8 * count mod 2 ^ 64)
      else case encode_items (\<lambda>s p. func s f p m) count (dsize f) pData PB_OSTREAM_SIZING of
          (False, _) \<Rightarrow> None
        | (True, sizestream) \<Rightarrow> Some (bytes_written sizestream))"

definition encode_packed :: "'s ostream \<Rightarrow> pb_field \<Rightarrow> addr \<Rightarrow> nat \<Rightarrow> 's pb_encoder \<Rightarrow> mem \<Rightarrow> bool \<times> 's ostream" where
  "encode_packed s f pData count func m = (case pb_encode_tag s PB_WT_STRING (pf_tag f) of
     (False, s1) \<Rightarrow> (False, s1)
   | (True, s1) \<Rightarrow>
      (case packed_size func f pData count m of
         None \<Rightarrow> (False, s1)
       | Some sz \<Rightarrow>
          (case pb_encode_varint s1 (word_of_nat sz) of
             (False, s2) \<Rightarrow> (False, s2)
           | (True, s2) \<Rightarrow>
               if is_sizing s2 then pb_write s2 [] sz
               else encode_items (\<lambda>s p. func s f p m) count (dsize f) pData s2)))"

definition encode_item :: "pb_field \<Rightarrow> 's pb_encoder \<Rightarrow> mem \<Rightarrow> 's ostream \<Rightarrow> addr \<Rightarrow> bool \<times> 's ostream" where
  "encode_item f func m s p = (case pb_encode_tag_for_field s f of
     (False, s') \<Rightarrow> (False, s')
   | (True, s') \<Rightarrow>
       if atype f = PB_ATYPE_POINTER \<and> (ltype f = PB_LTYPE_STRING \<or> ltype f = PB_LTYPE_BYTES)
       then func s' f (load_ptr m p) m
       else func s' f p m)"

definition encode_array :: "'s ostream \<Rightarrow> pb_field \<Rightarrow> addr \<Rightarrow> nat \<Rightarrow> 's pb_encoder \<Rightarrow> mem \<Rightarrow> bool \<times> 's ostream" where
  "encode_array s f pData count func m =
     (if count = 0 then (True, s)
      else if atype f \<noteq> PB_ATYPE_POINTER \<and> unat (pf_array_size f) < count
      then enc_error ''array max size exceeded'' s
      else if ltype f \<le> PB_LTYPE_LAST_PACKABLE then encode_packed s f pData count func m
      else encode_items (encode_item f func m) count (dsize f) pData s)"

section \<open>Presence of proto3 fields\<close>

text \<open>The loop over the fields of a submessage: false at the first field that is not zero.\<close>

fun check_fields :: "(pb_field \<Rightarrow> addr \<Rightarrow> bool) \<Rightarrow> nat \<Rightarrow> pb_field_iter \<Rightarrow> bool" where
  "check_fields chk 0 it = True"
| "check_fields chk (Suc n) it =
     (if \<not> chk (it_field it) (it_pData it) then False
      else case pb_field_iter_next it of
          (it', True) \<Rightarrow> check_fields chk n it'
        | (it', False) \<Rightarrow> True)"

definition zero_value :: "(pb_field \<Rightarrow> addr \<Rightarrow> bool) \<Rightarrow> mem \<Rightarrow> pb_field \<Rightarrow> addr \<Rightarrow> bool" where
  "zero_value chk m f pData =
     (let bytes_zero = list_all (\<lambda>b. b = 0) (load m pData (dsize f)) in
      if atype f = PB_ATYPE_STATIC then
        if ltype f = PB_LTYPE_BYTES then load_u32 m pData = 0
        else if ltype f = PB_LTYPE_STRING then m pData = 0
        else if ltype f = PB_LTYPE_FIXED_LENGTH_BYTES then dsize f = 0
        else if ltype f = PB_LTYPE_SUBMESSAGE then
          (case pb_field_iter_begin (submsg_fields f) pData of
             (it, False) \<Rightarrow> True
           | (it, True) \<Rightarrow> check_fields chk (length (submsg_fields f)) it)
        else bytes_zero
      else bytes_zero)"

primrec pb_check_proto3_default_value :: "nat \<Rightarrow> mem \<Rightarrow> pb_field \<Rightarrow> addr \<Rightarrow> bool" where
  "pb_check_proto3_default_value 0 = (\<lambda>m f pData. True)"
| "pb_check_proto3_default_value (Suc depth) = (\<lambda>m f pData.
     zero_value (pb_check_proto3_default_value depth m) m f pData)"

section \<open>Fields\<close>

text \<open>
  \<open>implicit_has\<close> and \<open>*pSize\<close>.  A repeated field without a count member would read four bytes
  of the local \<open>implicit_has\<close>; only its first byte is defined, the others count as zero here.
\<close>

definition basic_pointer :: "pb_field \<Rightarrow> addr \<Rightarrow> mem \<Rightarrow> addr" where
  "basic_pointer f pData m = (if atype f = PB_ATYPE_POINTER then load_ptr m pData else pData)"

definition implicit_has :: "(pb_field \<Rightarrow> addr \<Rightarrow> bool) \<Rightarrow> pb_field \<Rightarrow> addr \<Rightarrow> mem \<Rightarrow> bool" where
  "implicit_has chk f pData m =
     (if atype f = PB_ATYPE_POINTER then load_ptr m pData \<noteq> 0
      else if htype f = PB_HTYPE_OPTIONAL then \<not> chk f pData
      else True)"

definition has_member :: "(pb_field \<Rightarrow> addr \<Rightarrow> bool) \<Rightarrow> pb_field \<Rightarrow> addr \<Rightarrow> mem \<Rightarrow> bool" where
  "has_member chk f pData m =
     (if pf_size_offset f \<noteq> 0 then load_bool m (pData + sint (pf_size_offset f))
      else implicit_has chk f pData m)"

definition size_member :: "(pb_field \<Rightarrow> addr \<Rightarrow> bool) \<Rightarrow> pb_field \<Rightarrow> addr \<Rightarrow> mem \<Rightarrow> u32" where
  "size_member chk f pData m =
     (if pf_size_offset f \<noteq> 0 then load_u32 m (pData + sint (pf_size_offset f))
      else if implicit_has chk f pData m then 1 else 0)"

definition encode_value :: "'s sub_encoder \<Rightarrow> 's ostream \<Rightarrow> pb_field \<Rightarrow> addr \<Rightarrow> mem \<Rightarrow> bool \<times> 's ostream" where
  "encode_value sub s f src m = (case pb_encode_tag_for_field s f of
     (False, s') \<Rightarrow> (False, s')
   | (True, s') \<Rightarrow> PB_ENCODERS sub (ltype f) s' f src m)"

definition encode_basic_field :: "'s sub_encoder \<Rightarrow> (pb_field \<Rightarrow> addr \<Rightarrow> bool) \<Rightarrow> 's ostream \<Rightarrow> pb_field \<Rightarrow> addr \<Rightarrow> mem \<Rightarrow>
    bool \<times> 's ostream" where
  "encode_basic_field sub chk s f pData m =
     (let src = basic_pointer f pData m in
      if htype f = PB_HTYPE_REQUIRED then
        if src = 0 then enc_error ''missing required field'' s else encode_value sub s f src m
      else if htype f = PB_HTYPE_OPTIONAL then
        if has_member chk f pData m then encode_value sub s f src m else (True, s)
      else if htype f = PB_HTYPE_REPEATED then
        encode_array s f src (unat (size_member chk f pData m)) (PB_ENCODERS sub (ltype f)) m
      else if htype f = PB_HTYPE_ONEOF then
        if size_member chk f pData m = pf_tag f then encode_value sub s f src m else (True, s)
      else enc_error ''invalid field type'' s)"

definition encode_callback_field :: "'s enc_env \<Rightarrow> 's ostream \<Rightarrow> pb_field \<Rightarrow> addr \<Rightarrow> mem \<Rightarrow> bool \<times> 's ostream" where
  "encode_callback_field env s f pData m =
     (if load_ptr m pData \<noteq> 0 then
        (case user_encode env (load_ptr m pData) s f (pData + 8) m of
           (False, s') \<Rightarrow> enc_error ''callback error'' s'
         | (True, s') \<Rightarrow> (True, s'))
      else (True, s))"

definition encode_field :: "'s enc_env \<Rightarrow> 's sub_encoder \<Rightarrow> (pb_field \<Rightarrow> addr \<Rightarrow> bool) \<Rightarrow> 's ostream \<Rightarrow> pb_field \<Rightarrow>
    addr \<Rightarrow> mem \<Rightarrow> bool \<times> 's ostream" where
  "encode_field env sub chk s f pData m =
     (if atype f = PB_ATYPE_STATIC \<or> atype f = PB_ATYPE_POINTER then encode_basic_field sub chk s f pData m
      else if atype f = PB_ATYPE_CALLBACK then encode_callback_field env s f pData m
      else enc_error ''invalid field type'' s)"

text \<open>Extensions; \<open>pb_extension_t\<close> is laid out as in \<open>Pb_Decode\<close>.\<close>

definition default_extension_encoder :: "'s enc_env \<Rightarrow> 's sub_encoder \<Rightarrow> (pb_field \<Rightarrow> addr \<Rightarrow> bool) \<Rightarrow> 's ostream \<Rightarrow>
    addr \<Rightarrow> mem \<Rightarrow> bool \<times> 's ostream" where
  "default_extension_encoder env sub chk s ext m =
     (let f = enc_ext_arg env (load_ptr m ext) in
      if atype f = PB_ATYPE_POINTER then encode_field env sub chk s f (ext + 8) m
      else encode_field env sub chk s f (load_ptr m (ext + 8)) m)"

fun encode_extensions :: "'s enc_env \<Rightarrow> 's sub_encoder \<Rightarrow> (pb_field \<Rightarrow> addr \<Rightarrow> bool) \<Rightarrow> nat \<Rightarrow> 's ostream \<Rightarrow> addr \<Rightarrow>
    mem \<Rightarrow> bool \<times> 's ostream" where
  "encode_extensions env sub chk fuel s ext m =
     (if ext = 0 then (True, s)
      else case fuel of 0 \<Rightarrow> enc_error ''(out of fuel)'' s
      | Suc fuel' \<Rightarrow>
        (case (case ext_encode env (load_ptr m ext) of
                 Some enc \<Rightarrow> enc s ext m
               | None \<Rightarrow> default_extension_encoder env sub chk s ext m) of
           (False, s') \<Rightarrow> (False, s')
         | (True, s') \<Rightarrow> encode_extensions env sub chk fuel' s' (load_ptr m (ext + 16)) m))"

declare encode_extensions.simps [simp del]

definition encode_extension_field :: "'s enc_env \<Rightarrow> 's sub_encoder \<Rightarrow> (pb_field \<Rightarrow> addr \<Rightarrow> bool) \<Rightarrow> 's ostream \<Rightarrow> pb_field \<Rightarrow>
    addr \<Rightarrow> mem \<Rightarrow> bool \<times> 's ostream" where
  "encode_extension_field env sub chk s f pData m =
     encode_extensions env sub chk (enc_loop_fuel env) s (load_ptr m pData) m"

section \<open>Messages\<close>

fun encode_loop :: "'s enc_env \<Rightarrow> 's sub_encoder \<Rightarrow> (pb_field \<Rightarrow> addr \<Rightarrow> bool) \<Rightarrow> nat \<Rightarrow> 's ostream \<Rightarrow> pb_field_iter \<Rightarrow>
    mem \<Rightarrow> bool \<times> 's ostream" where
  "encode_loop env sub chk 0 s it m = (True, s)"
| "encode_loop env sub chk (Suc n) s it m =
     (case (if ltype (it_field it) = PB_LTYPE_EXTENSION
            then encode_extension_field env sub chk s (it_field it) (it_pData it) m
            else encode_field env sub chk s (it_field it) (it_pData it) m) of
        (False, s') \<Rightarrow> (False, s')
      | (True, s') \<Rightarrow>
          (case pb_field_iter_next it of
             (it', True) \<Rightarrow> encode_loop env sub chk n s' it' m
           | (it', False) \<Rightarrow> (True, s')))"

definition encode_message :: "'s enc_env \<Rightarrow> 's sub_encoder \<Rightarrow> nat \<Rightarrow> 's sub_encoder" where
  "encode_message env sub depth s flds src m = (case pb_field_iter_begin flds src of
     (it, False) \<Rightarrow> (True, s)
   | (it, True) \<Rightarrow> encode_loop env sub (pb_check_proto3_default_value depth m) (length flds) s it m)"

primrec pb_encode :: "'s enc_env \<Rightarrow> nat \<Rightarrow> 's sub_encoder" where
  "pb_encode env 0 = (\<lambda>s flds src m. enc_error ''(out of fuel)'' s)"
| "pb_encode env (Suc depth) = encode_message env (pb_encode env depth) (Suc depth)"

definition pb_encode_delimited :: "'s enc_env \<Rightarrow> nat \<Rightarrow> 's sub_encoder" where
  "pb_encode_delimited env depth = pb_encode_submessage (pb_encode env depth)"

definition pb_get_encoded_size :: "'s enc_env \<Rightarrow> nat \<Rightarrow> pb_field list \<Rightarrow> addr \<Rightarrow> mem \<Rightarrow> nat option" where
  "pb_get_encoded_size env depth flds src m = (case pb_encode env depth PB_OSTREAM_SIZING flds src m of
     (False, _) \<Rightarrow> None
   | (True, s) \<Rightarrow> Some (bytes_written s))"

end
