(* ===== verification/Pb_Enc_Spec.thy ===== *)
theory Pb_Enc_Spec
  imports Pb_Encode Pb_Varint
begin

text \<open>
  The wire format as a function of the message (\<open>enc_msg\<close>): which bytes a message in memory
  stands for, without streams, buffers or sizes.  The encoder of \<open>Pb_Encode\<close>, run on any plain
  stream, produces exactly these bytes (\<open>encode_spec\<close>).  Callbacks contribute what their own
  specification \<open>cb\<close> says; nothing is claimed about extension fields.
\<close>

section \<open>The bytes of values\<close>

definition len_prefix :: "enc_result \<Rightarrow> enc_result" where
  "len_prefix r = (case r of
     Enc bs \<Rightarrow> if int (length bs) \<le> 2 ^ 62 then Enc (varint_bytes (word_of_nat (length bs)) @ bs) else NoClaim
   | _ \<Rightarrow> r)"

definition enc_integer :: "(u64 \<Rightarrow> byte list) \<Rightarrow> u64 option \<Rightarrow> enc_result" where
  "enc_integer bytes v = (case v of None \<Rightarrow> EncFail | Some w \<Rightarrow> Enc (bytes w))"

definition enc_bytes :: "mem \<Rightarrow> pb_field \<Rightarrow> addr \<Rightarrow> enc_result" where
  "enc_bytes m f src = (if src = 0 then len_prefix (Enc [])
     else let n = load_u32 m src in
       if atype f = PB_ATYPE_STATIC \<and> dsize f < bytes_allocsize n then EncFail
       else len_prefix (Enc (load m (src + 4) (unat n))))"

definition enc_string :: "mem \<Rightarrow> pb_field \<Rightarrow> addr \<Rightarrow> enc_result" where
  "enc_string m f src = len_prefix (Enc (load m src
     (if src = 0 then 0 else str_length m src 0 (if atype f = PB_ATYPE_POINTER then 2 ^ 64 - 1 else dsize f))))"

definition enc_value :: "(pb_field list \<Rightarrow> addr \<Rightarrow> enc_result) \<Rightarrow> mem \<Rightarrow> pb_field \<Rightarrow> addr \<Rightarrow> enc_result" where
  "enc_value msg m f src = (let l = ltype f in
     if l = PB_LTYPE_VARINT then enc_integer varint_bytes (load_signed m src (dsize f))
     else if l = PB_LTYPE_UVARINT then enc_integer varint_bytes (load_unsigned m src (dsize f))
     else if l = PB_LTYPE_SVARINT then enc_integer (\<lambda>v. varint_bytes (zigzag v)) (load_signed m src (dsize f))
     else if l = PB_LTYPE_FIXED32 then Enc (load m src 4)
     else if l = PB_LTYPE_FIXED64 then Enc (load m src 8)
     else if l = PB_LTYPE_BYTES then enc_bytes m f src
     else if l = PB_LTYPE_STRING then enc_string m f src
     else if l = PB_LTYPE_SUBMESSAGE then
       (if pf_ptr f = NullPtr then EncFail else len_prefix (msg (submsg_fields f) src))
     else if l = PB_LTYPE_FIXED_LENGTH_BYTES then len_prefix (Enc (load m src (dsize f)))
     else EncFail)"

definition enc_tag :: "pb_field \<Rightarrow> enc_result" where
  "enc_tag f = (case field_wire_type f of None \<Rightarrow> EncFail
     | Some wt \<Rightarrow> Enc (varint_bytes (tag_word wt (pf_tag f))))"

section \<open>The bytes of fields and messages\<close>

fun enc_items :: "(addr \<Rightarrow> enc_result) \<Rightarrow> nat \<Rightarrow> nat \<Rightarrow> addr \<Rightarrow> enc_result" where
  "enc_items r 0 step p = Enc []"
| "enc_items r (Suc n) step p = cat_enc (r p) (enc_items r n step (p + int step))"

definition enc_array :: "(pb_field list \<Rightarrow> addr \<Rightarrow> enc_result) \<Rightarrow> mem \<Rightarrow> pb_field \<Rightarrow> addr \<Rightarrow> nat \<Rightarrow> enc_result" where
  "enc_array msg m f src count =
     (if count = 0 then Enc []
      else if atype f \<noteq> PB_ATYPE_POINTER \<and> unat (pf_array_size f) < count then EncFail
      else if ltype f \<le> PB_LTYPE_LAST_PACKABLE then
        cat_enc (Enc (varint_bytes (tag_word PB_WT_STRING (pf_tag f))))
          (len_prefix (enc_items (enc_value msg m f) count (dsize f) src))
      else enc_items (\<lambda>p. cat_enc (enc_tag f) (enc_value msg m f
          (if atype f = PB_ATYPE_POINTER \<and> (ltype f = PB_LTYPE_STRING \<or> ltype f = PB_LTYPE_BYTES)
           then load_ptr m p else p))) count (dsize f) src)"

definition enc_basic :: "(pb_field list \<Rightarrow> addr \<Rightarrow> enc_result) \<Rightarrow> (pb_field \<Rightarrow> addr \<Rightarrow> bool) \<Rightarrow> mem \<Rightarrow> pb_field \<Rightarrow>
    addr \<Rightarrow> enc_result" where
  "enc_basic msg chk m f a =
     (let src = basic_pointer f a m; whole = cat_enc (enc_tag f) (enc_value msg m f src) in
      if htype f = PB_HTYPE_REQUIRED then (if src = 0 then EncFail else whole)
      else if htype f = PB_HTYPE_OPTIONAL then (if has_member chk f a m then whole else Enc [])
      else if htype f = PB_HTYPE_REPEATED then enc_array msg m f src (unat (size_member chk f a m))
      else if htype f = PB_HTYPE_ONEOF then (if size_member chk f a m = pf_tag f then whole else Enc [])
      else EncFail)"

type_synonym cb_spec = "addr \<Rightarrow> pb_field \<Rightarrow> addr \<Rightarrow> mem \<Rightarrow> enc_result"

definition enc_field :: "cb_spec \<Rightarrow> (pb_field list \<Rightarrow> addr \<Rightarrow> enc_result) \<Rightarrow> (pb_field \<Rightarrow> addr \<Rightarrow> bool) \<Rightarrow> mem \<Rightarrow> pb_field \<Rightarrow>
    addr \<Rightarrow> enc_result" where
  "enc_field cb msg chk m f a =
     (if ltype f = PB_LTYPE_EXTENSION then NoClaim
      else if atype f = PB_ATYPE_STATIC \<or> atype f = PB_ATYPE_POINTER then enc_basic msg chk m f a
      else if atype f = PB_ATYPE_CALLBACK then
        (if load_ptr m a \<noteq> 0 then cb (load_ptr m a) f (a + 8) m else Enc [])
      else EncFail)"

fun concat_enc :: "enc_result list \<Rightarrow> enc_result" where
  "concat_enc [] = Enc []"
| "concat_enc (r # rs) = cat_enc r (concat_enc rs)"

definition enc_message :: "cb_spec \<Rightarrow> (pb_field list \<Rightarrow> addr \<Rightarrow> enc_result) \<Rightarrow> nat \<Rightarrow> mem \<Rightarrow> pb_field list \<Rightarrow> addr \<Rightarrow>
    enc_result" where
  "enc_message cb msg depth m fs src =
     (if wf_tags fs then concat_enc (map (\<lambda>k. enc_field cb msg (pb_check_proto3_default_value depth m) m
          (fs ! k) (src + data_off fs k)) [0..<length fs])
      else NoClaim)"

primrec enc_msg :: "cb_spec \<Rightarrow> nat \<Rightarrow> mem \<Rightarrow> pb_field list \<Rightarrow> addr \<Rightarrow> enc_result" where
  "enc_msg cb 0 m = (\<lambda>fs src. EncFail)"
| "enc_msg cb (Suc depth) m = enc_message cb (enc_msg cb depth m) (Suc depth) m"

section \<open>Lengths and strings\<close>

lemma len_prefix_cases: "len_prefix r = (case r of
     Enc bs \<Rightarrow> if length bs \<le> 2 ^ 62 then Enc (varint_bytes (word_of_nat (length bs)) @ bs) else NoClaim
   | _ \<Rightarrow> r)"
  by (simp add: len_prefix_def split: enc_result.split)

lemma encodes_cong: "(\<And>s. e s = e' s) \<Longrightarrow> encodes e' r \<Longrightarrow> encodes e r"
proof -
  assume "\<And>s. e s = e' s"
  then have "e = e'" by blast
  then show "encodes e' r \<Longrightarrow> encodes e r" by simp
qed

lemma encodes_bind:
  assumes "encodes e1 a" "\<And>bs. a = Enc bs \<Longrightarrow> encodes e2 b"
  shows "encodes (\<lambda>s. case e1 s of (False, s') \<Rightarrow> (False, s') | (True, s') \<Rightarrow> e2 s') (cat_enc a b)"
  using encodes_seq [OF assms] by (simp add: seq_out_def [abs_def])

lemma encodes_if: "(c \<Longrightarrow> encodes e1 r1) \<Longrightarrow> (\<not> c \<Longrightarrow> encodes e2 r2) \<Longrightarrow>
    encodes (\<lambda>s. if c then e1 s else e2 s) (if c then r1 else r2)"
  by simp

lemma encodes_if_fun: "(c \<Longrightarrow> encodes (\<lambda>s. e1 s f a m) r1) \<Longrightarrow> (\<not> c \<Longrightarrow> encodes (\<lambda>s. e2 s f a m) r2) \<Longrightarrow>
    encodes (\<lambda>s. (if c then e1 else e2) s f a m) (if c then r1 else r2)"
  by simp

lemma encodes_error: "encodes (\<lambda>s. enc_error msg s) EncFail"
  unfolding enc_error_def by (rule encodes_fail)

lemma is_sizing_iff: "is_sizing s \<longleftrightarrow> out_sink s = NoSink"
  by (simp add: is_sizing_def split: out_sink.splits)

lemma pb_write_sizing: "out_sink s = NoSink \<Longrightarrow> n = size_add 0 (length bs) \<Longrightarrow> pb_write s [] n = (True, put bs s)"
  by (simp add: pb_write_def put_def size_add_def mod_simps)

text \<open>After the length, a sizing stream counts and any other stream receives the data.\<close>

lemma encodes_body:
  assumes n: "n = size_add 0 (length bs)" and e: "\<And>s. plain s \<Longrightarrow> out_sink s \<noteq> NoSink \<Longrightarrow> within s (snd (e s)) \<and>
      (if fits s (length bs) then e s = (True, put bs s) else \<not> fst (e s))"
  shows "encodes (\<lambda>s. if is_sizing s then pb_write s [] n else e s) (Enc bs)"
proof (rule encodesI)
  fix s :: "'a ostream" assume p: "plain s"
  { assume ns: "out_sink s = NoSink"
    then have f: "fits s (length bs)" by (simp add: fits_def)
    with ns have "within s (snd (if is_sizing s then pb_write s [] n else e s))"
      using within_put [OF p f] by (simp add: is_sizing_iff pb_write_sizing [OF _ n]) }
  note n' = this
  show "within s (snd (if is_sizing s then pb_write s [] n else e s))"
    using n' e [OF p] by (cases "out_sink s = NoSink") (auto simp: is_sizing_iff)
next
  fix s :: "'a ostream" and ds assume "plain s" "Enc bs = Enc ds" "fits s (length ds)"
  with e show "(if is_sizing s then pb_write s [] n else e s) = (True, put ds s)"
    by (auto simp: is_sizing_iff pb_write_sizing [OF _ n])
next
  fix s :: "'a ostream" and ds assume "plain s" "Enc bs = Enc ds" "\<not> fits s (length ds)"
  with e show "\<not> fst (if is_sizing s then pb_write s [] n else e s)"
    by (auto simp: is_sizing_iff fits_def)
qed simp

lemma encodes_len_prefix:
  assumes "length bs \<le> 2 ^ 62" "n = size_add 0 (length bs)"
    and "\<And>s. plain s \<Longrightarrow> out_sink s \<noteq> NoSink \<Longrightarrow> within s (snd (e s)) \<and>
      (if fits s (length bs) then e s = (True, put bs s) else \<not> fst (e s))"
  shows "encodes (\<lambda>s. case pb_encode_varint s (word_of_nat n) of (False, s') \<Rightarrow> (False, s')
     | (True, s') \<Rightarrow> if is_sizing s' then pb_write s' [] n else e s') (len_prefix (Enc bs))"
proof -
  have "encodes (\<lambda>s. pb_encode_varint s (word_of_nat n)) (Enc (varint_bytes (word_of_nat n)))"
    by (rule encodes_varint)
  from encodes_bind [OF this encodes_body [OF assms(2,3)]]
  show ?thesis using assms(1,2) by (simp add: len_prefix_cases size_add_def)
qed

lemma encodes_string:
  assumes "length bs \<le> 2 ^ 62"
  shows "encodes (\<lambda>s :: 's ostream. pb_encode_string s bs (length bs)) (len_prefix (Enc bs))"
proof -
  let ?v = "word_of_nat (length bs) :: u64"
  have "encodes (\<lambda>s :: 's ostream. pb_encode_varint s ?v) (Enc (varint_bytes ?v))" by (rule encodes_varint)
  from encodes_bind [OF this encodes_write [OF assms]]
  have "encodes (\<lambda>s :: 's ostream. pb_encode_string s bs (length bs)) (Enc (varint_bytes ?v @ bs))"
    unfolding pb_encode_string_def cat_enc.simps .
  then show ?thesis using assms by (simp add: len_prefix_cases)
qed

lemma encodes_string_claim: "encodes (\<lambda>s. pb_encode_string s bs (length bs)) (len_prefix (Enc bs))"
  by (cases "length bs \<le> 2 ^ 62") (erule encodes_string, simp add: len_prefix_cases)

lemma encodes_load_string:
  "encodes (\<lambda>s. pb_encode_string s (load m a n) n) (len_prefix (Enc (load m a n)))"
  using encodes_string_claim [of "load m a n"] by simp

lemma encodes_len_prefix_not_Enc: "encodes e r \<Longrightarrow> (\<And>bs. r \<noteq> Enc bs) \<Longrightarrow> encodes e (len_prefix r)"
  by (cases r) (auto simp: len_prefix_cases)

section \<open>The encoder produces these bytes\<close>

lemma encodes_integer:
  assumes "\<And>v. encodes (\<lambda>s. enc s v) (Enc (bytes v))"
  shows "encodes (\<lambda>s. case v of None \<Rightarrow> enc_error msg s | Some w \<Rightarrow> enc s w) (enc_integer bytes v)"
  using assms by (cases v) (simp_all add: enc_integer_def encodes_error)

lemma encodes_tag: "encodes (\<lambda>s. pb_encode_tag s wt n) (Enc (varint_bytes (tag_word wt n)))"
  unfolding pb_encode_tag_def by (rule encodes_varint)

lemma encodes_field_tag: "encodes (\<lambda>s. pb_encode_tag_for_field s f) (enc_tag f)"
  by (cases "field_wire_type f")
    (simp_all add: pb_encode_tag_for_field_def enc_tag_def encodes_fail encodes_tag)

lemma encodes_items:
  "(\<And>p. encodes (\<lambda>s. e s p) (r p)) \<Longrightarrow> encodes (encode_items e n step p) (enc_items r n step p)"
proof (induction n arbitrary: p)
  case 0
  have "encode_items e 0 step p = (\<lambda>s. (True, s))" by auto
  then show ?case by (simp add: encodes_skip)
next
  case (Suc n)
  have "encodes (\<lambda>s. case e s p of (False, s') \<Rightarrow> (False, s') | (True, s') \<Rightarrow> encode_items e n step (p + int step) s')
      (cat_enc (r p) (enc_items r n step (p + int step)))"
    by (rule encodes_bind) (use Suc in auto)
  then show ?case by (simp add: encodes_def)
qed

text \<open>A sizing run tells the length of what is to come.\<close>

lemma plain_sizing: "plain PB_OSTREAM_SIZING"
  by (simp add: plain_def PB_OSTREAM_SIZING_def)

lemma sizing_run:
  assumes "encodes e r" "r \<noteq> NoClaim"
  shows "r = Enc bs \<Longrightarrow> \<exists>s. e PB_OSTREAM_SIZING = (True, s) \<and> bytes_written s = size_add 0 (length bs)"
    and "r = EncFail \<Longrightarrow> \<exists>s. e PB_OSTREAM_SIZING = (False, s)"
proof -
  assume "r = Enc bs"
  with encodesD(2) [OF assms plain_sizing, of bs]
  show "\<exists>s. e PB_OSTREAM_SIZING = (True, s) \<and> bytes_written s = size_add 0 (length bs)"
    by (simp add: fits_def PB_OSTREAM_SIZING_def put_def)
next
  assume "r = EncFail"
  with encodesD(4) [OF assms plain_sizing] show "\<exists>s. e PB_OSTREAM_SIZING = (False, s)"
    by (metis prod.collapse)
qed

text \<open>The interface between the encoder of a message and that of its submessages.\<close>

locale submessage_encoder =
  fixes sub :: "'s sub_encoder" and msg :: "mem \<Rightarrow> pb_field list \<Rightarrow> addr \<Rightarrow> enc_result"
  assumes sub_encodes: "encodes (\<lambda>s. sub s fs src m) (msg m fs src)"
begin

lemma submessage: "encodes (\<lambda>s. pb_encode_submessage sub s fs src m) (len_prefix (msg m fs src))"
proof (cases "msg m fs src")
  case NoClaim
  then show ?thesis by (simp add: len_prefix_cases)
next
  case EncFail
  then obtain ss where ss: "sub PB_OSTREAM_SIZING fs src m = (False, ss)"
    using sizing_run(2) [OF sub_encodes [of fs src m]] by auto
  have "encodes (\<lambda>s. (False, s\<lparr>out_err := out_err ss\<rparr>)) EncFail"
    by (rule encodesI) (auto simp: within_def plain_def split: out_sink.splits)
  then show ?thesis by (simp add: EncFail len_prefix_cases pb_encode_submessage_def ss)
next
  case (Enc bs)
  show ?thesis
  proof (cases "length bs \<le> 2 ^ 62")
    case False
    then show ?thesis by (simp add: Enc len_prefix_cases)
  next
    case True
    obtain ss where ss: "sub PB_OSTREAM_SIZING fs src m = (True, ss)" "bytes_written ss = size_add 0 (length bs)"
      using sizing_run(1) [OF sub_encodes [of fs src m]] Enc by auto
    have n: "size_add 0 (length bs) = length bs" using True by (simp add: size_add_exact)
    let ?n = "length bs"
    let ?e = "\<lambda>s1. if max_size s1 < size_add (bytes_written s1) ?n then enc_error ''stream full'' s1
       else (case sub \<lparr>out_sink = out_sink s1, max_size = ?n, bytes_written = 0, out_err = None\<rparr> fs src m of
          (status, substream') \<Rightarrow>
            let s2 = s1\<lparr>bytes_written := size_add (bytes_written s1) (bytes_written substream'),
                        out_sink := out_sink substream', out_err := out_err substream'\<rparr>
            in if bytes_written substream' \<noteq> ?n then enc_error ''submsg size changed'' s2 else (status, s2))"
    have "within s (snd (?e s)) \<and> (if fits s ?n then ?e s = (True, put bs s) else \<not> fst (?e s))"
      if p: "plain s" and k: "out_sink s \<noteq> NoSink" for s
    proof -
      obtain out where out: "out_sink s = BufSink out"
        using p k by (cases "out_sink s") (auto simp: plain_def)
      have full: "max_size s < size_add (bytes_written s) ?n \<longleftrightarrow> \<not> fits s ?n"
        using p out True by (auto simp: plain_def fits_def size_add_exact)
      show ?thesis
      proof (cases "fits s ?n")
        case False
        then show ?thesis using full within_refl [OF p] by (simp add: enc_error_def)
      next
        case f: True
        let ?s0 = "\<lparr>out_sink = out_sink s, max_size = ?n, bytes_written = 0, out_err = None\<rparr> :: 's ostream"
        have "plain ?s0" "fits ?s0 ?n" using True by (simp_all add: plain_def fits_def out)
        from encodesD(2) [OF sub_encodes [of fs src m] _ this(1) Enc this(2)] Enc
        have r: "sub ?s0 fs src m = (True, put bs ?s0)" by simp
        have "?e s = (True, put bs s)"
          using f full r p n by (simp add: put_def out plain_def Let_def)
        with f within_put [OF p f] show ?thesis by simp
      qed
    qed
    then have body: "encodes (\<lambda>s. case pb_encode_varint s (word_of_nat ?n) of (False, s') \<Rightarrow> (False, s')
       | (True, s') \<Rightarrow> if is_sizing s' then pb_write s' [] ?n else ?e s') (len_prefix (Enc bs))"
      by (rule encodes_len_prefix [OF True n [symmetric]])
    have sn: "bytes_written ss = ?n" using ss(2) n by simp
    show ?thesis
      unfolding pb_encode_submessage_def ss(1) Enc
      using body by (simp only: split_conv bool.case Let_def sn)
  qed
qed

lemma encodes_bytes: "encodes (\<lambda>s. pb_enc_bytes s f src m) (enc_bytes m f src)"
proof -
  have "encodes (\<lambda>s. pb_encode_string s [] 0) (len_prefix (Enc []))"
    using encodes_load_string [of m src 0] by simp
  then show ?thesis
    unfolding pb_enc_bytes_def enc_bytes_def Let_def
    by (intro encodes_if encodes_error encodes_load_string)
qed

lemma encodes_value: "encodes (\<lambda>s. PB_ENCODERS sub (ltype f) s f src m) (enc_value (msg m) m f src)"
proof -
  have le: "le_bytes 4 (of_le (load m src 4) :: u32) = load m src 4" "le_bytes 8 (of_le (load m src 8) :: u64) = load m src 8"
    using le_bytes_of_le [of "load m src 4", where 'a = 32] le_bytes_of_le [of "load m src 8", where 'a = 64]
    by simp_all
  have 1: "encodes (\<lambda>s. pb_enc_varint s f src m) (enc_integer varint_bytes (load_signed m src (dsize f)))"
    unfolding pb_enc_varint_def by (rule encodes_integer) (rule encodes_varint)
  have 2: "encodes (\<lambda>s. pb_enc_uvarint s f src m) (enc_integer varint_bytes (load_unsigned m src (dsize f)))"
    unfolding pb_enc_uvarint_def by (rule encodes_integer) (rule encodes_varint)
  have 3: "encodes (\<lambda>s. pb_enc_svarint s f src m) (enc_integer (\<lambda>v. varint_bytes (zigzag v)) (load_signed m src (dsize f)))"
    unfolding pb_enc_svarint_def by (rule encodes_integer) (rule svarint.enc_bytes)
  have 4: "encodes (\<lambda>s. pb_enc_fixed32 s f src m) (Enc (load m src 4))"
    using fixed32.enc_bytes [of "of_le (load m src 4)"] by (simp add: pb_enc_fixed32_def le)
  have 5: "encodes (\<lambda>s. pb_enc_fixed64 s f src m) (Enc (load m src 8))"
    using fixed64.enc_bytes [of "of_le (load m src 8)"] by (simp add: pb_enc_fixed64_def le)
  have 6: "encodes (\<lambda>s. pb_enc_string s f src m) (enc_string m f src)"
    unfolding pb_enc_string_def enc_string_def Let_def by (rule encodes_load_string)
  have 7: "encodes (\<lambda>s. pb_enc_submessage sub s f src m)
      (if pf_ptr f = NullPtr then EncFail else len_prefix (msg m (submsg_fields f) src))"
    unfolding pb_enc_submessage_def by (intro encodes_if encodes_error submessage)
  have 8: "encodes (\<lambda>s. pb_enc_fixed_length_bytes s f src m) (len_prefix (Enc (load m src (dsize f))))"
    unfolding pb_enc_fixed_length_bytes_def by (rule encodes_load_string)
  show ?thesis
    unfolding PB_ENCODERS_def enc_value_def Let_def
    by (intro encodes_if_fun 1 2 3 4 5 6 7 8 encodes_bytes encodes_error)
qed

end

end
