(* ===== verification/Pb_Enc_Message.thy ===== *)
theory Pb_Enc_Message
  imports Pb_Enc_Spec
begin

text \<open>
  Fields and messages: the encoder against the wire format of \<open>Pb_Enc_Spec\<close>, by induction on
  the nesting depth, and what follows for sizes and buffers.
\<close>

lemma encodes_false: "encodes (\<lambda>s. (False, s)) EncFail"
  by (rule encodesI) (auto intro: within_refl)

lemma enc_items_fixed:
  "(\<And>p. \<exists>bs. r p = Enc bs \<and> length bs = k) \<Longrightarrow> \<exists>bs. enc_items r n step p = Enc bs \<and> length bs = k * n"
proof (induction n arbitrary: p)
  case (Suc n)
  obtain bs where "r p = Enc bs" "length bs = k" using Suc.prems by blast
  moreover obtain cs where "enc_items r n step (p + int step) = Enc cs" "length cs = k * n"
    using Suc.IH [OF Suc.prems] by blast
  ultimately show ?case by simp
qed simp

context submessage_encoder
begin

lemma packed_size_eq:
  assumes "r = enc_items (enc_value (msg m) m f) count (dsize f) src" "r \<noteq> NoClaim"
  shows "r = Enc bs \<Longrightarrow> packed_size (PB_ENCODERS sub (ltype f)) f src count m = Some (size_add 0 (length bs))"
    and "r = EncFail \<Longrightarrow> packed_size (PB_ENCODERS sub (ltype f)) f src count m = None"
proof -
  let ?func = "PB_ENCODERS sub (ltype f)"
  have items: "encodes (encode_items (\<lambda>s p. ?func s f p m) count (dsize f) src) r"
    unfolding assms(1) by (intro encodes_items encodes_value)
  have fixed: "\<exists>bs. r = Enc bs \<and> length bs = k * count"
    if "\<And>p. \<exists>bs. enc_value (msg m) m f p = Enc bs \<and> length bs = k" for k
    unfolding assms(1) by (rule enc_items_fixed) (rule that)
  have 4: "ltype f = PB_LTYPE_FIXED32 \<Longrightarrow> \<exists>bs. r = Enc bs \<and> length bs = 4 * count"
    by (rule fixed) (simp add: enc_value_def pb_consts)
  have 8: "ltype f = PB_LTYPE_FIXED64 \<Longrightarrow> \<exists>bs. r = Enc bs \<and> length bs = 8 * count"
    by (rule fixed) (simp add: enc_value_def pb_consts)
  show "packed_size ?func f src count m = Some (size_add 0 (length bs))" if "r = Enc bs"
    using 4 8 sizing_run(1) [OF items assms(2) that] that by (auto simp: packed_size_def size_add_def)
  show "packed_size ?func f src count m = None" if "r = EncFail"
    using 4 8 sizing_run(2) [OF items assms(2) that] that by (auto simp: packed_size_def)
qed

lemma encodes_packed:
  shows "encodes (\<lambda>s. encode_packed s f src count (PB_ENCODERS sub (ltype f)) m)
    (cat_enc (Enc (varint_bytes (tag_word PB_WT_STRING (pf_tag f))))
      (len_prefix (enc_items (enc_value (msg m) m f) count (dsize f) src)))"
  unfolding encode_packed_def
proof (rule encodes_bind [OF encodes_tag])
  let ?func = "PB_ENCODERS sub (ltype f)"
  let ?r = "enc_items (enc_value (msg m) m f) count (dsize f) src"
  let ?e = "encode_items (\<lambda>s p. ?func s f p m) count (dsize f) src"
  have items: "encodes ?e ?r" by (intro encodes_items encodes_value)
  show "encodes (\<lambda>s1. case packed_size ?func f src count m of None \<Rightarrow> (False, s1)
      | Some sz \<Rightarrow> (case pb_encode_varint s1 (word_of_nat sz) of (False, s2) \<Rightarrow> (False, s2)
         | (True, s2) \<Rightarrow> if is_sizing s2 then pb_write s2 [] sz else ?e s2)) (len_prefix ?r)"
  proof (cases ?r)
    case NoClaim
    then show ?thesis by (simp add: len_prefix_cases)
  next
    case EncFail
    with packed_size_eq(2) [OF refl, of m f count src] show ?thesis
      by (simp add: len_prefix_cases encodes_false)
  next
    case (Enc bs)
    show ?thesis
    proof (cases "length bs \<le> 2 ^ 62")
      case False
      with Enc show ?thesis by (simp add: len_prefix_cases)
    next
      case True
      have body: "within s (snd (?e s)) \<and> (if fits s (length bs) then ?e s = (True, put bs s) else \<not> fst (?e s))"
        if "plain s" for s
        using encodesD [OF items _ that] Enc by auto
      show ?thesis
        unfolding packed_size_eq(1) [OF refl _ Enc, simplified Enc, simplified] option.case Enc
        by (rule encodes_len_prefix [OF True refl body])
    qed
  qed
qed

lemma encodes_array:
  "encodes (\<lambda>s. encode_array s f src count (PB_ENCODERS sub (ltype f)) m) (enc_array (msg m) m f src count)"
proof -
  have item: "encodes (\<lambda>s. encode_item f (PB_ENCODERS sub (ltype f)) m s p)
      (cat_enc (enc_tag f) (enc_value (msg m) m f
        (if atype f = PB_ATYPE_POINTER \<and> (ltype f = PB_LTYPE_STRING \<or> ltype f = PB_LTYPE_BYTES)
         then load_ptr m p else p)))" for p
    unfolding encode_item_def
    by (rule encodes_bind [OF encodes_field_tag]) (auto simp: encodes_value)
  show ?thesis
    unfolding encode_array_def enc_array_def
    by (intro encodes_if encodes_skip encodes_error encodes_packed encodes_items item)
qed

lemma encodes_encode_value:
  "encodes (\<lambda>s. encode_value sub s f src m) (cat_enc (enc_tag f) (enc_value (msg m) m f src))"
  unfolding encode_value_def by (rule encodes_bind [OF encodes_field_tag encodes_value])

lemma encodes_basic: "encodes (\<lambda>s. encode_basic_field sub chk s f a m) (enc_basic (msg m) chk m f a)"
  unfolding encode_basic_field_def enc_basic_def Let_def
  by (intro encodes_if encodes_error encodes_skip encodes_encode_value encodes_array)

lemma encodes_field:
  assumes cb: "\<And>fn f a m. encodes (\<lambda>s. user_encode env fn s f a m) (cb fn f a m)"
  shows "encodes (\<lambda>s. if ltype f = PB_LTYPE_EXTENSION then encode_extension_field env sub chk s f a m
      else encode_field env sub chk s f a m) (enc_field cb (msg m) chk m f a)"
proof -
  have "encodes (\<lambda>s. case user_encode env (load_ptr m a) s f (a + 8) m of
      (False, s') \<Rightarrow> enc_error ''callback error'' s' | (True, s') \<Rightarrow> (True, s')) (cb (load_ptr m a) f (a + 8) m)"
  proof (cases "cb (load_ptr m a) f (a + 8) m = NoClaim")
    case False
    note d = encodesD [OF cb [of "load_ptr m a" f "a + 8" m] False]
    show ?thesis
      by (rule encodesI) (use d in \<open>fastforce simp: enc_error_def split: prod.splits bool.splits\<close>)+
  qed simp
  then have "encodes (\<lambda>s. encode_callback_field env s f a m)
      (if load_ptr m a \<noteq> 0 then cb (load_ptr m a) f (a + 8) m else Enc [])"
    unfolding encode_callback_field_def by (intro encodes_if encodes_skip)
  then show ?thesis
    unfolding encode_field_def enc_field_def
    by (intro encodes_if encodes_NoClaim encodes_basic encodes_error)
qed

lemma encodes_loop:
  assumes cb: "\<And>fn f a m. encodes (\<lambda>s. user_encode env fn s f a m) (cb fn f a m)" and wf: "wf_tags fs"
  shows "k < length fs \<Longrightarrow> length fs \<le> k + n \<Longrightarrow>
    encodes (\<lambda>s. encode_loop env sub chk n s (field_iter fs src k) m)
      (concat_enc (map (\<lambda>k. enc_field cb (msg m) chk m (fs ! k) (src + data_off fs k)) [k..<length fs]))"
proof (induction n arbitrary: k)
  case 0
  then show ?case by simp
next
  case (Suc n)
  have upt: "[k..<length fs] = k # [Suc k..<length fs]" using Suc.prems(1) by (rule upt_conv_Cons)
  let ?it = "field_iter fs src k" and ?f = "fs ! k" and ?a = "src + data_off fs k"
  let ?rest = "\<lambda>s'. case pb_field_iter_next ?it of (it', True) \<Rightarrow> encode_loop env sub chk n s' it' m
      | (it', False) \<Rightarrow> (True, s')"
  let ?tail = "concat_enc (map (\<lambda>k. enc_field cb (msg m) chk m (fs ! k) (src + data_off fs k)) [Suc k..<length fs])"
  have "encodes ?rest ?tail"
  proof (cases "Suc k < length fs")
    case True
    then show ?thesis using Suc.IH [OF True] Suc.prems by (simp add: iter_next_step [OF wf])
  next
    case False
    then have "Suc k = length fs" using Suc.prems(1) by simp
    then show ?thesis using Suc.prems(1) by (simp add: iter_next_eq [OF wf] encodes_skip)
  qed
  from encodes_bind [OF encodes_field [where f = ?f and chk = chk and a = ?a and m = m, OF cb] this]
  moreover have "it_field ?it = ?f" "it_pData ?it = ?a" using Suc.prems(1) by simp_all
  ultimately show ?case unfolding upt list.map concat_enc.simps encode_loop.simps by (simp only:)
qed

lemma encodes_message:
  assumes "\<And>fn f a m. encodes (\<lambda>s. user_encode env fn s f a m) (cb fn f a m)"
  shows "encodes (\<lambda>s. encode_message env sub depth s fs src m) (enc_message cb (msg m) depth m fs src)"
proof (cases "wf_tags fs")
  case True
  show ?thesis
  proof (cases "fs = []")
    case True
    then show ?thesis by (simp add: encode_message_def iter_begin_eq enc_message_def wf_tags_def encodes_skip)
  next
    case False
    with encodes_loop [OF assms True, of 0] True show ?thesis
      by (simp add: encode_message_def iter_begin_wf enc_message_def)
  qed
qed (simp add: enc_message_def)

end

definition callbacks_spec :: "cb_spec \<Rightarrow> 's enc_env \<Rightarrow> bool" where
  "callbacks_spec cb env \<longleftrightarrow> (\<forall>fn f a m. encodes (\<lambda>s. user_encode env fn s f a m) (cb fn f a m))"

text \<open>The recursion is closed: each level is a submessage encoder for the next.\<close>

lemma encode_spec:
  "callbacks_spec cb env \<Longrightarrow> encodes (\<lambda>s. pb_encode env depth s fs src m) (enc_msg cb depth m fs src)"
proof (induction depth arbitrary: fs src m)
  case 0
  show ?case by (simp add: encodes_error)
next
  case (Suc depth)
  have "submessage_encoder (pb_encode env depth) (enc_msg cb depth)"
    by (rule submessage_encoder.intro) (rule Suc.IH [OF Suc.prems])
  from submessage_encoder.encodes_message [OF this, of env cb "Suc depth" fs src m] Suc.prems
  show ?case by (simp add: callbacks_spec_def)
qed

text \<open>Without callbacks: an environment with no code at all.\<close>

definition no_encoders :: "'s enc_env" where
  "no_encoders = \<lparr>user_encode = (\<lambda>fn s f a m. (False, s)), enc_ext_arg = (\<lambda>_. PB_LAST_FIELD),
     ext_encode = (\<lambda>_. None), enc_loop_fuel = 0\<rparr>"

definition no_cb :: cb_spec where
  "no_cb = (\<lambda>fn f a m. EncFail)"

lemma no_encoders_spec: "callbacks_spec no_cb no_encoders"
  by (simp add: callbacks_spec_def no_cb_def no_encoders_def encodes_false)

interpretation plain_encoder: submessage_encoder "pb_encode no_encoders depth" "enc_msg no_cb depth" for depth
  by unfold_locales (rule encode_spec [OF no_encoders_spec])

end
