(* ===== verification/Pb_Encode_Props.thy ===== *)
theory Pb_Encode_Props
  imports Pb_Enc_Message Pb_Decode
begin

text \<open>
  Properties of the encoder that follow from its agreement with the wire format: what a large
  enough buffer holds afterwards, that the size computed beforehand decides success, that a
  buffer is never overrun, and that a delimited message is framed so that the decoder's
  substream is the message.
\<close>

lemma plain_buffer: "n \<le> 2 ^ 63 \<Longrightarrow> plain (pb_ostream_from_buffer n)"
  by (simp add: plain_def pb_ostream_from_buffer_def)

lemma fits_buffer: "fits (pb_ostream_from_buffer n) k \<longleftrightarrow> k \<le> n"
  by (simp add: fits_def pb_ostream_from_buffer_def)

lemma bytes_written_buffer:
  "length bs \<le> n \<Longrightarrow> n \<le> 2 ^ 63 \<Longrightarrow> bytes_written (put bs (pb_ostream_from_buffer n)) = length bs"
  by (subst bytes_written_put)
    (simp_all add: plain_buffer fits_buffer, simp_all add: pb_ostream_from_buffer_def)

section \<open>Example\<close>

text \<open>A message with a required \<open>int32\<close>, an optional \<open>uint32\<close> with its has member, and a
  submessage with one required \<open>bool\<close>, in a struct of 16 bytes at
  address 16.\<close>

definition sample_fields :: "pb_field list" where
  "sample_fields = [PbField 1 0x00 0 0 4 0 NullPtr, PbField 2 0x11 4 (- 4) 4 0 NullPtr,
     PbField 3 0x07 0 0 1 0 (Submsg [PbField 1 0x00 0 0 1 0 NullPtr])]"

definition sample_memory :: mem where
  "sample_memory = (\<lambda>x. if x = 16 then 0x2A else if x = 20 then 1 else if x = 24 then 7
     else if x = 28 then 1 else 0)"

definition sample_bytes :: "byte list" where
  "sample_bytes = [0x08, 0x2A, 0x10, 0x07, 0x1A, 0x02, 0x08, 0x01]"

lemma sample_msg: "enc_msg no_cb 2 sample_memory sample_fields 16 = Enc sample_bytes"
  by code_simp

definition representable :: "enc_result \<Rightarrow> bool" where
  "representable r \<longleftrightarrow> (case r of Enc bs \<Rightarrow> length bs < 2 ^ 64 | EncFail \<Rightarrow> True | NoClaim \<Rightarrow> False)"

section \<open>Properties\<close>

text \<open>C10: the encoder writes the wire format of the message: into a buffer with room for it
  \<open>pb_encode\<close> succeeds and the buffer holds exactly the specified bytes.\<close>

theorem encode_writes_wire_format:
  assumes "callbacks_spec cb env" "enc_msg cb depth m fs src = Enc bs" "length bs \<le> n" "n \<le> 2 ^ 63"
  shows "\<exists>s. pb_encode env depth (pb_ostream_from_buffer n) fs src m = (True, s) \<and>
    written s = bs \<and> bytes_written s = length bs \<and> out_err s = None"
proof -
  have "pb_encode env depth (pb_ostream_from_buffer n) fs src m = (True, put bs (pb_ostream_from_buffer n))"
    by (rule encodesD(2) [OF encode_spec [OF assms(1)] _ plain_buffer [OF assms(4)] assms(2)])
      (use assms in \<open>simp_all add: fits_buffer\<close>)
  then show ?thesis using assms
    by (simp add: bytes_written_buffer) (simp add: pb_ostream_from_buffer_def)
qed

theorem encode_writes_wire_format_witness:
  "\<exists>s :: unit ostream. pb_encode no_encoders 2 (pb_ostream_from_buffer 8) sample_fields 16 sample_memory = (True, s) \<and>
    written s = sample_bytes \<and> bytes_written s = length sample_bytes \<and> out_err s = None"
  by (rule encode_writes_wire_format [OF no_encoders_spec sample_msg]) (simp_all add: sample_bytes_def)

text \<open>C21: the size pass and the writing pass agree: \<open>pb_encode\<close> into a buffer of \<open>n\<close> bytes
  succeeds exactly when \<open>pb_get_encoded_size\<close> returns a size of at most \<open>n\<close>.\<close>

theorem size_decides_success:
  assumes "callbacks_spec cb env" "representable (enc_msg cb depth m fs src)" "n \<le> 2 ^ 63"
  shows "fst (pb_encode env depth (pb_ostream_from_buffer n) fs src m) \<longleftrightarrow>
    (\<exists>k. pb_get_encoded_size env depth fs src m = Some k \<and> k \<le> n)"
proof -
  let ?r = "enc_msg cb depth m fs src"
  note spec = encode_spec [OF assms(1), of depth fs src m]
  have nc: "?r \<noteq> NoClaim" using assms(2) by (auto simp: representable_def)
  show ?thesis
  proof (cases ?r)
    case (Enc bs)
    obtain s where "pb_encode env depth PB_OSTREAM_SIZING fs src m = (True, s)" "bytes_written s = length bs"
      using sizing_run(1) [OF spec nc Enc] assms(2) Enc by (auto simp: representable_def size_add_exact)
    then have "pb_get_encoded_size env depth fs src m = Some (length bs)"
      by (simp add: pb_get_encoded_size_def)
    then show ?thesis
      using encodesD(2,3) [OF spec nc plain_buffer [OF assms(3)] Enc] by (auto simp: fits_buffer)
  next
    case EncFail
    obtain s where "pb_encode env depth PB_OSTREAM_SIZING fs src m = (False, s)"
      using sizing_run(2) [OF spec nc EncFail] by auto
    then show ?thesis
      using encodesD(4) [OF spec nc plain_buffer [OF assms(3)] EncFail] by (simp add: pb_get_encoded_size_def)
  qed (use nc in simp)
qed

theorem size_decides_success_witness:
  "fst (pb_encode (no_encoders :: unit enc_env) 2 (pb_ostream_from_buffer 7) sample_fields 16 sample_memory) \<longleftrightarrow>
    (\<exists>k. pb_get_encoded_size (no_encoders :: unit enc_env) 2 sample_fields 16 sample_memory = Some k \<and> k \<le> 7)"
  by (rule size_decides_success [OF no_encoders_spec])
    (simp_all add: sample_msg representable_def sample_bytes_def)

text \<open>C11: \<open>pb_encode\<close> never writes behind the end of its buffer, also when it fails half way, and
  \<open>bytes_written\<close> is the number of bytes it laid down.\<close>

theorem encode_never_overruns:
  assumes "callbacks_spec cb env" "enc_msg cb depth m fs src \<noteq> NoClaim" "n \<le> 2 ^ 63"
    "pb_encode env depth (pb_ostream_from_buffer n) fs src m = (ok, s)"
  shows "length (written s) \<le> n \<and> bytes_written s = length (written s)"
  using encodesD(1) [OF encode_spec [OF assms(1)] assms(2) plain_buffer [OF assms(3)]] assms(4)
  by (auto simp: within_def pb_ostream_from_buffer_def written_def)

theorem encode_never_overruns_witness:
  "\<exists>ok (s :: unit ostream). pb_encode no_encoders 2 (pb_ostream_from_buffer 5) sample_fields 16 sample_memory = (ok, s) \<and>
    length (written s) \<le> 5 \<and> bytes_written s = length (written s)"
proof -
  obtain ok and s :: "unit ostream" where
    e: "pb_encode no_encoders 2 (pb_ostream_from_buffer 5) sample_fields 16 sample_memory = (ok, s)" by fastforce
  have "enc_msg no_cb 2 sample_memory sample_fields 16 \<noteq> NoClaim" by (simp add: sample_msg)
  from encode_never_overruns [OF no_encoders_spec this _ e] e show ?thesis by simp
qed

text \<open>C31: framing: what \<open>pb_encode_delimited\<close> writes, followed by anything, is cut by
  \<open>pb_make_string_substream\<close> into a substream that holds exactly the message and a parent
  stream that continues behind it.\<close>

theorem delimited_framing:
  assumes "callbacks_spec cb env" "enc_msg cb depth m fs src = Enc bs" "length bs < 2 ^ 32" "length bs + 10 \<le> n" "n \<le> 2 ^ 63"
  shows "\<exists>s. pb_encode_delimited env depth (pb_ostream_from_buffer n) fs src m = (True, s) \<and>
    (\<exists>(sub :: 't istream) parent. pb_make_string_substream (pb_istream_from_buffer (written s @ rest) (length (written s @ rest))) =
        (Some sub, parent) \<and> contents sub = bs \<and> bytes_left parent = length rest)"
proof -
  let ?v = "word_of_nat (length bs) :: u64" and ?w = "word_of_nat (length bs) :: u32"
  have "submessage_encoder (pb_encode env depth) (enc_msg cb depth)"
    by unfold_locales (rule encode_spec [OF assms(1)])
  from submessage_encoder.submessage [OF this, of fs src m] assms(2,3)
  have sp: "encodes (\<lambda>s. pb_encode_delimited env depth s fs src m) (Enc (varint_bytes ?v @ bs))"
    by (simp add: pb_encode_delimited_def len_prefix_cases)
  have fit: "length (varint_bytes ?v @ bs) \<le> n" using length_varint_bytes_10 [of ?v] assms(4) by simp
  then have e: "pb_encode_delimited env depth (pb_ostream_from_buffer n) fs src m =
      (True, put (varint_bytes ?v @ bs) (pb_ostream_from_buffer n))"
    using encodesD(2) [OF sp _ plain_buffer [OF assms(5)] refl] by (simp add: fits_buffer)
  let ?in = "varint_bytes ?v @ bs @ rest"
  have v: "?v = ucast ?w" using assms(3)
    by (intro word_unat_eq_iff [THEN iffD2]) (simp add: unat_of_nat unsigned_ucast_eq take_bit_nat_eq_self)
  let ?s = "pb_istream_from_buffer ?in (length ?in) :: 't istream"
  have "buf_ok ?s" "contents ?s = varint_bytes (ucast ?w) @ bs @ rest" by (simp_all flip: v)
  from decode_varint32_bytes [OF this]
  have d: "pb_decode_varint32 ?s = (Some ?w, pb_istream_from_buffer (bs @ rest) (length (bs @ rest)))"
    by (simp flip: v)
  have "unat ?w = length bs" using assms(3) by (simp add: unat_of_nat)
  with d have "pb_make_string_substream ?s =
      (Some (pb_istream_from_buffer (bs @ rest) (length bs)), pb_istream_from_buffer (bs @ rest) (length rest))"
    by (simp add: pb_make_string_substream_def)
  with e show ?thesis by (simp add: add.assoc)
qed

theorem delimited_framing_witness:
  "\<exists>s :: unit ostream. pb_encode_delimited no_encoders 2 (pb_ostream_from_buffer 18) sample_fields 16 sample_memory = (True, s) \<and>
    (\<exists>(sub :: unit istream) parent. pb_make_string_substream (pb_istream_from_buffer (written s @ [1, 2]) (length (written s @ [1, 2]))) =
        (Some sub, parent) \<and> contents sub = sample_bytes \<and> bytes_left parent = length [1, 2 :: byte])"
  by (rule delimited_framing [OF no_encoders_spec sample_msg]) (simp_all add: sample_bytes_def)

end
