(* ===== verification/Pb_Value_Props.thy ===== *)
theory Pb_Value_Props
  imports Pb_Decode
begin

text \<open>
  Decoded values: which integers fit into a member of 1, 2, 4 or 8 bytes and what is stored.
\<close>

section \<open>Casting through a narrower type\<close>

lemma ucast_narrow:
  "LENGTH('b) \<le> LENGTH('a) \<Longrightarrow> (ucast (ucast v :: 'b::len word) = v) \<longleftrightarrow> unat v < 2 ^ LENGTH('b)" for v :: "'a::len word"
proof -
  assume le: "LENGTH('b) \<le> LENGTH('a)"
  have lt: "take_bit n (unat v) < 2 ^ LENGTH('a)" for n
    by (rule le_less_trans [OF take_bit_nat_less_eq_self unsigned_less])
  have "unat (ucast (ucast v :: 'b word) :: 'a word) = take_bit LENGTH('b) (unat v)"
    using le lt by (simp only: unsigned_ucast_eq take_bit_nat_eq_self take_bit_take_bit unsigned_take_bit_eq)
  then show ?thesis by (simp add: word_unat_eq_iff take_bit_nat_eq_self_iff)
qed

lemma sint_eq_iff: "v = w \<longleftrightarrow> sint v = sint w" for v w :: "'a::len word"
  by (auto intro: signed_word_eqI)

lemma scast_narrow:
  "LENGTH('b) \<le> LENGTH('a) \<Longrightarrow> (scast (ucast v :: 'b::len word) = v) \<longleftrightarrow>
    - (2 ^ (LENGTH('b) - 1)) \<le> sint v \<and> sint v < 2 ^ (LENGTH('b) - 1)" for v :: "'a::len word"
proof -
  assume le: "LENGTH('b) \<le> LENGTH('a)"
  have s: "sint v = signed_take_bit (LENGTH('a) - Suc 0) (uint v)"
    by (rule sint_uint [of v])
  have n: "sint (ucast v :: 'b word) = signed_take_bit (LENGTH('b) - Suc 0) (sint v)"
    using le unfolding s by (simp add: signed_ucast_eq signed_take_bit_signed_take_bit min_def)
  have "sint (scast (ucast v :: 'b word) :: 'a word) = signed_take_bit (LENGTH('a) - Suc 0) (sint (ucast v :: 'b word))"
    by (simp only: signed_scast_eq)
  also have "\<dots> = signed_take_bit (LENGTH('b) - Suc 0) (sint v)"
    using le by (simp only: n signed_take_bit_signed_take_bit) (simp add: min_def diff_le_mono)
  finally show ?thesis
    unfolding sint_eq_iff by (simp only: signed_take_bit_int_eq_self_iff One_nat_def)
qed

section \<open>Integers that fit into the member\<close>

definition int_size :: "nat \<Rightarrow> bool" where
  "int_size n \<longleftrightarrow> n = 1 \<or> n = 2 \<or> n = 4 \<or> n = 8"

lemma int_sizeE:
  assumes "int_size n"
  obtains "n = 1" | "n = 2" | "n = 4" | "n = 8"
  using assms by (auto simp: int_size_def)

definition fits_unsigned :: "nat \<Rightarrow> u64 \<Rightarrow> bool" where
  "fits_unsigned n v \<longleftrightarrow> unat v < 2 ^ (8 * n)"

definition fits_signed :: "nat \<Rightarrow> u64 \<Rightarrow> bool" where
  "fits_signed n v \<longleftrightarrow> - (2 ^ (8 * n - 1)) \<le> sint v \<and> sint v < 2 ^ (8 * n - 1)"

lemma fits_unsigned_8 [simp]: "fits_unsigned 8 v"
proof -
  have "unat v < 2 ^ LENGTH(64)" by (rule unsigned_less)
  then show ?thesis by (simp add: fits_unsigned_def)
qed

lemma fits_signed_8 [simp]: "fits_signed 8 v"
  using sint_range_size [of v] by (simp add: fits_signed_def word_size)

lemma clamp_unsigned_iff:
  assumes "int_size n"
  shows "\<exists>c. clamp_unsigned n v = Some c \<and> (c = v \<longleftrightarrow> fits_unsigned n v)"
proof -
  have "(ucast (ucast v :: u8) = v) = fits_unsigned 1 v" "(ucast (ucast v :: u16) = v) = fits_unsigned 2 v"
    "(ucast (ucast v :: u32) = v) = fits_unsigned 4 v"
    by (subst ucast_narrow; simp add: fits_unsigned_def)+
  then show ?thesis using assms
    by (elim int_sizeE) (simp_all add: clamp_unsigned_def)
qed

lemma clamp_signed_iff:
  assumes "int_size n"
  shows "\<exists>c. clamp_signed n v = Some c \<and> (c = v \<longleftrightarrow> fits_signed n v)"
proof -
  have "(scast (ucast v :: u8) = v) = fits_signed 1 v" "(scast (ucast v :: u16) = v) = fits_signed 2 v"
    "(scast (ucast v :: u32) = v) = fits_signed 4 v"
    by (subst scast_narrow; simp add: fits_signed_def)+
  then show ?thesis using assms
    by (elim int_sizeE) (simp_all add: clamp_signed_def)
qed

lemma snd_svarint: "snd (pb_decode_svarint s) = snd (pb_decode_varint s)"
  by (simp add: pb_decode_svarint_def split: prod.split option.split)

definition store_int :: "bool \<Rightarrow> 's istream \<Rightarrow> pb_field \<Rightarrow> addr \<Rightarrow> u64 \<Rightarrow> mem \<Rightarrow> bool \<times> 's istream \<times> mem" where
  "store_int fits s f dest v m =
     (if fits then (True, s, store m dest (le_bytes (dsize f) v))
      else dec_error ''integer too large'' s (store m dest (le_bytes (dsize f) v)))"

text \<open>C36: integers are range checked: for a member of 1, 2, 4 or 8 bytes the decoders of unsigned,
  signed and zig-zag varints succeed exactly when the number fits into the member, where a
  plain signed varint for a member of less than eight bytes is first cut to 32 bits; the low bytes of
  the number are stored in either case, and the error is \<open>integer too large\<close>.\<close>

theorem integer_range_check:
  assumes "int_size (dsize f)" "pb_decode_varint s = (Some v, s')" "pb_decode_svarint s = (Some z, s')"
  shows "pb_dec_uvarint s f dest m = store_int (fits_unsigned (dsize f) v) s' f dest v m \<and>
    pb_dec_svarint s f dest m = store_int (fits_signed (dsize f) z) s' f dest z m \<and>
    (let sv = (if dsize f = 8 then v else scast (ucast v :: u32)) in
      pb_dec_varint s f dest m = store_int (fits_signed (dsize f) sv) s' f dest sv m)"
  using clamp_unsigned_iff [OF assms(1), of v] clamp_signed_iff [OF assms(1), of z]
    clamp_signed_iff [OF assms(1), of "if dsize f = 8 then v else scast (ucast v :: u32)"]
  by (auto simp: assms(2,3) pb_dec_uvarint_def pb_dec_svarint_def pb_dec_varint_def store_clamped_def
      store_int_def Let_def)

theorem integer_range_check_witness:
  "pb_dec_uvarint (pb_istream_from_buffer [0x80, 0x02] 2 :: unit istream) (PbField 1 1 0 0 1 0 NullPtr) 0 (\<lambda>_. 0) =
     store_int False (snd (pb_decode_varint (pb_istream_from_buffer [0x80, 0x02] 2))) (PbField 1 1 0 0 1 0 NullPtr) 0 256 (\<lambda>_. 0)"
proof -
  let ?s = "pb_istream_from_buffer [0x80, 0x02] 2 :: unit istream"
  have s: "int_size (dsize (PbField 1 1 0 0 1 0 NullPtr))" by code_simp
  have v: "pb_decode_varint ?s = (Some 256, snd (pb_decode_varint ?s))"
    by (rule prod_eqI) (code_simp, simp)
  have z: "pb_decode_svarint ?s = (Some 128, snd (pb_decode_varint ?s))"
    by (intro prod_eqI) (code_simp, simp add: snd_svarint)
  have u: "\<not> fits_unsigned (dsize (PbField 1 1 0 0 1 0 NullPtr)) 256"
    by (simp add: fits_unsigned_def) 
  show ?thesis using integer_range_check [OF s v z, of 0 "\<lambda>_. 0"] u by simp
qed

end
