(* ===== verification/Ldb_Base.thy ===== *)
theory Ldb_Base
  imports Prelude
begin

text \<open>
  The vocabulary of the leveldb sources under \<open>Pods/leveldb-library\<close>: \<open>Slice\<close>
  (\<open>include/leveldb/slice.h\<close>) and \<open>std::string\<close> as byte lists, \<open>Status\<close>
  (\<open>include/leveldb/status.h\<close>, \<open>util/status.cc\<close>), and \<open>util/coding.cc\<close> and \<open>util/coding.h\<close>:
  fixed-width integers, varints and length-prefixed strings.

  A pointer into a string together with its \<open>limit\<close> is the list of the bytes between the
  two; a parser returns the value and the bytes behind it.
\<close>

type_synonym slice = "byte list"

named_theorems ldb_calls \<open>unfolding of small leveldb helpers\<close>

section \<open>Status\<close>

datatype status_code = kNotFound | kCorruption | kNotSupported | kInvalidArgument | kIOError

text \<open>\<open>state_\<close> is NULL for success; otherwise it holds the code and the message.\<close>

datatype status = OK | Err status_code string

definition status_msg :: "status_code \<Rightarrow> string \<Rightarrow> string \<Rightarrow> status" where
  "status_msg code msg msg2 = Err code (msg @ (if msg2 \<noteq> [] then '': '' @ msg2 else []))"

definition Corruption :: "string \<Rightarrow> status" where
  "Corruption msg = status_msg kCorruption msg []"

definition is_ok :: "status \<Rightarrow> bool" where
  "is_ok s \<longleftrightarrow> (case s of OK \<Rightarrow> True | Err _ _ \<Rightarrow> False)"

lemma is_ok_simps [simp]: "is_ok OK" "\<not> is_ok (Err c m)" "\<not> is_ok (Corruption m)"
  by (simp_all add: is_ok_def Corruption_def status_msg_def)

lemma is_ok_iff: "is_ok s \<longleftrightarrow> s = OK"
  by (cases s) simp_all

definition status_ToString :: "status \<Rightarrow> string" where
  "status_ToString s = (case s of
     OK \<Rightarrow> ''OK''
   | Err code msg \<Rightarrow>
      (case code of
         kNotFound \<Rightarrow> ''NotFound: ''
       | kCorruption \<Rightarrow> ''Corruption: ''
       | kNotSupported \<Rightarrow> ''Not implemented: ''
       | kInvalidArgument \<Rightarrow> ''Invalid argument: ''
       | kIOError \<Rightarrow> ''IO error: '') @ msg)"

section \<open>Comparing slices\<close>

text \<open>\<open>memcmp\<close>: the sign of the first difference, bytes compared as unsigned.\<close>

fun memcmp :: "byte list \<Rightarrow> byte list \<Rightarrow> int" where
  "memcmp (a # as) (b # bs) = (if a < b then -1 else if b < a then 1 else memcmp as bs)"
| "memcmp _ _ = 0"

definition slice_compare :: "slice \<Rightarrow> slice \<Rightarrow> int" where
  "slice_compare a b =
     (let min_len = (if length a < length b then length a else length b);
          r = memcmp (take min_len a) (take min_len b)
      in if r = 0 then
           if length a < length b then -1 else if length b < length a then 1 else r
         else r)"

section \<open>Fixed-width integers\<close>

text \<open>\<open>port::kLittleEndian\<close>, true on the platforms of the app.\<close>

definition kLittleEndian :: bool where "kLittleEndian = True"

definition EncodeFixed32 :: "u32 \<Rightarrow> byte list" where
  "EncodeFixed32 value =
     (if kLittleEndian then le_bytes 4 value
      else [ucast (value AND 0xff), ucast (drop_bit 8 value AND 0xff),
            ucast (drop_bit 16 value AND 0xff), ucast (drop_bit 24 value AND 0xff)])"

definition EncodeFixed64 :: "u64 \<Rightarrow> byte list" where
  "EncodeFixed64 value =
     (if kLittleEndian then le_bytes 8 value
      else [ucast (value AND 0xff), ucast (drop_bit 8 value AND 0xff),
            ucast (drop_bit 16 value AND 0xff), ucast (drop_bit 24 value AND 0xff),
            ucast (drop_bit 32 value AND 0xff), ucast (drop_bit 40 value AND 0xff),
            ucast (drop_bit 48 value AND 0xff), ucast (drop_bit 56 value AND 0xff)])"

definition PutFixed32 :: "byte list \<Rightarrow> u32 \<Rightarrow> byte list" where
  "PutFixed32 dst value = dst @ EncodeFixed32 value"

definition PutFixed64 :: "byte list \<Rightarrow> u64 \<Rightarrow> byte list" where
  "PutFixed64 dst value = dst @ EncodeFixed64 value"

text \<open>The decoders read from a pointer; a byte behind the end of the list counts as 0.\<close>

definition byte_at :: "byte list \<Rightarrow> nat \<Rightarrow> byte" where
  "byte_at p i = (if i < length p then p ! i else 0)"

definition DecodeFixed32 :: "byte list \<Rightarrow> u32" where
  "DecodeFixed32 p =
     (if kLittleEndian then of_le (take 4 p)
      else ucast (byte_at p 0) OR push_bit 8 (ucast (byte_at p 1)) OR
           push_bit 16 (ucast (byte_at p 2)) OR push_bit 24 (ucast (byte_at p 3)))"

definition DecodeFixed64 :: "byte list \<Rightarrow> u64" where
  "DecodeFixed64 p =
     (if kLittleEndian then of_le (take 8 p)
      else let lo = ucast (DecodeFixed32 p); hi = ucast (DecodeFixed32 (drop 4 p))
           in push_bit 32 hi OR lo)"

lemma EncodeFixed32_le: "EncodeFixed32 v = le_bytes 4 v"
  by (simp add: EncodeFixed32_def kLittleEndian_def)

lemma EncodeFixed64_le: "EncodeFixed64 v = le_bytes 8 v"
  by (simp add: EncodeFixed64_def kLittleEndian_def)

lemma length_EncodeFixed [simp]: "length (EncodeFixed32 v) = 4" "length (EncodeFixed64 w) = 8"
  by (simp_all add: EncodeFixed32_le EncodeFixed64_le)

lemma DecodeFixed32_Encode [simp]: "DecodeFixed32 (EncodeFixed32 v @ rest) = v"
  by (simp add: DecodeFixed32_def kLittleEndian_def EncodeFixed32_le of_le_le_bytes_full)

lemma DecodeFixed64_Encode [simp]: "DecodeFixed64 (EncodeFixed64 v @ rest) = v"
  by (simp add: DecodeFixed64_def kLittleEndian_def EncodeFixed64_le of_le_le_bytes_full)

lemma DecodeFixed_Encode_end [simp]:
  "DecodeFixed32 (EncodeFixed32 v) = v" "DecodeFixed64 (EncodeFixed64 w) = w"
  using DecodeFixed32_Encode [of v "[]"] DecodeFixed64_Encode [of w "[]"] by simp_all

lemma foldl_PutFixed32: "foldl PutFixed32 buf ws = buf @ concat (map EncodeFixed32 ws)"
  by (induction ws arbitrary: buf) (simp_all add: PutFixed32_def)

section \<open>Varints\<close>

definition EncodeVarint32 :: "u32 \<Rightarrow> byte list" where
  "EncodeVarint32 v =
     (if v < 2 ^ 7 then [ucast v]
      else if v < 2 ^ 14 then [ucast (v OR 128), ucast (drop_bit 7 v)]
      else if v < 2 ^ 21 then [ucast (v OR 128), ucast (drop_bit 7 v OR 128), ucast (drop_bit 14 v)]
      else if v < 2 ^ 28 then
        [ucast (v OR 128), ucast (drop_bit 7 v OR 128), ucast (drop_bit 14 v OR 128), ucast (drop_bit 21 v)]
      else
        [ucast (v OR 128), ucast (drop_bit 7 v OR 128), ucast (drop_bit 14 v OR 128),
         ucast (drop_bit 21 v OR 128), ucast (drop_bit 28 v)])"

definition PutVarint32 :: "byte list \<Rightarrow> u32 \<Rightarrow> byte list" where
  "PutVarint32 dst v = dst @ EncodeVarint32 v"

lemma unat_drop_7_less: "128 \<le> v \<Longrightarrow> unat (drop_bit 7 v) < unat v" for v :: u64
  by (simp only: unat_drop_bit word_le_nat_alt) simp

function EncodeVarint64 :: "u64 \<Rightarrow> byte list" where
  "EncodeVarint64 v =
     (if 128 \<le> v then ucast ((v AND 127) OR 128) # EncodeVarint64 (drop_bit 7 v) else [ucast v])"
  by pat_completeness auto
termination by (relation "measure unat") (simp_all add: unat_drop_7_less)

declare EncodeVarint64.simps [simp del]

definition PutVarint64 :: "byte list \<Rightarrow> u64 \<Rightarrow> byte list" where
  "PutVarint64 dst v = dst @ EncodeVarint64 v"

text \<open>\<open>value.size()\<close> is cut to 32 bits.\<close>

definition PutLengthPrefixedSlice :: "byte list \<Rightarrow> slice \<Rightarrow> byte list" where
  "PutLengthPrefixedSlice dst value = PutVarint32 dst (word_of_nat (length value)) @ value"

function VarintLength :: "u64 \<Rightarrow> nat" where
  "VarintLength v = (if 128 \<le> v then Suc (VarintLength (drop_bit 7 v)) else 1)"
  by pat_completeness auto
termination by (relation "measure unat") (simp_all add: unat_drop_7_less)

declare VarintLength.simps [simp del]

text \<open>The parsers: the value and the bytes behind it, or \<open>None\<close> for NULL.\<close>

fun varint32_fallback :: "nat \<Rightarrow> u32 \<Rightarrow> byte list \<Rightarrow> (u32 \<times> byte list) option" where
  "varint32_fallback shift result [] = None"
| "varint32_fallback shift result (b # p) =
     (if 28 < shift then None
      else if b AND 128 \<noteq> 0 then varint32_fallback (shift + 7) (result OR push_bit shift (ucast b AND 127)) p
      else Some (result OR push_bit shift (ucast b), p))"

definition GetVarint32PtrFallback :: "byte list \<Rightarrow> (u32 \<times> byte list) option" where
  "GetVarint32PtrFallback p = varint32_fallback 0 0 p"

definition GetVarint32Ptr :: "byte list \<Rightarrow> (u32 \<times> byte list) option" where
  "GetVarint32Ptr p = (case p of
     b # p' \<Rightarrow> if b AND 128 = 0 then Some (ucast b, p') else GetVarint32PtrFallback p
   | [] \<Rightarrow> GetVarint32PtrFallback p)"

definition GetVarint32 :: "slice \<Rightarrow> (u32 \<times> slice) option" where
  "GetVarint32 input = GetVarint32Ptr input"

fun varint64_loop :: "nat \<Rightarrow> u64 \<Rightarrow> byte list \<Rightarrow> (u64 \<times> byte list) option" where
  "varint64_loop shift result [] = None"
| "varint64_loop shift result (b # p) =
     (if 63 < shift then None
      else if b AND 128 \<noteq> 0 then varint64_loop (shift + 7) (result OR push_bit shift (ucast b AND 127)) p
      else Some (result OR push_bit shift (ucast b), p))"

definition GetVarint64Ptr :: "byte list \<Rightarrow> (u64 \<times> byte list) option" where
  "GetVarint64Ptr p = varint64_loop 0 0 p"

definition GetVarint64 :: "slice \<Rightarrow> (u64 \<times> slice) option" where
  "GetVarint64 input = GetVarint64Ptr input"

definition GetLengthPrefixedSlice :: "slice \<Rightarrow> (slice \<times> slice) option" where
  "GetLengthPrefixedSlice input = (case GetVarint32 input of
     Some (len, rest) \<Rightarrow>
       if unat len \<le> length rest then Some (take (unat len) rest, drop (unat len) rest) else None
   | None \<Rightarrow> None)"

end
