(* ===== verification/Ldb_Coding.thy ===== *)
theory Ldb_Coding
  imports Ldb_Base Pb_Varint
begin

text \<open>
  Facts about \<open>util/coding.cc\<close>.  leveldb and nanopb implement the same variable-length integers
  independently; here the encoders and the parsers of the two are shown to agree, so the round
  trips of leveldb follow from those of the theory \<open>Pb_Varint\<close>.
\<close>

section \<open>Encoders\<close>

lemma le_7F_iff: "128 \<le> v \<longleftrightarrow> \<not> v \<le> 0x7F" for v :: u64
  by (simp add: word_le_nat_alt) linarith

lemma EncodeVarint64_eq: "EncodeVarint64 v = varint_bytes v"
proof (induction v rule: varint_bytes_induct)
  case (small v)
  then show ?case by (simp add: EncodeVarint64.simps [of v] le_7F_iff varint_bytes_small)
next
  case (big v)
  then show ?case
    by (simp add: EncodeVarint64.simps [of v] le_7F_iff varint_bytes_big cont_byte_def)
qed

lemma bit_int_127: "bit (127 :: int) n \<longleftrightarrow> n < 7"
proof -
  have m: "(127 :: int) = mask 7" by (simp add: mask_eq_exp_minus_1)
  show ?thesis unfolding m by (simp add: bit_mask_iff)
qed

lemma bit_int_128: "bit (128 :: int) n \<longleftrightarrow> n = 7"
proof -
  have m: "(128 :: int) = push_bit 7 1" by (simp add: push_bit_eq_mult)
  show ?thesis unfolding m by (auto simp only: bit_push_bit_iff bit_1_iff) simp
qed

lemmas bit_consts = bit_int_127 bit_int_128

lemma cont_byte_32: "(ucast ((ucast w AND 127) OR 128 :: u64) :: byte) = ucast (w OR 128)" for w :: u32
  by (rule bit_word_eqI)
    (auto simp: bit_ucast_iff bit_or_iff bit_and_iff bit_consts dest: bit_imp_le_length)

lemma ucast_drop_bit_32: "drop_bit n (ucast w :: u64) = ucast (drop_bit n w)" for w :: u32
  by (rule bit_word_eqI) (auto simp: bit_ucast_iff bit_drop_bit_eq dest: bit_imp_le_length)

lemma ucast_32_big: "128 \<le> (ucast w :: u64) \<longleftrightarrow> \<not> w < 2 ^ 7" for w :: u32
proof -
  have "unat w < 2 ^ 64" using unsigned_less [of w, where ?'a = nat] by simp
  then show ?thesis by (simp add: word_le_nat_alt word_less_nat_alt unsigned_ucast_eq take_bit_nat_eq_self) linarith
qed

lemma drop_bit_less:
  fixes w :: u32
  assumes "k + n < 32"
  shows "drop_bit n w < 2 ^ k \<longleftrightarrow> w < 2 ^ (k + n)"
proof -
  have p: "unat (2 ^ j :: u32) = 2 ^ j" if "j < 32" for j
  proof -
    have "unat (2 ^ j :: u32) = unat (word_of_nat (2 ^ j) :: u32)" by simp
    also have "\<dots> = 2 ^ j mod 2 ^ LENGTH(32)" by (rule unat_of_nat)
    also have "\<dots> = 2 ^ j" using that by (intro mod_less power_strict_increasing) simp_all
    finally show ?thesis .
  qed
  show ?thesis
    unfolding word_less_nat_alt unat_drop_bit p [OF assms] p [OF order_le_less_trans [OF le_add1 assms]]
    by (simp add: div_less_iff_less_mult power_add)
qed

lemma EncodeVarint32_eq: "EncodeVarint32 v = varint_bytes (ucast v)"
proof -
  note step = EncodeVarint64.simps [of "ucast w" for w :: u32, unfolded ucast_32_big cont_byte_32 ucast_drop_bit_32]
  have l: "drop_bit 7 v < 2 ^ 7 \<longleftrightarrow> v < 2 ^ 14" "drop_bit 14 v < 2 ^ 7 \<longleftrightarrow> v < 2 ^ 21"
    "drop_bit 21 v < 2 ^ 7 \<longleftrightarrow> v < 2 ^ 28"
    by (simp_all add: drop_bit_less [of 7 7, simplified] drop_bit_less [of 7 14, simplified] drop_bit_less [of 7 21, simplified])
  have "unat v < 2 ^ 32" using unsigned_less [of v, where ?'a = nat] by simp
  then have "unat (drop_bit 28 v) < 2 ^ 7"
    by (simp add: unat_drop_bit div_less_iff_less_mult)
  then have t: "drop_bit 28 v < 2 ^ 7" by (simp add: word_less_nat_alt)
  have "(ucast (ucast w :: u64) :: byte) = ucast w" for w :: u32
    by (rule bit_word_eqI) (auto simp: bit_ucast_iff)
  then have "EncodeVarint64 (ucast v) = EncodeVarint32 v"
    unfolding EncodeVarint32_def step [of v] step [of "drop_bit 7 v"] step [of "drop_bit 7 (drop_bit 7 v)"]
      step [of "drop_bit 7 (drop_bit 7 (drop_bit 7 v))"] step [of "drop_bit 7 (drop_bit 7 (drop_bit 7 (drop_bit 7 v)))"]
    using l t by (simp add: drop_bit_drop_bit)
  then show ?thesis by (simp add: EncodeVarint64_eq)
qed

lemma VarintLength_eq: "VarintLength v = length (varint_bytes v)"
proof (induction v rule: varint_bytes_induct)
  case (small v)
  then show ?case by (simp add: VarintLength.simps [of v] le_7F_iff varint_bytes_small)
next
  case (big v)
  then show ?case by (simp add: VarintLength.simps [of v] le_7F_iff varint_bytes_big)
qed

section \<open>Parsers\<close>

text \<open>The loops of the two libraries go through the same values.\<close>

definition parsed :: "'a option \<times> 's istream \<Rightarrow> ('a \<times> byte list) option" where
  "parsed r = (case r of (Some v, s) \<Rightarrow> Some (v, contents s) | (None, _) \<Rightarrow> None)"

lemma parsed_simps [simp]: "parsed (Some v, s) = Some (v, contents s)" "parsed (None, s) = None"
  by (simp_all add: parsed_def)

lemma byte_and_128: "b AND 128 = b AND 0x80" for b :: byte
  by simp

lemma ucast_low7: "(ucast b AND 127 :: 'a::len word) = ucast (b AND 0x7F)" for b :: byte
  by (rule bit_word_eqI) (auto simp: bit_ucast_iff bit_and_iff bit_consts dest: bit_imp_le_length)

lemma varint64_loop_eq:
  "buf_ok s \<Longrightarrow> varint64_loop shift result (contents s) = parsed (varint_loop shift result s)"
proof (induction "contents s" arbitrary: s shift result)
  case Nil
  then show ?case
    by (simp add: Nil(1) [symmetric] varint_loop.simps [of shift] pb_readbyte_eq)
next
  case (Cons b p)
  note c = Cons.hyps(2) [symmetric]
  have "p = contents (adv 1 s)" using c by simp
  note ih = Cons.hyps(1) [OF this buf_ok_adv [OF Cons.prems], unfolded this [symmetric]]
  show ?case
    using ih [of "shift + 7" "result OR push_bit shift (ucast (b AND 0x7F))"] Cons.prems
    by (auto simp: c varint_loop.simps [of shift] pb_readbyte_eq ucast_low7 byte_msb_clear)
qed

lemma GetVarint64_eq: "buf_ok s \<Longrightarrow> GetVarint64 (contents s) = parsed (pb_decode_varint s)"
  by (simp add: GetVarint64_def GetVarint64Ptr_def pb_decode_varint_def varint64_loop_eq)

lemma varint32_fallback_eq:
  "buf_ok s \<Longrightarrow> shift = 7 * k \<Longrightarrow> varint32_fallback shift result (contents s) = parsed (varint32_loop shift result s)"
proof (induction "contents s" arbitrary: s shift k result)
  case Nil
  then show ?case
    by (simp add: Nil(1) [symmetric] varint32_loop.simps [of "7 * k"] pb_readbyte_eq)
next
  case (Cons b p)
  note c = Cons.hyps(2) [symmetric]
  have p: "p = contents (adv 1 s)" using c by simp
  have s7: "shift + 7 = 7 * Suc k" using Cons.prems by simp
  have lim: "28 < shift \<longleftrightarrow> 32 \<le> shift" using Cons.prems(2) by presburger
  from Cons.hyps(1) [OF p buf_ok_adv [OF Cons.prems(1)] s7, unfolded p [symmetric]]
  show ?case using Cons.prems(1)
    by (auto simp: c lim varint32_loop.simps [of shift] pb_readbyte_eq ucast_low7 byte_msb_clear)
qed

lemma GetVarint32_eq: "buf_ok s \<Longrightarrow> GetVarint32 (contents s) = parsed (pb_decode_varint32 s)"
proof -
  assume b: "buf_ok s"
  have "GetVarint32 (contents s) = varint32_fallback 0 0 (contents s)"
    by (cases "contents s") (simp_all add: GetVarint32_def GetVarint32Ptr_def GetVarint32PtrFallback_def)
  then show ?thesis
    using varint32_fallback_eq [OF b, of 0 0 0] by (simp add: pb_decode_varint32_loop)
qed

section \<open>Round trips\<close>

abbreviation bytes_stream :: "byte list \<Rightarrow> unit istream" where
  "bytes_stream bs \<equiv> pb_istream_from_buffer bs (length bs)"

lemma GetVarint64_Encode [simp]: "GetVarint64 (EncodeVarint64 v @ rest) = Some (v, rest)"
  using GetVarint64_eq [of "bytes_stream (EncodeVarint64 v @ rest)"]
    decode_varint_bytes [of "bytes_stream (EncodeVarint64 v @ rest)" v rest]
  by (simp add: EncodeVarint64_eq)

lemma GetVarint32_Encode [simp]: "GetVarint32 (EncodeVarint32 v @ rest) = Some (v, rest)"
  using GetVarint32_eq [of "bytes_stream (EncodeVarint32 v @ rest)"]
    decode_varint32_bytes [of "bytes_stream (EncodeVarint32 v @ rest)" v rest]
  by (simp add: EncodeVarint32_eq)

lemma GetVarint32Ptr_Encode [simp]: "GetVarint32Ptr (EncodeVarint32 v @ rest) = Some (v, rest)"
  using GetVarint32_Encode [of v rest] by (simp add: GetVarint32_def)

lemma PutLengthPrefixedSlice_append: "PutLengthPrefixedSlice dst v = dst @ PutLengthPrefixedSlice [] v"
  by (simp add: PutLengthPrefixedSlice_def PutVarint32_def)

lemma GetLengthPrefixedSlice_Put:
  "length v < 2 ^ 32 \<Longrightarrow> GetLengthPrefixedSlice (PutLengthPrefixedSlice [] v @ rest) = Some (v, rest)"
  by (simp add: GetLengthPrefixedSlice_def PutLengthPrefixedSlice_def PutVarint32_def unat_of_nat)

lemma length_EncodeVarint32: "0 < length (EncodeVarint32 v) \<and> length (EncodeVarint32 v) \<le> 5"
  by (simp add: EncodeVarint32_def)

text \<open>Every parser returns a proper suffix of its input.\<close>

lemma GetVarint_suffix:
  "GetVarint64 xs = Some (v, rest) \<Longrightarrow> \<exists>p. xs = p @ rest \<and> p \<noteq> []"
  "GetVarint32 xs = Some (w, rest) \<Longrightarrow> \<exists>p. xs = p @ rest \<and> p \<noteq> []"
proof -
  have s: "split_varint xs = Some (p, r) \<Longrightarrow> xs = p @ drop (length p) xs \<and> p \<noteq> []" for p r
    by (auto dest: split_varint_append)
  show "GetVarint64 xs = Some (v, rest) \<Longrightarrow> \<exists>p. xs = p @ rest \<and> p \<noteq> []"
    using GetVarint64_eq [of "bytes_stream xs"]
    by (auto simp: pb_decode_varint_eq decoded_def split: option.splits if_splits dest!: s)
  show "GetVarint32 xs = Some (w, rest) \<Longrightarrow> \<exists>p. xs = p @ rest \<and> p \<noteq> []"
    using GetVarint32_eq [of "bytes_stream xs"]
    by (auto simp: pb_decode_varint32_eq decoded_def split: option.splits if_splits dest!: s)
qed

end
