(* ===== verification/Ldb_Crc_Props.thy ===== *)
theory Ldb_Crc_Props
  imports Ldb_Crc Ldb_Coding
begin

text \<open>
  The checksum of \<open>util/crc32c.cc\<close> against its reference: the division step is linear over
  exclusive or, so a table of 256 entries is determined by eight of them, and a step over four
  bytes is the exclusive or of four table entries.
\<close>

section \<open>Linear functions on words\<close>

definition linear :: "(u32 \<Rightarrow> u32) \<Rightarrow> bool" where
  "linear f \<longleftrightarrow> (\<forall>x y. f (x XOR y) = f x XOR f y)"

lemma linearD: "linear f \<Longrightarrow> f (x XOR y) = f x XOR f y"
  by (simp add: linear_def)

lemma linear_0: "linear f \<Longrightarrow> f 0 = 0"
  using linearD [of f 0 0] by simp

lemma linear_funpow: "linear f \<Longrightarrow> linear (f ^^ n)"
  by (induction n) (simp_all add: linear_def)

lemma lsb_iff: "x AND 1 = 0 \<longleftrightarrow> \<not> bit x 0" for x :: u32
  by (simp add: and_one_eq bit_0 even_iff_mod_2_eq_zero)

lemma linear_crc_bit: "linear crc_bit"
proof -
  have "crc_bit (x XOR y) = crc_bit x XOR crc_bit y" for x y
    unfolding crc_bit_def lsb_iff bit_xor_iff drop_bit_xor by (auto simp: xor.assoc xor.left_commute xor.commute)
  then show ?thesis by (simp add: linear_def)
qed

text \<open>Low zero bits are shifted out.\<close>

lemma crc_bits_shift: "(\<And>k. k < n \<Longrightarrow> \<not> bit x k) \<Longrightarrow> (crc_bit ^^ n) x = drop_bit n x"
proof (induction n arbitrary: x)
  case (Suc n)
  have x: "crc_bit x = drop_bit 1 x" using Suc.prems [of 0] by (simp add: crc_bit_def lsb_iff)
  have "(crc_bit ^^ n) (drop_bit 1 x) = drop_bit n (drop_bit 1 x)"
    by (rule Suc.IH) (use Suc.prems in \<open>auto simp: bit_drop_bit_eq\<close>)
  then show ?case by (simp add: funpow_swap1 [symmetric] funpow_Suc_right x del: funpow.simps)
qed simp

section \<open>The tables\<close>

text \<open>The table spanned by the values at the powers of two, the largest first.\<close>

fun span_table :: "u32 list \<Rightarrow> u32 list" where
  "span_table [] = [0]"
| "span_table (b # bs) = (let t = span_table bs in t @ map (\<lambda>x. x XOR b) t)"

lemma span_table_linear:
  "linear f \<Longrightarrow> n \<le> 8 \<Longrightarrow> span_table (map (\<lambda>k. f (2 ^ k)) (rev [0..<n])) = map (\<lambda>i. f (word_of_nat i)) [0..<2 ^ n]"
proof (induction n)
  case 0
  then show ?case by (simp add: linear_0)
next
  case (Suc n)
  have add: "word_of_nat (i + 2 ^ n) = (word_of_nat i XOR 2 ^ n :: u32)" if "i < 2 ^ n" for i
  proof -
    have "i AND 2 ^ n = 0" using that
      by (metis and_exp_eq_0_iff_not_bit bit_take_bit_iff less_irrefl take_bit_nat_eq_self)
    then have "i + 2 ^ n = i XOR 2 ^ n" by (simp add: disjunctive_add_eq_xor)
    then show ?thesis by (metis of_nat_xor_eq of_nat_power of_nat_numeral)
  qed
  have "map (\<lambda>i. f (word_of_nat i)) [0..<2 ^ Suc n] =
      map (\<lambda>i. f (word_of_nat i)) [0..<2 ^ n] @ map (\<lambda>i. f (word_of_nat (i + 2 ^ n))) [0..<2 ^ n]"
    by (rule nth_equalityI) (auto simp: nth_append)
  also have "map (\<lambda>i. f (word_of_nat (i + 2 ^ n))) [0..<2 ^ n] = map (\<lambda>i. f (word_of_nat i) XOR f (2 ^ n)) [0..<2 ^ n]"
    by (simp add: add linearD [OF Suc.prems(1)] del: of_nat_add)
  finally show ?case using Suc by (simp add: Let_def o_def)
qed

lemma rev_upt_8: "rev [0..<8] = [7, 6, 5, 4, 3, 2, 1, 0 :: nat]"
  by (simp add: upt_rec)

lemma table_spanned:
  assumes "linear f" "map f [128, 64, 32, 16, 8, 4, 2, 1] = bs" "t = span_table bs" "x < 256"
  shows "t ! unat x = f x"
proof -
  have "t = map (\<lambda>i. f (word_of_nat i)) [0..<256]"
    using span_table_linear [OF assms(1), of 8] unfolding rev_upt_8 assms(3) assms(2) [symmetric] by simp
  moreover have "unat x < 256" using assms(4) by (simp add: word_less_nat_alt)
  ultimately show ?thesis by simp
qed

lemma crc_table0_spanned: "crc_table0 = span_table [0x82f63b78, 0x417b1dbc, 0x20bd8ede, 0x105ec76f, 0x8ad958cf, 0xc79a971f, 0xe13b70f7, 0xf26b8303]"
  by (simp add: crc_table0_def Let_def)


lemma crc_table1_spanned: "crc_table1 = span_table [0xfbc3faf9, 0xff17c604, 0x7f8be302, 0x3fc5f181, 0x9d14c3b8, 0x4e8a61dc, 0x274530ee, 0x13a29877]"
  by (simp add: crc_table1_def Let_def)

lemma crc_table2_spanned: "crc_table2 = span_table [0x8b277743, 0xc76580d9, 0xe144fb14, 0x70a27d8a, 0x38513ec5, 0x9edea41a, 0x4f6f520d, 0xa541927e]"
  by (simp add: crc_table2_def Let_def)

lemma crc_table3_spanned: "crc_table3 = span_table [0x52a0c93f, 0xaba65fe7, 0xd725148b, 0xe964b13d, 0xf64463e6, 0x7b2231f3, 0xbf672381, 0xdd45aab8]"
  by (simp add: crc_table3_def Let_def)

text \<open>The entries at the powers of two, each from the one before by eight more division steps.\<close>

lemma linear_bits: "linear (crc_bit ^^ n)"
  by (rule linear_funpow [OF linear_crc_bit])

lemma basis8: "map (crc_bit ^^ 8) [128, 64, 32, 16, 8, 4, 2, 1] =
    [0x82f63b78, 0x417b1dbc, 0x20bd8ede, 0x105ec76f, 0x8ad958cf, 0xc79a971f, 0xe13b70f7, 0xf26b8303]"
  by code_simp

lemma basis16: "map (crc_bit ^^ 8) [0x82f63b78, 0x417b1dbc, 0x20bd8ede, 0x105ec76f, 0x8ad958cf, 0xc79a971f, 0xe13b70f7, 0xf26b8303] =
    [0xfbc3faf9, 0xff17c604, 0x7f8be302, 0x3fc5f181, 0x9d14c3b8, 0x4e8a61dc, 0x274530ee, 0x13a29877]"
  by code_simp

lemma basis24: "map (crc_bit ^^ 8) [0xfbc3faf9, 0xff17c604, 0x7f8be302, 0x3fc5f181, 0x9d14c3b8, 0x4e8a61dc, 0x274530ee, 0x13a29877] =
    [0x8b277743, 0xc76580d9, 0xe144fb14, 0x70a27d8a, 0x38513ec5, 0x9edea41a, 0x4f6f520d, 0xa541927e]"
  by code_simp

lemma basis32: "map (crc_bit ^^ 8) [0x8b277743, 0xc76580d9, 0xe144fb14, 0x70a27d8a, 0x38513ec5, 0x9edea41a, 0x4f6f520d, 0xa541927e] =
    [0x52a0c93f, 0xaba65fe7, 0xd725148b, 0xe964b13d, 0xf64463e6, 0x7b2231f3, 0xbf672381, 0xdd45aab8]"
  by code_simp

lemma more_bits: "map (crc_bit ^^ n) xs = ys \<Longrightarrow> map (crc_bit ^^ 8) ys = zs \<Longrightarrow> map (crc_bit ^^ (8 + n)) xs = zs"
  by (simp only: funpow_add) (metis list.map_comp)

lemma crc_tables:
  assumes "x < 256"
  shows "crc_table0 ! unat x = (crc_bit ^^ 8) x" "crc_table1 ! unat x = (crc_bit ^^ (8 + 8)) x"
    "crc_table2 ! unat x = (crc_bit ^^ (8 + (8 + 8))) x" "crc_table3 ! unat x = (crc_bit ^^ (8 + (8 + (8 + 8)))) x"
proof -
  note b16 = more_bits [OF basis8 basis16]
  note b24 = more_bits [OF b16 basis24]
  note t = table_spanned [OF linear_bits _ _ assms]
  show "crc_table0 ! unat x = (crc_bit ^^ 8) x" by (rule t [OF basis8 crc_table0_spanned])
  show "crc_table1 ! unat x = (crc_bit ^^ (8 + 8)) x" by (rule t [OF b16 crc_table1_spanned])
  show "crc_table2 ! unat x = (crc_bit ^^ (8 + (8 + 8))) x" by (rule t [OF b24 crc_table2_spanned])
  show "crc_table3 ! unat x = (crc_bit ^^ (8 + (8 + (8 + 8)))) x"
    by (rule t [OF more_bits [OF b24 basis32] crc_table3_spanned])
qed

section \<open>Bytes and words\<close>

lemma and_ff: "l AND 0xff = take_bit 8 l" for l :: u32
  by (simp add: take_bit_eq_mask mask_eq_exp_minus_1)

lemma take_bit_8_less: "take_bit 8 l < 256" for l :: u32
proof -
  have "unat (take_bit 8 l) = take_bit 8 (unat l)" by (rule unsigned_take_bit_eq)
  also have "\<dots> < 256" using take_bit_nat_less_exp [of 8 "unat l"] by simp
  finally show ?thesis by (simp add: word_less_nat_alt)
qed

text \<open>One byte of division steps splits into the table entry of the low byte and a shift.\<close>

lemma crc_split: "(crc_bit ^^ (n + 8)) c = (crc_bit ^^ (n + 8)) (take_bit 8 c) XOR (crc_bit ^^ n) (drop_bit 8 c)"
proof -
  let ?h = "push_bit 8 (drop_bit 8 c)"
  have c: "c = take_bit 8 c XOR ?h"
    by (rule bit_word_eqI) (auto simp: bit_xor_iff bit_take_bit_iff bit_push_bit_iff bit_drop_bit_eq)
  have "(crc_bit ^^ 8) ?h = drop_bit 8 ?h"
    by (rule crc_bits_shift) (simp add: bit_push_bit_iff)
  also have "\<dots> = drop_bit 8 c"
    by (rule bit_word_eqI) (auto simp: bit_push_bit_iff bit_drop_bit_eq dest: bit_imp_le_length)
  finally have "(crc_bit ^^ (n + 8)) ?h = (crc_bit ^^ n) (drop_bit 8 c)" by (simp only: funpow_add o_apply)
  then show ?thesis using linearD [OF linear_bits [of "n + 8"], of "take_bit 8 c" ?h] by (simp only: c [symmetric])
qed

lemma STEP1_eq: "STEP1 b l = (crc_bit ^^ 8) (l XOR ucast b)"
proof -
  have i: "(l AND 0xff) XOR ucast b = take_bit 8 (l XOR ucast b)"
    unfolding and_ff by (rule bit_word_eqI) (auto simp: bit_xor_iff bit_take_bit_iff bit_ucast_iff dest: bit_imp_le_length)
  have d: "drop_bit 8 l = drop_bit 8 (l XOR ucast b)"
    by (rule bit_word_eqI) (auto simp: bit_xor_iff bit_drop_bit_eq bit_ucast_iff dest: bit_imp_le_length)
  show ?thesis
    using crc_split [of 0 "l XOR ucast b"] crc_tables(1) [OF take_bit_8_less [of "l XOR ucast b"]]
    by (simp only: STEP1_def Let_def i d add_0 funpow_0)
qed

lemma STEP4_eq: "STEP4 p l = (crc_bit ^^ 32) (l XOR DecodeFixed32 p)"
proof -
  let ?c = "l XOR DecodeFixed32 p"
  have top: "take_bit 8 (drop_bit 24 w) = drop_bit 24 w" for w :: u32
    by (rule bit_word_eqI) (auto simp: bit_take_bit_iff bit_drop_bit_eq dest: bit_imp_le_length)
  have dd: "drop_bit 8 (drop_bit 8 ?c) = drop_bit 16 ?c" "drop_bit 8 (drop_bit 16 ?c) = drop_bit 24 ?c"
    by (simp_all only: drop_bit_drop_bit) simp_all
  note s3 = crc_split [of 24 ?c] and s2 = crc_split [of 16 "drop_bit 8 ?c", unfolded dd] and
    s1 = crc_split [of 8 "drop_bit 16 ?c", unfolded dd]
  note t = crc_tables [OF take_bit_8_less]
  have n: "(24 :: nat) + 8 = 32" "(16 :: nat) + 8 = 24" "(8 :: nat) + 8 = 16" by simp_all
  have e: "(8 :: nat) + 8 = 16" "(8 :: nat) + 16 = 24" "(8 :: nat) + 24 = 32" by simp_all
  have "(crc_bit ^^ 32) ?c = (crc_bit ^^ 32) (take_bit 8 ?c) XOR (crc_bit ^^ 24) (take_bit 8 (drop_bit 8 ?c)) XOR
      (crc_bit ^^ 16) (take_bit 8 (drop_bit 16 ?c)) XOR (crc_bit ^^ 8) (drop_bit 24 ?c)"
    using s3 s2 s1 unfolding n by (simp only: xor.assoc)
  then show ?thesis
    using t(1) [of "drop_bit 24 ?c"] t(2) [of "drop_bit 16 ?c"] t(3) [of "drop_bit 8 ?c"] t(4) [of ?c]
    unfolding e n STEP4_def Let_def and_ff top by (simp only:)
qed

lemma or_push_8: "ucast b OR push_bit 8 y = ucast b XOR push_bit 8 y" for b :: byte and y :: u32
  by (rule bit_word_eqI) (auto simp: bit_or_iff bit_xor_iff bit_push_bit_iff bit_ucast_iff dest: bit_imp_le_length)

lemma fold_STEP1_of_le: "length bs \<le> 4 \<Longrightarrow> fold STEP1 bs l = (crc_bit ^^ (8 * length bs)) (l XOR of_le bs)"
proof (induction bs arbitrary: l)
  case (Cons b bs)
  let ?y = "of_le bs :: u32" and ?x = "l XOR ucast b"
  have "drop_bit 8 (push_bit 8 ?y) = ?y"
    by (rule bit_word_eqI) (use Cons.prems in \<open>auto simp: bit_drop_bit_eq bit_push_bit_iff bit_of_le\<close>)
  moreover have "(crc_bit ^^ 8) (push_bit 8 ?y) = drop_bit 8 (push_bit 8 ?y)"
    by (rule crc_bits_shift) (simp add: bit_push_bit_iff)
  ultimately have "(crc_bit ^^ 8) (?x XOR push_bit 8 ?y) = STEP1 b l XOR ?y"
    by (simp only: linearD [OF linear_bits] STEP1_eq)
  moreover have "l XOR of_le (b # bs) = ?x XOR push_bit 8 ?y" by (simp only: of_le.simps or_push_8 xor.assoc)
  moreover have "8 * length (b # bs) = 8 * length bs + 8" by simp
  ultimately have "(crc_bit ^^ (8 * length (b # bs))) (l XOR of_le (b # bs)) = (crc_bit ^^ (8 * length bs)) (STEP1 b l XOR ?y)"
    by (simp only: funpow_add o_apply)
  then show ?case using Cons by simp
qed simp

lemma STEP4_fold: "4 \<le> length p \<Longrightarrow> STEP4 p l = fold STEP1 (take 4 p) l"
  using fold_STEP1_of_le [of "take 4 p" l]
  by (simp add: STEP4_eq DecodeFixed32_def kLittleEndian_def)

section \<open>The checksum function\<close>

lemma fold_take_drop: "fold f (drop n p) (fold f (take n p) l) = fold f p l"
  by (metis append_take_drop_id fold_append o_apply)

lemma extend4_fold: "extend4 p l = (q, r) \<Longrightarrow> fold STEP1 q r = fold STEP1 p l"
proof (induction p l arbitrary: q r rule: extend4.induct)
  case (1 p l)
  then show ?case
    by (cases "4 \<le> length p") (simp_all add: extend4.simps [of p] STEP4_fold fold_take_drop)
qed

lemma step16: "16 \<le> length p \<Longrightarrow>
    STEP4 (drop 12 p) (STEP4 (drop 8 p) (STEP4 (drop 4 p) (STEP4 p l))) = fold STEP1 (take 16 p) l"
proof -
  assume l: "16 \<le> length p"
  have "take 16 p = take 4 p @ take 4 (drop 4 p) @ take 4 (drop 8 p) @ take 4 (drop 12 p)"
    using take_add [of 4 12 p] take_add [of 4 8 "drop 4 p"] take_add [of 4 4 "drop 8 p"] by simp
  then show ?thesis using l by (simp add: STEP4_fold)
qed

lemma extend16_fold: "extend16 p l = (q, r) \<Longrightarrow> fold STEP1 q r = fold STEP1 p l"
proof (induction p l arbitrary: q r rule: extend16.induct)
  case (1 p l)
  then show ?case
    by (cases "16 \<le> length p") (simp_all add: extend16.simps [of p] step16 fold_take_drop)
qed

lemma not_ffffffff: "l XOR 0xffffffff = NOT l" for l :: u32
proof -
  have m: "(0xffffffff :: u32) = - 1" by simp
  show ?thesis unfolding m by (rule bit_word_eqI) (simp add: bit_xor_iff bit_not_iff)
qed

lemma Extend_fold: "Extend pval crc buf = NOT (fold STEP1 buf (NOT crc))"
proof -
  show ?thesis
    by (auto simp: Extend_def Let_def not_ffffffff fold_take_drop split: prod.split dest!: extend4_fold extend16_fold)
qed

lemma Extend_spec: "Extend pval crc buf = crc_spec crc buf"
  by (simp add: Extend_fold crc_spec_def STEP1_eq [abs_def] crc_byte_def)

lemma crc_spec_append: "crc_spec (crc_spec crc a) b = crc_spec crc (a @ b)"
  by (simp add: crc_spec_def)

lemma crc_Unmask_Mask [simp]: "crc_Unmask (crc_Mask crc) = crc"
proof -
  have "bit crc n \<Longrightarrow> \<not> bit crc (15 + (n - 15)) \<Longrightarrow> n < 15" for n
    by (cases "15 \<le> n") simp_all
  note bits = this
  have "drop_bit 17 (drop_bit 15 crc OR push_bit 17 crc) OR push_bit 15 (drop_bit 15 crc OR push_bit 17 crc) = crc"
    by (rule bit_word_eqI) (auto simp: bit_or_iff bit_drop_bit_eq bit_push_bit_iff dest: bit_imp_le_length bits)
  then show ?thesis by (simp add: crc_Unmask_def crc_Mask_def Let_def)
qed

section \<open>Properties\<close>

text \<open>C13: the optimised checksum is the reference: whatever the address of the buffer, \<open>Extend\<close> with
  its tables, its alignment prologue and its two unrolled loops computes the bitwise
  Castagnoli checksum, it can be continued over a concatenation, and masking is undone by
  unmasking.\<close>

theorem crc_is_bitwise:
  "Extend pval crc buf = crc_spec crc buf \<and>
   Extend pval' (Extend pval crc a) b = Extend pval crc (a @ b) \<and>
   crc_Unmask (crc_Mask crc) = crc"
  by (simp add: Extend_spec crc_spec_append)

end
