(* ===== verification/Ldb_Filter.thy ===== *)
theory Ldb_Filter
  imports Ldb_Base
begin

text \<open>
  The filters of a table: \<open>util/hash.cc\<close>, the Bloom filter of \<open>util/bloom.cc\<close>, and the filter
  block of \<open>table/filter_block.cc\<close> with its builder and its reader.  A \<open>FilterPolicy\<close>
  (\<open>include/leveldb/filter_policy.h\<close>) is the record of its two operations.
\<close>

section \<open>Hashing\<close>

definition hash_m :: u32 where "hash_m = 0xc6a4a793"

function hash_words :: "byte list \<Rightarrow> u32 \<Rightarrow> byte list \<times> u32" where
  "hash_words data h =
     (if 4 \<le> length data then
        let h1 = (h + DecodeFixed32 data) * hash_m in hash_words (drop 4 data) (h1 XOR drop_bit 16 h1)
      else (data, h))"
  by pat_completeness auto
termination by (relation "measure (length \<circ> fst)") auto

declare hash_words.simps [simp del]

text \<open>The \<open>switch\<close> over the remaining bytes, with its cases falling through.\<close>

definition hash_tail :: "byte list \<Rightarrow> u32 \<Rightarrow> u32" where
  "hash_tail data h =
     (let n = length data;
          h3 = (if n = 3 then h + push_bit 16 (ucast (byte_at data 2)) else h);
          h2 = (if n = 3 \<or> n = 2 then h3 + push_bit 8 (ucast (byte_at data 1)) else h3)
      in if n = 3 \<or> n = 2 \<or> n = 1 then
           let h1 = (h2 + ucast (byte_at data 0)) * hash_m in h1 XOR drop_bit 24 h1
         else h2)"

text \<open>\<open>n * m\<close> is a product of \<open>size_t\<close>.\<close>

definition Hash :: "byte list \<Rightarrow> u32 \<Rightarrow> u32" where
  "Hash data seed =
     (case hash_words data (ucast (ucast seed XOR (word_of_nat (length data) * ucast hash_m) :: u64)) of
        (rest, h) \<Rightarrow> hash_tail rest h)"

section \<open>The Bloom filter\<close>

record filter_policy =
  CreateFilter :: "slice list \<Rightarrow> byte list \<Rightarrow> byte list"
  KeyMayMatch :: "slice \<Rightarrow> slice \<Rightarrow> bool"

definition BloomHash :: "slice \<Rightarrow> u32" where
  "BloomHash key = Hash key 0xbc9f1d34"

text \<open>\<open>bits_per_key * 0.69\<close>, rounded towards zero, between 1 and 30; up to the cut the product
  is not close enough to a whole number for the rounding of floating point to matter.\<close>

definition bloom_k :: "nat \<Rightarrow> nat" where
  "bloom_k bits_per_key =
     (let k = bits_per_key * 69 div 100; k1 = (if k < 1 then 1 else k) in if 30 < k1 then 30 else k1)"

definition bloom_delta :: "u32 \<Rightarrow> u32" where
  "bloom_delta h = drop_bit 17 h OR push_bit 15 h"

fun bloom_set :: "nat \<Rightarrow> nat \<Rightarrow> u32 \<Rightarrow> u32 \<Rightarrow> byte list \<Rightarrow> byte list" where
  "bloom_set 0 bits delta h array = array"
| "bloom_set (Suc j) bits delta h array =
     (let bitpos = unat h mod bits in
      bloom_set j bits delta (h + delta)
        (array[bitpos div 8 := array ! (bitpos div 8) OR push_bit (bitpos mod 8) 1]))"

fun bloom_test :: "nat \<Rightarrow> nat \<Rightarrow> u32 \<Rightarrow> u32 \<Rightarrow> byte list \<Rightarrow> bool" where
  "bloom_test 0 bits delta h array = True"
| "bloom_test (Suc j) bits delta h array =
     (let bitpos = unat h mod bits in
      if array ! (bitpos div 8) AND push_bit (bitpos mod 8) 1 = 0 then False
      else bloom_test j bits delta (h + delta) array)"

text \<open>The size of the filter in bytes; \<open>size_t\<close> products and sums wrap.\<close>

definition bloom_bytes :: "nat \<Rightarrow> nat \<Rightarrow> nat" where
  "bloom_bytes bits_per_key n =
     (let bits = n * bits_per_key mod 2 ^ 64; bits1 = (if bits < 64 then 64 else bits)
      in size_add bits1 7 div 8)"

definition bloom_add :: "nat \<Rightarrow> nat \<Rightarrow> slice \<Rightarrow> byte list \<Rightarrow> byte list" where
  "bloom_add k bits key array = (let h = BloomHash key in bloom_set k bits (bloom_delta h) h array)"

definition bloom_CreateFilter :: "nat \<Rightarrow> slice list \<Rightarrow> byte list \<Rightarrow> byte list" where
  "bloom_CreateFilter bits_per_key keys dst =
     (let bytes = bloom_bytes bits_per_key (length keys); bits = bytes * 8; k = bloom_k bits_per_key
      in dst @ fold (bloom_add k bits) keys (replicate bytes 0) @ [word_of_nat k])"

text \<open>\<open>const size_t k = array[len-1]\<close> extends the sign of the \<open>char\<close>.\<close>

definition bloom_KeyMayMatch :: "slice \<Rightarrow> slice \<Rightarrow> bool" where
  "bloom_KeyMayMatch key bloom_filter =
     (let len = length bloom_filter in
      if len < 2 then False
      else
        let bits = (len - 1) * 8; k = unat (scast (bloom_filter ! (len - 1)) :: u64) in
        if 30 < k then True
        else let h = BloomHash key in bloom_test k bits (bloom_delta h) h bloom_filter)"

definition NewBloomFilterPolicy :: "nat \<Rightarrow> filter_policy" where
  "NewBloomFilterPolicy bits_per_key =
     \<lparr>CreateFilter = bloom_CreateFilter bits_per_key, KeyMayMatch = bloom_KeyMayMatch\<rparr>"

section \<open>The filter block\<close>

definition kFilterBaseLg :: nat where "kFilterBaseLg = 11"
definition kFilterBase :: nat where "kFilterBase = 2 ^ kFilterBaseLg"

record filter_builder =
  fb_keys :: "byte list"
  fb_start :: "nat list"
  fb_result :: "byte list"
  filter_offsets :: "u32 list"

definition FilterBlockBuilder :: filter_builder where
  "FilterBlockBuilder = \<lparr>fb_keys = [], fb_start = [], fb_result = [], filter_offsets = []\<rparr>"

text \<open>\<open>tmp_keys_\<close>: the keys cut out of the flattened ones at the start positions.\<close>

fun cut_keys :: "byte list \<Rightarrow> nat list \<Rightarrow> slice list" where
  "cut_keys keys (a # b # start) = take (b - a) (drop a keys) # cut_keys keys (b # start)"
| "cut_keys keys _ = []"

definition GenerateFilter :: "filter_policy \<Rightarrow> filter_builder \<Rightarrow> filter_builder" where
  "GenerateFilter policy b =
     (if fb_start b = [] then b\<lparr>filter_offsets := filter_offsets b @ [word_of_nat (length (fb_result b))]\<rparr>
      else
        let start = fb_start b @ [length (fb_keys b)]; tmp_keys = cut_keys (fb_keys b) start
        in b\<lparr>filter_offsets := filter_offsets b @ [word_of_nat (length (fb_result b))],
             fb_result := CreateFilter policy tmp_keys (fb_result b),
             fb_keys := [], fb_start := []\<rparr>)"

lemma length_filter_offsets [simp]:
  "length (filter_offsets (GenerateFilter policy b)) = Suc (length (filter_offsets b))"
  by (simp add: GenerateFilter_def Let_def)

function start_loop :: "filter_policy \<Rightarrow> nat \<Rightarrow> filter_builder \<Rightarrow> filter_builder" where
  "start_loop policy filter_index b =
     (if length (filter_offsets b) < filter_index then start_loop policy filter_index (GenerateFilter policy b)
      else b)"
  by pat_completeness auto
termination by (relation "measure (\<lambda>(p, i, b). i - length (filter_offsets b))") auto

declare start_loop.simps [simp del]

definition StartBlock :: "filter_policy \<Rightarrow> u64 \<Rightarrow> filter_builder \<Rightarrow> filter_builder" where
  "StartBlock policy block_offset b = start_loop policy (unat block_offset div kFilterBase) b"

definition AddKey :: "slice \<Rightarrow> filter_builder \<Rightarrow> filter_builder" where
  "AddKey key b = b\<lparr>fb_start := fb_start b @ [length (fb_keys b)], fb_keys := fb_keys b @ key\<rparr>"

definition filter_Finish :: "filter_policy \<Rightarrow> filter_builder \<Rightarrow> slice" where
  "filter_Finish policy b =
     (let b1 = (if fb_start b \<noteq> [] then GenerateFilter policy b else b);
          array_offset = word_of_nat (length (fb_result b1)) :: u32
      in PutFixed32 (foldl PutFixed32 (fb_result b1) (filter_offsets b1)) array_offset @
         [word_of_nat kFilterBaseLg])"

text \<open>The reader keeps the contents, the position of the offset array, the number of filters and
  the encoding parameter; \<open>fr_num = 0\<close> is the state of a block it could not read.\<close>

record filter_reader =
  fr_data :: slice
  fr_offset :: nat
  fr_num :: nat
  base_lg :: nat

definition FilterBlockReader :: "slice \<Rightarrow> filter_reader" where
  "FilterBlockReader contents =
     (let n = length contents in
      if n < 5 then \<lparr>fr_data = [], fr_offset = 0, fr_num = 0, base_lg = 0\<rparr>
      else
        let lg = unat (scast (contents ! (n - 1)) :: u64);
            last_word = unat (DecodeFixed32 (drop (n - 5) contents))
        in if n - 5 < last_word then \<lparr>fr_data = [], fr_offset = 0, fr_num = 0, base_lg = lg\<rparr>
           else \<lparr>fr_data = contents, fr_offset = last_word, fr_num = (n - 5 - last_word) div 4, base_lg = lg\<rparr>)"

definition filter_KeyMayMatch :: "filter_policy \<Rightarrow> filter_reader \<Rightarrow> u64 \<Rightarrow> slice \<Rightarrow> bool" where
  "filter_KeyMayMatch policy r block_offset key =
     (let index = unat (drop_bit (base_lg r) block_offset) in
      if index < fr_num r then
        let start = unat (DecodeFixed32 (drop (fr_offset r + index * 4) (fr_data r)));
            limit = unat (DecodeFixed32 (drop (fr_offset r + index * 4 + 4) (fr_data r)))
        in if start \<le> limit \<and> limit \<le> fr_offset r
           then KeyMayMatch policy key (take (limit - start) (drop start (fr_data r)))
           else if start = limit then False else True
      else True)"

end
