(* ===== verification/Ldb_Filter_Props.thy ===== *)
theory Ldb_Filter_Props
  imports Ldb_Filter
begin

text \<open>
  Filters have no false negatives: first the Bloom filter, then, for every policy with that
  contract, the filter block of a table as its builder lays it out and its reader finds it.
\<close>

section \<open>The Bloom filter\<close>

definition bit_at :: "byte list \<Rightarrow> nat \<Rightarrow> bool" where
  "bit_at array p \<longleftrightarrow> bit (array ! (p div 8)) (p mod 8)"

lemma bit_byte_exp: "bit (2 ^ k :: byte) n \<longleftrightarrow> n = k \<and> k < 8"
  by (simp only: push_bit_of_1 [symmetric] bit_push_bit_iff bit_1_iff) auto

lemma bit_probe: "b AND 2 ^ k = 0 \<longleftrightarrow> \<not> (k < 8 \<and> bit b k)" for b :: byte
proof -
  have "b AND 2 ^ k = 0 \<longleftrightarrow> (\<forall>n<8. \<not> (bit b n \<and> bit (2 ^ k :: byte) n))"
    by (simp only: bit_eq_iff) (auto simp: bit_and_iff dest: bit_imp_le_length)
  then show ?thesis by (auto simp: bit_byte_exp)
qed

lemma bloom_test_iff: "bloom_test j bits delta h array \<longleftrightarrow> (\<forall>i<j. bit_at array (unat (h + of_nat i * delta) mod bits))"
proof (induction j arbitrary: h)
  case (Suc j)
  have "bloom_test (Suc j) bits delta h array \<longleftrightarrow>
      bit_at array (unat h mod bits) \<and> (\<forall>i<j. bit_at array (unat (h + of_nat (Suc i) * delta) mod bits))"
    using Suc [of "h + delta"] by (auto simp: Let_def bit_probe bit_at_def algebra_simps)
  also have "\<dots> \<longleftrightarrow> (\<forall>i<Suc j. bit_at array (unat (h + of_nat i * delta) mod bits))"
    by (subst All_less_Suc2) simp
  finally show ?case .
qed simp

lemma length_bloom_set [simp]: "length (bloom_set j bits delta h array) = length array"
  by (induction j arbitrary: h array) (simp_all add: Let_def)

lemma bit_at_set:
  "p < 8 * length array \<Longrightarrow> bit_at (array[p div 8 := array ! (p div 8) OR 2 ^ (p mod 8)]) q \<longleftrightarrow> bit_at array q \<or> q = p"
proof -
  assume p: "p < 8 * length array"
  then have "p div 8 < length array" by auto
  moreover have "q = p \<longleftrightarrow> q div 8 = p div 8 \<and> q mod 8 = p mod 8"
    by (metis div_mult_mod_eq)
  ultimately show ?thesis
    by (auto simp: bit_at_def nth_list_update bit_or_iff bit_byte_exp)
qed

text \<open>Setting bits keeps the bits that are set, and sets the probed ones.\<close>

lemma bloom_set_mono:
  "0 < bits \<Longrightarrow> bits \<le> 8 * length array \<Longrightarrow> bit_at array q \<Longrightarrow> bit_at (bloom_set j bits delta h array) q"
proof (induction j arbitrary: h array)
  case (Suc j)
  have "unat h mod bits < 8 * length array" using Suc.prems by (metis mod_less_divisor order_less_le_trans)
  then show ?case using Suc by (simp add: Let_def bit_at_set)
qed simp

lemma bloom_test_set:
  "0 < bits \<Longrightarrow> bits \<le> 8 * length array \<Longrightarrow> bloom_test j bits delta h (bloom_set j bits delta h array)"
proof (induction j arbitrary: h array)
  case (Suc j)
  let ?p = "unat h mod bits"
  let ?a = "array[?p div 8 := array ! (?p div 8) OR 2 ^ (?p mod 8)]"
  have p: "?p < 8 * length array" using Suc.prems by (metis mod_less_divisor order_less_le_trans)
  have "bit_at (bloom_set j bits delta (h + delta) ?a) ?p"
    by (rule bloom_set_mono) (use Suc.prems p in \<open>simp_all add: bit_at_set\<close>)
  then show ?case using Suc by (simp add: Let_def bit_probe bit_at_def)
qed simp

lemma length_bloom_add [simp]: "length (bloom_add k bits key array) = length array"
  by (simp add: bloom_add_def Let_def)

lemma length_fold_bloom [simp]: "length (fold (bloom_add k bits) keys array) = length array"
  by (induction keys arbitrary: array) simp_all

lemma bloom_test_bits:
  "(\<And>q. bit_at array q \<Longrightarrow> bit_at array' q) \<Longrightarrow> bloom_test k bits delta h array \<Longrightarrow> bloom_test k bits delta h array'"
  by (simp add: bloom_test_iff)

lemma bloom_fold_mono:
  "0 < bits \<Longrightarrow> bits \<le> 8 * length array \<Longrightarrow> bit_at array q \<Longrightarrow> bit_at (fold (bloom_add k bits) keys array) q"
  by (induction keys arbitrary: array) (simp_all add: bloom_add_def Let_def bloom_set_mono)

lemma bloom_fold_test:
  assumes "0 < bits" "bits \<le> 8 * length array" "key \<in> set keys"
  shows "bloom_test k bits (bloom_delta (BloomHash key)) (BloomHash key) (fold (bloom_add k bits) keys array)"
  using assms(2,3)
proof (induction keys arbitrary: array)
  case (Cons x keys)
  show ?case
  proof (cases "x = key")
    case True
    have "bloom_test k bits (bloom_delta (BloomHash key)) (BloomHash key) (bloom_add k bits key array)"
      unfolding bloom_add_def Let_def by (rule bloom_test_set) (use assms Cons in simp_all)
    then show ?thesis
      using True Cons.prems by (simp, elim bloom_test_bits [rotated]) (simp add: bloom_fold_mono assms)
  next
    case False
    then show ?thesis using Cons by simp
  qed
qed simp

lemma bloom_k_range: "1 \<le> bloom_k b" "bloom_k b \<le> 30"
  by (simp_all add: bloom_k_def Let_def)

lemma bloom_k_byte: "k \<le> 30 \<Longrightarrow> unat (scast (word_of_nat k :: byte) :: u64) = k"
proof -
  assume "k \<le> 30"
  moreover have "list_all (\<lambda>k. unat (scast (word_of_int (int k) :: byte) :: u64) = k) [0..<31]" by code_simp
  ultimately show ?thesis by (simp add: list_all_iff)
qed

lemma bloom_bytes_pos:
  assumes "n * b + 7 < 2 ^ 64"
  shows "8 \<le> bloom_bytes b n"
proof -
  have "n * b mod 2 ^ 64 = n * b" using assms by simp
  moreover have "8 \<le> (n * b + 7) div 8" if "64 \<le> n * b" using that by linarith
  ultimately show ?thesis using assms by (simp add: bloom_bytes_def Let_def size_add_def)
qed

lemma bloom_no_false_negative:
  assumes "length keys * b + 7 < 2 ^ 64" "key \<in> set keys"
  shows "bloom_KeyMayMatch key (bloom_CreateFilter b keys [])"
proof -
  let ?n = "bloom_bytes b (length keys)" and ?k = "bloom_k b" and ?h = "BloomHash key"
  let ?a = "fold (bloom_add ?k (?n * 8)) keys (replicate ?n 0)"
  have n: "8 \<le> ?n" by (rule bloom_bytes_pos [OF assms(1)])
  have f: "bloom_CreateFilter b keys [] = ?a @ [word_of_nat ?k]"
    by (simp add: bloom_CreateFilter_def Let_def)
  have "bloom_test ?k (?n * 8) (bloom_delta ?h) ?h ?a"
    by (rule bloom_fold_test) (use n assms in simp_all)
  moreover have "(unat x mod (?n * 8)) div 8 < ?n" for x :: u32
    using n by (simp add: div_less_iff_less_mult)
  ultimately have "bloom_test ?k (?n * 8) (bloom_delta ?h) ?h (?a @ [word_of_nat ?k])"
    by (simp add: bloom_test_iff bit_at_def nth_append)
  moreover have "?a \<noteq> []" using n by (metis length_0_conv length_fold_bloom length_replicate not_numeral_le_zero)
  ultimately show ?thesis
    using n by (simp add: bloom_KeyMayMatch_def f Let_def bloom_k_byte bloom_k_range nth_append)
qed

section \<open>The contract of a filter policy\<close>

text \<open>Building a filter block: the data blocks in the order of their offsets, each with its keys.\<close>

definition add_block :: "filter_policy \<Rightarrow> u64 \<times> slice list \<Rightarrow> filter_builder \<Rightarrow> filter_builder" where
  "add_block policy blk b = fold AddKey (snd blk) (StartBlock policy (fst blk) b)"

definition build_filters :: "filter_policy \<Rightarrow> (u64 \<times> slice list) list \<Rightarrow> filter_builder" where
  "build_filters policy blocks = fold (add_block policy) blocks FilterBlockBuilder"

definition filter_index :: "u64 \<times> slice list \<Rightarrow> nat" where
  "filter_index blk = unat (fst blk) div 2048"

locale filter_contract =
  fixes policy :: filter_policy and bound :: nat
  assumes appends: "CreateFilter policy keys dst = dst @ CreateFilter policy keys []"
    and no_false_negative: "length keys \<le> bound \<Longrightarrow> key \<in> set keys \<Longrightarrow>
      KeyMayMatch policy key (CreateFilter policy keys [])"
begin

definition filt :: "slice list \<Rightarrow> byte list" where
  "filt keys = (if keys = [] then [] else CreateFilter policy keys [])"

text \<open>A state of the builder stands for the groups of keys whose filters were generated and the
  keys of the current group.\<close>

definition pos :: "byte list list \<Rightarrow> nat \<Rightarrow> nat" where
  "pos xs i = length (concat (take i xs))"

definition holds_keys :: "filter_builder \<Rightarrow> slice list list \<Rightarrow> slice list \<Rightarrow> bool" where
  "holds_keys b groups pending \<longleftrightarrow>
     fb_result b = concat (map filt groups) \<and>
     filter_offsets b = map (\<lambda>i. word_of_nat (pos (map filt groups) i)) [0..<length groups] \<and>
     fb_keys b = concat pending \<and> fb_start b = map (pos pending) [0..<length pending]"

lemma cut_keys_pos:
  "cut_keys (pre @ concat p) (map (\<lambda>i. length pre + pos p i) [0..<Suc (length p)]) = p"
proof (induction p arbitrary: pre)
  case (Cons k p)
  have u: "[0..<Suc (length (k # p))] = 0 # map Suc [0..<Suc (length p)]"
    by (simp add: map_Suc_upt upt_conv_Cons del: upt_Suc)
  have s: "map (\<lambda>i. length pre + pos (k # p) i) (map Suc [0..<Suc (length p)]) =
      map (\<lambda>i. length (pre @ k) + pos p i) [0..<Suc (length p)]"
    by (simp add: pos_def add.assoc)
  have h: "map (\<lambda>i. length (pre @ k) + pos p i) [0..<Suc (length p)] = length (pre @ k) # tl (map (\<lambda>i. length (pre @ k) + pos p i) [0..<Suc (length p)])"
    by (simp add: upt_conv_Cons pos_def del: upt_Suc)
  have "cut_keys (pre @ concat (k # p)) (map (\<lambda>i. length pre + pos (k # p) i) [0..<Suc (length (k # p))]) =
      k # cut_keys ((pre @ k) @ concat p) (map (\<lambda>i. length (pre @ k) + pos p i) [0..<Suc (length p)])"
    unfolding u list.map(2) s by (subst (1 2) h) (simp add: pos_def)
  then show ?case unfolding Cons.IH .
qed (simp add: pos_def)

lemma map_upt_snoc: "map f [0..<n] @ [f n] = map f [0..<Suc n]"
  by simp

lemma pos_append: "i \<le> length xs \<Longrightarrow> pos (xs @ ys) i = pos xs i"
  by (simp add: pos_def)

lemma generate_holds:
  assumes "holds_keys b groups pending"
  shows "holds_keys (GenerateFilter policy b) (groups @ [pending]) []"
proof -
  have off: "map (\<lambda>i. word_of_nat (pos (map filt groups) i)) [0..<length groups] @ [word_of_nat (length (concat (map filt groups)))] =
      (map (\<lambda>i. word_of_nat (pos (map filt (groups @ [pending])) i)) [0..<length (groups @ [pending])] :: u32 list)"
    by (simp add: pos_append) (simp add: pos_def)
  have "map (pos pending) [0..<length pending] @ [length (concat pending)] = map (\<lambda>i. length [] + pos pending i) [0..<Suc (length pending)]"
    by (simp add: pos_def)
  then have cut: "cut_keys (concat pending) (map (pos pending) [0..<length pending] @ [length (concat pending)]) = pending"
    using cut_keys_pos [of "[]" pending] by (simp del: upt_Suc)
  show ?thesis
    using assms off cut
    by (auto simp: holds_keys_def GenerateFilter_def Let_def filt_def appends [of pending "concat _"])
qed

lemma add_holds: "holds_keys b groups pending \<Longrightarrow> holds_keys (AddKey k b) groups (pending @ [k])"
  by (auto simp: holds_keys_def AddKey_def pos_append) (simp_all add: pos_def)

lemma adds_hold: "holds_keys b groups pending \<Longrightarrow> holds_keys (fold AddKey ks b) groups (pending @ ks)"
proof (induction ks arbitrary: b pending)
  case (Cons k ks)
  from Cons.IH [OF add_holds [OF Cons.prems, of k]] show ?case by simp
qed simp

lemma start_holds:
  "holds_keys b groups pending \<Longrightarrow> holds_keys (start_loop policy i b)
     (if length groups < i then groups @ pending # replicate (i - Suc (length groups)) [] else groups)
     (if length groups < i then [] else pending)"
proof (induction "i - length groups" arbitrary: b groups pending)
  case 0
  then show ?case by (simp add: start_loop.simps [of policy] holds_keys_def)
next
  case (Suc n)
  have l: "length (filter_offsets b) = length groups" using Suc.prems by (simp add: holds_keys_def)
  have "n = i - length (groups @ [pending])" using Suc.hyps(2) by simp
  from Suc.hyps(1) [OF this generate_holds [OF Suc.prems]]
  have "holds_keys (start_loop policy i (GenerateFilter policy b))
      (groups @ pending # replicate (i - Suc (length groups)) []) []"
    using Suc.hyps(2) by (auto simp: Suc_diff_Suc [symmetric] split: if_splits)
  moreover have "length groups < i" using Suc.hyps(2) by linarith
  ultimately show ?case using l by (simp add: start_loop.simps [of policy i b])
qed

text \<open>The reader of the finished block.\<close>

lemma decode_words:
  "j < length ws \<Longrightarrow> DecodeFixed32 (drop (4 * j) (concat (map EncodeFixed32 ws) @ rest)) = ws ! j"
proof (induction ws arbitrary: j)
  case (Cons w ws)
  show ?case
  proof (cases j)
    case (Suc j')
    then show ?thesis using Cons by simp
  qed simp
qed simp

lemma length_words: "length (concat (map EncodeFixed32 ws)) = 4 * length ws"
  by (induction ws) simp_all

lemma group_slice:
  assumes "i < length groups"
  shows "take (pos (map filt groups) (Suc i) - pos (map filt groups) i)
      (drop (pos (map filt groups) i) (concat (map filt groups) @ rest)) = filt (groups ! i)"
proof -
  let ?fs = "map filt groups"
  have "?fs = take i ?fs @ ?fs ! i # drop (Suc i) ?fs"
    by (rule id_take_nth_drop) (simp add: assms)
  then have c: "concat ?fs = concat (take i ?fs) @ ?fs ! i @ concat (drop (Suc i) ?fs)"
    by (metis concat.simps(2) concat_append)
  have "concat (take (Suc i) ?fs) = concat (take i ?fs) @ ?fs ! i"
    using assms by (simp add: take_Suc_conv_app_nth)
  with c assms show ?thesis by (simp add: pos_def)
qed

lemma reader_finds:
  assumes "holds_keys b groups pending" "length (filter_Finish policy b) < 2 ^ 32"
    "i = unat block_offset div 2048"
    "i < length groups \<and> k \<in> set (groups ! i) \<or> i = length groups \<and> k \<in> set pending"
    "\<And>g. g \<in> set (groups @ [pending]) \<Longrightarrow> length g \<le> bound"
  shows "filter_KeyMayMatch policy (FilterBlockReader (filter_Finish policy b)) block_offset k"
proof -
  define gs where "gs = (if pending = [] then groups else groups @ [pending])"
  let ?fs = "map filt gs" and ?c = "filter_Finish policy b"
  define ws where "ws = map (\<lambda>i. word_of_nat (pos ?fs i) :: u32) [0..<Suc (length gs)]"
  define b1 where "b1 = (if fb_start b \<noteq> [] then GenerateFilter policy b else b)"
  have "fb_start b = [] \<longleftrightarrow> pending = []" using assms(1) by (simp add: holds_keys_def)
  then have "\<exists>p. holds_keys b1 gs p"
    using assms(1) generate_holds [OF assms(1)] by (auto simp: b1_def gs_def)
  then have r: "fb_result b1 = concat ?fs"
    "filter_offsets b1 = map (\<lambda>i. word_of_nat (pos ?fs i)) [0..<length gs]"
    by (auto simp: holds_keys_def)
  have lg: "(word_of_nat kFilterBaseLg :: byte) = 11" by (simp add: kFilterBaseLg_def)
  have ws': "ws = map (\<lambda>i. word_of_nat (pos ?fs i)) [0..<length gs] @ [word_of_nat (length (concat ?fs))]"
    by (simp add: ws_def pos_def)
  have c: "?c = concat ?fs @ concat (map EncodeFixed32 ws) @ [11]"
    by (simp add: filter_Finish_def b1_def [symmetric] r foldl_PutFixed32 PutFixed32_def ws' lg)
  have len: "length ws = Suc (length gs)" by (simp add: ws_def)
  have lc: "length ?c = length (concat ?fs) + 4 * length gs + 5"
    by (simp only: c length_append length_words len) simp
  then have small: "length (concat ?fs) < 2 ^ 32" using assms(2) by linarith
  have pos_le: "pos ?fs j \<le> length (concat ?fs)" for j
    by (metis append_take_drop_id concat_append le_add1 length_append pos_def)
  have w: "unat (DecodeFixed32 (drop (length (concat ?fs) + 4 * j) ?c)) = pos ?fs j" if "j \<le> length gs" for j
  proof -
    have "DecodeFixed32 (drop (length (concat ?fs) + 4 * j) ?c) = ws ! j"
      using decode_words [of j ws "[11]"] that len unfolding c by simp
    also have "\<dots> = word_of_nat (pos ?fs j)" using that by (simp add: ws_def nth_map del: upt_Suc)
    finally show ?thesis using pos_le [of j] small by (simp add: unat_of_nat)
  qed
  have n5: "length ?c - 5 = length (concat ?fs) + 4 * length gs" using lc by simp
  have last: "unat (DecodeFixed32 (drop (length ?c - 5) ?c)) = length (concat ?fs)"
    unfolding n5 using w [of "length gs"] by (simp add: pos_def)
  have byte: "?c ! (length ?c - 1) = 11" unfolding c by (metis append_assoc last_conv_nth last_snoc snoc_eq_iff_butlast)
  have sc: "unat (scast (11 :: byte) :: u64) = 11" by simp
  have reader: "FilterBlockReader ?c = \<lparr>fr_data = ?c, fr_offset = length (concat ?fs), fr_num = length gs, base_lg = 11\<rparr>"
  proof -
    have "\<not> length ?c < 5" "\<not> length (concat ?fs) + 4 * length gs < length (concat ?fs)" using lc by simp_all
    then show ?thesis unfolding FilterBlockReader_def Let_def last byte sc by (simp add: n5)
  qed
  have i: "i < length gs" "k \<in> set (gs ! i)"
    using assms(4) by (auto simp: gs_def nth_append split: if_splits)
  have idx: "unat (drop_bit 11 block_offset) = i" by (simp add: assms(3) unat_drop_bit)
  have le: "pos ?fs i \<le> pos ?fs (Suc i)" using i(1) by (simp add: pos_def take_Suc_conv_app_nth)
  have g: "gs ! i \<noteq> []" "length (gs ! i) \<le> bound"
    using i assms(5) [of "gs ! i"] by (auto simp: gs_def nth_append split: if_splits dest: nth_mem)
  have "KeyMayMatch policy k (filt (gs ! i))" using no_false_negative [OF g(2) i(2)] g(1) by (simp add: filt_def)
  then show ?thesis
    using w [of i] w [of "Suc i"] i(1) le pos_le [of "Suc i"] group_slice [OF i(1), of "concat (map EncodeFixed32 ws) @ [11]"]
    by (simp add: filter_KeyMayMatch_def reader idx Let_def algebra_simps) (simp add: c)
qed

text \<open>Where the keys of the blocks added so far are.\<close>

definition located :: "slice list list \<Rightarrow> slice list \<Rightarrow> nat \<Rightarrow> slice \<Rightarrow> bool" where
  "located groups pending i k \<longleftrightarrow>
     i < length groups \<and> k \<in> set (groups ! i) \<or> i = length groups \<and> k \<in> set pending"

lemma located_grow:
  "located groups pending i k \<Longrightarrow> located (groups @ pending # rest) p i k"
  by (auto simp: located_def nth_append)

lemma located_more: "located groups pending i k \<Longrightarrow> located groups (pending @ ks) i k"
  by (auto simp: located_def)

lemma located_new: "k \<in> set ks \<Longrightarrow> located groups (pending @ ks) (length groups) k"
  by (simp add: located_def)

definition placed :: "(u64 \<times> slice list) list \<Rightarrow> slice list list \<Rightarrow> slice list \<Rightarrow> bool" where
  "placed blocks groups pending \<longleftrightarrow>
     (\<forall>blk\<in>set blocks. \<forall>k\<in>set (snd blk). located groups pending (filter_index blk) k) \<and>
     (blocks \<noteq> [] \<longrightarrow> length groups = filter_index (last blocks)) \<and> (blocks = [] \<longrightarrow> groups = []) \<and>
     length (concat groups) + length pending = length (concat (map snd blocks))"

lemma build_holds:
  "sorted (map filter_index blocks) \<Longrightarrow>
   \<exists>groups pending. holds_keys (build_filters policy blocks) groups pending \<and> placed blocks groups pending"
proof (induction blocks rule: rev_induct)
  case Nil
  have "holds_keys FilterBlockBuilder [] []" by (simp add: holds_keys_def FilterBlockBuilder_def)
  then show ?case by (auto simp: build_filters_def placed_def)
next
  case (snoc blk blocks)
  obtain groups pending where h: "holds_keys (build_filters policy blocks) groups pending" and p: "placed blocks groups pending"
    using snoc by (auto simp: sorted_append)
  let ?i = "filter_index blk"
  let ?g = "if length groups < ?i then groups @ pending # replicate (?i - Suc (length groups)) [] else groups"
  let ?p = "(if length groups < ?i then [] else pending) @ snd blk"
  have le: "length groups \<le> ?i" using p snoc.prems
    by (cases blocks rule: rev_cases) (auto simp: placed_def sorted_append)
  have "build_filters policy (blocks @ [blk]) = fold AddKey (snd blk) (start_loop policy ?i (build_filters policy blocks))"
    by (simp add: build_filters_def add_block_def StartBlock_def filter_index_def kFilterBase_def kFilterBaseLg_def)
  then have "holds_keys (build_filters policy (blocks @ [blk])) ?g ?p"
    using adds_hold [OF start_holds [OF h]] by simp
  moreover have "placed (blocks @ [blk]) ?g ?p"
  proof (cases "length groups < ?i")
    case True
    let ?g' = "groups @ pending # replicate (?i - Suc (length groups)) []"
    have l: "length ?g' = ?i" "length (concat ?g') = length (concat groups) + length pending" using True by simp_all
    have "located ?g' ([] @ snd blk) (filter_index blk') k"
      if "blk' \<in> set (blocks @ [blk])" "k \<in> set (snd blk')" for blk' k
      using that p located_grow [of groups pending "filter_index blk'" k] located_new [of k "snd blk" ?g' "[]"] l(1)
      by (auto simp: placed_def)
    with p True l show ?thesis by (simp add: placed_def)
  next
    case False
    then have l: "length groups = ?i" using le by simp
    have "located groups (pending @ snd blk) (filter_index blk') k"
      if "blk' \<in> set (blocks @ [blk])" "k \<in> set (snd blk')" for blk' k
      using that p located_more [of groups pending "filter_index blk'" k] located_new [of k "snd blk" groups pending] l
      by (auto simp: placed_def)
    with p False l show ?thesis by (simp add: placed_def)
  qed
  ultimately show ?case by blast
qed

lemma block_no_false_negative:
  assumes "sorted (map filter_index blocks)" "length (concat (map snd blocks)) \<le> bound"
    "length (filter_Finish policy (build_filters policy blocks)) < 2 ^ 32" "(offset, keys) \<in> set blocks" "k \<in> set keys"
  shows "filter_KeyMayMatch policy (FilterBlockReader (filter_Finish policy (build_filters policy blocks))) offset k"
proof -
  obtain groups pending where h: "holds_keys (build_filters policy blocks) groups pending" and p: "placed blocks groups pending"
    using build_holds [OF assms(1)] by blast
  have "length g \<le> length (concat groups)" if "g \<in> set groups" for g
    using split_list [OF that] by auto
  moreover have "length (concat groups) + length pending \<le> bound" using p assms(2) by (simp add: placed_def)
  ultimately have b: "length g \<le> bound" if "g \<in> set (groups @ [pending])" for g
    using that by fastforce
  have "located groups pending (unat offset div 2048) k"
    using p assms(4,5) by (fastforce simp: placed_def filter_index_def)
  then show ?thesis
    unfolding located_def by (rule reader_finds [OF h assms(3) refl _ b])
qed

end

text \<open>The Bloom filter keeps the contract for as many keys as the size computation has room for.\<close>

definition bloom_bound :: "nat \<Rightarrow> nat" where
  "bloom_bound bits_per_key = (2 ^ 64 - 8) div bits_per_key"

interpretation bloom: filter_contract "NewBloomFilterPolicy b" "bloom_bound b"
proof
  show "CreateFilter (NewBloomFilterPolicy b) keys dst = dst @ CreateFilter (NewBloomFilterPolicy b) keys []" for keys dst
    by (simp add: NewBloomFilterPolicy_def bloom_CreateFilter_def Let_def)
  fix keys :: "slice list" and key
  assume "length keys \<le> bloom_bound b" and k: "key \<in> set keys"
  then have "length keys * b \<le> (2 ^ 64 - 8) div b * b" by (simp add: bloom_bound_def)
  also have "\<dots> \<le> 2 ^ 64 - 8" by (rule div_times_less_eq_dividend)
  finally have "length keys * b + 7 < 2 ^ 64" by simp
  then show "KeyMayMatch (NewBloomFilterPolicy b) key (CreateFilter (NewBloomFilterPolicy b) keys [])"
    using bloom_no_false_negative k by (simp add: NewBloomFilterPolicy_def)
qed

section \<open>Properties\<close>

text \<open>C23: the Bloom filter has no false negatives: every key a filter was created from matches it,
  for every number of bits per key and as many keys as the filter size can be computed for.\<close>

theorem bloom_filter_complete:
  assumes "length keys \<le> bloom_bound b" "key \<in> set keys"
  shows "KeyMayMatch (NewBloomFilterPolicy b) key (CreateFilter (NewBloomFilterPolicy b) keys [])"
  by (rule bloom.no_false_negative [OF assms])

theorem bloom_filter_complete_witness:
  "KeyMayMatch (NewBloomFilterPolicy 10) [104, 105] (CreateFilter (NewBloomFilterPolicy 10) [[97], [104, 105]] [])"
  by (rule bloom_filter_complete) (simp_all add: bloom_bound_def)

text \<open>C22: the filter block of a table has no false negatives: when the data blocks were announced in
  the order of their offsets and the finished block is below 4 GB, the reader of the finished
  block answers that a key may be in the data block it was added for.\<close>

theorem filter_block_complete:
  assumes "sorted (map filter_index blocks)" "length (concat (map snd blocks)) \<le> bloom_bound b"
    "length (filter_Finish (NewBloomFilterPolicy b) (build_filters (NewBloomFilterPolicy b) blocks)) < 2 ^ 32"
    "(offset, keys) \<in> set blocks" "k \<in> set keys"
  shows "filter_KeyMayMatch (NewBloomFilterPolicy b)
    (FilterBlockReader (filter_Finish (NewBloomFilterPolicy b) (build_filters (NewBloomFilterPolicy b) blocks))) offset k"
  by (rule bloom.block_no_false_negative [OF assms])

definition example_blocks :: "(u64 \<times> slice list) list" where
  "example_blocks = [(0, [[1], [2, 3]]), (100, [[4]]), (5000, [[5]])]"

theorem filter_block_complete_witness:
  "filter_KeyMayMatch (NewBloomFilterPolicy 4)
    (FilterBlockReader (filter_Finish (NewBloomFilterPolicy 4) (build_filters (NewBloomFilterPolicy 4) example_blocks))) 100 [4]"
proof (rule filter_block_complete)
  show "sorted (map filter_index example_blocks)" by (simp add: example_blocks_def filter_index_def)
  show "length (concat (map snd example_blocks)) \<le> bloom_bound 4" by (simp add: example_blocks_def bloom_bound_def)
  show "length (filter_Finish (NewBloomFilterPolicy 4) (build_filters (NewBloomFilterPolicy 4) example_blocks)) < 2 ^ 32"
    by (simp add: example_blocks_def build_filters_def add_block_def StartBlock_def start_loop.simps kFilterBase_def
        kFilterBaseLg_def FilterBlockBuilder_def AddKey_def GenerateFilter_def filter_Finish_def PutFixed32_def
        NewBloomFilterPolicy_def bloom_CreateFilter_def bloom_bytes_def size_add_def Let_def)
  show "(100, [[4]]) \<in> set example_blocks" by (simp add: example_blocks_def)
qed simp

end
