(* ===== verification/Ldb_Logging.thy ===== *)
theory Ldb_Logging
  imports Ldb_Base
begin

text \<open>
  Numbers and strings in text, \<open>util/logging.cc\<close>: decimal printing, escaping, and the parser of
  decimal numbers with its overflow check.  \<open>std::string\<close>s that hold text are strings here; a
  character is compared as its code, which for the ASCII ranges of the code is the same as the
  comparison of \<open>char\<close>s of either sign.
\<close>

text \<open>The bytes of a text.\<close>

definition text_bytes :: "string \<Rightarrow> slice" where "text_bytes str = map (\<lambda>c. of_char c) str"

section \<open>Printing\<close>

text \<open>The conversion \<open>%llu\<close>.\<close>

definition digit_char :: "nat \<Rightarrow> char" where "digit_char d = char_of (48 + d)"

fun decimal :: "nat \<Rightarrow> string" where
  "decimal n = (if n < 10 then [digit_char n] else decimal (n div 10) @ [digit_char (n mod 10)])"

declare decimal.simps [simp del]

definition AppendNumberTo :: "string \<Rightarrow> u64 \<Rightarrow> string" where
  "AppendNumberTo str num = str @ decimal (unat num)"

definition NumberToString :: "u64 \<Rightarrow> string" where "NumberToString num = AppendNumberTo [] num"

text \<open>The conversion \<open>%02x\<close> of a byte.\<close>

definition hex_char :: "nat \<Rightarrow> char" where
  "hex_char d = (if d < 10 then char_of (48 + d) else char_of (87 + d))"

definition escape_byte :: "byte \<Rightarrow> string" where
  "escape_byte c =
     (if 32 \<le> c \<and> c \<le> 126 then [char_of (unat c)]
      else [CHR 0x5C, CHR ''x'', hex_char (unat c div 16), hex_char (unat c mod 16)])"

definition AppendEscapedStringTo :: "string \<Rightarrow> slice \<Rightarrow> string" where
  "AppendEscapedStringTo str value = fold (\<lambda>c r. r @ escape_byte c) value str"

definition EscapeString :: "slice \<Rightarrow> string" where "EscapeString value = AppendEscapedStringTo [] value"

section \<open>Parsing\<close>

definition is_digit :: "char \<Rightarrow> bool" where
  "is_digit c \<longleftrightarrow> 48 \<le> (of_char c :: nat) \<and> (of_char c :: nat) \<le> 57"

definition digit_val :: "char \<Rightarrow> nat" where "digit_val c = of_char c - 48"

definition kMaxUint64 :: u64 where "kMaxUint64 = NOT 0"

text \<open>The loop: the rest of the input, and the number with the count of its digits unless it overflows.\<close>

fun consume_loop :: "u64 \<Rightarrow> nat \<Rightarrow> string \<Rightarrow> string \<times> (u64 \<times> nat) option" where
  "consume_loop v digits [] = ([], Some (v, digits))"
| "consume_loop v digits (c # str) =
     (if is_digit c then
        let delta = digit_val c in
        if kMaxUint64 div 10 < v \<or> v = kMaxUint64 div 10 \<and> unat (kMaxUint64 mod 10) < delta then (c # str, None)
        else consume_loop (v * 10 + word_of_nat delta) (digits + 1) str
      else (c # str, Some (v, digits)))"

text \<open>The rest of the input, and \<open>*val\<close> when the result is true.\<close>

definition ConsumeDecimalNumber :: "string \<Rightarrow> string \<times> u64 option" where
  "ConsumeDecimalNumber str = (case consume_loop 0 0 str of
     (rest, None) \<Rightarrow> (rest, None)
   | (rest, Some (v, digits)) \<Rightarrow> (rest, if 0 < digits then Some v else None))"

section \<open>What the parser accepts\<close>

definition digits_value :: "nat \<Rightarrow> string \<Rightarrow> nat" where
  "digits_value v ds = foldl (\<lambda>a c. a * 10 + digit_val c) v ds"

lemma digits_value_ge: "v \<le> digits_value v ds"
proof (induction ds arbitrary: v)
  case (Cons d ds)
  from Cons.IH [of "v * 10 + digit_val d"] show ?case by (simp add: digits_value_def)
qed (simp add: digits_value_def)

lemma digits_value_Cons: "digits_value v (c # ds) = digits_value (v * 10 + digit_val c) ds"
  by (simp add: digits_value_def)

lemma digit_val_le: "is_digit c \<Longrightarrow> digit_val c \<le> 9"
  by (auto simp: is_digit_def digit_val_def)

lemma overflow_check:
  assumes "d \<le> 9"
  shows "(kMaxUint64 div 10 < v \<or> v = kMaxUint64 div 10 \<and> unat (kMaxUint64 mod 10) < d) \<longleftrightarrow> 2 ^ 64 \<le> unat v * 10 + d"
proof -
  have k: "unat (kMaxUint64 div 10) = 1844674407370955161" "unat (kMaxUint64 mod 10) = 5"
    by (simp_all add: kMaxUint64_def)
  have e: "v = kMaxUint64 div 10 \<longleftrightarrow> unat v = 1844674407370955161" unfolding k(1) [symmetric] by (simp add: word_unat_eq_iff)
  show ?thesis unfolding e k word_less_nat_alt using assms by auto
qed

lemma consume_loop_spec:
  "snd (consume_loop v n str) =
     (if 2 ^ 64 \<le> digits_value (unat v) (takeWhile is_digit str) then None
      else Some (word_of_nat (digits_value (unat v) (takeWhile is_digit str)), n + length (takeWhile is_digit str))) \<and>
   (digits_value (unat v) (takeWhile is_digit str) < 2 ^ 64 \<longrightarrow> fst (consume_loop v n str) = dropWhile is_digit str)"
proof (induction v n str rule: consume_loop.induct)
  case (1 v n)
  have "unat v < 2 ^ 64" using unsigned_less [of v, where ?'a = nat] by simp
  then show ?case by (simp add: digits_value_def)
next
  case (2 v n c str)
  have v: "unat v < 2 ^ 64" using unsigned_less [of v, where ?'a = nat] by simp
  show ?case
  proof (cases "is_digit c")
    case False
    then show ?thesis using v by (simp add: digits_value_def)
  next
    case d: True
    note o = overflow_check [OF digit_val_le [OF d], of v]
    show ?thesis
    proof (cases "2 ^ 64 \<le> unat v * 10 + digit_val c")
      case True
      then have "2 ^ 64 \<le> digits_value (unat v) (c # takeWhile is_digit str)"
        unfolding digits_value_Cons by (rule order.trans [OF _ digits_value_ge])
      with True d o show ?thesis by (simp add: Let_def)
    next
      case False
      then have u: "unat (v * 10 + word_of_nat (digit_val c)) = unat v * 10 + digit_val c"
        using digit_val_le [OF d] by (simp add: unat_word_ariths unat_of_nat)
      from False o have o': "\<not> (kMaxUint64 div 10 < v \<or> v = kMaxUint64 div 10 \<and> unat (kMaxUint64 mod 10) < digit_val c)" by simp
      have "consume_loop v n (c # str) = consume_loop (v * 10 + word_of_nat (digit_val c)) (n + 1) str"
        using d o' by (simp only: consume_loop.simps Let_def if_True if_False)
      with 2(1) [OF d refl o'] d show ?thesis by (simp add: u digits_value_Cons)
    qed
  qed
qed

text \<open>The parser takes the longest prefix of digits, and refuses it when it is empty or its value does
  not fit 64 bits.\<close>

lemma ConsumeDecimalNumber_spec:
  "snd (ConsumeDecimalNumber str) =
     (let ds = takeWhile is_digit str in
      if ds = [] \<or> 2 ^ 64 \<le> digits_value 0 ds then None else Some (word_of_nat (digits_value 0 ds)))"
  "snd (ConsumeDecimalNumber str) \<noteq> None \<Longrightarrow> fst (ConsumeDecimalNumber str) = dropWhile is_digit str"
  using consume_loop_spec [of 0 0 str]
  by (auto simp: ConsumeDecimalNumber_def Let_def split: prod.splits option.splits if_splits)

section \<open>Decimal numbers\<close>

lemma digit_char_digit: "d < 10 \<Longrightarrow> is_digit (digit_char d) \<and> digit_val (digit_char d) = d"
  by (simp add: is_digit_def digit_val_def digit_char_def)

lemma digits_value_append: "digits_value v (ds @ es) = digits_value (digits_value v ds) es"
  by (simp add: digits_value_def)

lemma decimal_digits: "list_all is_digit (decimal n)" "decimal n \<noteq> []"
proof -
  show "list_all is_digit (decimal n)"
  proof (induction n rule: decimal.induct)
    case (1 n)
    then show ?case by (subst decimal.simps) (auto simp: digit_char_digit)
  qed
  show "decimal n \<noteq> []" by (subst decimal.simps) simp
qed

lemma decimal_value: "digits_value 0 (decimal n) = n"
proof (induction n rule: decimal.induct)
  case (1 n)
  show ?case
  proof (cases "n < 10")
    case True
    then show ?thesis by (subst decimal.simps) (simp add: digits_value_def digit_char_digit)
  next
    case False
    with 1 have "digits_value 0 (decimal (n div 10)) = n div 10" by simp
    with False show ?thesis
      by (subst decimal.simps) (simp add: digits_value_append, simp add: digits_value_def digit_char_digit)
  qed
qed

lemma decimal_length: "n < 10 ^ k \<Longrightarrow> 0 < k \<Longrightarrow> length (decimal n) \<le> k"
proof (induction k arbitrary: n)
  case (Suc k)
  show ?case
  proof (cases "n < 10")
    case True
    then show ?thesis by (subst decimal.simps) simp
  next
    case False
    then have k: "0 < k" using Suc.prems(1) by (cases k) auto
    have "n div 10 < 10 ^ k" using Suc.prems(1) by (simp add: less_mult_imp_div_less mult.commute)
    from Suc.IH [OF this k] False show ?thesis by (subst decimal.simps) simp
  qed
qed simp

end
