(* ===== verification/Ldb_Log.thy ===== *)
theory Ldb_Log
  imports Ldb_Crc Ldb_Logging
begin

text \<open>
  The write-ahead log: \<open>db/log_format.h\<close>, \<open>db/log_writer.cc\<close> and \<open>db/log_reader.cc\<close>.  A log is
  a sequence of blocks of 32768 bytes; a record is written as one or more fragments, each with a
  header of checksum, length and type, and no fragment crosses the end of a block.

  The files behind the two classes are abstract in the code (\<open>include/leveldb/env.h\<close>) and are
  parameters here: records of the operations the classes call.  The checksum function takes the
  address of its buffer, which does not influence its result; the address 0 stands for it.
\<close>

section \<open>Format\<close>

definition kZeroType :: u32 where "kZeroType = 0"
definition kFullType :: u32 where "kFullType = 1"
definition kFirstType :: u32 where "kFirstType = 2"
definition kMiddleType :: u32 where "kMiddleType = 3"
definition kLastType :: u32 where "kLastType = 4"
definition kMaxRecordType :: nat where "kMaxRecordType = 4"
definition kBlockSize :: nat where "kBlockSize = 32768"
definition kHeaderSize :: nat where "kHeaderSize = 4 + 2 + 1"
definition kEof :: u32 where "kEof = word_of_nat kMaxRecordType + 1"
definition kBadRecord :: u32 where "kBadRecord = word_of_nat kMaxRecordType + 2"

lemmas log_types = kZeroType_def kFullType_def kFirstType_def kMiddleType_def kLastType_def
  kEof_def kBadRecord_def kMaxRecordType_def

section \<open>The writer\<close>

record 'f writable_ops =
  Append :: "'f \<Rightarrow> slice \<Rightarrow> status \<times> 'f"
  Flush :: "'f \<Rightarrow> status \<times> 'f"

record 'f log_writer =
  dest :: 'f
  block_offset :: nat
  type_crc :: "u32 list"

definition log_Writer :: "'f \<Rightarrow> 'f log_writer" where
  "log_Writer f = \<lparr>dest = f, block_offset = 0,
     type_crc = map (\<lambda>i. crc_Value 0 [word_of_nat i]) [0..<Suc kMaxRecordType]\<rparr>"

definition record_header :: "u32 list \<Rightarrow> u32 \<Rightarrow> slice \<Rightarrow> byte list" where
  "record_header crcs t data =
     (let n = length data; crc = crc_Mask (Extend 0 (crcs ! unat t) data)
      in EncodeFixed32 crc @ [word_of_nat n, word_of_nat (n div 256), ucast t])"

definition EmitPhysicalRecord :: "'f writable_ops \<Rightarrow> u32 \<Rightarrow> slice \<Rightarrow> 'f log_writer \<Rightarrow> status \<times> 'f log_writer" where
  "EmitPhysicalRecord ops t data w =
     (let w' = w\<lparr>block_offset := block_offset w + kHeaderSize + length data\<rparr> in
      case Append ops (dest w) (record_header (type_crc w) t data) of
        (s, f1) \<Rightarrow>
          if is_ok s then
            (case Append ops f1 data of
               (s2, f2) \<Rightarrow>
                 if is_ok s2 then (case Flush ops f2 of (s3, f3) \<Rightarrow> (s3, w'\<lparr>dest := f3\<rparr>))
                 else (s2, w'\<lparr>dest := f2\<rparr>))
          else (s, w'\<lparr>dest := f1\<rparr>))"

text \<open>Switching to a new block; the status of writing the trailer is not looked at.\<close>

definition switch_block :: "'f writable_ops \<Rightarrow> 'f log_writer \<Rightarrow> 'f log_writer" where
  "switch_block ops w =
     (let leftover = kBlockSize - block_offset w in
      if leftover < kHeaderSize then
        (if 0 < leftover then w\<lparr>dest := snd (Append ops (dest w) (replicate leftover 0)), block_offset := 0\<rparr>
         else w\<lparr>block_offset := 0\<rparr>)
      else w)"

definition fragment_type :: "bool \<Rightarrow> bool \<Rightarrow> u32" where
  "fragment_type is_begin is_end =
     (if is_begin \<and> is_end then kFullType else if is_begin then kFirstType
      else if is_end then kLastType else kMiddleType)"

lemma Emit_block_offset [simp]:
  "block_offset (snd (EmitPhysicalRecord ops t data w)) = block_offset w + kHeaderSize + length data"
  by (simp add: EmitPhysicalRecord_def Let_def split: prod.split)

definition block_room :: "nat \<Rightarrow> nat" where
  "block_room offset = (if kBlockSize - offset < kHeaderSize then kBlockSize else kBlockSize - offset) - kHeaderSize"

lemma switch_block_room [simp]:
  "kBlockSize - block_offset (switch_block ops w) - kHeaderSize = block_room (block_offset w)"
  by (simp add: switch_block_def block_room_def Let_def)

text \<open>A round that finds room shortens the rest; a round that finds none ends the block.\<close>

lemma block_room_full: "block_room offset = 0 \<Longrightarrow> kBlockSize - offset \<le> kHeaderSize"
  by (auto simp: block_room_def kBlockSize_def kHeaderSize_def split: if_splits)

lemma switch_offset:
  "block_offset (switch_block ops w) = (if kBlockSize - block_offset w < kHeaderSize then 0 else block_offset w)"
  by (simp add: switch_block_def Let_def)

lemma room_after_full: "block_room offset = 0 \<Longrightarrow> 0 < block_room (offset + kHeaderSize)"
  using block_room_full [of offset] by (auto simp: block_room_def kBlockSize_def kHeaderSize_def)

function add_loop :: "'f writable_ops \<Rightarrow> bool \<Rightarrow> slice \<Rightarrow> 'f log_writer \<Rightarrow> status \<times> 'f log_writer" where
  "add_loop ops is_begin ptr w =
     (let w1 = switch_block ops w;
          left = length ptr;
          avail = kBlockSize - block_offset w1 - kHeaderSize;
          fragment_length = (if left < avail then left else avail);
          t = fragment_type is_begin (left = fragment_length)
      in case EmitPhysicalRecord ops t (take fragment_length ptr) w1 of
           (s, w2) \<Rightarrow>
             if is_ok s \<and> 0 < left - fragment_length then add_loop ops False (drop fragment_length ptr) w2
             else (s, w2))"
  by pat_completeness auto

termination
proof (relation "measure (\<lambda>(ops, b, ptr, w). 2 * length ptr + (if block_room (block_offset w) = 0 then 1 else 0))")
  fix ops :: "'f writable_ops" and is_begin and ptr :: slice and w w1 w2 :: "'f log_writer" and left avail fragment_length t s
  assume w1: "w1 = switch_block ops w" and left: "left = length ptr"
    and a: "avail = kBlockSize - block_offset w1 - kHeaderSize"
    and f: "fragment_length = (if left < avail then left else avail)"
    and t: "t = fragment_type is_begin (left = fragment_length)"
    and e: "(s, w2) = EmitPhysicalRecord ops t (take fragment_length ptr) w1"
    and go: "is_ok s \<and> 0 < left - fragment_length"
  have avail: "avail = block_room (block_offset w)" by (simp only: a w1 switch_block_room)
  have f': "fragment_length = avail" "avail < left" using go f by (auto split: if_splits)
  have "block_offset w2 = block_offset w1 + kHeaderSize + length (take fragment_length ptr)"
    using e by (metis Emit_block_offset snd_conv)
  then have o2: "block_offset w2 = block_offset w1 + kHeaderSize + avail" using f' left by simp
  have "0 < block_room (block_offset w2)" if "avail = 0"
  proof -
    have "block_room (block_offset w1) = 0"
      using that avail by (simp add: w1 switch_offset block_room_def kBlockSize_def kHeaderSize_def split: if_splits)
    from room_after_full [OF this] show ?thesis using o2 that by simp
  qed
  then show "((ops, False, drop fragment_length ptr, w2), ops, is_begin, ptr, w) \<in>
      measure (\<lambda>(ops, b, ptr, w). 2 * length ptr + (if block_room (block_offset w) = 0 then 1 else 0))"
    using f' left avail by (cases "block_room (block_offset w) = 0") auto
qed simp

declare add_loop.simps [simp del]

definition AddRecord :: "'f writable_ops \<Rightarrow> slice \<Rightarrow> 'f log_writer \<Rightarrow> status \<times> 'f log_writer" where
  "AddRecord ops data w = add_loop ops True data w"

section \<open>The reader\<close>

record 'f sequential_ops =
  Read :: "'f \<Rightarrow> nat \<Rightarrow> status \<times> slice \<times> 'f"
  Skip :: "'f \<Rightarrow> u64 \<Rightarrow> status \<times> 'f"

text \<open>\<open>reports\<close> are the calls of the reporter, the latest last; there are none without a reporter.\<close>

record 'f log_reader =
  rd_file :: 'f
  has_reporter :: bool
  rd_checksum :: bool
  rd_buffer :: slice
  rd_eof :: bool
  last_record_offset :: u64
  end_of_buffer_offset :: u64
  initial_offset :: u64
  reports :: "(nat \<times> status) list"

definition log_Reader :: "'f \<Rightarrow> bool \<Rightarrow> bool \<Rightarrow> u64 \<Rightarrow> 'f log_reader" where
  "log_Reader f reporter checksum offset = \<lparr>rd_file = f, has_reporter = reporter, rd_checksum = checksum,
     rd_buffer = [], rd_eof = False, last_record_offset = 0, end_of_buffer_offset = 0,
     initial_offset = offset, reports = []\<rparr>"

definition ReportDrop :: "nat \<Rightarrow> status \<Rightarrow> 'f log_reader \<Rightarrow> 'f log_reader" where
  "ReportDrop bytes reason r =
     (if has_reporter r \<and>
         initial_offset r \<le> end_of_buffer_offset r - word_of_nat (length (rd_buffer r)) - word_of_nat bytes
      then r\<lparr>reports := reports r @ [(bytes, reason)]\<rparr> else r)"

definition ReportCorruption :: "nat \<Rightarrow> string \<Rightarrow> 'f log_reader \<Rightarrow> 'f log_reader" where
  "ReportCorruption bytes reason r = ReportDrop bytes (Corruption reason) r"

definition SkipToInitialBlock :: "'f sequential_ops \<Rightarrow> 'f log_reader \<Rightarrow> bool \<times> 'f log_reader" where
  "SkipToInitialBlock ops r =
     (let offset_in_block = unat (initial_offset r) mod kBlockSize;
          start0 = initial_offset r - word_of_nat offset_in_block;
          start = (if kBlockSize - 6 < offset_in_block then start0 + word_of_nat kBlockSize else start0);
          r1 = r\<lparr>end_of_buffer_offset := start\<rparr>
      in if 0 < start then
           (case Skip ops (rd_file r1) start of
              (s, f) \<Rightarrow>
                let r2 = r1\<lparr>rd_file := f\<rparr> in
                if is_ok s then (True, r2) else (False, ReportDrop (unat start) s r2))
         else (True, r1))"

text \<open>Reading the next block into the empty buffer; \<open>False\<close> when the file reports an error.\<close>

definition refill :: "'f sequential_ops \<Rightarrow> 'f log_reader \<Rightarrow> bool \<times> 'f log_reader" where
  "refill ops r =
     (case Read ops (rd_file r) kBlockSize of
        (s, buf, f) \<Rightarrow>
          let r1 = r\<lparr>rd_file := f, rd_buffer := buf,
                     end_of_buffer_offset := end_of_buffer_offset r + word_of_nat (length buf)\<rparr> in
          if is_ok s then (True, if length buf < kBlockSize then r1\<lparr>rd_eof := True\<rparr> else r1)
          else (False, (ReportDrop kBlockSize s (r1\<lparr>rd_buffer := []\<rparr>))\<lparr>rd_eof := True\<rparr>))"

text \<open>Parsing the header at the front of the buffer: the record type (the \<open>char\<close> extends its sign)
  or one of the special values, and the payload.\<close>

definition parse_record :: "'f log_reader \<Rightarrow> u32 \<times> slice \<times> 'f log_reader" where
  "parse_record r =
     (let header = rd_buffer r;
          a = ucast (header ! 4) :: u32;
          b = ucast (header ! 5) :: u32;
          t = scast (header ! 6) :: u32;
          len = unat (a OR push_bit 8 b)
      in
      if length header < kHeaderSize + len then
        (let r1 = r\<lparr>rd_buffer := []\<rparr> in
         if \<not> rd_eof r then (kBadRecord, [], ReportCorruption (length header) ''bad record length'' r1)
         else (kEof, [], r1))
      else if t = kZeroType \<and> len = 0 then (kBadRecord, [], r\<lparr>rd_buffer := []\<rparr>)
      else if rd_checksum r \<and>
          crc_Value 0 (take (1 + len) (drop 6 header)) \<noteq> crc_Unmask (DecodeFixed32 header) then
        (kBadRecord, [], ReportCorruption (length header) ''checksum mismatch'' (r\<lparr>rd_buffer := []\<rparr>))
      else
        let r1 = r\<lparr>rd_buffer := drop (kHeaderSize + len) header\<rparr> in
        if end_of_buffer_offset r1 - word_of_nat (length (rd_buffer r1)) - word_of_nat kHeaderSize - word_of_nat len
            < initial_offset r1
        then (kBadRecord, [], r1)
        else (t, take len (drop kHeaderSize header), r1))"

lemma refill_progress:
  "(True, r') = refill ops r \<Longrightarrow> rd_eof r' \<or> kHeaderSize \<le> length (rd_buffer r')"
  by (auto simp: refill_def Let_def kHeaderSize_def kBlockSize_def split: prod.splits if_splits)

function ReadPhysicalRecord :: "'f sequential_ops \<Rightarrow> 'f log_reader \<Rightarrow> u32 \<times> slice \<times> 'f log_reader" where
  "ReadPhysicalRecord ops r =
     (if length (rd_buffer r) < kHeaderSize then
        if \<not> rd_eof r then
          (case refill ops (r\<lparr>rd_buffer := []\<rparr>) of
             (True, r') \<Rightarrow> ReadPhysicalRecord ops r'
           | (False, r') \<Rightarrow> (kEof, [], r'))
        else (kEof, [], r\<lparr>rd_buffer := []\<rparr>)
      else parse_record r)"
  by pat_completeness auto
termination
  by (relation "measure (\<lambda>(ops, r). if length (rd_buffer r) < kHeaderSize \<and> \<not> rd_eof r then 1 else 0)")
    (auto dest: refill_progress)

declare ReadPhysicalRecord.simps [simp del]

text \<open>The loop of \<open>ReadRecord\<close> with its locals \<open>in_fragmented_record\<close>, \<open>scratch\<close> and
  \<open>prospective_record_offset\<close>.  Every round takes a fragment out of the file or ends at its end; the
  file is not known to be finite, so the rounds are counted, and \<open>None\<close> means that they did not
  suffice.\<close>

fun read_loop :: "'f sequential_ops \<Rightarrow> nat \<Rightarrow> bool \<Rightarrow> slice \<Rightarrow> u64 \<Rightarrow> 'f log_reader \<Rightarrow> (bool \<times> slice \<times> 'f log_reader) option" where
  "read_loop ops 0 in_frag scratch prosp r = None"
| "read_loop ops (Suc fuel) in_frag scratch prosp r =
     (let phys = end_of_buffer_offset r - word_of_nat (length (rd_buffer r)) in
      case ReadPhysicalRecord ops r of (t, fragment, r1) \<Rightarrow>
        if t = kFullType then
          (let r2 = (if in_frag \<and> scratch \<noteq> [] then ReportCorruption (length scratch) ''partial record without end(1)'' r1 else r1)
           in Some (True, fragment, r2\<lparr>last_record_offset := phys\<rparr>))
        else if t = kFirstType then
          (let r2 = (if in_frag \<and> scratch \<noteq> [] then ReportCorruption (length scratch) ''partial record without end(2)'' r1 else r1)
           in read_loop ops fuel True fragment phys r2)
        else if t = kMiddleType then
          (if \<not> in_frag then
             read_loop ops fuel in_frag scratch prosp
               (ReportCorruption (length fragment) ''missing start of fragmented record(1)'' r1)
           else read_loop ops fuel in_frag (scratch @ fragment) prosp r1)
        else if t = kLastType then
          (if \<not> in_frag then
             read_loop ops fuel in_frag scratch prosp
               (ReportCorruption (length fragment) ''missing start of fragmented record(2)'' r1)
           else Some (True, scratch @ fragment, r1\<lparr>last_record_offset := prosp\<rparr>))
        else if t = kEof then Some (False, [], r1)
        else if t = kBadRecord then
          (if in_frag then
             read_loop ops fuel False [] prosp (ReportCorruption (length scratch) ''error in middle of record'' r1)
           else read_loop ops fuel in_frag scratch prosp r1)
        else
          read_loop ops fuel False [] prosp
            (ReportCorruption (length fragment + (if in_frag then length scratch else 0)) (''unknown record type '' @ decimal (unat t)) r1))"

definition ReadRecord :: "'f sequential_ops \<Rightarrow> nat \<Rightarrow> 'f log_reader \<Rightarrow> (bool \<times> slice \<times> 'f log_reader) option" where
  "ReadRecord ops fuel r =
     (if last_record_offset r < initial_offset r then
        (case SkipToInitialBlock ops r of
           (True, r1) \<Rightarrow> read_loop ops fuel False [] 0 r1
         | (False, r1) \<Rightarrow> Some (False, [], r1))
      else read_loop ops fuel False [] 0 r)"

section \<open>Files in memory\<close>

text \<open>The files of the tests, \<open>StringDest\<close> and \<open>StringSource\<close> of \<open>db/log_test.cc\<close> without injected errors.\<close>

definition StringDest :: "byte list writable_ops" where
  "StringDest = \<lparr>Append = (\<lambda>contents slice. (OK, contents @ slice)), Flush = (\<lambda>contents. (OK, contents))\<rparr>"

definition StringSource :: "byte list sequential_ops" where
  "StringSource = \<lparr>Read = (\<lambda>contents n. (OK, take n contents, drop n contents)),
     Skip = (\<lambda>contents n. if length contents < unat n
        then (status_msg kNotFound ''in-memory file skipepd past end'' [], [])
        else (OK, drop (unat n) contents))\<rparr>"

end
