(* ===== verification/Ldb_Log_Props.thy ===== *)
theory Ldb_Log_Props
  imports Ldb_Log Ldb_Crc_Props
begin

text \<open>
  What the log writer lays out and what the log reader finds.  The writer is used through the
  interface of an appendable file and the reader through that of a sequential file; both are
  interpreted with the files of the tests.  A log may be cut off anywhere, as after a crash.
\<close>

section \<open>The layout of a record\<close>

definition type_crcs :: "u32 list" where
  "type_crcs = map (\<lambda>i. crc_Value 0 [word_of_nat i]) [0..<Suc kMaxRecordType]"

definition fragment_bytes :: "u32 \<Rightarrow> slice \<Rightarrow> byte list" where
  "fragment_bytes t d = record_header type_crcs t d @ d"

definition start_offset :: "nat \<Rightarrow> nat" where
  "start_offset off = (if kBlockSize - off < kHeaderSize then 0 else off)"

definition pad :: "nat \<Rightarrow> nat" where
  "pad off = (if kBlockSize - off < kHeaderSize then kBlockSize - off else 0)"

lemma room_start: "block_room off = kBlockSize - start_offset off - kHeaderSize"
  by (simp add: block_room_def start_offset_def)

text \<open>The fragments of a record that starts at offset \<open>off\<close> of a block, each as the bytes it takes, its
  type and its payload, and the offset behind them.\<close>

function frags :: "bool \<Rightarrow> slice \<Rightarrow> nat \<Rightarrow> (nat \<times> u32 \<times> slice) list \<times> nat" where
  "frags is_begin ptr off =
     (let n = min (length ptr) (block_room off);
          t = fragment_type is_begin (length ptr = n);
          off' = start_offset off + kHeaderSize + n
      in if n < length ptr then
           (case frags False (drop n ptr) off' of (fs, e) \<Rightarrow> ((off, t, take n ptr) # fs, e))
         else ([(off, t, take n ptr)], off'))"
  by pat_completeness auto
termination
proof (relation "measure (\<lambda>(b, ptr, off). 2 * length ptr + (if block_room off = 0 then 1 else 0))")
  fix is_begin and ptr :: slice and off n t off'
  assume n: "n = min (length ptr) (block_room off)" and off': "off' = start_offset off + kHeaderSize + n" and l: "n < length ptr"
  have "0 < block_room off'" if "n = 0"
  proof -
    have "block_room (start_offset off) = 0"
      using that n l by (auto simp: start_offset_def block_room_def kBlockSize_def kHeaderSize_def min_def split: if_splits)
    from room_after_full [OF this] show ?thesis using off' that by simp
  qed
  with n l show "((False, drop n ptr, off'), is_begin, ptr, off) \<in>
      measure (\<lambda>(b, ptr, off). 2 * length ptr + (if block_room off = 0 then 1 else 0))"
    by (cases "n = 0") (auto simp: min_def split: if_splits)
qed simp

declare frags.simps [simp del]

definition frag_bytes :: "nat \<times> u32 \<times> slice \<Rightarrow> byte list" where
  "frag_bytes f = (case f of (off, t, d) \<Rightarrow> replicate (pad off) 0 @ fragment_bytes t d)"

definition record_bytes :: "bool \<Rightarrow> slice \<Rightarrow> nat \<Rightarrow> byte list" where
  "record_bytes is_begin ptr off = concat (map frag_bytes (fst (frags is_begin ptr off)))"

section \<open>Writing\<close>

locale writable_file =
  fixes ops :: "'f writable_ops" and contents :: "'f \<Rightarrow> byte list"
  assumes append_ok: "fst (Append ops f bs) = OK"
    and append_contents: "contents (snd (Append ops f bs)) = contents f @ bs"
    and flush_ok: "fst (Flush ops f) = OK"
    and flush_contents: "contents (snd (Flush ops f)) = contents f"
begin

lemma emit:
  assumes "type_crc w = type_crcs" "EmitPhysicalRecord ops t d w = (s, w')"
  shows "s = OK" "contents (dest w') = contents (dest w) @ fragment_bytes t d"
    "block_offset w' = block_offset w + kHeaderSize + length d" "type_crc w' = type_crcs"
proof -
  obtain f1 where 1: "Append ops (dest w) (record_header type_crcs t d) = (OK, f1)"
    by (metis append_ok prod.collapse)
  obtain f2 where 2: "Append ops f1 d = (OK, f2)" by (metis append_ok prod.collapse)
  obtain f3 where 3: "Flush ops f2 = (OK, f3)" by (metis flush_ok prod.collapse)
  note c = append_contents [of "dest w" "record_header type_crcs t d"] append_contents [of f1 d] flush_contents [of f2]
  from assms(2) 1 2 3 have w: "s = OK" "w' = w\<lparr>block_offset := block_offset w + kHeaderSize + length d, dest := f3\<rparr>"
    by (simp_all add: EmitPhysicalRecord_def assms(1) Let_def)
  show "s = OK" by (rule w(1))
  show "contents (dest w') = contents (dest w) @ fragment_bytes t d"
    using c 1 2 3 by (simp add: w(2) fragment_bytes_def)
  show "block_offset w' = block_offset w + kHeaderSize + length d" "type_crc w' = type_crcs"
    by (simp_all add: w(2) assms(1))
qed

lemma switch:
  "contents (dest (switch_block ops w)) = contents (dest w) @ replicate (pad (block_offset w)) 0"
  "block_offset (switch_block ops w) = start_offset (block_offset w)"
  "type_crc (switch_block ops w) = type_crc w"
  by (auto simp: switch_block_def pad_def start_offset_def Let_def append_contents)

lemma add_loop_layout:
  "type_crc w = type_crcs \<Longrightarrow> \<exists>w'. add_loop ops is_begin ptr w = (OK, w') \<and>
     contents (dest w') = contents (dest w) @ record_bytes is_begin ptr (block_offset w) \<and>
     block_offset w' = snd (frags is_begin ptr (block_offset w)) \<and> type_crc w' = type_crcs"
proof (induction is_begin ptr "block_offset w" arbitrary: w rule: frags.induct)
  case (1 is_begin ptr w)
  let ?n = "min (length ptr) (block_room (block_offset w))"
  let ?t = "fragment_type is_begin (length ptr = ?n)" and ?w1 = "switch_block ops w"
  have crcs: "type_crc ?w1 = type_crcs" using 1(2) by (simp add: switch)
  obtain s w2 where e: "EmitPhysicalRecord ops ?t (take ?n ptr) ?w1 = (s, w2)" by fastforce
  note w2 = emit [OF crcs e]
  have o2: "block_offset w2 = start_offset (block_offset w) + kHeaderSize + ?n" by (simp add: w2 switch)
  have n: "(if length ptr < block_room (block_offset w) then length ptr else block_room (block_offset w)) = ?n" by simp
  have step: "add_loop ops is_begin ptr w =
      (if ?n < length ptr then add_loop ops False (drop ?n ptr) w2 else (OK, w2))"
    unfolding add_loop.simps [of ops is_begin ptr w] Let_def switch_block_room n using e w2(1) by auto
  show ?case
  proof (cases "?n < length ptr")
    case True
    obtain fs e' where f: "frags False (drop ?n ptr) (block_offset w2) = (fs, e')" by fastforce
    from 1(1) [OF refl refl o2 True w2(4)] obtain w' where
      "add_loop ops False (drop ?n ptr) w2 = (OK, w')"
      "contents (dest w') = contents (dest w2) @ record_bytes False (drop ?n ptr) (block_offset w2)"
      "block_offset w' = snd (frags False (drop ?n ptr) (block_offset w2))" "type_crc w' = type_crcs"
      by metis
    moreover have "block_room (block_offset w) < length ptr" using True by (simp add: min_less_iff_disj)
    ultimately show ?thesis using step f o2
      by (simp add: record_bytes_def frags.simps [of is_begin ptr] Let_def frag_bytes_def w2 switch)
  next
    case False
    with step o2 show ?thesis
      by (simp add: record_bytes_def frags.simps [of is_begin ptr] Let_def frag_bytes_def w2 switch)
  qed
qed

end

interpretation dest: writable_file StringDest "\<lambda>c. c"
  by unfold_locales (simp_all add: StringDest_def)

definition log_contents :: "slice list \<Rightarrow> byte list" where
  "log_contents rs = dest (fold (\<lambda>r w. snd (AddRecord StringDest r w)) rs (log_Writer []))"

fun log_bytes :: "slice list \<Rightarrow> nat \<Rightarrow> byte list" where
  "log_bytes [] off = []"
| "log_bytes (r # rs) off = record_bytes True r off @ log_bytes rs (snd (frags True r off))"

lemma fold_AddRecord:
  "type_crc w = type_crcs \<Longrightarrow>
   dest (fold (\<lambda>r w. snd (AddRecord StringDest r w)) rs w) = dest w @ log_bytes rs (block_offset w)"
proof (induction rs arbitrary: w)
  case (Cons r rs)
  obtain w' where "add_loop StringDest True r w = (OK, w')" "dest w' = dest w @ record_bytes True r (block_offset w)"
    "block_offset w' = snd (frags True r (block_offset w))" "type_crc w' = type_crcs"
    using dest.add_loop_layout [OF Cons.prems] by metis
  then show ?case using Cons.IH [of w'] by (simp add: AddRecord_def)
qed simp

lemma log_contents_bytes: "log_contents rs = log_bytes rs 0"
  by (simp add: log_contents_def fold_AddRecord log_Writer_def type_crcs_def)

text \<open>Reading records until there are no more, at most \<open>n\<close> of them.\<close>

fun read_records :: "'f sequential_ops \<Rightarrow> nat \<Rightarrow> nat \<Rightarrow> 'f log_reader \<Rightarrow> (slice list \<times> 'f log_reader) option" where
  "read_records ops fuel 0 r = Some ([], r)"
| "read_records ops fuel (Suc n) r = (case ReadRecord ops fuel r of
     None \<Rightarrow> None
   | Some (False, _, r') \<Rightarrow> Some ([], r')
   | Some (True, rec, r') \<Rightarrow> (case read_records ops fuel n r' of
       None \<Rightarrow> None
     | Some (recs, r'') \<Rightarrow> Some (rec # recs, r'')))"

section \<open>Reading\<close>

definition known_type :: "u32 \<Rightarrow> bool" where
  "known_type t \<longleftrightarrow> t = kFullType \<or> t = kFirstType \<or> t = kMiddleType \<or> t = kLastType"

lemma known_fragment_type [simp]: "known_type (fragment_type b e)"
  by (simp add: known_type_def fragment_type_def)

lemma known_byte: "known_type t \<Longrightarrow> scast (ucast t :: byte) = t"
  by (auto simp: known_type_def log_types)

lemma type_crcs_nth: "known_type t \<Longrightarrow> type_crcs ! unat t = crc_spec 0 [ucast t]"
  by (auto simp: known_type_def type_crcs_def log_types crc_Value_def Extend_spec upt_rec nth_Cons')

lemma length_fragment_bytes [simp]: "length (fragment_bytes t d) = 7 + length d"
  by (simp add: fragment_bytes_def record_header_def Let_def)

lemma drop_fragment_bytes [simp]: "drop 7 (fragment_bytes t d) = d"
  by (simp add: fragment_bytes_def record_header_def Let_def)

text \<open>What the fields of a header say.\<close>

lemma header_length:
  assumes "n < 65536"
  shows "unat ((ucast (word_of_nat n :: byte) :: u32) OR push_bit 8 (ucast (word_of_nat (n div 256) :: byte))) = n"
proof -
  let ?w = "word_of_nat n :: u32"
  have d: "drop_bit 8 ?w = word_of_nat (n div 256)"
    by (rule word_unat_eq_iff [THEN iffD2]) (use assms in \<open>simp add: unat_drop_bit unat_of_nat\<close>)
  have "[word_of_nat n, word_of_nat (n div 256)] = le_bytes 2 ?w"
    by (simp add: le_bytes_def upt_rec ucast_word_of_nat d)
  then have "(ucast (word_of_nat n :: byte) :: u32) OR push_bit 8 (ucast (word_of_nat (n div 256) :: byte)) = of_le (le_bytes 2 ?w)"
    by (metis of_le.simps or.right_neutral push_bit_of_0)
  also have "\<dots> = take_bit 16 ?w" by (simp add: of_le_le_bytes)
  also have "\<dots> = ?w" using assms by (intro take_bit_lt) (simp add: word_less_nat_alt unat_of_nat)
  finally show ?thesis using assms by (simp add: unat_of_nat)
qed

lemma fragment_fields:
  assumes "known_type t" "h = fragment_bytes t d @ rest"
  shows "h ! 4 = word_of_nat (length d)" "h ! 5 = word_of_nat (length d div 256)" "h ! 6 = ucast t"
    "crc_Unmask (DecodeFixed32 h) = crc_Value 0 (ucast t # d)" "drop 6 h = ucast t # d @ rest" "drop 7 h = d @ rest"
proof -
  let ?c = "EncodeFixed32 (crc_Mask (Extend 0 (type_crcs ! unat t) d))"
  have h: "h = ?c @ [word_of_nat (length d), word_of_nat (length d div 256), ucast t] @ d @ rest"
    by (simp add: assms(2) fragment_bytes_def record_header_def Let_def)
  show "h ! 4 = word_of_nat (length d)" "h ! 5 = word_of_nat (length d div 256)" "h ! 6 = ucast t"
    "drop 6 h = ucast t # d @ rest" "drop 7 h = d @ rest"
    by (simp_all add: h nth_append)
  show "crc_Unmask (DecodeFixed32 h) = crc_Value 0 (ucast t # d)"
    unfolding h DecodeFixed32_Encode crc_Unmask_Mask
    by (simp add: crc_Value_def Extend_spec type_crcs_nth [OF assms(1)] crc_spec_append)
qed

locale sequential_file =
  fixes ops :: "'f sequential_ops" and rest :: "'f \<Rightarrow> byte list"
  assumes read_ok: "Read ops f n = (OK, take n (rest f), snd (snd (Read ops f n)))"
    and read_rest: "rest (snd (snd (Read ops f n))) = drop n (rest f)"
begin

text \<open>The reader has the unread bytes \<open>u\<close> before it, of which \<open>m\<close> belong to the current block.\<close>

definition unread :: "'f log_reader \<Rightarrow> byte list \<Rightarrow> nat \<Rightarrow> bool" where
  "unread r u m \<longleftrightarrow> rd_buffer r = take m u \<and> rest (rd_file r) = drop m u \<and>
     (rd_eof r \<longleftrightarrow> length u < m) \<and> initial_offset r = 0 \<and> m \<le> kBlockSize"

lemma refill_unread:
  assumes "unread r u m" "\<not> rd_eof r"
  shows "\<exists>r'. refill ops (r\<lparr>rd_buffer := []\<rparr>) = (True, r') \<and> unread r' (drop m u) kBlockSize \<and> reports r' = reports r"
proof -
  obtain f where f: "Read ops (rd_file r) kBlockSize = (OK, take kBlockSize (drop m u), f)" "rest f = drop kBlockSize (drop m u)"
    using assms(1) read_ok [of "rd_file r" kBlockSize] read_rest [of "rd_file r" kBlockSize] by (auto simp: unread_def)
  with assms show ?thesis by (auto simp: refill_def unread_def Let_def)
qed

lemma read_at_end:
  "length (rd_buffer r) < kHeaderSize \<Longrightarrow> rd_eof r \<Longrightarrow> ReadPhysicalRecord ops r = (kEof, [], r\<lparr>rd_buffer := []\<rparr>)"
  by (simp add: ReadPhysicalRecord.simps [of ops r])

text \<open>A fragment that starts at the front of the buffer and fits into the block.\<close>

lemma parse_fragment:
  assumes "unread r (take k (fragment_bytes t d @ s)) m" "known_type t" "7 + length d \<le> m"
  shows "if 7 + length d \<le> k
    then \<exists>r'. ReadPhysicalRecord ops r = (t, d, r') \<and> unread r' (take (k - (7 + length d)) s) (m - (7 + length d)) \<and> reports r' = reports r
    else \<exists>r'. ReadPhysicalRecord ops r = (kEof, [], r') \<and> reports r' = reports r"
proof -
  let ?h = "rd_buffer r" and ?u = "take k (fragment_bytes t d @ s)"
  have b: "?h = take m ?u" "rest (rd_file r) = drop m ?u" "rd_eof r \<longleftrightarrow> length ?u < m" "initial_offset r = 0" "m \<le> kBlockSize"
    using assms(1) by (simp_all add: unread_def)
  have len: "length d < 65536" using b(5) assms(3) by (simp add: kBlockSize_def)
  consider "k < 7" | "7 \<le> k" "k < 7 + length d" | "7 + length d \<le> k" by linarith
  then show ?thesis
  proof cases
    case 1
    then have "length ?h < kHeaderSize" "rd_eof r" using b assms(3) by (simp_all add: kHeaderSize_def)
    from read_at_end [OF this] 1 show ?thesis by simp
  next
    case 2
    then have u: "?u = take k (fragment_bytes t d)" and lu: "length ?u = k" by simp_all
    have h: "?h = take k (fragment_bytes t d)" using b(1) 2 assms(3) by simp
    have e: "rd_eof r" "d \<noteq> []" using b(3) lu 2 assms(3) by auto
    have "?h ! 4 = word_of_nat (length d)" "?h ! 5 = word_of_nat (length d div 256)"
      using fragment_fields(1,2) [OF assms(2), of "fragment_bytes t d" d "[]"] 2 by (simp_all add: h)
    then have "ReadPhysicalRecord ops r = (kEof, [], r\<lparr>rd_buffer := []\<rparr>)"
      using 2 e by (simp add: ReadPhysicalRecord.simps [of ops r] parse_record_def Let_def header_length len)
        (simp add: h kHeaderSize_def)
    with 2 show ?thesis by simp
  next
    case 3
    let ?s = "take (m - (7 + length d)) (take (k - (7 + length d)) s)"
    have h: "?h = fragment_bytes t d @ ?s" using 3 assms(3) by (simp add: b(1) min_def)
    note f = fragment_fields [OF assms(2) h]
    have t: "t \<noteq> kZeroType" using assms(2) by (auto simp: known_type_def log_types)
    have ll: "\<not> length ?h < kHeaderSize" "\<not> length ?h < kHeaderSize + length d" by (simp_all add: h kHeaderSize_def)
    have "ReadPhysicalRecord ops r = (t, d, r\<lparr>rd_buffer := ?s\<rparr>)"
      using b(4) ll by (simp add: ReadPhysicalRecord.simps [of ops r] parse_record_def Let_def f header_length len t known_byte [OF assms(2)])
        (simp add: kHeaderSize_def f h)
    moreover have "unread (r\<lparr>rd_buffer := ?s\<rparr>) (take (k - (7 + length d)) s) (m - (7 + length d))"
      using b 3 assms(3) by (auto simp: unread_def)
    ultimately show ?thesis using 3 by auto
  qed
qed

text \<open>The number of bytes of the current block that the reader has before it, when the writer was at
  offset \<open>off\<close>: the rest of the block, or none before the first block was read.\<close>

definition sync :: "nat \<Rightarrow> nat \<Rightarrow> bool" where
  "sync m off \<longleftrightarrow> off \<le> kBlockSize \<and> (m = kBlockSize - off \<or> off = 0 \<and> m = 0)"

lemma length_frag_bytes: "length (frag_bytes (off, t, d)) = pad off + (7 + length d)"
  by (simp add: frag_bytes_def)

lemma read_fragment:
  assumes u: "unread r (take k (frag_bytes (off, t, d) @ s)) m" and m: "sync m off"
    and t: "known_type t" and fit: "start_offset off + 7 + length d \<le> kBlockSize"
  shows "if length (frag_bytes (off, t, d)) \<le> k
    then \<exists>r' m'. ReadPhysicalRecord ops r = (t, d, r') \<and> unread r' (take (k - length (frag_bytes (off, t, d))) s) m' \<and>
      sync m' (start_offset off + kHeaderSize + length d) \<and> reports r' = reports r
    else \<exists>r'. ReadPhysicalRecord ops r = (kEof, [], r') \<and> reports r' = reports r"
proof -
  let ?u = "take k (frag_bytes (off, t, d) @ s)"
  have parse: ?thesis
    if p: "unread r1 (take (k - pad off) (fragment_bytes t d @ s)) (kBlockSize - start_offset off)" "pad off \<le> k"
      "ReadPhysicalRecord ops r = ReadPhysicalRecord ops r1" "reports r1 = reports r" for r1
  proof (cases "7 + length d \<le> k - pad off")
    case True
    have "kBlockSize - start_offset off - (7 + length d) = kBlockSize - (start_offset off + kHeaderSize + length d)"
      by (simp add: kHeaderSize_def)
    then have "sync (kBlockSize - start_offset off - (7 + length d)) (start_offset off + kHeaderSize + length d)"
      using fit by (simp add: sync_def kHeaderSize_def)
    moreover have "length (frag_bytes (off, t, d)) \<le> k" "k - length (frag_bytes (off, t, d)) = k - pad off - (7 + length d)"
      using True p(2) by (simp_all add: length_frag_bytes)
    moreover have "7 + length d \<le> kBlockSize - start_offset off" using fit by simp
    then obtain r' where "ReadPhysicalRecord ops r1 = (t, d, r')" "reports r' = reports r1"
        "unread r' (take (k - pad off - (7 + length d)) s) (kBlockSize - start_offset off - (7 + length d))"
      using parse_fragment [OF p(1) t] True by (auto split: if_splits)
    ultimately show ?thesis using p(3,4) by auto
  next
    case False
    then show ?thesis using parse_fragment [OF p(1) t] fit p by (auto simp: length_frag_bytes)
  qed
  have refilled: ?thesis
    if q: "length (rd_buffer r) < kHeaderSize" "\<not> rd_eof r" "drop m ?u = take (k - pad off) (fragment_bytes t d @ s)"
      "start_offset off = 0" "pad off \<le> k"
  proof -
    obtain r1 where r1: "refill ops (r\<lparr>rd_buffer := []\<rparr>) = (True, r1)" "unread r1 (drop m ?u) kBlockSize" "reports r1 = reports r"
      using refill_unread [OF u q(2)] by auto
    have "ReadPhysicalRecord ops r = ReadPhysicalRecord ops r1"
      using q(1,2) r1(1) by (simp add: ReadPhysicalRecord.simps [of ops r])
    with r1 q show ?thesis by (intro parse [of r1]) simp_all
  qed
  have b: "rd_buffer r = take m ?u" "rd_eof r \<longleftrightarrow> length ?u < m" using u by (simp_all add: unread_def)
  consider "kBlockSize - off < kHeaderSize" | "\<not> kBlockSize - off < kHeaderSize" "m = 0" "off = 0"
    | "\<not> kBlockSize - off < kHeaderSize" "m = kBlockSize - off"
    using m unfolding sync_def by blast
  then show ?thesis
  proof cases
    case 1
    then have o: "pad off = m" "start_offset off = 0" "m < kHeaderSize"
      using m by (auto simp: pad_def start_offset_def sync_def kBlockSize_def kHeaderSize_def)
    show ?thesis
    proof (cases "m \<le> k")
      case True
      then have "drop m ?u = take (k - pad off) (fragment_bytes t d @ s)" "\<not> rd_eof r"
        using o b(2) by (simp_all add: frag_bytes_def drop_take)
      moreover have "length (rd_buffer r) < kHeaderSize" using b(1) o(3) by (auto simp: min_def)
      ultimately show ?thesis using True o(1) by (intro refilled o(2)) simp_all
    next
      case False
      then have "rd_eof r" "length (rd_buffer r) < kHeaderSize" using b o by simp_all
      then show ?thesis using read_at_end False o by (simp add: length_frag_bytes)
    qed
  next
    case 2
    then have "pad off = 0" "start_offset off = 0" by (simp_all add: pad_def start_offset_def)
    then show ?thesis using refilled b 2 by (simp add: frag_bytes_def kHeaderSize_def)
  next
    case 3
    then have "pad off = 0" "start_offset off = off" by (simp_all add: pad_def start_offset_def)
    then show ?thesis using parse [of r] u 3 by (simp add: frag_bytes_def)
  qed
qed

lemma unread_offset [simp]: "unread (r\<lparr>last_record_offset := x\<rparr>) u m \<longleftrightarrow> unread r u m"
  by (simp add: unread_def)

lemma read_record_bytes:
  "unread r (take k (record_bytes is_begin ptr off @ s)) m \<Longrightarrow> sync m off \<Longrightarrow>
   (is_begin \<longrightarrow> scratch = []) \<Longrightarrow> length (fst (frags is_begin ptr off)) < fuel \<Longrightarrow>
   if length (record_bytes is_begin ptr off) \<le> k
   then \<exists>r' m'. read_loop ops fuel (\<not> is_begin) scratch prosp r = Some (True, scratch @ ptr, r') \<and>
     unread r' (take (k - length (record_bytes is_begin ptr off)) s) m' \<and> sync m' (snd (frags is_begin ptr off)) \<and>
     reports r' = reports r
   else \<exists>r'. read_loop ops fuel (\<not> is_begin) scratch prosp r = Some (False, [], r') \<and> reports r' = reports r"
proof (induction is_begin ptr off arbitrary: r k m scratch fuel prosp rule: frags.induct)
  case (1 is_begin ptr off)
  let ?n = "min (length ptr) (block_room off)"
  let ?t = "fragment_type is_begin (length ptr = ?n)" and ?off' = "start_offset off + kHeaderSize + ?n"
  let ?f = "(off, ?t, take ?n ptr)"
  obtain fuel' where fuel: "fuel = Suc fuel'" using 1(5) by (cases fuel) auto
  have lt: "length (take ?n ptr) = ?n" by simp
  have "start_offset off + 7 + ?n \<le> kBlockSize"
    using 1(3) by (auto simp: block_room_def start_offset_def sync_def kBlockSize_def kHeaderSize_def)
  then have fit: "start_offset off + 7 + length (take ?n ptr) \<le> kBlockSize" unfolding lt .
  show ?case
  proof (cases "?n < length ptr")
    case True
    obtain fs e where fr: "frags False (drop ?n ptr) ?off' = (fs, e)" by fastforce
    have F: "frags is_begin ptr off = (?f # fs, e)"
      unfolding frags.simps [of is_begin ptr off] Let_def if_P [OF True] fr prod.case ..
    have bytes: "record_bytes is_begin ptr off = frag_bytes ?f @ record_bytes False (drop ?n ptr) ?off'"
      by (simp only: record_bytes_def F fr fst_conv list.map concat.simps)
    have t: "?t = (if is_begin then kFirstType else kMiddleType)"
      using less_imp_neq [OF True] unfolding fragment_type_def by (simp only: if_False simp_thms eq_commute)
    note u = 1(2) [unfolded bytes append_assoc]
    show ?thesis
    proof (cases "length (frag_bytes ?f) \<le> k")
      case True
      let ?k = "k - length (frag_bytes ?f)"
      obtain r1 m1 where r1: "ReadPhysicalRecord ops r = (?t, take ?n ptr, r1)" "sync m1 ?off'" "reports r1 = reports r"
        "unread r1 (take ?k (record_bytes False (drop ?n ptr) ?off' @ s)) m1"
        using read_fragment [OF u 1(3) known_fragment_type fit] True lt by auto
      let ?prosp = "if is_begin then end_of_buffer_offset r - word_of_nat (length (rd_buffer r)) else prosp"
      have step: "read_loop ops fuel (\<not> is_begin) scratch prosp r = read_loop ops fuel' True (scratch @ take ?n ptr) ?prosp r1"
        using r1(1) 1(4) unfolding t by (simp add: fuel Let_def log_types)
      have fl: "length (fst (frags False (drop ?n ptr) ?off')) < fuel'" using 1(5) by (simp add: F fr fuel)
      have pc: "(False \<longrightarrow> scratch @ take ?n ptr = [])" by simp
      let ?b2 = "record_bytes False (drop ?n ptr) ?off'"
      note ih = 1(1) [OF refl refl refl \<open>?n < length ptr\<close> r1(4,2) pc fl, of ?prosp, unfolded fr snd_conv r1(3)]
      have len: "length (record_bytes is_begin ptr off) = length (frag_bytes ?f) + length ?b2" by (simp only: bytes length_append)
      show ?thesis
      proof (cases "length ?b2 \<le> ?k")
        case True
        from ih [unfolded if_P [OF True]] obtain r' m' where
          x: "read_loop ops fuel' True (scratch @ take ?n ptr) ?prosp r1 = Some (True, (scratch @ take ?n ptr) @ drop ?n ptr, r')"
            "unread r' (take (?k - length ?b2) s) m'" "sync m' e" "reports r' = reports r"
          unfolding not_False_eq_True by blast
        have le: "length (record_bytes is_begin ptr off) \<le> k"
          using True \<open>length (frag_bytes ?f) \<le> k\<close> unfolding len by linarith
        show ?thesis unfolding if_P [OF le] step F snd_conv
          by (rule exI [of _ r'], rule exI [of _ m']) (use x in \<open>simp only: len diff_diff_add append_assoc append_take_drop_id simp_thms\<close>)
      next
        case False
        have le: "\<not> length (record_bytes is_begin ptr off) \<le> k" using False unfolding len by linarith
        from ih [unfolded if_not_P [OF False]] show ?thesis unfolding if_not_P [OF le] step not_False_eq_True .
      qed
    next
      case False
      obtain r1 where r1: "ReadPhysicalRecord ops r = (kEof, [], r1)" "reports r1 = reports r"
        using read_fragment [OF u 1(3) known_fragment_type fit] False by auto
      have "read_loop ops fuel (\<not> is_begin) scratch prosp r = Some (False, [], r1)"
        using r1(1) by (simp add: fuel Let_def log_types)
      moreover have "\<not> length (record_bytes is_begin ptr off) \<le> k" using False by (simp add: bytes)
      ultimately show ?thesis using r1(2) by auto
    qed
  next
    case False
    then have n: "?n = length ptr" by simp
    have F: "frags is_begin ptr off = ([?f], ?off')"
      using False by (subst frags.simps) (simp add: Let_def)
    have bytes: "record_bytes is_begin ptr off = frag_bytes ?f" by (simp add: record_bytes_def F)
    have t: "?t = (if is_begin then kFullType else kLastType)" using n by (simp add: fragment_type_def)
    note u = 1(2) [unfolded bytes]
    show ?thesis
    proof (cases "length (frag_bytes ?f) \<le> k")
      case True
      obtain r1 m1 where r1: "ReadPhysicalRecord ops r = (?t, take ?n ptr, r1)" "sync m1 ?off'" "reports r1 = reports r"
        "unread r1 (take (k - length (frag_bytes ?f)) s) m1"
        using read_fragment [OF u 1(3) known_fragment_type fit] True lt by auto
      have "\<exists>x. read_loop ops fuel (\<not> is_begin) scratch prosp r = Some (True, scratch @ ptr, r1\<lparr>last_record_offset := x\<rparr>)"
        using r1(1) 1(4) n unfolding t by (auto simp: fuel Let_def log_types)
      with r1 True show ?thesis unfolding bytes F by auto
    next
      case False
      obtain r1 where r1: "ReadPhysicalRecord ops r = (kEof, [], r1)" "reports r1 = reports r"
        using read_fragment [OF u 1(3) known_fragment_type fit] False by auto
      have "read_loop ops fuel (\<not> is_begin) scratch prosp r = Some (False, [], r1)"
        using r1(1) by (simp add: fuel Let_def log_types)
      then show ?thesis using r1(2) False by (simp add: bytes)
    qed
  qed
qed

lemma read_empty:
  "unread r [] m \<Longrightarrow> \<exists>r'. ReadPhysicalRecord ops r = (kEof, [], r') \<and> reports r' = reports r"
proof (cases "rd_eof r")
  case True
  assume u: "unread r [] m"
  then have "length (rd_buffer r) < kHeaderSize" by (simp add: unread_def kHeaderSize_def)
  from read_at_end [OF this True] show ?thesis by simp
next
  case False
  assume u: "unread r [] m"
  obtain r1 where r1: "refill ops (r\<lparr>rd_buffer := []\<rparr>) = (True, r1)" "unread r1 [] kBlockSize" "reports r1 = reports r"
    using refill_unread [OF u False] by auto
  have r: "length (rd_buffer r) < kHeaderSize" using u by (simp add: unread_def kHeaderSize_def)
  have "length (rd_buffer r1) < kHeaderSize" "rd_eof r1" using r1(2) by (simp_all add: unread_def kHeaderSize_def kBlockSize_def)
  from read_at_end [OF this] r r1 False show ?thesis by (simp add: ReadPhysicalRecord.simps [of ops r])
qed

lemma length_frags: "length (fst (frags b ptr off)) \<le> length (record_bytes b ptr off)"
proof -
  have "length fs \<le> length (concat (map frag_bytes fs))" for fs
    by (induction fs) (auto simp: frag_bytes_def split: prod.split)
  then show ?thesis by (simp add: record_bytes_def)
qed

lemma ReadRecord_start: "unread r u m \<Longrightarrow> ReadRecord ops fuel r = read_loop ops fuel (\<not> True) [] 0 r"
  by (simp add: ReadRecord_def unread_def)

lemma read_log_bytes:
  "unread r (take k (log_bytes rs off)) m \<Longrightarrow> sync m off \<Longrightarrow> length (log_bytes rs off) < fuel \<Longrightarrow> length rs < n \<Longrightarrow>
   \<exists>j r'. read_records ops fuel n r = Some (take j rs, r') \<and> reports r' = reports r \<and> j \<le> length rs \<and>
     (\<forall>i\<le>length rs. length (log_bytes (take i rs) off) \<le> k \<longleftrightarrow> i \<le> j)"
proof (induction rs arbitrary: r k off m n)
  case Nil
  obtain n' fuel' where n: "n = Suc n'" and fuel: "fuel = Suc fuel'" using Nil(3,4) by (cases n; cases fuel) auto
  obtain r' where "ReadPhysicalRecord ops r = (kEof, [], r')" "reports r' = reports r"
    using read_empty Nil(1) by auto
  then show ?case
    using ReadRecord_start [OF Nil(1)] by (auto simp: n fuel Let_def log_types)
next
  case (Cons x rs)
  obtain n' where n: "n = Suc n'" "length rs < n'" using Cons.prems(4) by (cases n) auto
  let ?b = "record_bytes True x off" and ?off = "snd (frags True x off)"
  have fl: "length (fst (frags True x off)) < fuel" using Cons.prems(3) length_frags [of True x off] by simp
  note start = ReadRecord_start [OF Cons.prems(1), of fuel]
  note step = read_record_bytes [OF Cons.prems(1) [unfolded log_bytes.simps] Cons.prems(2) _ fl, of "[]" 0]
  show ?case
  proof (cases "length ?b \<le> k")
    case True
    obtain r1 m1 where r1: "ReadRecord ops fuel r = Some (True, x, r1)" "reports r1 = reports r" "sync m1 ?off"
      "unread r1 (take (k - length ?b) (log_bytes rs ?off)) m1"
      using step True start by auto
    have lf: "length (log_bytes rs ?off) < fuel" using Cons.prems(3) by simp
    from Cons.IH [OF r1(4,3) lf n(2)] obtain j r' where
      j: "read_records ops fuel n' r1 = Some (take j rs, r')" "reports r' = reports r1" "j \<le> length rs"
      and c: "\<And>i. i \<le> length rs \<Longrightarrow> length (log_bytes (take i rs) ?off) \<le> k - length ?b \<longleftrightarrow> i \<le> j"
      by blast
    have "length (log_bytes (take i (x # rs)) off) \<le> k \<longleftrightarrow> i \<le> Suc j" if "i \<le> length (x # rs)" for i
      using c [of "i - 1"] that True by (cases i) auto
    with r1 j n show ?thesis by (intro exI [of _ "Suc j"] exI [of _ r']) simp
  next
    case False
    obtain r1 where r1: "ReadRecord ops fuel r = Some (False, [], r1)" "reports r1 = reports r"
      using step False start by auto
    have "length (log_bytes (take i (x # rs)) off) \<le> k \<longleftrightarrow> i \<le> 0" if "i \<le> length (x # rs)" for i
      using False by (cases i) auto
    with r1 n show ?thesis by (intro exI [of _ 0] exI [of _ r1]) simp
  qed
qed

end

interpretation source: sequential_file StringSource "\<lambda>c. c"
  by unfold_locales (simp_all add: StringSource_def)

section \<open>Properties\<close>

text \<open>C1: recovery: from a log that was cut off after any number \<open>k\<close> of bytes the reader returns exactly the
  records that were completely written, in order, and reports no corruption; in particular
  it returns every record of an undamaged log.  It ends within as many rounds as the log has bytes.\<close>

theorem log_recovery:
  assumes "length (log_contents rs) < fuel"
  shows "\<exists>j r'. read_records StringSource fuel (Suc (length rs)) (log_Reader (take k (log_contents rs)) True checksum 0) =
      Some (take j rs, r') \<and> reports r' = [] \<and> j \<le> length rs \<and>
      (\<forall>i\<le>length rs. length (log_contents (take i rs)) \<le> k \<longleftrightarrow> i \<le> j)"
proof -
  let ?r = "log_Reader (take k (log_bytes rs 0)) True checksum 0"
  have "source.unread ?r (take k (log_bytes rs 0)) 0" by (simp add: source.unread_def log_Reader_def)
  moreover have "source.sync 0 0" by (simp add: source.sync_def)
  ultimately obtain j r' where "read_records StringSource fuel (Suc (length rs)) ?r = Some (take j rs, r')"
      "reports r' = reports ?r" "j \<le> length rs" "\<forall>i\<le>length rs. length (log_bytes (take i rs) 0) \<le> k \<longleftrightarrow> i \<le> j"
    using source.read_log_bytes assms unfolding log_contents_bytes by (metis lessI)
  moreover have "reports ?r = []" by (simp add: log_Reader_def)
  ultimately show ?thesis unfolding log_contents_bytes by auto
qed

theorem log_recovery_witness:
  "\<exists>j r'. read_records StringSource (Suc (length (log_contents [[1, 2], [], [3]]))) 4
      (log_Reader (take 18 (log_contents [[1, 2], [], [3]])) True True 0) = Some (take j [[1, 2], [], [3]], r') \<and> reports r' = []"
proof -
  have n: "Suc (length [[1, 2], [], [3 :: byte]]) = 4" by simp
  show ?thesis
    using log_recovery [of "[[1, 2], [], [3]]" "Suc (length (log_contents [[1, 2], [], [3]]))" 18 True] unfolding n by blast
qed

end
