(* ===== verification/Ldb_Key.thy ===== *)
theory Ldb_Key
  imports Ldb_Coding Ldb_Filter
begin

text \<open>
  Keys and their order: \<open>util/comparator.cc\<close> (the bytewise order and its shortening of keys) and
  \<open>db/dbformat.cc\<close>, \<open>db/dbformat.h\<close> (internal keys: a user key with a sequence number and a type,
  their order, the filter policy on them, and lookup keys).  A \<open>Comparator\<close> is the record of
  its operations; \<open>FindShortestSeparator\<close> and \<open>FindShortSuccessor\<close> return the changed key.
\<close>

record comparator =
  Compare :: "slice \<Rightarrow> slice \<Rightarrow> int"
  FindShortestSeparator :: "slice \<Rightarrow> slice \<Rightarrow> slice"
  FindShortSuccessor :: "slice \<Rightarrow> slice"

section \<open>The bytewise comparator\<close>

text \<open>The loop that finds the length of the common prefix.\<close>

function diff_index :: "slice \<Rightarrow> slice \<Rightarrow> nat \<Rightarrow> nat \<Rightarrow> nat" where
  "diff_index start limit min_length i =
     (if i < min_length \<and> start ! i = limit ! i then diff_index start limit min_length (i + 1) else i)"
  by pat_completeness auto
termination by (relation "measure (\<lambda>(s, l, m, i). m - i)") auto

declare diff_index.simps [simp del]

definition bytewise_separator :: "slice \<Rightarrow> slice \<Rightarrow> slice" where
  "bytewise_separator start limit =
     (let min_length = min (length start) (length limit); i = diff_index start limit min_length 0 in
      if min_length \<le> i then start
      else
        let diff_byte = start ! i in
        if diff_byte < 0xff \<and> unat diff_byte + 1 < unat (limit ! i)
        then take (i + 1) (start[i := start ! i + 1])
        else start)"

text \<open>The loop over the bytes: the first one below \<open>0xff\<close> is incremented, the rest is cut off.\<close>

fun successor_loop :: "slice \<Rightarrow> slice option" where
  "successor_loop [] = None"
| "successor_loop (b # bs) = (if b \<noteq> 0xff then Some [b + 1] else map_option (\<lambda>s. b # s) (successor_loop bs))"

definition bytewise_successor :: "slice \<Rightarrow> slice" where
  "bytewise_successor key = (case successor_loop key of Some s \<Rightarrow> s | None \<Rightarrow> key)"

definition BytewiseComparator :: comparator where
  "BytewiseComparator = \<lparr>Compare = slice_compare, FindShortestSeparator = bytewise_separator,
     FindShortSuccessor = bytewise_successor\<rparr>"

section \<open>Internal keys\<close>

datatype ValueType = kTypeDeletion | kTypeValue

fun type_byte :: "ValueType \<Rightarrow> u64" where
  "type_byte kTypeDeletion = 0"
| "type_byte kTypeValue = 1"

definition kValueTypeForSeek :: ValueType where "kValueTypeForSeek = kTypeValue"

definition kMaxSequenceNumber :: u64 where "kMaxSequenceNumber = 2 ^ 56 - 1"

definition PackSequenceAndType :: "u64 \<Rightarrow> ValueType \<Rightarrow> u64" where
  "PackSequenceAndType seq t = push_bit 8 seq OR type_byte t"

record ParsedInternalKey =
  key_user :: slice
  key_sequence :: u64
  key_type :: ValueType

definition AppendInternalKey :: "byte list \<Rightarrow> ParsedInternalKey \<Rightarrow> byte list" where
  "AppendInternalKey result key =
     PutFixed64 (result @ key_user key) (PackSequenceAndType (key_sequence key) (key_type key))"

definition InternalKeyEncodingLength :: "ParsedInternalKey \<Rightarrow> nat" where
  "InternalKeyEncodingLength key = length (key_user key) + 8"

definition ExtractUserKey :: "slice \<Rightarrow> slice" where
  "ExtractUserKey internal_key = take (length internal_key - 8) internal_key"

definition key_num :: "slice \<Rightarrow> u64" where
  "key_num internal_key = DecodeFixed64 (drop (length internal_key - 8) internal_key)"

text \<open>The type byte as it stands in the key.\<close>

definition ExtractValueType :: "slice \<Rightarrow> byte" where
  "ExtractValueType internal_key = ucast (key_num internal_key AND 0xff)"

definition ParseInternalKey :: "slice \<Rightarrow> ParsedInternalKey option" where
  "ParseInternalKey internal_key =
     (let n = length internal_key in
      if n < 8 then None
      else
        let num = key_num internal_key; c = ucast (num AND 0xff) :: byte in
        if c \<le> 1 then Some \<lparr>key_user = take (n - 8) internal_key, key_sequence = drop_bit 8 num,
          key_type = (if c = 0 then kTypeDeletion else kTypeValue)\<rparr>
        else None)"

definition internal_compare :: "comparator \<Rightarrow> slice \<Rightarrow> slice \<Rightarrow> int" where
  "internal_compare c akey bkey =
     (let r = Compare c (ExtractUserKey akey) (ExtractUserKey bkey) in
      if r = 0 then
        let anum = key_num akey; bnum = key_num bkey in
        if bnum < anum then -1 else if anum < bnum then 1 else r
      else r)"

definition internal_separator :: "comparator \<Rightarrow> slice \<Rightarrow> slice \<Rightarrow> slice" where
  "internal_separator c start limit =
     (let user_start = ExtractUserKey start; user_limit = ExtractUserKey limit;
          tmp = FindShortestSeparator c user_start user_limit
      in if length tmp < length user_start \<and> Compare c user_start tmp < 0
         then PutFixed64 tmp (PackSequenceAndType kMaxSequenceNumber kValueTypeForSeek)
         else start)"

definition internal_successor :: "comparator \<Rightarrow> slice \<Rightarrow> slice" where
  "internal_successor c key =
     (let user_key = ExtractUserKey key; tmp = FindShortSuccessor c user_key
      in if length tmp < length user_key \<and> Compare c user_key tmp < 0
         then PutFixed64 tmp (PackSequenceAndType kMaxSequenceNumber kValueTypeForSeek)
         else key)"

definition InternalKeyComparator :: "comparator \<Rightarrow> comparator" where
  "InternalKeyComparator c = \<lparr>Compare = internal_compare c,
     FindShortestSeparator = internal_separator c, FindShortSuccessor = internal_successor c\<rparr>"

definition InternalFilterPolicy :: "filter_policy \<Rightarrow> filter_policy" where
  "InternalFilterPolicy p =
     \<lparr>CreateFilter = (\<lambda>keys dst. CreateFilter p (map ExtractUserKey keys) dst),
      KeyMayMatch = (\<lambda>key f. KeyMayMatch p (ExtractUserKey key) f)\<rparr>"

section \<open>Lookup keys\<close>

text \<open>The array and the position \<open>kstart_\<close> in it.\<close>

definition LookupKey :: "slice \<Rightarrow> u64 \<Rightarrow> byte list \<times> nat" where
  "LookupKey user_key s =
     (let start = EncodeVarint32 (word_of_nat (length user_key + 8))
      in (start @ user_key @ EncodeFixed64 (PackSequenceAndType s kValueTypeForSeek), length start))"

definition memtable_key :: "byte list \<times> nat \<Rightarrow> slice" where "memtable_key k = fst k"
definition lookup_internal_key :: "byte list \<times> nat \<Rightarrow> slice" where "lookup_internal_key k = drop (snd k) (fst k)"
definition lookup_user_key :: "byte list \<times> nat \<Rightarrow> slice" where
  "lookup_user_key k = take (length (fst k) - snd k - 8) (drop (snd k) (fst k))"

end
