(* ===== verification/Ldb_Key_Props.thy ===== *)
theory Ldb_Key_Props
  imports Ldb_Key Ldb_Filter_Props
begin

text \<open>
  The contract of a comparator as a locale, its interpretation by the bytewise order, and the
  order of internal keys as a comparator with that contract over every user comparator that
  has it.  Internal keys are parsed back from their serialisation.
\<close>

section \<open>The contract of a comparator\<close>

text \<open>The laws of \<open>include/leveldb/comparator.h\<close> on the keys in \<open>dom\<close>.  The last law is not in the
  documentation: a pair that is not in order is left alone.\<close>

locale comparator_contract =
  fixes c :: comparator and dom :: "slice \<Rightarrow> bool"
  assumes compare_eq: "dom a \<Longrightarrow> dom b \<Longrightarrow> Compare c a b = 0 \<longleftrightarrow> a = b"
    and compare_flip: "Compare c b a < 0 \<longleftrightarrow> 0 < Compare c a b"
    and compare_trans: "Compare c a b < 0 \<Longrightarrow> Compare c b d < 0 \<Longrightarrow> Compare c a d < 0"
    and separator_dom: "dom a \<Longrightarrow> dom b \<Longrightarrow> dom (FindShortestSeparator c a b)"
    and separator_ge: "dom a \<Longrightarrow> dom b \<Longrightarrow> Compare c a b < 0 \<Longrightarrow> Compare c a (FindShortestSeparator c a b) \<le> 0"
    and separator_less: "dom a \<Longrightarrow> dom b \<Longrightarrow> Compare c a b < 0 \<Longrightarrow> Compare c (FindShortestSeparator c a b) b < 0"
    and successor_dom: "dom a \<Longrightarrow> dom (FindShortSuccessor c a)"
    and successor_ge: "dom a \<Longrightarrow> Compare c a (FindShortSuccessor c a) \<le> 0"
    and no_separator: "dom a \<Longrightarrow> dom b \<Longrightarrow> \<not> Compare c a b < 0 \<Longrightarrow> FindShortestSeparator c a b = a"
begin

lemma compare_refl [simp]: "dom a \<Longrightarrow> Compare c a a = 0"
  by (simp add: compare_eq)

lemma compare_le_trans:
  "dom a \<Longrightarrow> dom b \<Longrightarrow> dom d \<Longrightarrow> Compare c a b \<le> 0 \<Longrightarrow> Compare c b d \<le> 0 \<Longrightarrow> Compare c a d \<le> 0"
  using compare_eq [of a b] compare_eq [of b d] compare_trans [of a b d] by (metis le_less)

end

section \<open>The bytewise order\<close>

lemma slice_compare_simps [simp]:
  "slice_compare [] [] = 0" "slice_compare [] (b # bs) = -1" "slice_compare (a # as) [] = 1"
  "slice_compare (a # as) (b # bs) = (if a < b then -1 else if b < a then 1 else slice_compare as bs)"
  by (auto simp: slice_compare_def Let_def)

lemma slice_compare_induct [case_names nil_nil nil_cons cons_nil cons]:
  assumes "P [] []" "\<And>b bs. P [] (b # bs)" "\<And>a as. P (a # as) []" "\<And>a as b bs. P as bs \<Longrightarrow> P (a # as) (b # bs)"
  shows "P (as :: slice) bs"
proof (induction as arbitrary: bs)
  case Nil
  then show ?case by (cases bs) (simp_all add: assms)
next
  case (Cons a as)
  then show ?case by (cases bs) (simp_all add: assms)
qed

lemma slice_compare_eq: "slice_compare a b = 0 \<longleftrightarrow> a = b"
  by (induction a b rule: slice_compare_induct) auto

lemma slice_compare_flip: "slice_compare b a = - slice_compare a b"
  by (induction a b rule: slice_compare_induct) auto

lemma slice_compare_trans: "slice_compare a b < 0 \<Longrightarrow> slice_compare b d < 0 \<Longrightarrow> slice_compare a d < 0"
proof (induction a b arbitrary: d rule: slice_compare_induct)
  case (nil_cons b bs)
  then show ?case by (cases d) simp_all
next
  case (cons x as y bs)
  then show ?case by (cases d) (auto split: if_splits)
qed simp_all

lemma slice_compare_append: "slice_compare (p @ a) (p @ b) = slice_compare a b"
  by (induction p) simp_all

lemma diff_index_spec:
  "i \<le> n \<Longrightarrow> i \<le> diff_index a b n i \<and> diff_index a b n i \<le> n \<and> (\<forall>j. i \<le> j \<longrightarrow> j < diff_index a b n i \<longrightarrow> a ! j = b ! j) \<and>
    (diff_index a b n i < n \<longrightarrow> a ! diff_index a b n i \<noteq> b ! diff_index a b n i)"
proof (induction a b n i rule: diff_index.induct)
  case (1 a b n i)
  show ?case
  proof (cases "i < n \<and> a ! i = b ! i")
    case True
    then have e: "diff_index a b n i = diff_index a b n (i + 1)" by (simp add: diff_index.simps [of a b n i])
    have "a ! j = b ! j" if "i \<le> j" "j < diff_index a b n (i + 1)" for j
      using 1(1) [OF True] True that by (cases "j = i") auto
    with 1(1) [OF True] True show ?thesis unfolding e by auto
  next
    case False
    then have "diff_index a b n i = i" unfolding diff_index.simps [of a b n i] by (rule if_not_P)
    with False 1(2) show ?thesis by auto
  qed
qed

text \<open>Either the first key is returned, or the two keys part at a byte that leaves room in between.\<close>

lemma separator_cases:
  obtains (same) "bytewise_separator a b = a"
  | (parted) p x y a' b' where "a = p @ x # a'" "b = p @ y # b'" "unat x + 1 < unat y"
      "bytewise_separator a b = p @ [x + 1]"
proof -
  let ?n = "min (length a) (length b)"
  let ?i = "diff_index a b ?n 0"
  have d: "?i \<le> ?n" "\<And>j. j < ?i \<Longrightarrow> a ! j = b ! j" using diff_index_spec [of 0 ?n a b] by auto
  show ?thesis
  proof (cases "?i < ?n \<and> a ! ?i < 0xff \<and> unat (a ! ?i) + 1 < unat (b ! ?i)")
    case True
    have t: "take ?i a = take ?i b" using d True by (intro nth_equalityI) simp_all
    have a: "a = take ?i a @ a ! ?i # drop (Suc ?i) a" using True by (simp add: id_take_nth_drop [symmetric])
    have b: "b = take ?i a @ b ! ?i # drop (Suc ?i) b" unfolding t using True by (simp add: id_take_nth_drop [symmetric])
    have "bytewise_separator a b = take (?i + 1) (a[?i := a ! ?i + 1])" 
      using True by (simp only: bytewise_separator_def Let_def not_le [symmetric] simp_thms if_True if_False)
    also have "\<dots> = take ?i a @ [a ! ?i + 1]" using True by (simp add: take_Suc_conv_app_nth)
    finally show ?thesis using parted [OF a b] True by blast
  next
    case False
    have "bytewise_separator a b = a"
    proof (cases "?n \<le> ?i")
      case True
      then show ?thesis unfolding bytewise_separator_def Let_def by (rule if_P)
    next
      case False
      with \<open>\<not> (?i < ?n \<and> _)\<close> have "\<not> (a ! ?i < 0xff \<and> unat (a ! ?i) + 1 < unat (b ! ?i))" by (simp only: not_le simp_thms)
      then show ?thesis unfolding bytewise_separator_def Let_def by (simp only: if_False if_cancel)
    qed
    then show ?thesis by (rule same)
  qed
qed

lemma successor_loop_ge: "successor_loop k = Some s \<Longrightarrow> slice_compare k s < 0"
proof (induction k arbitrary: s)
  case (Cons b bs)
  have "b < b + 1" if "b \<noteq> 0xff"
  proof -
    have "unat b < 255" using that unsigned_less [of b, where ?'a = nat] by (simp add: word_unat_eq_iff)
    then show ?thesis by (simp add: word_less_nat_alt unat_word_ariths)
  qed
  with Cons show ?case by (auto split: if_splits)
qed simp

lemma Compare_bytewise: "Compare BytewiseComparator = slice_compare"
  by (simp add: BytewiseComparator_def)

interpretation bytewise: comparator_contract BytewiseComparator "\<lambda>_. True"
proof
  fix a b d :: slice
  let ?c = "slice_compare" and ?s = "bytewise_separator a b"
  have c: "Compare BytewiseComparator = slice_compare" "FindShortestSeparator BytewiseComparator = bytewise_separator"
    "FindShortSuccessor BytewiseComparator = bytewise_successor" by (simp_all add: BytewiseComparator_def)
  show "Compare BytewiseComparator a b = 0 \<longleftrightarrow> a = b" by (simp add: c slice_compare_eq)
  show "Compare BytewiseComparator b a < 0 \<longleftrightarrow> 0 < Compare BytewiseComparator a b"
    using slice_compare_flip [of a b] by (simp add: c)
  show "Compare BytewiseComparator a b < 0 \<Longrightarrow> Compare BytewiseComparator b d < 0 \<Longrightarrow> Compare BytewiseComparator a d < 0"
    unfolding c by (rule slice_compare_trans)
  have plus: "x < x + 1 \<and> x + 1 < y" if "unat x + 1 < unat y" for x y :: byte
    using that unsigned_less [of y, where ?'a = nat] by (simp add: word_less_nat_alt unat_word_ariths)
  have sep: "?c a ?s \<le> 0 \<and> (?c a b < 0 \<longrightarrow> ?c ?s b < 0) \<and> (\<not> ?c a b < 0 \<longrightarrow> ?s = a)"
  proof (cases rule: separator_cases [of a b])
    case same
    then show ?thesis using slice_compare_eq [of a a] by simp
  next
    case (parted p x y a' b')
    from plus [OF parted(3)] show ?thesis
      unfolding parted(4) unfolding parted(1,2) slice_compare_append by auto
  qed
  show "Compare BytewiseComparator a b < 0 \<Longrightarrow> Compare BytewiseComparator a (FindShortestSeparator BytewiseComparator a b) \<le> 0"
    "Compare BytewiseComparator a b < 0 \<Longrightarrow> Compare BytewiseComparator (FindShortestSeparator BytewiseComparator a b) b < 0"
    "\<not> Compare BytewiseComparator a b < 0 \<Longrightarrow> FindShortestSeparator BytewiseComparator a b = a"
    using sep by (simp_all add: c)
  show "Compare BytewiseComparator a (FindShortSuccessor BytewiseComparator a) \<le> 0"
    using successor_loop_ge [of a] slice_compare_eq [of a a]
    by (cases "successor_loop a") (simp_all add: c bytewise_successor_def)
qed simp_all

section \<open>The order of internal keys\<close>

lemma internal_parts:
  assumes "8 \<le> length k"
  shows "k = ExtractUserKey k @ EncodeFixed64 (key_num k)"
proof -
  have "le_bytes (length (drop (length k - 8) k)) (of_le (drop (length k - 8) k) :: u64) = drop (length k - 8) k"
    using assms by (intro le_bytes_of_le) simp
  with assms show ?thesis
    by (simp add: ExtractUserKey_def key_num_def DecodeFixed64_def kLittleEndian_def EncodeFixed64_le)
qed

lemma extract_Put [simp]: "ExtractUserKey (PutFixed64 u n) = u" "key_num (PutFixed64 u n) = n"
  "8 \<le> length (PutFixed64 u n)"
  by (simp_all add: ExtractUserKey_def key_num_def PutFixed64_def)

lemma InternalKeyComparator_simps [simp]:
  "Compare (InternalKeyComparator c) = internal_compare c"
  "FindShortestSeparator (InternalKeyComparator c) = internal_separator c"
  "FindShortSuccessor (InternalKeyComparator c) = internal_successor c"
  by (simp_all add: InternalKeyComparator_def)

locale user_order = comparator_contract c "\<lambda>_. True" for c
begin

lemma user_zero: "Compare c a b = 0 \<longleftrightarrow> a = b"
  by (simp add: compare_eq)

lemma user_trichotomy: "Compare c a b < 0 \<or> a = b \<or> Compare c b a < 0"
  using user_zero [of a b] compare_flip [where a = a and b = b] by linarith

text \<open>The order: by user key, and on the same user key the greater number first.\<close>

lemma internal_less:
  "internal_compare c a b < 0 \<longleftrightarrow>
    Compare c (ExtractUserKey a) (ExtractUserKey b) < 0 \<or>
    ExtractUserKey a = ExtractUserKey b \<and> key_num b < key_num a"
  using user_zero [of "ExtractUserKey a" "ExtractUserKey b"] by (auto simp: internal_compare_def Let_def)

lemma internal_greater:
  "0 < internal_compare c a b \<longleftrightarrow>
    0 < Compare c (ExtractUserKey a) (ExtractUserKey b) \<or>
    ExtractUserKey a = ExtractUserKey b \<and> key_num a < key_num b"
  using user_zero [of "ExtractUserKey a" "ExtractUserKey b"] by (auto simp: internal_compare_def Let_def)

lemma internal_zero:
  "internal_compare c a b = 0 \<longleftrightarrow> ExtractUserKey a = ExtractUserKey b \<and> key_num a = key_num b"
  using user_zero [of "ExtractUserKey a" "ExtractUserKey b"] by (auto simp: internal_compare_def Let_def)

lemma shortened_less:
  "Compare c (ExtractUserKey a) s < 0 \<Longrightarrow> internal_compare c a (PutFixed64 s n) < 0"
  by (simp add: internal_less)

end

sublocale user_order \<subseteq> internal: comparator_contract "InternalKeyComparator c" "\<lambda>k. 8 \<le> length k"
proof
  fix a b d :: slice
  let ?k = "InternalKeyComparator c" and ?u = ExtractUserKey
  show "Compare ?k a b = 0 \<longleftrightarrow> a = b" if "8 \<le> length a" "8 \<le> length b"
    using internal_parts [OF that(1)] internal_parts [OF that(2)] by (simp add: internal_zero) metis
  show "Compare ?k b a < 0 \<longleftrightarrow> 0 < Compare ?k a b"
    by (auto simp: internal_less internal_greater compare_flip [where a = "?u a" and b = "?u b"])
  show "Compare ?k a d < 0" if "Compare ?k a b < 0" "Compare ?k b d < 0"
    using that compare_trans [of "?u a" "?u b" "?u d"] by (auto simp: internal_less)
  show "8 \<le> length (FindShortestSeparator ?k a b)" if "8 \<le> length a" "8 \<le> length b"
    using that by (auto simp: internal_separator_def Let_def)
  show "8 \<le> length (FindShortSuccessor ?k a)" if "8 \<le> length a"
    using that by (auto simp: internal_successor_def Let_def)
  have refl: "internal_compare c a a = 0" by (simp add: internal_zero)
  show "Compare ?k a (FindShortSuccessor ?k a) \<le> 0"
    using refl by (auto simp: internal_successor_def Let_def intro!: less_imp_le [OF shortened_less])
  show "Compare ?k a (FindShortestSeparator ?k a b) \<le> 0"
    using refl by (auto simp: internal_separator_def Let_def intro!: less_imp_le [OF shortened_less])
  show "Compare ?k (FindShortestSeparator ?k a b) b < 0" if "Compare ?k a b < 0"
  proof (cases "Compare c (?u a) (?u b) < 0")
    case True
    then show ?thesis
      using that separator_less [of "?u a" "?u b"] by (auto simp: internal_separator_def Let_def internal_less)
  next
    case False
    with that no_separator [of "?u a" "?u b"] show ?thesis by (auto simp: internal_separator_def Let_def user_zero)
  qed
  show "FindShortestSeparator ?k a b = a" if "\<not> Compare ?k a b < 0"
    using that no_separator [of "?u a" "?u b"] by (auto simp: internal_separator_def Let_def internal_less user_zero)
qed

interpretation bytewise_user: user_order BytewiseComparator ..

section \<open>Filters on internal keys\<close>

text \<open>The wrapped policy keeps the contract, and ignores the sequence number and the type.\<close>

interpretation internal_bloom: filter_contract "InternalFilterPolicy (NewBloomFilterPolicy b)" "bloom_bound b"
proof
  show "CreateFilter (InternalFilterPolicy (NewBloomFilterPolicy b)) keys dst =
      dst @ CreateFilter (InternalFilterPolicy (NewBloomFilterPolicy b)) keys []" for keys dst
    unfolding InternalFilterPolicy_def filter_policy.simps by (rule bloom.appends)
  show "KeyMayMatch (InternalFilterPolicy (NewBloomFilterPolicy b)) key
      (CreateFilter (InternalFilterPolicy (NewBloomFilterPolicy b)) keys [])"
    if "length keys \<le> bloom_bound b" "key \<in> set keys" for keys key
    using that bloom.no_false_negative [of "map ExtractUserKey keys" b "ExtractUserKey key"]
    by (simp add: InternalFilterPolicy_def)
qed

section \<open>Packing and parsing\<close>

lemma bit_type_byte: "bit (type_byte t) n \<Longrightarrow> n < 8"
  by (cases t) (auto simp: bit_1_iff)

lemma pack_low: "PackSequenceAndType s t AND 0xff = type_byte t"
proof (rule bit_word_eqI)
  fix n assume "n < LENGTH(64)"
  have m: "(0xff :: u64) = mask 8" by (simp add: mask_eq_exp_minus_1)
  show "bit (PackSequenceAndType s t AND 0xff) n \<longleftrightarrow> bit (type_byte t) n"
    unfolding PackSequenceAndType_def m
    by (auto simp: bit_and_iff bit_or_iff bit_push_bit_iff bit_mask_iff dest: bit_type_byte bit_imp_le_length)
qed

lemma pack_high: "s \<le> kMaxSequenceNumber \<Longrightarrow> drop_bit 8 (PackSequenceAndType s t) = s"
proof (rule bit_word_eqI)
  fix n assume s: "s \<le> kMaxSequenceNumber" and n: "n < LENGTH(64)"
  have "s < 2 ^ 56" using s by (simp add: kMaxSequenceNumber_def word_le_nat_alt word_less_nat_alt)
  then have "take_bit 56 s = s" by (rule take_bit_lt)
  then have "bit s n \<Longrightarrow> n < 56" by (metis bit_take_bit_iff)
  then show "bit (drop_bit 8 (PackSequenceAndType s t)) n \<longleftrightarrow> bit s n"
    using bit_type_byte [of t "8 + n"]
    by (auto simp: PackSequenceAndType_def bit_drop_bit_eq bit_or_iff bit_push_bit_iff bit_imp_le_length)
qed

lemma pack_num: "s \<le> kMaxSequenceNumber \<Longrightarrow> unat (PackSequenceAndType s t) = 256 * unat s + unat (type_byte t)"
proof -
  assume "s \<le> kMaxSequenceNumber"
  then have "unat (PackSequenceAndType s t) div 2 ^ 8 = unat s"
    using unat_drop_bit [of 8 "PackSequenceAndType s t"] by (simp add: pack_high)
  moreover have "unat (PackSequenceAndType s t) mod 2 ^ 8 = unat (type_byte t)"
  proof -
    have "take_bit 8 (PackSequenceAndType s t) = type_byte t"
      using pack_low [of s t] by (simp add: take_bit_eq_mask mask_eq_exp_minus_1)
    then have "unat (take_bit 8 (PackSequenceAndType s t)) = unat (type_byte t)" by simp
    then show ?thesis by (simp only: unsigned_take_bit_eq) (simp only: take_bit_eq_mod)
  qed
  ultimately show ?thesis using div_mult_mod_eq [of "unat (PackSequenceAndType s t)" "2 ^ 8"] by simp
qed

lemma Append_Parse:
  "key_sequence k \<le> kMaxSequenceNumber \<Longrightarrow> ParseInternalKey (AppendInternalKey [] k) = Some k"
  by (cases "key_type k")
    (simp_all add: ParseInternalKey_def AppendInternalKey_def pack_low pack_high Let_def,
     simp_all add: PutFixed64_def)

lemma lookup_internal_key_eq:
  "lookup_internal_key (LookupKey u s) = AppendInternalKey [] \<lparr>key_user = u, key_sequence = s, key_type = kTypeValue\<rparr>"
  by (simp add: lookup_internal_key_def LookupKey_def AppendInternalKey_def PutFixed64_def Let_def kValueTypeForSeek_def)

lemma lookup_user_key_eq: "lookup_user_key (LookupKey u s) = u"
  by (simp add: lookup_user_key_def LookupKey_def Let_def)

text \<open>On one user key, the entries from the lookup key on are those of the snapshot.\<close>

lemma lookup_sees:
  assumes "s \<le> kMaxSequenceNumber" "key_sequence k \<le> kMaxSequenceNumber" "key_user k = u"
  shows "internal_compare BytewiseComparator (lookup_internal_key (LookupKey u s)) (AppendInternalKey [] k) \<le> 0 \<longleftrightarrow>
    key_sequence k \<le> s"
proof -
  have "unat (type_byte (key_type k)) \<le> 1" by (cases "key_type k") simp_all
  then have "\<not> PackSequenceAndType s kTypeValue < PackSequenceAndType (key_sequence k) (key_type k) \<longleftrightarrow> key_sequence k \<le> s"
    using pack_num [OF assms(1), of kTypeValue] pack_num [OF assms(2), of "key_type k"]
    by (simp add: word_less_nat_alt word_le_nat_alt) linarith
  then show ?thesis
    using bytewise_user.internal_greater [of "lookup_internal_key (LookupKey u s)" "AppendInternalKey [] k"] assms(3)
    by (simp add: not_less [symmetric] lookup_internal_key_eq AppendInternalKey_def)
qed

section \<open>Properties\<close>

text \<open>The serialised form of an internal key is parsed back to it, for every sequence number the
  format has room for; the parts that the code cuts out of the bytes are those of the key.\<close>

theorem internal_key_roundtrip:
  assumes "key_sequence k \<le> kMaxSequenceNumber"
  shows "ParseInternalKey (AppendInternalKey [] k) = Some k \<and>
    ExtractUserKey (AppendInternalKey [] k) = key_user k \<and>
    length (AppendInternalKey [] k) = InternalKeyEncodingLength k"
  using Append_Parse [OF assms] by (simp add: AppendInternalKey_def InternalKeyEncodingLength_def) (simp add: PutFixed64_def)

theorem internal_key_roundtrip_witness:
  "ParseInternalKey (AppendInternalKey [] \<lparr>key_user = [1, 2], key_sequence = 77, key_type = kTypeDeletion\<rparr>) =
    Some \<lparr>key_user = [1, 2], key_sequence = 77, key_type = kTypeDeletion\<rparr>"
  using internal_key_roundtrip [of "\<lparr>key_user = [1, 2], key_sequence = 77, key_type = kTypeDeletion\<rparr>"]
  by (simp add: kMaxSequenceNumber_def word_le_nat_alt)

text \<open>C25: the key that the index of a table stores for two neighbouring internal keys lies at or
  after the first and before the second, whatever was cut from the user key; and the short
  successor stored for the last key lies at or after it.\<close>

theorem internal_separator_between:
  assumes "8 \<le> length a" "8 \<le> length b" "internal_compare BytewiseComparator a b < 0"
  shows "internal_compare BytewiseComparator a (internal_separator BytewiseComparator a b) \<le> 0 \<and>
    internal_compare BytewiseComparator (internal_separator BytewiseComparator a b) b < 0 \<and>
    internal_compare BytewiseComparator b (internal_successor BytewiseComparator b) \<le> 0"
  using bytewise_user.internal.separator_ge [of a b] bytewise_user.internal.separator_less [of a b]
    bytewise_user.internal.successor_ge [of b] assms by simp

theorem internal_separator_between_witness:
  "internal_compare BytewiseComparator (replicate 9 1) (internal_separator BytewiseComparator (replicate 9 1) (replicate 9 3)) \<le> 0"
proof -
  have "ExtractUserKey (replicate 9 1) = [1]" "ExtractUserKey (replicate 9 3) = [3]"
    by (simp_all add: ExtractUserKey_def)
  then have "internal_compare BytewiseComparator (replicate 9 1) (replicate 9 3) < 0"
    by (simp add: bytewise_user.internal_less Compare_bytewise)
  then show ?thesis using internal_separator_between [of "replicate 9 1" "replicate 9 3"] by simp
qed

text \<open>A lookup sees exactly its snapshot: among the entries of one user key, those at or after
  the lookup key in the order of the memtable and of the tables are the ones whose sequence number is
  at most the snapshot's, deletions included.\<close>

theorem lookup_sees_snapshot:
  assumes "s \<le> kMaxSequenceNumber" "key_sequence k \<le> kMaxSequenceNumber"
  shows "internal_compare BytewiseComparator (lookup_internal_key (LookupKey (key_user k) s)) (AppendInternalKey [] k) \<le> 0 \<longleftrightarrow>
    key_sequence k \<le> s"
  by (rule lookup_sees [OF assms refl])

theorem lookup_sees_snapshot_witness:
  "\<not> internal_compare BytewiseComparator (lookup_internal_key (LookupKey [7] 4))
    (AppendInternalKey [] \<lparr>key_user = [7], key_sequence = 5, key_type = kTypeDeletion\<rparr>) \<le> 0"
  using lookup_sees_snapshot [of 4 "\<lparr>key_user = [7], key_sequence = 5, key_type = kTypeDeletion\<rparr>"]
  by (simp add: kMaxSequenceNumber_def word_le_nat_alt)

end
