(* ===== verification/Ldb_Skiplist.thy ===== *)
theory Ldb_Skiplist
  imports Prelude
begin

text \<open>
  The skip list of the memtable, \<open>db/skiplist.h\<close>, with the generator of \<open>util/random.h\<close> that chooses
  the heights.  The nodes live in a heap that is split by field: \<open>node_key\<close> gives the key of a node
  and \<open>node_next\<close> its link on each level, \<open>None\<close> for NULL.  Node \<open>0\<close> is the head; a new node gets the
  number \<open>allocated\<close>, since the arena never hands out memory twice.  A search that follows a cycle
  of links would not end; the loops are partial functions with value \<open>None\<close> there.
\<close>

section \<open>Random numbers\<close>

definition Random :: "u32 \<Rightarrow> u32" where
  "Random s = (let seed = s AND 0x7fffffff in if seed = 0 \<or> seed = 2147483647 then 1 else seed)"

definition Random_Next :: "u32 \<Rightarrow> u32" where
  "Random_Next seed =
     (let M = 2147483647 :: u64; A = 16807 :: u64;
          product = ucast seed * A;
          seed1 = ucast (drop_bit 31 product + (product AND M)) :: u32
      in if ucast M < seed1 then seed1 - ucast M else seed1)"

section \<open>The list\<close>

definition kMaxHeight :: nat where "kMaxHeight = 12"

record 'k skip_list =
  node_key :: "nat \<Rightarrow> 'k"
  node_next :: "nat \<Rightarrow> nat \<Rightarrow> nat option"
  allocated :: nat
  max_height :: nat
  rnd :: u32

definition NewNode :: "'k \<Rightarrow> 'k skip_list \<Rightarrow> nat \<times> 'k skip_list" where
  "NewNode key s = (allocated s, s\<lparr>node_key := (node_key s)(allocated s := key), allocated := Suc (allocated s)\<rparr>)"

text \<open>The links of a new node are uninitialised memory; \<open>junk\<close> stands for them.\<close>

definition SkipList :: "'k \<Rightarrow> (nat \<Rightarrow> nat \<Rightarrow> nat option) \<Rightarrow> 'k skip_list" where
  "SkipList any_key junk =
     (let s0 = \<lparr>node_key = (\<lambda>_. any_key), node_next = junk, allocated = 0, max_height = 1, rnd = Random 0xdeadbeef\<rparr>;
          (head, s1) = NewNode any_key s0
      in s1\<lparr>node_next := (node_next s1)(head := (\<lambda>i. if i < kMaxHeight then None else node_next s1 head i))\<rparr>)"

fun height_loop :: "nat \<Rightarrow> nat \<Rightarrow> u32 \<Rightarrow> nat \<times> u32" where
  "height_loop 0 height r = (height, r)"
| "height_loop (Suc rounds) height r =
     (let r' = Random_Next r in
      if r' mod 4 = 0 then height_loop rounds (height + 1) r' else (height, r'))"

text \<open>The loop runs while \<open>height < kMaxHeight\<close>, at most \<open>kMaxHeight - 1\<close> times.\<close>

definition RandomHeight :: "u32 \<Rightarrow> nat \<times> u32" where
  "RandomHeight r = height_loop (kMaxHeight - 1) 1 r"

definition KeyIsAfterNode :: "('k \<Rightarrow> 'k \<Rightarrow> int) \<Rightarrow> 'k skip_list \<Rightarrow> 'k \<Rightarrow> nat option \<Rightarrow> bool" where
  "KeyIsAfterNode compare s key n = (case n of None \<Rightarrow> False | Some n \<Rightarrow> compare (node_key s n) key < 0)"

partial_function (option) find_ge_loop ::
  "('k \<Rightarrow> 'k \<Rightarrow> int) \<Rightarrow> 'k skip_list \<Rightarrow> 'k \<Rightarrow> nat \<Rightarrow> nat \<Rightarrow> (nat \<Rightarrow> nat) \<Rightarrow> (nat option \<times> (nat \<Rightarrow> nat)) option" where
  "find_ge_loop compare s key x level prev =
     (let nxt = node_next s x level in
      if KeyIsAfterNode compare s key nxt then find_ge_loop compare s key (the nxt) level prev
      else
        let prev' = prev(level := x) in
        if level = 0 then Some (nxt, prev') else find_ge_loop compare s key x (level - 1) prev')"

definition FindGreaterOrEqual ::
  "('k \<Rightarrow> 'k \<Rightarrow> int) \<Rightarrow> 'k skip_list \<Rightarrow> 'k \<Rightarrow> (nat \<Rightarrow> nat) \<Rightarrow> (nat option \<times> (nat \<Rightarrow> nat)) option" where
  "FindGreaterOrEqual compare s key prev = find_ge_loop compare s key 0 (max_height s - 1) prev"

partial_function (option) find_lt_loop :: "('k \<Rightarrow> 'k \<Rightarrow> int) \<Rightarrow> 'k skip_list \<Rightarrow> 'k \<Rightarrow> nat \<Rightarrow> nat \<Rightarrow> nat option" where
  "find_lt_loop compare s key x level =
     (let nxt = node_next s x level in
      if nxt = None \<or> 0 \<le> compare (node_key s (the nxt)) key then
        if level = 0 then Some x else find_lt_loop compare s key x (level - 1)
      else find_lt_loop compare s key (the nxt) level)"

definition FindLessThan :: "('k \<Rightarrow> 'k \<Rightarrow> int) \<Rightarrow> 'k skip_list \<Rightarrow> 'k \<Rightarrow> nat option" where
  "FindLessThan compare s key = find_lt_loop compare s key 0 (max_height s - 1)"

partial_function (option) find_last_loop :: "'k skip_list \<Rightarrow> nat \<Rightarrow> nat \<Rightarrow> nat option" where
  "find_last_loop s x level =
     (let nxt = node_next s x level in
      if nxt = None then if level = 0 then Some x else find_last_loop s x (level - 1)
      else find_last_loop s (the nxt) level)"

definition FindLast :: "'k skip_list \<Rightarrow> nat option" where
  "FindLast s = find_last_loop s 0 (max_height s - 1)"

text \<open>One round of the loop that links the new node \<open>x\<close>: first its own link, then the one of its
  predecessor, which makes the node visible on this level.\<close>

definition SetNext :: "nat \<Rightarrow> nat \<Rightarrow> nat option \<Rightarrow> 'k skip_list \<Rightarrow> 'k skip_list" where
  "SetNext n i x s = s\<lparr>node_next := (node_next s)(n := (node_next s n)(i := x))\<rparr>"

definition link_level :: "(nat \<Rightarrow> nat) \<Rightarrow> nat \<Rightarrow> nat \<Rightarrow> 'k skip_list \<Rightarrow> 'k skip_list" where
  "link_level prev x i s = (let s1 = SetNext x i (node_next s (prev i) i) s in SetNext (prev i) i (Some x) s1)"

text \<open>The array \<open>prev\<close> is uninitialised; \<open>prev0\<close> stands for its contents.\<close>

definition skip_Insert :: "('k \<Rightarrow> 'k \<Rightarrow> int) \<Rightarrow> (nat \<Rightarrow> nat) \<Rightarrow> 'k \<Rightarrow> 'k skip_list \<Rightarrow> 'k skip_list option" where
  "skip_Insert compare prev0 key s =
     (case FindGreaterOrEqual compare s key prev0 of
        None \<Rightarrow> None
      | Some (_, prev) \<Rightarrow>
         let (height, r) = RandomHeight (rnd s);
             s1 = s\<lparr>rnd := r\<rparr>;
             (prev1, s2) =
               (if max_height s1 < height
                then ((\<lambda>i. if max_height s1 \<le> i \<and> i < height then 0 else prev i), s1\<lparr>max_height := height\<rparr>)
                else (prev, s1));
             (x, s3) = NewNode key s2
         in Some (fold (link_level prev1 x) [0..<height] s3))"

definition Contains :: "('k \<Rightarrow> 'k \<Rightarrow> int) \<Rightarrow> 'k \<Rightarrow> 'k skip_list \<Rightarrow> bool option" where
  "Contains compare key s =
     (case FindGreaterOrEqual compare s key (\<lambda>_. 0) of
        None \<Rightarrow> None
      | Some (x, _) \<Rightarrow> Some (case x of None \<Rightarrow> False | Some n \<Rightarrow> compare key (node_key s n) = 0))"

section \<open>Iterators\<close>

text \<open>An iterator is the node it stands on, \<open>None\<close> when it is not valid.\<close>

definition sl_Valid :: "nat option \<Rightarrow> bool" where "sl_Valid it \<longleftrightarrow> it \<noteq> None"
definition sl_key :: "'k skip_list \<Rightarrow> nat option \<Rightarrow> 'k" where "sl_key s it = node_key s (the it)"
definition sl_Next :: "'k skip_list \<Rightarrow> nat option \<Rightarrow> nat option" where "sl_Next s it = node_next s (the it) 0"

definition sl_Prev :: "('k \<Rightarrow> 'k \<Rightarrow> int) \<Rightarrow> 'k skip_list \<Rightarrow> nat option \<Rightarrow> nat option option" where
  "sl_Prev compare s it =
     map_option (\<lambda>n. if n = 0 then None else Some n) (FindLessThan compare s (node_key s (the it)))"

definition sl_Seek :: "('k \<Rightarrow> 'k \<Rightarrow> int) \<Rightarrow> 'k skip_list \<Rightarrow> 'k \<Rightarrow> nat option option" where
  "sl_Seek compare s target = map_option fst (FindGreaterOrEqual compare s target (\<lambda>_. 0))"

definition sl_SeekToFirst :: "'k skip_list \<Rightarrow> nat option" where
  "sl_SeekToFirst s = node_next s 0 0"

definition sl_SeekToLast :: "'k skip_list \<Rightarrow> nat option option" where
  "sl_SeekToLast s = map_option (\<lambda>n. if n = 0 then None else Some n) (FindLast s)"

end
