(* ===== verification/Ldb_Skiplist_Props.thy ===== *)
theory Ldb_Skiplist_Props
  imports Ldb_Skiplist
begin

text \<open>
  Correctness of the skip list against the sorted list of its keys.  \<open>shape s ls\<close> is the invariant:
  on each level \<open>l\<close> the links from the head run through the nodes \<open>ls l\<close>, each level through
  a part of the one below, in strictly ascending order of the keys.  It also holds between the
  steps of an insertion, which is what the concurrent readers rely on.
\<close>

section \<open>Chains of links\<close>

primrec chain :: "(nat \<Rightarrow> nat \<Rightarrow> nat option) \<Rightarrow> nat \<Rightarrow> nat \<Rightarrow> nat list \<Rightarrow> bool" where
  "chain nx l x [] \<longleftrightarrow> nx x l = None"
| "chain nx l x (y # ys) \<longleftrightarrow> nx x l = Some y \<and> chain nx l y ys"

lemma chain_tail: "chain nx l x (us @ v # vs) \<Longrightarrow> chain nx l v vs"
proof (induction us arbitrary: x)
  case (Cons u us)
  then show ?case using Cons.IH [of u] by simp
qed simp

lemma chain_part:
  assumes "chain nx l x0 (us @ vs)" "x \<in> insert x0 (set us)"
  obtains q where "chain nx l x (q @ vs)" "set q \<subseteq> set us" "last (x # q) = last (x0 # us)"
proof (cases "x = x0")
  case True
  with assms(1) show ?thesis by (intro that [of us]) simp_all
next
  case False
  with assms(2) obtain p q where us: "us = p @ x # q" by (auto dest: split_list)
  with assms(1) have "chain nx l x (q @ vs)" by (auto dest: chain_tail [of nx l x0 p x "q @ vs"])
  with us show ?thesis by (intro that [of q]) auto
qed

definition set_link :: "(nat \<Rightarrow> nat \<Rightarrow> nat option) \<Rightarrow> nat \<Rightarrow> nat \<Rightarrow> nat option \<Rightarrow> nat \<Rightarrow> nat \<Rightarrow> nat option" where
  "set_link nx n i v = nx(n := (nx n)(i := v))"

lemma set_link_same [simp]: "set_link nx n i v n i = v"
  by (simp add: set_link_def)

lemma set_link_other [simp]: "m \<noteq> n \<or> j \<noteq> i \<Longrightarrow> set_link nx n i v m j = nx m j"
  by (auto simp: set_link_def)

lemma chain_set_other: "l \<noteq> i \<or> n \<notin> set (x # ys) \<Longrightarrow> chain (set_link nx n i v) l x ys = chain nx l x ys"
  by (induction ys arbitrary: x) auto

lemma chain_insert:
  assumes "chain nx l x (us @ vs)" "n \<notin> set (x # us @ vs)" "distinct (x # us @ vs)"
    "nx n l = nx (last (x # us)) l"
  shows "chain (set_link nx (last (x # us)) l (Some n)) l x (us @ n # vs)"
  using assms
proof (induction us arbitrary: x)
  case Nil
  then show ?case by (cases vs) (simp_all add: chain_set_other)
next
  case (Cons u us)
  have "last (u # us) \<noteq> x" using Cons.prems(3) last_in_set [of "u # us"] by auto
  with Cons show ?case by simp
qed

section \<open>Searching\<close>

text \<open>All three searches follow the links while the next node is before the target, and go down a
  level otherwise.  \<open>F\<close> stands for the loop and \<open>R\<close> for what it returns on the lowest level.\<close>

definition option_hd :: "'a list \<Rightarrow> 'a option" where
  "option_hd xs = (case xs of [] \<Rightarrow> None | x # _ \<Rightarrow> Some x)"

lemma search_walk:
  assumes eq: "\<And>x. F x = (case nx x l of Some y \<Rightarrow> if P y then F y else S x | None \<Rightarrow> S x)"
  shows "chain nx l x (us @ vs) \<Longrightarrow> \<forall>u\<in>set us. P u \<Longrightarrow> \<forall>v\<in>set vs. \<not> P v \<Longrightarrow>
    F x = S (last (x # us)) \<and> nx (last (x # us)) l = option_hd vs"
proof (induction us arbitrary: x)
  case Nil
  then show ?case by (cases vs) (simp_all add: option_hd_def eq [of x])
next
  case (Cons u us)
  then show ?case by (simp add: eq [of x])
qed

lemma search_descend:
  fixes F :: "nat \<Rightarrow> nat \<Rightarrow> (nat \<Rightarrow> nat) \<Rightarrow> 'r"
  assumes eq: "\<And>x l prev. F x l prev = (let S = \<lambda>x. if l = 0 then R (nx x l) x (prev(l := x)) else F x (l - 1) (prev(l := x))
      in case nx x l of Some y \<Rightarrow> if P y then F y l prev else S x | None \<Rightarrow> S x)"
    and chains: "\<And>l. l \<le> L \<Longrightarrow> chain nx l 0 (ls l)"
    and split: "\<And>l. l \<le> L \<Longrightarrow> ls l = filter P (ls l) @ filter (\<lambda>n. \<not> P n) (ls l)"
    and sub: "\<And>l. l < L \<Longrightarrow> set (ls (Suc l)) \<subseteq> set (ls l)"
    and x: "x \<in> insert 0 (set (filter P (ls L)))"
  shows "F x L prev = R (option_hd (filter (\<lambda>n. \<not> P n) (ls 0))) (last (0 # filter P (ls 0)))
    (\<lambda>i. if i \<le> L then last (0 # filter P (ls i)) else prev i)"
proof -
  have walk: "F x l prev = (let y = last (0 # filter P (ls l)); prev' = prev(l := y) in
      if l = 0 then R (option_hd (filter (\<lambda>n. \<not> P n) (ls l))) y prev' else F y (l - 1) prev')"
    if "l \<le> L" and x: "x \<in> insert 0 (set (filter P (ls l)))" for l x prev
  proof -
    have "chain nx l 0 (filter P (ls l) @ filter (\<lambda>n. \<not> P n) (ls l))" using chains [OF \<open>l \<le> L\<close>] split [OF \<open>l \<le> L\<close>] by metis
    then obtain q where q: "chain nx l x (q @ filter (\<lambda>n. \<not> P n) (ls l))" "set q \<subseteq> set (filter P (ls l))"
        "last (x # q) = last (0 # filter P (ls l))"
      using x by (rule chain_part)
    let ?S = "\<lambda>x. if l = 0 then R (nx x l) x (prev(l := x)) else F x (l - 1) (prev(l := x))"
    have "\<And>x. F x l prev = (case nx x l of Some y \<Rightarrow> if P y then F y l prev else ?S x | None \<Rightarrow> ?S x)"
      by (subst eq) (simp only: Let_def)
    moreover have "\<forall>u\<in>set q. P u" "\<forall>v\<in>set (filter (\<lambda>n. \<not> P n) (ls l)). \<not> P v" using q(2) by auto
    ultimately have w: "F x l prev = ?S (last (x # q)) \<and> nx (last (x # q)) l = option_hd (filter (\<lambda>n. \<not> P n) (ls l))"
      using search_walk [where F = "\<lambda>x. F x l prev" and P = P and S = ?S, OF _ q(1)] by blast
    show ?thesis unfolding w [THEN conjunct1] q(3) w [THEN conjunct2, unfolded q(3)] Let_def by (rule refl)
  qed
  show ?thesis
    using walk sub x
  proof (induction L arbitrary: x prev)
    case 0
    have "prev(0 := last (0 # filter P (ls 0))) = (\<lambda>i. if i \<le> 0 then last (0 # filter P (ls i)) else prev i)"
      by (auto simp: fun_eq_iff)
    then show ?case using "0.prems"(1) [OF le_refl "0.prems"(3), of prev] by (simp only: Let_def refl if_True)
  next
    case (Suc L)
    let ?y = "last (0 # filter P (ls (Suc L)))"
    have "?y \<in> insert 0 (set (filter P (ls L)))"
      using Suc.prems(2) [of L] by (auto dest!: last_in_set split: if_splits)
    then have "F ?y L (prev(Suc L := ?y)) = R (option_hd (filter (\<lambda>n. \<not> P n) (ls 0))) (last (0 # filter P (ls 0)))
        (\<lambda>i. if i \<le> L then last (0 # filter P (ls i)) else (prev(Suc L := ?y)) i)"
      using Suc.prems by (intro Suc.IH) simp_all
    moreover have "(\<lambda>i. if i \<le> L then last (0 # filter P (ls i)) else (prev(Suc L := ?y)) i) =
        (\<lambda>i. if i \<le> Suc L then last (0 # filter P (ls i)) else prev i)"
      by (auto simp: fun_eq_iff le_Suc_eq)
    ultimately show ?case
      using Suc.prems(1) [OF le_refl Suc.prems(3), of prev] by (simp only: Let_def nat.distinct if_False diff_Suc_1)
  qed
qed

section \<open>The invariant\<close>

definition ascending :: "('k \<Rightarrow> 'k \<Rightarrow> int) \<Rightarrow> 'k skip_list \<Rightarrow> nat list \<Rightarrow> bool" where
  "ascending compare s = sorted_wrt (\<lambda>a b. compare (node_key s a) (node_key s b) < 0)"

lemma ascending_keys:
  "ascending compare s xs \<Longrightarrow> (\<And>n. n \<in> set xs \<Longrightarrow> node_key s' n = node_key s n) \<Longrightarrow> ascending compare s' xs"
  unfolding ascending_def by (erule sorted_wrt_mono_rel [rotated]) simp

definition shape :: "('k \<Rightarrow> 'k \<Rightarrow> int) \<Rightarrow> 'k skip_list \<Rightarrow> (nat \<Rightarrow> nat list) \<Rightarrow> bool" where
  "shape compare s ls \<longleftrightarrow>
     0 < max_height s \<and> max_height s \<le> kMaxHeight \<and> 0 < allocated s \<and>
     (\<forall>l<kMaxHeight. chain (node_next s) l 0 (ls l)) \<and>
     (\<forall>l<kMaxHeight. ascending compare s (ls l)) \<and>
     (\<forall>l. Suc l < kMaxHeight \<longrightarrow> set (ls (Suc l)) \<subseteq> set (ls l)) \<and>
     (\<forall>l<kMaxHeight. max_height s \<le> l \<longrightarrow> ls l = []) \<and>
     (\<forall>l<kMaxHeight. set (ls l) \<subseteq> {0<..<allocated s})"

definition before :: "('k \<Rightarrow> 'k \<Rightarrow> int) \<Rightarrow> 'k skip_list \<Rightarrow> 'k \<Rightarrow> nat list \<Rightarrow> nat list" where
  "before compare s key = filter (\<lambda>n. compare (node_key s n) key < 0)"

definition behind :: "('k \<Rightarrow> 'k \<Rightarrow> int) \<Rightarrow> 'k skip_list \<Rightarrow> 'k \<Rightarrow> nat list \<Rightarrow> nat list" where
  "behind compare s key = filter (\<lambda>n. \<not> compare (node_key s n) key < 0)"

lemma split_sorted:
  "sorted_wrt R xs \<Longrightarrow> (\<And>a b. R a b \<Longrightarrow> P b \<Longrightarrow> P a) \<Longrightarrow> xs = filter P xs @ filter (\<lambda>n. \<not> P n) xs"
proof (induction xs)
  case (Cons x xs)
  show ?case
  proof (cases "P x")
    case False
    then have "filter P xs = []" using Cons.prems by (auto simp: filter_empty_conv)
    with False Cons show ?thesis by simp
  qed (use Cons in simp)
qed simp

text \<open>The laws of the comparison that the list relies on: a total preorder.\<close>

locale skip_order =
  fixes compare :: "'k \<Rightarrow> 'k \<Rightarrow> int"
  assumes flip: "compare b a < 0 \<longleftrightarrow> 0 < compare a b"
    and le_trans: "compare a b \<le> 0 \<Longrightarrow> compare b d \<le> 0 \<Longrightarrow> compare a d \<le> 0"
begin

lemma less_trans: "compare a b < 0 \<Longrightarrow> compare b d < 0 \<Longrightarrow> compare a d < 0"
  using le_trans [of b d a] flip [of a b] flip [of a d] by linarith

lemma before_behind: "ascending compare s xs \<Longrightarrow> xs = before compare s key xs @ behind compare s key xs"
  unfolding ascending_def before_def behind_def by (rule split_sorted, assumption) (blast intro: less_trans)

lemma shape_search:
  assumes "shape compare s ls"
    and "\<And>x l prev. F x l prev = (let S = \<lambda>x. if l = 0 then R (node_next s x l) x (prev(l := x)) else F x (l - 1) (prev(l := x))
      in case node_next s x l of
           Some y \<Rightarrow> if compare (node_key s y) key < 0 then F y l prev else S x
         | None \<Rightarrow> S x)"
  shows "F 0 (max_height s - 1) prev = R (option_hd (behind compare s key (ls 0))) (last (0 # before compare s key (ls 0)))
    (\<lambda>i. if i < max_height s then last (0 # before compare s key (ls i)) else prev i)"
proof -
  let ?P = "\<lambda>n. compare (node_key s n) key < 0" and ?L = "max_height s - 1"
  have L: "0 < max_height s" "l \<le> ?L \<Longrightarrow> l < kMaxHeight" for l using assms(1) by (auto simp: shape_def)
  have i: "i \<le> ?L \<longleftrightarrow> i < max_height s" for i using L(1) by auto
  have "l \<le> ?L \<Longrightarrow> chain (node_next s) l 0 (ls l)" for l using assms(1) L by (auto simp: shape_def)
  moreover have "l \<le> ?L \<Longrightarrow> ls l = filter ?P (ls l) @ filter (\<lambda>n. \<not> ?P n) (ls l)" for l
    using before_behind assms(1) L unfolding before_def behind_def shape_def by blast
  moreover have "l < ?L \<Longrightarrow> set (ls (Suc l)) \<subseteq> set (ls l)" for l using assms(1) L by (auto simp: shape_def)
  ultimately have "F 0 ?L prev = R (option_hd (filter (\<lambda>n. \<not> ?P n) (ls 0))) (last (0 # filter ?P (ls 0)))
      (\<lambda>i. if i \<le> ?L then last (0 # filter ?P (ls i)) else prev i)"
    by (intro search_descend [where F = F and R = R and nx = "node_next s" and P = ?P and ls = ls and L = ?L] assms(2)) simp_all
  then show ?thesis unfolding i before_def behind_def .
qed

lemma FindGreaterOrEqual_eq:
  assumes "shape compare s ls"
  shows "FindGreaterOrEqual compare s key prev = Some (option_hd (behind compare s key (ls 0)),
    \<lambda>i. if i < max_height s then last (0 # before compare s key (ls i)) else prev i)"
  unfolding FindGreaterOrEqual_def
proof (rule shape_search [OF assms, where R = "\<lambda>n x p. Some (n, p)"])
  show "find_ge_loop compare s key x l prev = (let S = \<lambda>x. if l = 0 then Some (node_next s x l, prev(l := x))
        else find_ge_loop compare s key x (l - 1) (prev(l := x))
      in case node_next s x l of
           Some y \<Rightarrow> if compare (node_key s y) key < 0 then find_ge_loop compare s key y l prev else S x
         | None \<Rightarrow> S x)" for x l prev
    by (subst find_ge_loop.simps) (simp add: KeyIsAfterNode_def Let_def split: option.split)
qed

lemma FindLessThan_eq:
  assumes "shape compare s ls"
  shows "FindLessThan compare s key = Some (last (0 # before compare s key (ls 0)))"
  unfolding FindLessThan_def
proof (rule shape_search [OF assms, where F = "\<lambda>x l p. find_lt_loop compare s key x l" and R = "\<lambda>n x p. Some x"])
  show "find_lt_loop compare s key x l = (let S = \<lambda>x. if l = 0 then Some x else find_lt_loop compare s key x (l - 1)
      in case node_next s x l of
           Some y \<Rightarrow> if compare (node_key s y) key < 0 then find_lt_loop compare s key y l else S x
         | None \<Rightarrow> S x)" for x l prev
    by (subst find_lt_loop.simps) (simp add: Let_def not_less split: option.split)
qed

lemma FindLast_eq:
  assumes "shape compare s ls"
  shows "FindLast s = Some (last (0 # ls 0))"
proof -
  have L: "0 < max_height s" "max_height s \<le> kMaxHeight" using assms by (auto simp: shape_def)
  have "find_last_loop s 0 (max_height s - 1) = Some (last (0 # filter (\<lambda>_. True) (ls 0)))"
  proof (rule search_descend [where F = "\<lambda>x l p. find_last_loop s x l" and R = "\<lambda>n x p. Some x" and nx = "node_next s" and ls = ls])
    show "find_last_loop s x l = (let S = \<lambda>x. if l = 0 then Some x else find_last_loop s x (l - 1)
        in case node_next s x l of Some y \<Rightarrow> if True then find_last_loop s y l else S x | None \<Rightarrow> S x)" for x l
      by (subst find_last_loop.simps) (simp add: Let_def split: option.split)
  qed (use assms L in \<open>auto simp: shape_def\<close>)
  then show ?thesis by (simp add: FindLast_def)
qed

section \<open>Insertion, step by step\<close>

lemma shape_max_height:
  "shape compare s ls \<Longrightarrow> max_height s \<le> h \<Longrightarrow> h \<le> kMaxHeight \<Longrightarrow> shape compare (s\<lparr>max_height := h\<rparr>) ls"
  by (simp add: shape_def ascending_def)

lemma shape_NewNode:
  assumes "shape compare s ls" "NewNode key s = (x, s')"
  shows "shape compare s' ls" "x = allocated s" "0 < x" "x < allocated s'" "node_key s' x = key"
    "node_next s' = node_next s" "max_height s' = max_height s"
    "l < kMaxHeight \<Longrightarrow> x \<notin> set (ls l)" "n \<noteq> x \<Longrightarrow> node_key s' n = node_key s n"
proof -
  have fresh: "\<forall>l<kMaxHeight. \<forall>n\<in>set (ls l). n \<noteq> allocated s" using assms(1) by (fastforce simp: shape_def)
  have "\<forall>l<kMaxHeight. ascending compare s' (ls l)"
    using assms fresh by (auto simp: shape_def NewNode_def intro: ascending_keys)
  then show "shape compare s' ls" using assms by (fastforce simp: shape_def NewNode_def)
  show "l < kMaxHeight \<Longrightarrow> x \<notin> set (ls l)" using assms fresh by (auto simp: NewNode_def)
qed (use assms in \<open>auto simp: NewNode_def shape_def\<close>)

text \<open>A node that is being linked: \<open>levels i\<close> are the levels below \<open>i\<close>, on which it is visible.\<close>

definition put_in :: "'k skip_list \<Rightarrow> nat \<Rightarrow> nat list \<Rightarrow> nat list" where
  "put_in s x xs = before compare s (node_key s x) xs @ x # behind compare s (node_key s x) xs"

definition linking :: "'k skip_list \<Rightarrow> (nat \<Rightarrow> nat list) \<Rightarrow> (nat \<Rightarrow> nat) \<Rightarrow> nat \<Rightarrow> nat \<Rightarrow> nat \<Rightarrow> bool" where
  "linking s ls prev x h i \<longleftrightarrow>
     0 < x \<and> x < allocated s \<and> i \<le> h \<and> 0 < h \<and> h \<le> max_height s \<and>
     (\<forall>l<kMaxHeight. x \<in> set (ls l) \<longleftrightarrow> l < i) \<and>
     (\<forall>n\<in>set (ls 0). n \<noteq> x \<longrightarrow> compare (node_key s n) (node_key s x) \<noteq> 0) \<and>
     (\<forall>l. i \<le> l \<longrightarrow> l < h \<longrightarrow> prev l = last (0 # before compare s (node_key s x) (ls l)))"

lemma levels_sub: "shape compare s ls \<Longrightarrow> l < kMaxHeight \<Longrightarrow> set (ls l) \<subseteq> set (ls 0)"
proof (induction l)
  case (Suc l)
  then have "set (ls (Suc l)) \<subseteq> set (ls l)" by (simp add: shape_def)
  with Suc show ?case by simp
qed simp

lemma SetNext_links: "node_next (SetNext n i v s) = set_link (node_next s) n i v"
  by (simp add: SetNext_def set_link_def)

lemma SetNext_simps [simp]:
  "node_key (SetNext n i v s) = node_key s" "allocated (SetNext n i v s) = allocated s"
  "max_height (SetNext n i v s) = max_height s" "rnd (SetNext n i v s) = rnd s"
  "before compare (SetNext n i v s) = before compare s" "behind compare (SetNext n i v s) = behind compare s"
  "ascending compare (SetNext n i v s) = ascending compare s"
  by (simp_all add: SetNext_def before_def behind_def ascending_def fun_eq_iff)

text \<open>The link of the new node itself: nobody sees it yet.\<close>

lemma shape_own_link:
  assumes "shape compare s ls" "linking s ls prev x h i" "i < h"
  shows "shape compare (SetNext x i v s) ls" "linking (SetNext x i v s) ls prev x h i"
proof -
  have "chain (set_link (node_next s) x i v) l 0 (ls l)" if "l < kMaxHeight" for l
    using assms that by (subst chain_set_other) (auto simp: shape_def linking_def)
  with assms(1) show "shape compare (SetNext x i v s) ls" by (simp add: shape_def SetNext_links)
  show "linking (SetNext x i v s) ls prev x h i" using assms(2) by (simp add: linking_def)
qed

lemma put_in_sorted:
  assumes "ascending compare s xs" "\<forall>n\<in>set xs. compare (node_key s n) (node_key s x) \<noteq> 0"
  shows "ascending compare s (put_in s x xs)"
proof -
  let ?b = "before compare s (node_key s x) xs" and ?a = "behind compare s (node_key s x) xs"
  have "sorted_wrt (\<lambda>a b. compare (node_key s a) (node_key s b) < 0) (?b @ ?a)"
    using assms(1) before_behind [OF assms(1), of "node_key s x"] by (simp add: ascending_def)
  moreover have "compare (node_key s x) (node_key s n) < 0" if "n \<in> set ?a" for n
  proof -
    have "\<not> compare (node_key s n) (node_key s x) < 0" "n \<in> set xs" using that by (auto simp: behind_def)
    then show ?thesis using assms(2) flip [of "node_key s x" "node_key s n"] by force
  qed
  moreover have "\<forall>n\<in>set ?b. compare (node_key s n) (node_key s x) < 0" by (auto simp: before_def)
  ultimately show ?thesis by (auto simp: ascending_def put_in_def sorted_wrt_append)
qed

lemma set_put_in [simp]: "set (put_in s x xs) = insert x (set xs)"
  by (auto simp: put_in_def before_def behind_def)

lemma before_put_in:
  "ascending compare s xs \<Longrightarrow> before compare s (node_key s x) (put_in s x xs) = before compare s (node_key s x) xs"
  using flip [of "node_key s x" "node_key s x"] by (simp add: put_in_def before_def behind_def) fastforce

lemma ascending_distinct: "ascending compare s xs \<Longrightarrow> distinct xs"
proof (induction xs)
  case (Cons a xs)
  have "\<not> compare (node_key s a) (node_key s a) < 0" using flip [of "node_key s a" "node_key s a"] by linarith
  with Cons show ?case by (auto simp: ascending_def)
qed simp

text \<open>The link of the predecessor: the node becomes visible on level \<open>i\<close>.\<close>

lemma shape_publish:
  assumes s: "shape compare s ls" and l: "linking s ls prev x h i" and i: "i < h"
    and own: "node_next s x i = node_next s (prev i) i"
  shows "shape compare (SetNext (prev i) i (Some x) s) (ls(i := put_in s x (ls i)))"
    "linking (SetNext (prev i) i (Some x) s) (ls(i := put_in s x (ls i))) prev x h (Suc i)"
proof -
  let ?ls = "ls(i := put_in s x (ls i))" and ?k = "node_key s x"
  have ik: "i < kMaxHeight" "i < max_height s" using s l i by (auto simp: shape_def linking_def)
  have asc: "ascending compare s (ls i)" and x: "x \<notin> set (ls i)" "0 < x" "x < allocated s"
    and pos: "set (ls i) \<subseteq> {0<..<allocated s}"
    using s l ik by (auto simp: shape_def linking_def)
  have p: "prev i = last (0 # before compare s ?k (ls i))" using l i by (simp add: linking_def)
  have ne: "\<forall>n\<in>set (ls i). compare (node_key s n) ?k \<noteq> 0"
    using l x levels_sub [OF s ik(1)] by (auto simp: linking_def)
  have b: "ls i = before compare s ?k (ls i) @ behind compare s ?k (ls i)" by (rule before_behind [OF asc])
  have "chain (node_next s) i 0 (ls i)" using s ik by (simp add: shape_def)
  then have "chain (set_link (node_next s) (prev i) i (Some x)) i 0 (put_in s x (ls i))"
    unfolding p put_in_def
  proof (intro chain_insert)
    show "chain (node_next s) i 0 (before compare s ?k (ls i) @ behind compare s ?k (ls i))"
      using \<open>chain (node_next s) i 0 (ls i)\<close> b by simp
    show "x \<notin> set (0 # before compare s ?k (ls i) @ behind compare s ?k (ls i))" using x b by (simp flip: b)
    show "distinct (0 # before compare s ?k (ls i) @ behind compare s ?k (ls i))"
      using ascending_distinct [OF asc] pos by (auto simp flip: b)
    show "node_next s x i = node_next s (last (0 # before compare s ?k (ls i))) i" using own p by simp
  qed
  moreover have "chain (set_link (node_next s) (prev i) i (Some x)) m 0 (ls m)" if "m < kMaxHeight" "m \<noteq> i" for m
    using s that by (subst chain_set_other) (auto simp: shape_def)
  ultimately have "\<forall>m<kMaxHeight. chain (node_next (SetNext (prev i) i (Some x) s)) m 0 (?ls m)"
    by (simp add: SetNext_links)
  moreover have "\<forall>m<kMaxHeight. ascending compare s (?ls m)" using s put_in_sorted [OF asc ne] by (simp add: shape_def)
  moreover have "set (?ls (Suc m)) \<subseteq> set (?ls m)" if m: "Suc m < kMaxHeight" for m
  proof -
    have "set (ls (Suc m)) \<subseteq> set (ls m)" using s m by (simp add: shape_def)
    moreover have "x \<in> set (ls m)" if "Suc m = i" using l that m by (simp add: linking_def)
    ultimately show ?thesis by auto
  qed
  moreover have "\<forall>m<kMaxHeight. set (?ls m) \<subseteq> {0<..<allocated s}" "\<forall>m<kMaxHeight. max_height s \<le> m \<longrightarrow> ?ls m = []"
    using s x ik by (auto simp: shape_def)
  ultimately show "shape compare (SetNext (prev i) i (Some x) s) ?ls" using s by (simp add: shape_def)
  have "x \<in> set (?ls m) \<longleftrightarrow> m < Suc i" if "m < kMaxHeight" for m using l that by (auto simp: linking_def)
  moreover have "\<forall>n\<in>set (?ls 0). n \<noteq> x \<longrightarrow> compare (node_key s n) ?k \<noteq> 0" using l by (auto simp: linking_def)
  ultimately show "linking (SetNext (prev i) i (Some x) s) ?ls prev x h (Suc i)" using l i by (simp add: linking_def)
qed

lemma prev_not_new:
  assumes "shape compare s ls" "linking s ls prev x h i" "i < h"
  shows "prev i \<noteq> x"
proof -
  have "prev i \<in> insert 0 (set (ls i))" using assms by (auto simp: linking_def before_def dest!: last_in_set split: if_splits)
  moreover have "x \<notin> set (ls i)" "0 < x" using assms by (auto simp: linking_def shape_def)
  ultimately show ?thesis by auto
qed

lemma link_level_step:
  assumes "shape compare s ls" "linking s ls prev x h i" "i < h"
  shows "shape compare (link_level prev x i s) (ls(i := put_in s x (ls i)))"
    "linking (link_level prev x i s) (ls(i := put_in s x (ls i))) prev x h (Suc i)"
proof -
  let ?s = "SetNext x i (node_next s (prev i) i) s"
  have own: "shape compare ?s ls" "linking ?s ls prev x h i" by (rule shape_own_link [OF assms])+
  have "prev i \<noteq> x" by (rule prev_not_new [OF assms])
  then have "node_next ?s x i = node_next ?s (prev i) i" by (simp add: SetNext_links)
  from shape_publish [OF own assms(3) this] show "shape compare (link_level prev x i s) (ls(i := put_in s x (ls i)))"
    "linking (link_level prev x i s) (ls(i := put_in s x (ls i))) prev x h (Suc i)"
    by (simp_all add: link_level_def put_in_def)
qed

lemma link_level_simps [simp]:
  "node_key (link_level prev x i s) = node_key s" "max_height (link_level prev x i s) = max_height s"
  by (simp_all add: link_level_def SetNext_def Let_def)

lemma put_in_link_level [simp]: "put_in (link_level prev x i s) = put_in s"
  by (simp add: put_in_def before_def behind_def fun_eq_iff)

lemma link_loop:
  "shape compare s ls \<Longrightarrow> linking s ls prev x h 0 \<Longrightarrow> j \<le> h \<Longrightarrow>
    let s' = fold (link_level prev x) [0..<j] s; ls' = \<lambda>l. if l < j then put_in s x (ls l) else ls l
    in shape compare s' ls' \<and> linking s' ls' prev x h j \<and> node_key s' = node_key s"
proof (induction j)
  case (Suc j)
  let ?s = "fold (link_level prev x) [0..<j] s" and ?ls = "\<lambda>l. if l < j then put_in s x (ls l) else ls l"
  have IH: "shape compare ?s ?ls" "linking ?s ?ls prev x h j" "node_key ?s = node_key s" using Suc by (simp_all add: Let_def)
  have "?ls(j := put_in ?s x (?ls j)) = (\<lambda>l. if l < Suc j then put_in s x (ls l) else ls l)"
    using IH(3) by (auto simp: fun_eq_iff less_Suc_eq put_in_def before_def behind_def)
  with link_level_step [OF IH(1,2)] Suc.prems(3) IH(3) show ?case by (simp add: Let_def)
qed (simp add: Let_def)

end

section \<open>The list of the keys\<close>

lemma RandomHeight_bounds: "RandomHeight r = (h, r') \<Longrightarrow> 0 < h \<and> h \<le> kMaxHeight"
proof -
  have "height_loop m h0 r = (h, r') \<Longrightarrow> h0 \<le> h \<and> h \<le> h0 + m" for m h0
    by (induction m h0 r rule: height_loop.induct) (auto simp: Let_def split: if_splits)
  then show "RandomHeight r = (h, r') \<Longrightarrow> 0 < h \<and> h \<le> kMaxHeight"
    unfolding RandomHeight_def kMaxHeight_def by fastforce
qed

text \<open>\<open>holds compare s ns\<close>: the nodes of the list are \<open>ns\<close>, in order; their keys are its contents.\<close>

definition holds :: "('k \<Rightarrow> 'k \<Rightarrow> int) \<Rightarrow> 'k skip_list \<Rightarrow> nat list \<Rightarrow> bool" where
  "holds compare s ns \<longleftrightarrow> (\<exists>ls. shape compare s ls \<and> ls 0 = ns)"

definition keys_of :: "'k skip_list \<Rightarrow> nat list \<Rightarrow> 'k list" where
  "keys_of s ns = map (node_key s) ns"

definition insert_key :: "('k \<Rightarrow> 'k \<Rightarrow> int) \<Rightarrow> 'k \<Rightarrow> 'k list \<Rightarrow> 'k list" where
  "insert_key compare k ks = filter (\<lambda>k'. compare k' k < 0) ks @ k # filter (\<lambda>k'. \<not> compare k' k < 0) ks"

lemma holds_SkipList: "holds compare (SkipList k junk) []"
  unfolding holds_def
  by (intro exI [of _ "\<lambda>_. []"]) (simp add: shape_def SkipList_def NewNode_def kMaxHeight_def ascending_def Let_def)

context skip_order
begin

lemma before_keys: "map (node_key s) (before compare s k ns) = filter (\<lambda>k'. compare k' k < 0) (map (node_key s) ns)"
  by (simp add: before_def filter_map o_def)

lemma behind_keys: "map (node_key s) (behind compare s k ns) = filter (\<lambda>k'. \<not> compare k' k < 0) (map (node_key s) ns)"
  by (simp add: behind_def filter_map o_def)

lemma start_linking:
  assumes s: "shape compare s ls" and f: "\<forall>n\<in>set (ls 0). compare (node_key s n) key \<noteq> 0"
    and ge: "FindGreaterOrEqual compare s key prev0 = Some (z, prev)"
    and h: "0 < h" "h \<le> kMaxHeight"
    and raised: "(prev1, s2) = (if max_height s < h
                then ((\<lambda>i. if max_height s \<le> i \<and> i < h then 0 else prev i), s\<lparr>max_height := h\<rparr>)
                else (prev, s))"
    and new: "NewNode key s2 = (x, s3)"
  shows "shape compare s3 ls" "linking s3 ls prev1 x h 0" "node_key s3 x = key"
    "l < kMaxHeight \<Longrightarrow> n \<in> set (ls l) \<Longrightarrow> node_key s3 n = node_key s n"
proof -
  have s2: "shape compare s2 ls" "h \<le> max_height s2" "node_key s2 = node_key s" "allocated s2 = allocated s"
    using shape_max_height [OF s, of h] raised h s by (auto split: if_splits)
  note n = shape_NewNode [OF s2(1) new]
  show s3: "shape compare s3 ls" and "node_key s3 x = key" by (rule n)+
  show old: "l < kMaxHeight \<Longrightarrow> n \<in> set (ls l) \<Longrightarrow> node_key s3 n = node_key s n" for l n using n s2 by metis
  have "prev1 l = last (0 # before compare s3 key (ls l))" if "l < h" for l
  proof -
    have e: "before compare s3 key (ls l) = before compare s key (ls l)"
    proof -
      have "l < kMaxHeight" using that h by simp
      from old [OF this] show ?thesis unfolding before_def by (intro filter_cong) simp_all
    qed
    have "prev = (\<lambda>i. if i < max_height s then last (0 # before compare s key (ls i)) else prev0 i)"
      using ge FindGreaterOrEqual_eq [OF s] by simp
    then show ?thesis
      using raised s that h e by (auto simp: shape_def before_def split: if_splits)
  qed
  moreover have "\<forall>n\<in>set (ls 0). n \<noteq> x \<longrightarrow> compare (node_key s3 n) key \<noteq> 0"
    using f old [of 0] by (simp add: kMaxHeight_def)
  ultimately show "linking s3 ls prev1 x h 0"
    using n h s2 by (auto simp: linking_def)
qed

theorem Insert_holds:
  assumes "holds compare s ns" "\<forall>k\<in>set (keys_of s ns). compare k key \<noteq> 0"
  obtains s' ns' where "skip_Insert compare prev0 key s = Some s'" "holds compare s' ns'"
    "keys_of s' ns' = insert_key compare key (keys_of s ns)"
proof -
  obtain ls where s: "shape compare s ls" and ns: "ls 0 = ns" using assms(1) by (auto simp: holds_def)
  obtain h r where h: "RandomHeight (rnd s) = (h, r)" by (cases "RandomHeight (rnd s)")
  obtain z prev where ge: "FindGreaterOrEqual compare s key prev0 = Some (z, prev)" using FindGreaterOrEqual_eq [OF s] by blast
  let ?s1 = "s\<lparr>rnd := r\<rparr>"
  have s1: "shape compare ?s1 ls" using s by (simp add: shape_def ascending_def)
  have f: "\<forall>n\<in>set (ls 0). compare (node_key ?s1 n) key \<noteq> 0" using assms(2) ns by (simp add: keys_of_def)
  have ge1: "FindGreaterOrEqual compare ?s1 key prev0 = Some (z, prev)"
  proof -
    have e: "before compare ?s1 = before compare s" "behind compare ?s1 = behind compare s" "max_height ?s1 = max_height s"
      by (simp_all add: before_def behind_def fun_eq_iff)
    show ?thesis unfolding FindGreaterOrEqual_eq [OF s1] e using ge unfolding FindGreaterOrEqual_eq [OF s] .
  qed
  obtain prev1 s2 where raised: "(prev1, s2) = (if max_height ?s1 < h
      then ((\<lambda>i. if max_height ?s1 \<le> i \<and> i < h then 0 else prev i), ?s1\<lparr>max_height := h\<rparr>) else (prev, ?s1))"
    by (metis surj_pair)
  obtain x s3 where new: "NewNode key s2 = (x, s3)" by (cases "NewNode key s2")
  note st = start_linking [OF s1 f ge1 RandomHeight_bounds [OF h, THEN conjunct1] RandomHeight_bounds [OF h, THEN conjunct2] raised new]
  let ?s' = "fold (link_level prev1 x) [0..<h] s3" and ?ls = "\<lambda>l. if l < h then put_in s3 x (ls l) else ls l"
  have e: "shape compare ?s' ?ls" "node_key ?s' = node_key s3"
    using link_loop [OF st(1,2) le_refl] by (simp_all add: Let_def)
  have "skip_Insert compare prev0 key s = Some ?s'"
    unfolding skip_Insert_def ge h using raised new by (simp add: Let_def split: prod.splits if_splits)
  moreover have "holds compare ?s' (?ls 0)" using e by (auto simp: holds_def)
  moreover have "keys_of ?s' (?ls 0) = insert_key compare key (keys_of s ns)"
  proof -
    have "map (node_key s3) (ls 0) = map (node_key s) ns" using st(4) [of 0] ns by (auto simp: kMaxHeight_def)
    then show ?thesis
      using RandomHeight_bounds [OF h] e(2) st(3)
      by (simp add: keys_of_def put_in_def insert_key_def before_keys behind_keys)
  qed
  ultimately show ?thesis by (rule that)
qed

lemma option_hd_simps [simp]: "option_hd [] = None" "option_hd (x # xs) = Some x"
  by (simp_all add: option_hd_def)

lemma last_0 [simp]: "0 \<notin> set xs \<Longrightarrow> last xs = (0 :: nat) \<Longrightarrow> xs = []"
  by (metis last_in_set)

lemma holdsE:
  assumes "holds compare s ns"
  obtains ls where "shape compare s ls" "ls 0 = ns" "chain (node_next s) 0 0 ns" "ascending compare s ns" "0 \<notin> set ns"
proof -
  obtain ls where s: "shape compare s ls" "ls 0 = ns" using assms by (auto simp: holds_def)
  moreover have "0 < kMaxHeight" by (simp add: kMaxHeight_def)
  ultimately have "chain (node_next s) 0 0 ns" "ascending compare s ns" "set ns \<subseteq> {0<..<allocated s}"
    unfolding shape_def by blast+
  moreover from this have "0 \<notin> set ns" by auto
  ultimately show ?thesis using that [OF s] by blast
qed

lemma Seek_holds:
  "holds compare s ns \<Longrightarrow> sl_Seek compare s target = Some (option_hd (behind compare s target ns))"
  by (elim holdsE) (simp add: sl_Seek_def FindGreaterOrEqual_eq)

lemma SeekToFirst_holds: "holds compare s ns \<Longrightarrow> sl_SeekToFirst s = option_hd ns"
  by (elim holdsE, cases ns) (simp_all add: sl_SeekToFirst_def)

lemma SeekToLast_holds: "holds compare s ns \<Longrightarrow> sl_SeekToLast s = Some (if ns = [] then None else Some (last ns))"
  by (elim holdsE) (auto simp: sl_SeekToLast_def FindLast_eq dest: last_0)

lemma Next_holds:
  assumes "holds compare s (us @ n # vs)"
  shows "sl_Next s (Some n) = option_hd vs"
proof -
  have "chain (node_next s) 0 n vs" using assms by (elim holdsE) (rule chain_tail)
  then show ?thesis by (cases vs) (simp_all add: sl_Next_def)
qed

lemma Prev_holds:
  assumes "holds compare s (us @ n # vs)"
  shows "sl_Prev compare s (Some n) = Some (if us = [] then None else Some (last us))"
proof -
  obtain ls where s: "shape compare s ls" "ls 0 = us @ n # vs" "ascending compare s (us @ n # vs)" "0 \<notin> set (us @ n # vs)"
    using assms by (elim holdsE)
  have "\<not> compare (node_key s m) (node_key s n) < 0" if "m \<in> set (n # vs)" for m
    using s(3) that flip [of "node_key s m" "node_key s n"] flip [of "node_key s n" "node_key s n"]
    by (auto simp: ascending_def sorted_wrt_append)
  then have "before compare s (node_key s n) (n # vs) = []" by (auto simp: before_def filter_empty_conv)
  moreover have "before compare s (node_key s n) us = us"
    using s(3) by (auto simp: before_def ascending_def sorted_wrt_append filter_id_conv)
  ultimately have "before compare s (node_key s n) (ls 0) = us" by (simp add: s(2) before_def)
  with s(4) show ?thesis by (auto simp: sl_Prev_def FindLessThan_eq [OF s(1)] dest: last_0)
qed

lemma Contains_holds:
  assumes "holds compare s ns"
  shows "Contains compare key s = Some (\<exists>k\<in>set (keys_of s ns). compare key k = 0)"
proof -
  obtain ls where s: "shape compare s ls" "ls 0 = ns" "ascending compare s ns" using assms by (elim holdsE)
  note f = FindGreaterOrEqual_eq [OF s(1), of key "\<lambda>_. 0"]
  have eq0: "compare key (node_key s n) = 0 \<Longrightarrow> n \<in> set (behind compare s key ns)" if "n \<in> set ns" for n
    using that flip [of "node_key s n" key] by (auto simp: behind_def)
  show ?thesis
  proof (cases "behind compare s key ns")
    case Nil
    with eq0 f s(2) show ?thesis by (auto simp: Contains_def keys_of_def)
  next
    case (Cons n vs)
    have "n \<in> set (behind compare s key ns)" by (simp add: Cons)
    then have n: "n \<in> set ns" "\<not> compare (node_key s n) key < 0" by (auto simp: behind_def)
    have "compare (node_key s n) (node_key s m) < 0" if "m \<in> set vs" for m
      using before_behind [OF s(3), of key] s(3) that unfolding Cons ascending_def by (metis sorted_wrt_append sorted_wrt.simps(2))
    then have "compare key (node_key s n) = 0" if "m \<in> set (n # vs)" "compare key (node_key s m) = 0" for m
      using that n le_trans [of "node_key s m" key "node_key s n"] flip [of "node_key s n" key]
        flip [of "node_key s n" "node_key s m"] flip [of key "node_key s m"] by fastforce
    with eq0 n f s(2) Cons show ?thesis by (auto simp: Contains_def keys_of_def)
  qed
qed

end

end
