(* ===== verification/Ldb_Skiplist_Steps.thy ===== *)
theory Ldb_Skiplist_Steps
  imports Ldb_Skiplist_Props "HOL-Library.Multiset"
begin

text \<open>
  The skip list under concurrent use (\<open>db/skiplist.h\<close>): one writer and a reader take turns after
  every store to a link.  The writer's steps are those of \<open>Insert\<close>, the reader's those of
  \<open>FindGreaterOrEqual\<close>.  Loads and stores are atomic and seen in order, which is what the
  acquire and release operations of the code are for.
\<close>

datatype writer = Idle | Linking "nat \<Rightarrow> nat" nat nat nat bool
datatype 'k search = Off | At 'k nat nat | Found 'k "nat option"

type_synonym 'k system = "'k skip_list \<times> writer \<times> 'k search"

text \<open>\<open>Linking prev x height i own\<close>: node \<open>x\<close> is visible on the levels below \<open>i\<close>, and \<open>own\<close> says
  whether its link on level \<open>i\<close> has been stored.  \<open>At key x level\<close> are the locals of the search.\<close>

inductive sl_step :: "('k \<Rightarrow> 'k \<Rightarrow> int) \<Rightarrow> 'k system \<Rightarrow> 'k system \<Rightarrow> bool" for compare where
  w_begin: "Contains compare key s = Some False \<Longrightarrow> FindGreaterOrEqual compare s key prev0 = Some (z, prev) \<Longrightarrow>
    RandomHeight (rnd s) = (h, r) \<Longrightarrow> s1 = s\<lparr>rnd := r\<rparr> \<Longrightarrow>
    (prev1, s2) = (if max_height s1 < h
       then ((\<lambda>i. if max_height s1 \<le> i \<and> i < h then 0 else prev i), s1\<lparr>max_height := h\<rparr>) else (prev, s1)) \<Longrightarrow>
    NewNode key s2 = (x, s3) \<Longrightarrow> sl_step compare (s, Idle, rd) (s3, Linking prev1 x h 0 False, rd)"
| w_own: "i < h \<Longrightarrow>
    sl_step compare (s, Linking prev x h i False, rd) (SetNext x i (node_next s (prev i) i) s, Linking prev x h i True, rd)"
| w_publish: "sl_step compare (s, Linking prev x h i True, rd) (SetNext (prev i) i (Some x) s, Linking prev x h (Suc i) False, rd)"
| w_end: "h \<le> i \<Longrightarrow> sl_step compare (s, Linking prev x h i False, rd) (s, Idle, rd)"
| r_begin: "sl_step compare (s, w, Off) (s, w, At key 0 (max_height s - 1))"
| r_along: "node_next s x level = Some y \<Longrightarrow> KeyIsAfterNode compare s key (Some y) \<Longrightarrow>
    sl_step compare (s, w, At key x level) (s, w, At key y level)"
| r_down: "\<not> KeyIsAfterNode compare s key (node_next s x level) \<Longrightarrow> 0 < level \<Longrightarrow>
    sl_step compare (s, w, At key x level) (s, w, At key x (level - 1))"
| r_end: "\<not> KeyIsAfterNode compare s key (node_next s x 0) \<Longrightarrow>
    sl_step compare (s, w, At key x 0) (s, w, Found key (node_next s x 0))"

inductive_cases sl_step_FoundE: "sl_step compare (s, w, At k x l) (s', w', Found k' n)"


lemma chain_unique: "chain nx l x ys \<Longrightarrow> chain nx l x zs \<Longrightarrow> ys = zs"
proof (induction ys arbitrary: x zs)
  case Nil
  then show ?case by (cases zs) simp_all
next
  case (Cons y ys)
  then show ?case by (cases zs) auto
qed

context skip_order
begin

definition writer_ok :: "'k skip_list \<Rightarrow> (nat \<Rightarrow> nat list) \<Rightarrow> writer \<Rightarrow> bool" where
  "writer_ok s ls w \<longleftrightarrow> (case w of Idle \<Rightarrow> True
     | Linking prev x h i own \<Rightarrow> linking s ls prev x h i \<and> (own \<longrightarrow> i < h \<and> node_next s x i = node_next s (prev i) i))"

definition reader_ok :: "'k skip_list \<Rightarrow> (nat \<Rightarrow> nat list) \<Rightarrow> 'k search \<Rightarrow> bool" where
  "reader_ok s ls r \<longleftrightarrow> (case r of At k x l \<Rightarrow> l < kMaxHeight \<and> x \<in> insert 0 (set (before compare s k (ls l))) | _ \<Rightarrow> True)"

definition system_inv :: "'k system \<Rightarrow> (nat \<Rightarrow> nat list) \<Rightarrow> bool" where
  "system_inv sys ls \<longleftrightarrow> (case sys of (s, w, r) \<Rightarrow> shape compare s ls \<and> writer_ok s ls w \<and> reader_ok s ls r)"

text \<open>Nothing is lost: the nodes of each level stay, with their keys.\<close>

definition grows :: "'k skip_list \<Rightarrow> (nat \<Rightarrow> nat list) \<Rightarrow> 'k skip_list \<Rightarrow> (nat \<Rightarrow> nat list) \<Rightarrow> bool" where
  "grows s ls s' ls' \<longleftrightarrow>
     (\<forall>l<kMaxHeight. set (ls l) \<subseteq> set (ls' l)) \<and> (\<forall>l<kMaxHeight. \<forall>n\<in>set (ls l). node_key s' n = node_key s n)"

lemma grows_refl [simp]: "grows s ls s ls"
  by (simp add: grows_def)

lemma grows_trans: "grows s ls s' ls' \<Longrightarrow> grows s' ls' s'' ls'' \<Longrightarrow> grows s ls s'' ls''"
  by (fastforce simp: grows_def)

lemma reader_grows: "reader_ok s ls r \<Longrightarrow> grows s ls s' ls' \<Longrightarrow> reader_ok s' ls' r"
  by (cases r) (auto simp: reader_ok_def grows_def before_def)

lemma next_in_level:
  assumes "shape compare s ls" "l < kMaxHeight" "x \<in> insert 0 (set (before compare s k (ls l)))"
  shows "node_next s x l = Some y \<Longrightarrow> y \<in> set (ls l)"
    "\<not> KeyIsAfterNode compare s k (node_next s x l) \<Longrightarrow> node_next s x l = option_hd (behind compare s k (ls l))"
proof -
  let ?b = "before compare s k (ls l)" and ?a = "behind compare s k (ls l)"
  have e: "ls l = ?b @ ?a" using assms by (intro before_behind) (simp add: shape_def)
  have "chain (node_next s) l 0 (ls l)" using assms by (simp add: shape_def)
  then have "chain (node_next s) l 0 (?b @ ?a)" using e by simp
  then obtain q where q: "chain (node_next s) l x (q @ ?a)" "set q \<subseteq> set ?b"
    using assms(3) by (rule chain_part)
  have sub: "set (q @ ?a) \<subseteq> set (ls l)" using q(2) by (auto simp: before_def behind_def)
  show "node_next s x l = Some y \<Longrightarrow> y \<in> set (ls l)" using q(1) sub by (cases "q @ ?a") auto
  show "node_next s x l = option_hd ?a" if "\<not> KeyIsAfterNode compare s k (node_next s x l)"
  proof (cases q)
    case Nil
    with q(1) show ?thesis by (cases ?a) simp_all
  next
    case (Cons n ns)
    with q have "node_next s x l = Some n" "n \<in> set ?b" by auto
    with that show ?thesis by (simp add: KeyIsAfterNode_def before_def)
  qed
qed

lemma shape_height_0: "shape compare s ls \<Longrightarrow> max_height s - 1 < kMaxHeight"
  by (auto simp: shape_def kMaxHeight_def)

lemma reader_step:
  assumes "shape compare s ls" "reader_ok s ls r"
  shows "r = At k x l \<Longrightarrow> node_next s x l = Some y \<Longrightarrow> KeyIsAfterNode compare s k (Some y) \<Longrightarrow> reader_ok s ls (At k y l)"
    "r = At k x l \<Longrightarrow> 0 < l \<Longrightarrow> reader_ok s ls (At k x (l - 1))"
proof -
  show "reader_ok s ls (At k y l)" if "r = At k x l" "node_next s x l = Some y" "KeyIsAfterNode compare s k (Some y)"
    using assms that next_in_level(1) [OF assms(1)] by (auto simp: reader_ok_def KeyIsAfterNode_def before_def)
  show "reader_ok s ls (At k x (l - 1))" if "r = At k x l" "0 < l"
  proof -
    have "set (ls l) \<subseteq> set (ls (l - 1))" using assms that by (cases l) (auto simp: shape_def reader_ok_def)
    with assms that show ?thesis by (auto simp: reader_ok_def before_def)
  qed
qed

lemma grows_put_in: "grows s ls (SetNext n i v s) (ls(i := put_in s x (ls i)))"
  by (auto simp: grows_def)

text \<open>Every step keeps the invariant and loses nothing.\<close>

lemma step_inv:
  assumes "sl_step compare sys sys'" "system_inv sys ls"
  shows "\<exists>ls'. system_inv sys' ls' \<and> grows (fst sys) ls (fst sys') ls'"
  using assms
proof (induction rule: sl_step.induct)
  case (w_begin key s prev0 z prev h r s1 prev1 s2 x s3 rd)
  have s: "shape compare s ls" "reader_ok s ls rd" using w_begin by (simp_all add: system_inv_def)
  have s1: "shape compare s1 ls" using s w_begin by (simp add: shape_def ascending_def)
  have e: "before compare s1 = before compare s" "behind compare s1 = behind compare s" "max_height s1 = max_height s" "node_key s1 = node_key s"
    using w_begin(4) by (simp_all add: before_def behind_def fun_eq_iff)
  have ge: "FindGreaterOrEqual compare s1 key prev0 = Some (z, prev)"
    unfolding FindGreaterOrEqual_eq [OF s1] e using w_begin(2) unfolding FindGreaterOrEqual_eq [OF s(1)] .
  have "holds compare s (ls 0)" using s by (auto simp: holds_def)
  from Contains_holds [OF this, of key] w_begin(1)
  have "\<forall>n\<in>set (ls 0). compare key (node_key s n) \<noteq> 0" by (simp add: keys_of_def)
  then have f: "\<forall>n\<in>set (ls 0). compare (node_key s1 n) key \<noteq> 0"
    unfolding e using flip by (metis less_irrefl linorder_neqE)
  note st = start_linking [OF s1 f ge RandomHeight_bounds [OF w_begin(3), THEN conjunct1]
      RandomHeight_bounds [OF w_begin(3), THEN conjunct2] w_begin(5,6)]
  have g: "grows s ls s3 ls" using st(4) e by (simp add: grows_def)
  with st(1,2) reader_grows [OF s(2) g] show ?case
    by (intro exI [of _ ls]) (simp add: system_inv_def writer_ok_def)
next
  case (w_own i h s prev x rd)
  let ?s = "SetNext x i (node_next s (prev i) i) s"
  have s: "shape compare s ls" "linking s ls prev x h i" "reader_ok s ls rd"
    using w_own by (simp_all add: system_inv_def writer_ok_def)
  have "prev i \<noteq> x"
    using prev_not_new [OF s(1,2) w_own(1)] .
  then have "node_next ?s x i = node_next ?s (prev i) i" by (simp add: SetNext_links)
  moreover have "reader_ok ?s ls rd" by (rule reader_grows [OF s(3), of ?s ls]) (simp add: grows_def)
  ultimately show ?case using shape_own_link [OF s(1,2) w_own(1)] w_own(1)
    by (intro exI [of _ ls]) (simp add: system_inv_def writer_ok_def grows_def)
next
  case (w_publish s prev x h i rd)
  have s: "shape compare s ls" "linking s ls prev x h i" "i < h" "node_next s x i = node_next s (prev i) i" "reader_ok s ls rd"
    using w_publish by (simp_all add: system_inv_def writer_ok_def)
  from shape_publish [OF s(1-4)] reader_grows [OF s(5) grows_put_in] grows_put_in show ?case
    by (intro exI [of _ "ls(i := put_in s x (ls i))"]) (simp add: system_inv_def writer_ok_def del: fun_upd_apply)
next
  case (r_begin s w)
  then show ?case using shape_height_0 [of s ls]
    by (intro exI [of _ ls]) (simp add: system_inv_def reader_ok_def)
next
  case (r_along s x l y k w)
  then show ?case using reader_step(1) [of s ls "At k x l"]
    by (intro exI [of _ ls]) (simp add: system_inv_def)
next
  case (r_down s k x l w)
  then show ?case using reader_step(2) [of s ls "At k x l"]
    by (intro exI [of _ ls]) (simp add: system_inv_def)
qed (auto simp: system_inv_def writer_ok_def reader_ok_def)

lemma steps_inv:
  assumes "(sl_step compare)\<^sup>*\<^sup>* sys sys'" "system_inv sys ls"
  shows "\<exists>ls'. system_inv sys' ls' \<and> grows (fst sys) ls (fst sys') ls'"
  using assms
proof (induction rule: rtranclp_induct)
  case (step y z)
  then obtain ls' ls'' where "grows (fst sys) ls (fst y) ls'" "system_inv z ls''" "grows (fst y) ls' (fst z) ls''"
    using step_inv by blast
  then show ?case using grows_trans by blast
qed (auto intro: exI [of _ ls])

lemma inv_start: "system_inv (SkipList k0 junk, Idle, Off) (\<lambda>_. [])"
  by (simp add: system_inv_def writer_ok_def reader_ok_def)
    (simp add: shape_def SkipList_def NewNode_def kMaxHeight_def ascending_def Let_def)

lemma holds_level: "holds compare s ns \<Longrightarrow> shape compare s ls \<Longrightarrow> ns = ls 0"
  by (auto simp: holds_def shape_def kMaxHeight_def intro!: chain_unique [where nx = "node_next s" and l = 0 and x = 0])

theorem search_linearizable:
  assumes "(sl_step compare)\<^sup>*\<^sup>* (SkipList k0 junk, Idle, Off) (s0, w0, r0)" "holds compare s0 ns0"
    "(sl_step compare)\<^sup>*\<^sup>* (s0, w0, r0) (s, w, At k x l)" "sl_step compare (s, w, At k x l) (s', w', Found k n)"
  shows "\<exists>ns. holds compare s ns \<and> set (keys_of s0 ns0) \<subseteq> set (keys_of s ns) \<and> n = option_hd (behind compare s k ns)"
proof -
  obtain ls0 where ls0: "system_inv (s0, w0, r0) ls0" using steps_inv [OF assms(1) inv_start] by blast
  obtain ls where ls: "system_inv (s, w, At k x l) ls" "grows s0 ls0 s ls" using steps_inv [OF assms(3) ls0] by auto
  have k: "0 < kMaxHeight" by (simp add: kMaxHeight_def)
  have "ns0 = ls0 0" using assms(2) ls0 by (auto simp: system_inv_def intro: holds_level)
  then have "set (keys_of s0 ns0) \<subseteq> set (keys_of s (ls 0))" using ls(2) k by (force simp: grows_def keys_of_def)
  moreover have "holds compare s (ls 0)" using ls by (auto simp: system_inv_def holds_def)
  moreover have "n = option_hd (behind compare s k (ls 0))"
    using assms(4) ls(1) next_in_level(2) [OF _ k, of s ls x k]
    by (auto elim!: sl_step_FoundE simp: system_inv_def reader_ok_def)
  ultimately show ?thesis by blast
qed

end

section \<open>Walking over the list\<close>

fun insert_all :: "('k \<Rightarrow> 'k \<Rightarrow> int) \<Rightarrow> 'k list \<Rightarrow> 'k skip_list \<Rightarrow> 'k skip_list option" where
  "insert_all compare [] s = Some s"
| "insert_all compare (k # ks) s = (case skip_Insert compare (\<lambda>_. 0) k s of None \<Rightarrow> None | Some s' \<Rightarrow> insert_all compare ks s')"

fun walk :: "'k skip_list \<Rightarrow> nat \<Rightarrow> nat option \<Rightarrow> 'k list" where
  "walk s 0 it = []"
| "walk s (Suc n) it = (if sl_Valid it then sl_key s it # walk s n (sl_Next s it) else [])"

fun walk_back :: "('k \<Rightarrow> 'k \<Rightarrow> int) \<Rightarrow> 'k skip_list \<Rightarrow> nat \<Rightarrow> nat option \<Rightarrow> 'k list option" where
  "walk_back compare s 0 it = Some []"
| "walk_back compare s (Suc n) it =
     (if sl_Valid it then
        case sl_Prev compare s it of None \<Rightarrow> None | Some it' \<Rightarrow> map_option ((#) (sl_key s it)) (walk_back compare s n it')
      else Some [])"

context skip_order
begin

lemma insert_key_props:
  assumes "sorted_wrt (\<lambda>a b. compare a b < 0) ks" "\<forall>k'\<in>set ks. compare k' k \<noteq> 0"
  shows "sorted_wrt (\<lambda>a b. compare a b < 0) (insert_key compare k ks)" "mset (insert_key compare k ks) = add_mset k (mset ks)"
proof -
  have "ks = filter (\<lambda>k'. compare k' k < 0) ks @ filter (\<lambda>k'. \<not> compare k' k < 0) ks"
    using assms(1) by (rule split_sorted) (rule less_trans)
  then have "sorted_wrt (\<lambda>a b. compare a b < 0) (filter (\<lambda>k'. compare k' k < 0) ks @ filter (\<lambda>k'. \<not> compare k' k < 0) ks)"
    using assms(1) by metis
  moreover have "compare k k' < 0" if "k' \<in> set ks" "\<not> compare k' k < 0" for k'
    using that assms(2) flip [of k k'] by force
  ultimately show "sorted_wrt (\<lambda>a b. compare a b < 0) (insert_key compare k ks)"
    by (auto simp: insert_key_def sorted_wrt_append)
  show "mset (insert_key compare k ks) = add_mset k (mset ks)" by (induction ks) (auto simp: insert_key_def)
qed

lemma insert_all_holds:
  "holds compare s ns \<Longrightarrow> sorted_wrt (\<lambda>a b. compare a b < 0) (keys_of s ns) \<Longrightarrow>
   sorted_wrt (\<lambda>a b. compare a b \<noteq> 0) (keys_of s ns @ keys) \<Longrightarrow>
   \<exists>s' ns'. insert_all compare keys s = Some s' \<and> holds compare s' ns' \<and>
     sorted_wrt (\<lambda>a b. compare a b < 0) (keys_of s' ns') \<and> mset (keys_of s' ns') = mset (keys_of s ns) + mset keys"
proof (induction keys arbitrary: s ns)
  case (Cons k keys)
  have f: "\<forall>k'\<in>set (keys_of s ns). compare k' k \<noteq> 0" using Cons.prems(3) by (simp add: sorted_wrt_append)
  obtain s1 ns1 where s1: "skip_Insert compare (\<lambda>_. 0) k s = Some s1" "holds compare s1 ns1"
      "keys_of s1 ns1 = insert_key compare k (keys_of s ns)"
    using Insert_holds [OF Cons.prems(1) f] .
  note i = insert_key_props [OF Cons.prems(2) f, folded s1(3)]
  have "set (keys_of s1 ns1) = insert k (set (keys_of s ns))" using arg_cong [OF i(2), of set_mset] by simp
  then have "sorted_wrt (\<lambda>a b. compare a b \<noteq> 0) (keys_of s1 ns1 @ keys)"
    using Cons.prems(3) sorted_wrt_mono_rel [OF _ i(1), of "\<lambda>a b. compare a b \<noteq> 0"] by (auto simp: sorted_wrt_append)
  from Cons.IH [OF s1(2) i(1) this] show ?case using s1(1) i(2) by auto
qed auto

lemma walk_holds: "holds compare s (us @ vs) \<Longrightarrow> length vs \<le> n \<Longrightarrow> walk s n (option_hd vs) = keys_of s vs"
proof (induction vs arbitrary: us n)
  case Nil
  then show ?case by (cases n) (simp_all add: sl_Valid_def keys_of_def)
next
  case (Cons v vs)
  then obtain n' where "n = Suc n'" by (cases n) auto
  with Cons.IH [of "us @ [v]" n'] Cons.prems Next_holds [OF Cons.prems(1)] show ?case
    by (simp add: sl_Valid_def keys_of_def sl_key_def)
qed

lemma walk_back_holds:
  "holds compare s (us @ vs) \<Longrightarrow> length us \<le> n \<Longrightarrow>
    walk_back compare s n (if us = [] then None else Some (last us)) = Some (rev (keys_of s us))"
proof (induction us arbitrary: vs n rule: rev_induct)
  case Nil
  then show ?case by (cases n) (simp_all add: sl_Valid_def keys_of_def)
next
  case (snoc u us)
  then obtain n' where "n = Suc n'" by (cases n) auto
  with snoc.IH [of "u # vs" n'] snoc.prems Prev_holds [of s us u vs] show ?case
    by (simp add: sl_Valid_def keys_of_def sl_key_def)
qed

lemma sorts:
  assumes "sorted_wrt (\<lambda>a b. compare a b \<noteq> 0) keys" "length keys \<le> n"
  shows "\<exists>s ks. insert_all compare keys (SkipList k0 junk) = Some s \<and>
    sorted_wrt (\<lambda>a b. compare a b < 0) ks \<and> mset ks = mset keys \<and>
    walk s n (sl_SeekToFirst s) = ks \<and>
    (\<exists>it. sl_SeekToLast s = Some it \<and> walk_back compare s n it = Some (rev ks)) \<and>
    (\<forall>k. Contains compare k s = Some (\<exists>k'\<in>set keys. compare k k' = 0)) \<and>
    (\<forall>k. \<exists>it. sl_Seek compare s k = Some it \<and> walk s n it = filter (\<lambda>k'. \<not> compare k' k < 0) ks)"
proof -
  obtain s ns where i: "insert_all compare keys (SkipList k0 junk) = Some s" and h: "holds compare s ns"
      and ks: "sorted_wrt (\<lambda>a b. compare a b < 0) (keys_of s ns)" "mset (keys_of s ns) = mset keys"
    using insert_all_holds [OF holds_SkipList [of compare k0 junk], where keys = keys] assms(1) by (auto simp: keys_of_def)
  have n: "length ns \<le> n" using assms(2) arg_cong [OF ks(2), of size] by (simp add: keys_of_def)
  have set: "set (keys_of s ns) = set keys" using arg_cong [OF ks(2), of set_mset] by simp
  have seek: "walk s n (option_hd (behind compare s k ns)) = filter (\<lambda>k'. \<not> compare k' k < 0) (keys_of s ns)" for k
  proof -
    obtain ls where "ascending compare s ns" using h by (elim holdsE)
    then have e: "ns = before compare s k ns @ behind compare s k ns" by (rule before_behind)
    with h have "holds compare s (before compare s k ns @ behind compare s k ns)" by simp
    moreover have "length (behind compare s k ns) \<le> n" using n by (simp add: behind_def order.trans [OF length_filter_le])
    ultimately show ?thesis by (simp add: walk_holds keys_of_def behind_keys)
  qed
  show ?thesis
    using i ks h walk_holds [of s "[]" ns n] walk_back_holds [of s ns "[]" n] n
      SeekToFirst_holds [OF h] SeekToLast_holds [OF h] Contains_holds [OF h] Seek_holds [OF h] seek
    by (intro exI [of _ s] exI [of _ "keys_of s ns"]) (simp add: set)
qed

end

section \<open>Properties\<close>


lemma int_order: "skip_order (\<lambda>a b :: int. a - b)"
  by unfold_locales auto


text \<open>C12: the skip list is a sorted list: whatever heights the generator chooses, inserting distinct keys
  succeeds, walking from \<open>SeekToFirst\<close> with \<open>Next\<close> gives the keys in strictly ascending order,
  walking from \<open>SeekToLast\<close> with \<open>Prev\<close> gives them in descending order, and \<open>Contains\<close> and \<open>Seek\<close>
  answer for the set of the inserted keys.\<close>

theorem skip_list_sorts:
  assumes "skip_order compare" "sorted_wrt (\<lambda>a b. compare a b \<noteq> 0) keys" "length keys \<le> n"
  shows "\<exists>s ks. insert_all compare keys (SkipList k0 junk) = Some s \<and>
    sorted_wrt (\<lambda>a b. compare a b < 0) ks \<and> mset ks = mset keys \<and>
    walk s n (sl_SeekToFirst s) = ks \<and>
    (\<exists>it. sl_SeekToLast s = Some it \<and> walk_back compare s n it = Some (rev ks)) \<and>
    (\<forall>k. Contains compare k s = Some (\<exists>k'\<in>set keys. compare k k' = 0)) \<and>
    (\<forall>k. \<exists>it. sl_Seek compare s k = Some it \<and> walk s n it = filter (\<lambda>k'. \<not> compare k' k < 0) ks)"
  by (rule skip_order.sorts [OF assms])

theorem skip_list_sorts_witness:
  "\<exists>s. insert_all (\<lambda>a b :: int. a - b) [3, 1, 2] (SkipList 0 (\<lambda>_ _. None)) = Some s \<and> walk s 3 (sl_SeekToFirst s) = [1, 2, 3]"
proof -
  obtain s ks where "insert_all (\<lambda>a b :: int. a - b) [3, 1, 2] (SkipList 0 (\<lambda>_ _. None)) = Some s"
    "sorted_wrt (\<lambda>a b. a - b < (0 :: int)) ks" "mset ks = mset [3, 1, 2]" "walk s 3 (sl_SeekToFirst s) = ks"
    using skip_list_sorts [OF int_order, of "[3, 1, 2]" 3 0 "\<lambda>_ _. None"] by auto
  moreover have "ks = [1, 2, 3]"
  proof (rule map_sorted_distinct_set_unique [where f = id])
    show "sorted (map id ks)" "distinct (map id ks)"
      using calculation(2) by (simp_all add: strict_sorted_iff)
    show "set ks = set [1, 2, 3]" using arg_cong [OF calculation(3), of set_mset] by auto
  qed simp_all
  ultimately show ?thesis by auto
qed

end
