(* ===== verification/Ldb_Memtable.thy ===== *)
theory Ldb_Memtable
  imports Ldb_Key Ldb_Skiplist
begin

text \<open>
  The memtable, \<open>db/memtable.cc\<close> and \<open>db/memtable.h\<close>: a skip list of entries, ordered by the internal
  keys at their front.  A \<open>const char*\<close> to an entry is the list of the bytes from there on; the memory
  of the arena is not reused, so entries are values.  The reference count guards the lifetime of the
  object; a memtable that was deleted is \<open>None\<close>.
\<close>

text \<open>\<open>GetLengthPrefixedSlice(const char*)\<close>: the slice and the bytes behind it.  It looks at five
  bytes at most for the length, and assumes that they hold one.\<close>

definition mem_slice :: "byte list \<Rightarrow> slice \<times> byte list" where
  "mem_slice data = (case GetVarint32Ptr (take 5 data) of
     Some (len, rest) \<Rightarrow>
       let p = drop (length (take 5 data) - length rest) data in (take (unat len) p, drop (unat len) p)
   | None \<Rightarrow> ([], []))"

text \<open>\<open>MemTable::KeyComparator\<close>.\<close>

definition mem_compare :: "comparator \<Rightarrow> byte list \<Rightarrow> byte list \<Rightarrow> int" where
  "mem_compare c aptr bptr = internal_compare c (fst (mem_slice aptr)) (fst (mem_slice bptr))"

record memtable =
  mt_comparator :: comparator
  refs :: int
  mt_table :: "byte list skip_list"

definition MemTable :: "comparator \<Rightarrow> (nat \<Rightarrow> nat \<Rightarrow> nat option) \<Rightarrow> memtable" where
  "MemTable cmp junk = \<lparr>mt_comparator = cmp, refs = 0, mt_table = SkipList [] junk\<rparr>"

definition Ref :: "memtable \<Rightarrow> memtable" where "Ref m = m\<lparr>refs := refs m + 1\<rparr>"

definition Unref :: "memtable \<Rightarrow> memtable option" where
  "Unref m = (let m' = m\<lparr>refs := refs m - 1\<rparr> in if refs m' \<le> 0 then None else Some m')"

definition EncodeKey :: "slice \<Rightarrow> byte list" where
  "EncodeKey target = PutVarint32 [] (word_of_nat (length target)) @ target"

definition encoded_len :: "slice \<Rightarrow> slice \<Rightarrow> nat" where
  "encoded_len key value =
     (let internal_key_size = length key + 8
      in VarintLength (word_of_nat internal_key_size) + internal_key_size +
         VarintLength (word_of_nat (length value)) + length value)"

text \<open>The bytes that \<open>Add\<close> writes into the buffer of \<open>encoded_len\<close> bytes.\<close>

definition mem_entry :: "u64 \<Rightarrow> ValueType \<Rightarrow> slice \<Rightarrow> slice \<Rightarrow> byte list" where
  "mem_entry s t key value =
     EncodeVarint32 (word_of_nat (length key + 8)) @ key @ EncodeFixed64 (push_bit 8 s OR type_byte t) @
     EncodeVarint32 (word_of_nat (length value)) @ value"

definition Add :: "u64 \<Rightarrow> ValueType \<Rightarrow> slice \<Rightarrow> slice \<Rightarrow> memtable \<Rightarrow> memtable option" where
  "Add s t key value m =
     map_option (\<lambda>tab. m\<lparr>mt_table := tab\<rparr>)
       (skip_Insert (mem_compare (mt_comparator m)) (\<lambda>_. 0) (mem_entry s t key value) (mt_table m))"

text \<open>What \<open>Get\<close> returns: false, or true with the value or with a status.\<close>

datatype mem_result = Absent | Present slice | Deleted status

definition mem_Get :: "memtable \<Rightarrow> byte list \<times> nat \<Rightarrow> mem_result option" where
  "mem_Get m key =
     (case sl_Seek (mem_compare (mt_comparator m)) (mt_table m) (memtable_key key) of
        None \<Rightarrow> None
      | Some it \<Rightarrow> Some
         (if sl_Valid it then
            let entry = sl_key (mt_table m) it in
            case GetVarint32Ptr (take 5 entry) of
              None \<Rightarrow> Absent
            | Some (key_length, rest) \<Rightarrow>
                let key_ptr = drop (length (take 5 entry) - length rest) entry in
                if Compare (mt_comparator m) (take (unat (key_length - 8)) key_ptr) (lookup_user_key key) = 0 then
                  let tag = DecodeFixed64 (drop (unat key_length - 8) key_ptr) in
                  if tag AND 0xff = type_byte kTypeValue then Present (fst (mem_slice (drop (unat key_length) key_ptr)))
                  else if tag AND 0xff = type_byte kTypeDeletion then Deleted (status_msg kNotFound [] [])
                  else Absent
                else Absent
          else Absent))"

section \<open>The iterator\<close>

text \<open>A position of the iterator is a position of the skip list's; \<open>tmp_\<close> is scratch space.\<close>

definition mem_iter_Seek :: "memtable \<Rightarrow> slice \<Rightarrow> nat option option" where
  "mem_iter_Seek m k = sl_Seek (mem_compare (mt_comparator m)) (mt_table m) (EncodeKey k)"

definition mem_iter_SeekToFirst :: "memtable \<Rightarrow> nat option" where
  "mem_iter_SeekToFirst m = sl_SeekToFirst (mt_table m)"

definition mem_iter_SeekToLast :: "memtable \<Rightarrow> nat option option" where
  "mem_iter_SeekToLast m = sl_SeekToLast (mt_table m)"

definition mem_iter_Next :: "memtable \<Rightarrow> nat option \<Rightarrow> nat option" where
  "mem_iter_Next m it = sl_Next (mt_table m) it"

definition mem_iter_Prev :: "memtable \<Rightarrow> nat option \<Rightarrow> nat option option" where
  "mem_iter_Prev m it = sl_Prev (mem_compare (mt_comparator m)) (mt_table m) it"

definition mem_iter_key :: "memtable \<Rightarrow> nat option \<Rightarrow> slice" where
  "mem_iter_key m it = fst (mem_slice (sl_key (mt_table m) it))"

definition mem_iter_value :: "memtable \<Rightarrow> nat option \<Rightarrow> slice" where
  "mem_iter_value m it = fst (mem_slice (snd (mem_slice (sl_key (mt_table m) it))))"

end
