(* ===== verification/Ldb_Batch.thy ===== *)
theory Ldb_Batch
  imports Ldb_Memtable
begin

text \<open>
  Write batches, \<open>db/write_batch.cc\<close> and \<open>db/write_batch_internal.h\<close>: a batch is the string \<open>rep_\<close>
  with a header of sequence number and count, followed by the records.  A \<open>Handler\<close> is the record of
  its two operations on a state of its own; \<open>MemTableInserter\<close> is one on a sequence number and a
  memtable.
\<close>

definition kHeader :: nat where "kHeader = 12"

type_synonym write_batch = "byte list"

definition batch_Clear :: "write_batch \<Rightarrow> write_batch" where
  "batch_Clear rep = replicate kHeader 0"

text \<open>The constructor.\<close>

definition WriteBatch :: write_batch where "WriteBatch = batch_Clear []"

definition Count :: "write_batch \<Rightarrow> u32" where
  "Count b = DecodeFixed32 (drop 8 b)"

text \<open>Storing \<open>n\<close> bytes at a position of the string.\<close>

definition overwrite :: "nat \<Rightarrow> byte list \<Rightarrow> byte list \<Rightarrow> byte list" where
  "overwrite pos bs s = take pos s @ bs @ drop (pos + length bs) s"

definition SetCount :: "u32 \<Rightarrow> write_batch \<Rightarrow> write_batch" where
  "SetCount n b = overwrite 8 (EncodeFixed32 n) b"

definition Sequence :: "write_batch \<Rightarrow> u64" where
  "Sequence b = DecodeFixed64 b"

definition SetSequence :: "u64 \<Rightarrow> write_batch \<Rightarrow> write_batch" where
  "SetSequence seq b = overwrite 0 (EncodeFixed64 seq) b"

definition batch_Put :: "slice \<Rightarrow> slice \<Rightarrow> write_batch \<Rightarrow> write_batch" where
  "batch_Put key value b =
     (let b1 = SetCount (Count b + 1) b;
          b2 = b1 @ [ucast (type_byte kTypeValue)];
          b3 = PutLengthPrefixedSlice b2 key
      in PutLengthPrefixedSlice b3 value)"

definition batch_Delete :: "slice \<Rightarrow> write_batch \<Rightarrow> write_batch" where
  "batch_Delete key b =
     (let b1 = SetCount (Count b + 1) b;
          b2 = b1 @ [ucast (type_byte kTypeDeletion)]
      in PutLengthPrefixedSlice b2 key)"

record 'h handler =
  handle_Put :: "slice \<Rightarrow> slice \<Rightarrow> 'h \<Rightarrow> 'h"
  handle_Delete :: "slice \<Rightarrow> 'h \<Rightarrow> 'h"

lemma GetLengthPrefixedSlice_shorter:
  "GetLengthPrefixedSlice input = Some (v, rest) \<Longrightarrow> length rest \<le> length input"
  by (auto simp: GetLengthPrefixedSlice_def split: option.splits if_splits dest!: GetVarint_suffix)

text \<open>The loop: the status, the number of records found, and the state of the handler.\<close>

function iterate_loop :: "'h handler \<Rightarrow> slice \<Rightarrow> u32 \<Rightarrow> 'h \<Rightarrow> status \<times> u32 \<times> 'h" where
  "iterate_loop handler [] found h = (OK, found, h)"
| "iterate_loop handler (tag # input) found h =
     (let found' = found + 1 in
      if tag = ucast (type_byte kTypeValue) then
        (case GetLengthPrefixedSlice input of
           None \<Rightarrow> (Corruption ''bad WriteBatch Put'', found', h)
         | Some (key, input1) \<Rightarrow>
            (case GetLengthPrefixedSlice input1 of
               None \<Rightarrow> (Corruption ''bad WriteBatch Put'', found', h)
             | Some (value, input2) \<Rightarrow> iterate_loop handler input2 found' (handle_Put handler key value h)))
      else if tag = ucast (type_byte kTypeDeletion) then
        (case GetLengthPrefixedSlice input of
           None \<Rightarrow> (Corruption ''bad WriteBatch Delete'', found', h)
         | Some (key, input1) \<Rightarrow> iterate_loop handler input1 found' (handle_Delete handler key h))
      else (Corruption ''unknown WriteBatch tag'', found', h))"
  by pat_completeness auto
termination
  by (relation "measure (\<lambda>(handler, input, found, h). length input)")
    (auto dest!: GetLengthPrefixedSlice_shorter)

definition Iterate :: "'h handler \<Rightarrow> write_batch \<Rightarrow> 'h \<Rightarrow> status \<times> 'h" where
  "Iterate handler rep h =
     (if length rep < kHeader then (Corruption ''malformed WriteBatch (too small)'', h)
      else case iterate_loop handler (drop kHeader rep) 0 h of
        (s, found, h') \<Rightarrow>
          if \<not> is_ok s then (s, h')
          else if found \<noteq> Count rep then (Corruption ''WriteBatch has wrong count'', h')
          else (OK, h'))"

text \<open>The memtable of the inserter is \<open>None\<close> when an insertion did not end.\<close>

definition MemTableInserter :: "(u64 \<times> memtable option) handler" where
  "MemTableInserter =
     \<lparr>handle_Put = (\<lambda>key value (seq, m). (seq + 1, Option.bind m (Add seq kTypeValue key value))),
      handle_Delete = (\<lambda>key (seq, m). (seq + 1, Option.bind m (Add seq kTypeDeletion key [])))\<rparr>"

definition InsertInto :: "write_batch \<Rightarrow> memtable \<Rightarrow> status \<times> memtable option" where
  "InsertInto b m = (case Iterate MemTableInserter b (Sequence b, Some m) of (s, seq, m') \<Rightarrow> (s, m'))"

definition SetContents :: "slice \<Rightarrow> write_batch" where "SetContents str = str"
definition Contents :: "write_batch \<Rightarrow> slice" where "Contents b = b"
definition ByteSize :: "write_batch \<Rightarrow> nat" where "ByteSize b = length b"

definition batch_Append :: "write_batch \<Rightarrow> write_batch \<Rightarrow> write_batch" where
  "batch_Append dst src = SetCount (Count dst + Count src) dst @ drop kHeader src"

end
