(* ===== verification/Ldb_Memtable_Props.thy ===== *)
theory Ldb_Memtable_Props
  imports Ldb_Key_Props Ldb_Skiplist_Steps Ldb_Batch
begin

text \<open>
  The memtable as a multi-version map: a lookup at a snapshot returns the newest entry of the key
  that the snapshot includes.  The order of the entries is an instance of the order that the skip
  list asks for, for every user comparator that keeps its contract.
\<close>

section \<open>Entries\<close>

lemma mem_slice_prefix:
  assumes "length x < 2 ^ 32"
  shows "mem_slice (EncodeVarint32 (word_of_nat (length x)) @ x @ rest) = (x, rest)"
proof -
  let ?e = "EncodeVarint32 (word_of_nat (length x))"
  have t: "take 5 (?e @ x @ rest) = ?e @ take (5 - length ?e) (x @ rest)"
    using length_EncodeVarint32 [of "word_of_nat (length x)"] by simp
  have "length (take 5 (?e @ x @ rest)) - length (take (5 - length ?e) (x @ rest)) = length ?e"
    unfolding t by simp
  then show ?thesis
    using assms unfolding mem_slice_def t by (simp add: Let_def unat_of_nat)
qed

type_synonym entry = "ParsedInternalKey \<times> slice"

definition ikey :: "entry \<Rightarrow> slice" where "ikey e = AppendInternalKey [] (fst e)"

definition entry_bytes :: "entry \<Rightarrow> byte list" where
  "entry_bytes e = mem_entry (key_sequence (fst e)) (key_type (fst e)) (key_user (fst e)) (snd e)"

definition valid_entry :: "entry \<Rightarrow> bool" where
  "valid_entry e \<longleftrightarrow> key_sequence (fst e) \<le> kMaxSequenceNumber \<and> length (key_user (fst e)) + 8 < 2 ^ 32 \<and> length (snd e) < 2 ^ 32"

lemma length_ikey [simp]: "length (ikey e) = length (key_user (fst e)) + 8"
  by (simp add: ikey_def AppendInternalKey_def PutFixed64_def)

lemma entry_bytes_eq:
  "entry_bytes e = EncodeVarint32 (word_of_nat (length (ikey e))) @ ikey e @ EncodeVarint32 (word_of_nat (length (snd e))) @ snd e"
  by (simp add: entry_bytes_def mem_entry_def) (simp add: ikey_def AppendInternalKey_def PutFixed64_def PackSequenceAndType_def)

lemma entry_slices:
  assumes "valid_entry e"
  shows "mem_slice (entry_bytes e) = (ikey e, EncodeVarint32 (word_of_nat (length (snd e))) @ snd e)"
    "mem_slice (EncodeVarint32 (word_of_nat (length (snd e))) @ snd e) = (snd e, [])"
  using assms mem_slice_prefix [of "ikey e"] mem_slice_prefix [of "snd e" "[]"]
  by (simp_all add: entry_bytes_eq valid_entry_def)

lemma EncodeVarint32_length: "n < 2 ^ 32 \<Longrightarrow> length (EncodeVarint32 (word_of_nat n)) = VarintLength (word_of_nat n)"
proof -
  assume "n < 2 ^ 32"
  then have "ucast (word_of_nat n :: u32) = (word_of_nat n :: u64)"
    by (simp add: word_unat_eq_iff unsigned_ucast_eq unat_of_nat take_bit_nat_eq_self)
  then show ?thesis by (simp add: EncodeVarint32_eq VarintLength_eq)
qed

text \<open>\<open>Add\<close> fills its buffer exactly, as the assertion at its end says.\<close>

lemma entry_len: "valid_entry e \<Longrightarrow> length (entry_bytes e) = encoded_len (key_user (fst e)) (snd e)"
  using EncodeVarint32_length [of "length (key_user (fst e)) + 8"]
  by (simp add: valid_entry_def entry_bytes_eq encoded_len_def EncodeVarint32_length)

section \<open>The order of the entries\<close>

sublocale user_order \<subseteq> entry_order: skip_order "mem_compare c"
proof
  fix a b d
  let ?a = "fst (mem_slice a)" and ?b = "fst (mem_slice b)" and ?d = "fst (mem_slice d)"
  show "mem_compare c b a < 0 \<longleftrightarrow> 0 < mem_compare c a b"
    unfolding mem_compare_def internal_less internal_greater
    using compare_flip [of "ExtractUserKey ?b" "ExtractUserKey ?a"] by auto
  have le: "internal_compare c x y \<le> 0 \<longleftrightarrow> Compare c (ExtractUserKey x) (ExtractUserKey y) < 0 \<or>
      ExtractUserKey x = ExtractUserKey y \<and> key_num y \<le> key_num x" for x y
    using internal_greater [of x y] user_trichotomy [of "ExtractUserKey x" "ExtractUserKey y"]
      compare_flip [of "ExtractUserKey x" "ExtractUserKey y"] compare_flip [of "ExtractUserKey y" "ExtractUserKey x"]
      user_zero [of "ExtractUserKey x" "ExtractUserKey y"] by (auto simp: not_less)
  show "mem_compare c a d \<le> 0" if "mem_compare c a b \<le> 0" "mem_compare c b d \<le> 0"
    using that compare_trans [of "ExtractUserKey ?a" "ExtractUserKey ?b" "ExtractUserKey ?d"]
    unfolding mem_compare_def le by auto
qed

interpretation bytewise_entries: skip_order "mem_compare BytewiseComparator" ..

section \<open>Lookups\<close>

definition holds_entries :: "comparator \<Rightarrow> memtable \<Rightarrow> entry list \<Rightarrow> bool" where
  "holds_entries c m es \<longleftrightarrow> mt_comparator m = c \<and>
     (\<exists>ns. holds (mem_compare c) (mt_table m) ns \<and>
       sorted_wrt (\<lambda>a b. mem_compare c a b < 0) (keys_of (mt_table m) ns) \<and>
       mset (keys_of (mt_table m) ns) = mset (map entry_bytes es))"

text \<open>The entries of a user key that a snapshot includes, and what the newest one says.\<close>

definition visible :: "entry list \<Rightarrow> slice \<Rightarrow> u64 \<Rightarrow> entry list" where
  "visible es u s = filter (\<lambda>e. key_user (fst e) = u \<and> key_sequence (fst e) \<le> s) es"

definition says :: "entry \<Rightarrow> mem_result" where
  "says e = (case key_type (fst e) of kTypeValue \<Rightarrow> Present (snd e) | kTypeDeletion \<Rightarrow> Deleted (status_msg kNotFound [] []))"

definition newest :: "entry list \<Rightarrow> mem_result" where
  "newest es = (if es = [] then Absent else says (last es))"

definition in_order :: "entry list \<Rightarrow> bool" where
  "in_order = sorted_wrt (\<lambda>a b. key_sequence (fst a) < key_sequence (fst b))"

lemma in_order_filter: "in_order es \<Longrightarrow> in_order (filter P es)"
  by (simp add: in_order_def sorted_wrt_filter)

lemma in_order_last:
  assumes "in_order es" "e \<in> set es"
  shows "e = last es \<or> key_sequence (fst e) < key_sequence (fst (last es))"
proof -
  obtain xs y where es: "es = xs @ [y]" using assms(2) by (cases es rule: rev_cases) auto
  with assms show ?thesis by (auto simp: in_order_def sorted_wrt_append)
qed

lemma mem_slice_lookup:
  "length u + 8 < 2 ^ 32 \<Longrightarrow> mem_slice (memtable_key (LookupKey u s)) = (lookup_internal_key (LookupKey u s), [])"
  using mem_slice_prefix [of "u @ EncodeFixed64 (PackSequenceAndType s kValueTypeForSeek)" "[]"]
  by (simp add: memtable_key_def lookup_internal_key_def LookupKey_def Let_def)

lemma ikey_parts [simp]:
  "ExtractUserKey (ikey e) = key_user (fst e)"
  "key_num (ikey e) = PackSequenceAndType (key_sequence (fst e)) (key_type (fst e))"
  by (simp_all add: ikey_def AppendInternalKey_def)

lemma lookup_parts [simp]:
  "ExtractUserKey (lookup_internal_key (LookupKey u s)) = u"
  "key_num (lookup_internal_key (LookupKey u s)) = PackSequenceAndType s kTypeValue"
  by (simp_all add: lookup_internal_key_eq AppendInternalKey_def)

lemma pack_le:
  assumes "s \<le> kMaxSequenceNumber" "s' \<le> kMaxSequenceNumber"
  shows "PackSequenceAndType s t \<le> PackSequenceAndType s' kTypeValue \<longleftrightarrow> s \<le> s'"
    "PackSequenceAndType s t \<le> PackSequenceAndType s' t' \<Longrightarrow> s \<le> s'"
proof -
  have "unat (type_byte u) \<le> 1" for u by (cases u) simp_all
  then have "unat (type_byte t) \<le> 1" "unat (type_byte t') \<le> 1" by auto
  then show "PackSequenceAndType s t \<le> PackSequenceAndType s' kTypeValue \<longleftrightarrow> s \<le> s'"
    "PackSequenceAndType s t \<le> PackSequenceAndType s' t' \<Longrightarrow> s \<le> s'"
    using pack_num [OF assms(1), of t] pack_num [OF assms(2), of t'] pack_num [OF assms(2), of kTypeValue]
    by (simp_all add: word_le_nat_alt) linarith+
qed

lemma Get_entry:
  assumes "valid_entry e" "sl_key (mt_table m) it = entry_bytes e"
    "sl_Seek (mem_compare c) (mt_table m) (memtable_key (LookupKey u s)) = Some it" "sl_Valid it" "mt_comparator m = c"
  shows "mem_Get m (LookupKey u s) = Some (if Compare c (key_user (fst e)) u = 0 then says e else Absent)"
proof -
  let ?e = "EncodeVarint32 (word_of_nat (length (ikey e)))" and ?v = "EncodeVarint32 (word_of_nat (length (snd e))) @ snd e"
  have b: "entry_bytes e = ?e @ ikey e @ ?v" by (rule entry_bytes_eq)
  have t: "take 5 (entry_bytes e) = ?e @ take (5 - length ?e) (ikey e @ ?v)"
    unfolding b using length_EncodeVarint32 [of "word_of_nat (length (ikey e))"] by simp
  have p: "drop (length (take 5 (entry_bytes e)) - length (take (5 - length ?e) (ikey e @ ?v))) (entry_bytes e) = ikey e @ ?v"
    unfolding t by (simp add: b)
  have g: "GetVarint32Ptr (take 5 (entry_bytes e)) = Some (word_of_nat (length (ikey e)), take (5 - length ?e) (ikey e @ ?v))"
    unfolding t by (rule GetVarint32Ptr_Encode)
  have n: "unat (word_of_nat (length (ikey e)) :: u32) = length (ikey e)"
    "unat (word_of_nat (length (ikey e)) - 8 :: u32) = length (key_user (fst e))"
  proof -
    have l: "length (ikey e) = length (key_user (fst e)) + 8" "length (key_user (fst e)) + 8 < 2 ^ 32"
      using assms(1) by (simp_all add: valid_entry_def)
    then show "unat (word_of_nat (length (ikey e)) :: u32) = length (ikey e)" unfolding unat_of_nat by simp
    have "word_of_nat (length (ikey e)) - 8 = (word_of_nat (length (key_user (fst e))) :: u32)" using l by simp
    then show "unat (word_of_nat (length (ikey e)) - 8 :: u32) = length (key_user (fst e))"
      using l by (simp only: unat_of_nat) simp
  qed
  have k: "take (length (key_user (fst e))) (ikey e @ ?v) = key_user (fst e)" "drop (length (ikey e)) (ikey e @ ?v) = ?v"
    "DecodeFixed64 (drop (length (ikey e) - 8) (ikey e @ ?v)) = PackSequenceAndType (key_sequence (fst e)) (key_type (fst e))"
    by (simp_all add: ikey_def AppendInternalKey_def PutFixed64_def)
  show ?thesis
    unfolding mem_Get_def assms(2,3,5) option.case if_P [OF assms(4)] Let_def g prod.case p n k entry_slices(2) [OF assms(1)] fst_conv pack_low
    by (cases "key_type (fst e)")
      (simp_all add: says_def lookup_user_key_eq)
qed

text \<open>Inserting an entry whose sequence number is new.\<close>

context user_order
begin

lemma entry_compare:
  assumes "valid_entry e" "valid_entry e'"
  shows "mem_compare c (entry_bytes e) (entry_bytes e') = internal_compare c (ikey e) (ikey e')"
  using assms by (simp add: mem_compare_def entry_slices)

lemma Add_holds:
  assumes "holds_entries c m es" "\<forall>e\<in>set (e # es). valid_entry e" "\<forall>e'\<in>set es. key_sequence (fst e') \<noteq> key_sequence (fst e)"
  obtains m' where "Add (key_sequence (fst e)) (key_type (fst e)) (key_user (fst e)) (snd e) m = Some m'"
    "holds_entries c m' (es @ [e])" "refs m' = refs m"
proof -
  obtain ns where h: "mt_comparator m = c" "holds (mem_compare c) (mt_table m) ns"
      "sorted_wrt (\<lambda>a b. mem_compare c a b < 0) (keys_of (mt_table m) ns)"
      "mset (keys_of (mt_table m) ns) = mset (map entry_bytes es)"
    using assms(1) by (auto simp: holds_entries_def)
  have k: "set (keys_of (mt_table m) ns) = set (map entry_bytes es)" using arg_cong [OF h(4), of set_mset] by simp
  have new: "\<forall>k'\<in>set (keys_of (mt_table m) ns). mem_compare c k' (entry_bytes e) \<noteq> 0"
  proof -
    have "internal_compare c (ikey e') (ikey e) \<noteq> 0" if "e' \<in> set es" for e'
    proof
      assume "internal_compare c (ikey e') (ikey e) = 0"
      then have "PackSequenceAndType (key_sequence (fst e')) (key_type (fst e')) = PackSequenceAndType (key_sequence (fst e)) (key_type (fst e))"
        by (simp add: internal_zero)
      with pack_high have "key_sequence (fst e') = key_sequence (fst e)"
        using assms(2) that by (metis valid_entry_def list.set_intros)
      with assms(3) that show False by blast
    qed
    with k assms(2) show ?thesis by (auto simp: entry_compare)
  qed
  obtain tab ns' where t: "skip_Insert (mem_compare c) (\<lambda>_. 0) (entry_bytes e) (mt_table m) = Some tab"
      "holds (mem_compare c) tab ns'" "keys_of tab ns' = insert_key (mem_compare c) (entry_bytes e) (keys_of (mt_table m) ns)"
    using entry_order.Insert_holds [OF h(2) new] by blast
  note i = entry_order.insert_key_props [OF h(3) new, folded t(3)]
  have "holds_entries c (m\<lparr>mt_table := tab\<rparr>) (es @ [e])"
    using h(1,4) t(2) i by (auto simp: holds_entries_def)
  then show ?thesis using t(1) h(1) by (intro that [of "m\<lparr>mt_table := tab\<rparr>"]) (simp_all add: Add_def flip: entry_bytes_def)
qed

lemma Get_holds:
  assumes h: "holds_entries c m es" and v: "\<forall>e\<in>set es. valid_entry e" and o: "in_order es"
    and s: "s \<le> kMaxSequenceNumber" and u: "length u + 8 < 2 ^ 32"
  shows "mem_Get m (LookupKey u s) = Some (newest (visible es u s))"
proof -
  let ?t = "memtable_key (LookupKey u s)" and ?tab = "mt_table m"
  obtain ns where m: "mt_comparator m = c" "holds (mem_compare c) ?tab ns"
      "sorted_wrt (\<lambda>a b. mem_compare c a b < 0) (keys_of ?tab ns)" "mset (keys_of ?tab ns) = mset (map entry_bytes es)"
    using h by (auto simp: holds_entries_def)
  let ?b = "behind (mem_compare c) ?tab ?t ns"
  have seek: "sl_Seek (mem_compare c) ?tab ?t = Some (option_hd ?b)" by (rule entry_order.Seek_holds [OF m(2)])
  have keys: "set (map (node_key ?tab) ?b) = {k \<in> set (map entry_bytes es). \<not> mem_compare c k ?t < 0}"
    using arg_cong [OF m(4), of set_mset] by (auto simp: entry_order.behind_keys keys_of_def)
  have at: "\<not> mem_compare c (entry_bytes e) ?t < 0 \<longleftrightarrow>
      Compare c u (key_user (fst e)) < 0 \<or> key_user (fst e) = u \<and> key_sequence (fst e) \<le> s" if "e \<in> set es" for e
  proof -
    have e: "valid_entry e" "key_sequence (fst e) \<le> kMaxSequenceNumber" using v that by (auto simp: valid_entry_def)
    then have c: "mem_compare c (entry_bytes e) ?t < 0 \<longleftrightarrow> Compare c (key_user (fst e)) u < 0 \<or>
        key_user (fst e) = u \<and> PackSequenceAndType s kTypeValue < PackSequenceAndType (key_sequence (fst e)) (key_type (fst e))"
      by (simp add: mem_compare_def entry_slices mem_slice_lookup [OF u] internal_less)
    show ?thesis
      unfolding c using pack_le(1) [OF e(2) s, of "key_type (fst e)"] user_trichotomy [of u "key_user (fst e)"] user_zero [of u u] compare_flip [of u "key_user (fst e)"]
      by (auto simp: not_less)
  qed
  show ?thesis
  proof (cases ?b)
    case Nil
    then have "visible es u s = []" using keys at by (fastforce simp: visible_def filter_empty_conv)
    with Nil seek m(1) show ?thesis by (simp add: mem_Get_def sl_Valid_def newest_def)
  next
    case (Cons x xs)
    have "node_key ?tab x \<in> set (map (node_key ?tab) ?b)" unfolding Cons by simp
    then obtain e where e: "e \<in> set es" "node_key ?tab x = entry_bytes e" "\<not> mem_compare c (entry_bytes e) ?t < 0"
      unfolding keys by auto
    have "mem_Get m (LookupKey u s) = Some (if Compare c (key_user (fst e)) u = 0 then says e else Absent)"
      using e v seek Cons m(1) by (intro Get_entry [where it = "Some x"]) (auto simp: sl_key_def sl_Valid_def)
    then have get: "mem_Get m (LookupKey u s) = Some (if key_user (fst e) = u then says e else Absent)"
      by (simp add: user_zero)
    show ?thesis
    proof (cases "visible es u s = []")
      case True
      then have "key_user (fst e) \<noteq> u" using e at [OF e(1)] user_zero [of u u] by (auto simp: visible_def filter_empty_conv)
      with get True show ?thesis by (simp add: newest_def)
    next
      case False
      define e0 where "e0 = last (visible es u s)"
      have "e0 \<in> set (visible es u s)" using False by (simp add: e0_def)
      then have e0: "e0 \<in> set es" "key_user (fst e0) = u" "key_sequence (fst e0) \<le> s" by (auto simp: visible_def)
      have "entry_bytes e0 \<in> set (map (node_key ?tab) ?b)" unfolding keys using e0 at [OF e0(1)] by auto
      moreover have "sorted_wrt (\<lambda>a b. mem_compare c a b < 0) (map (node_key ?tab) ?b)"
        using m(3) by (simp add: entry_order.behind_keys keys_of_def sorted_wrt_filter)
      ultimately have "entry_bytes e = entry_bytes e0 \<or> mem_compare c (entry_bytes e) (entry_bytes e0) < 0"
        using e(2) Cons by auto
      then have "\<not> 0 < internal_compare c (ikey e) (ikey e0)"
        using v e(1) e0(1) entry_compare [of e e0] entry_order.flip [of "entry_bytes e0" "entry_bytes e"]
          entry_order.flip [of "entry_bytes e" "entry_bytes e"] by fastforce
      then have le: "\<not> 0 < Compare c (key_user (fst e)) u \<and>
          (key_user (fst e) = u \<longrightarrow> \<not> PackSequenceAndType (key_sequence (fst e)) (key_type (fst e)) < PackSequenceAndType (key_sequence (fst e0)) (key_type (fst e0)))"
        using e0(2) by (simp add: internal_greater)
      then have ue: "key_user (fst e) = u" "key_sequence (fst e) \<le> s"
        using e at [OF e(1)] compare_flip [of u "key_user (fst e)"] by auto
      have "key_sequence (fst e0) \<le> key_sequence (fst e)"
        using le ue(1) v e(1) e0(1) pack_le(2) [of "key_sequence (fst e0)" "key_sequence (fst e)" "key_type (fst e0)" "key_type (fst e)"]
        by (auto simp: valid_entry_def not_less)
      moreover have "e \<in> set (visible es u s)" using e(1) ue by (simp add: visible_def)
      ultimately have "e = e0"
        using in_order_last [OF in_order_filter [OF o, of "\<lambda>e. key_user (fst e) = u \<and> key_sequence (fst e) \<le> s", folded visible_def], of e]
        by (auto simp: e0_def)
      with get ue(1) False show ?thesis by (simp add: newest_def e0_def)
    qed
  qed
qed

end

lemma empty_holds: "holds_entries c (MemTable c junk) []"
  by (auto simp: holds_entries_def MemTable_def keys_of_def intro!: exI [of _ "[]"] holds_SkipList)

fun add_all :: "entry list \<Rightarrow> memtable \<Rightarrow> memtable option" where
  "add_all [] m = Some m"
| "add_all (e # es) m =
     Option.bind (Add (key_sequence (fst e)) (key_type (fst e)) (key_user (fst e)) (snd e) m) (add_all es)"

context user_order
begin

lemma add_all_holds:
  "holds_entries c m es0 \<Longrightarrow> \<forall>e\<in>set (es0 @ es). valid_entry e \<Longrightarrow> in_order (es0 @ es) \<Longrightarrow>
    \<exists>m'. add_all es m = Some m' \<and> holds_entries c m' (es0 @ es)"
proof (induction es arbitrary: m es0)
  case (Cons e es)
  have "\<forall>e'\<in>set es0. key_sequence (fst e') \<noteq> key_sequence (fst e)"
    using Cons.prems(3) by (fastforce simp: in_order_def sorted_wrt_append)
  moreover have "\<forall>e'\<in>set (e # es0). valid_entry e'" using Cons.prems(2) by simp
  ultimately obtain m1 where m1: "Add (key_sequence (fst e)) (key_type (fst e)) (key_user (fst e)) (snd e) m = Some m1"
      "holds_entries c m1 (es0 @ [e])"
    using Add_holds [OF Cons.prems(1)] by blast
  from Cons.IH [OF m1(2)] Cons.prems(2,3) show ?case by (simp add: m1(1))
qed simp

lemma get_after_adds:
  assumes "\<forall>e\<in>set es. valid_entry e" "in_order es" "s \<le> kMaxSequenceNumber" "length u + 8 < 2 ^ 32"
  shows "\<exists>m. add_all es (MemTable c junk) = Some m \<and> mem_Get m (LookupKey u s) = Some (newest (visible es u s))"
  using add_all_holds [OF empty_holds, of es junk] Get_holds assms by (metis append_Nil)

end

end
