(* ===== verification/Ldb_Batch_Props.thy ===== *)
theory Ldb_Batch_Props
  imports Ldb_Memtable_Props
begin

text \<open>
  Write batches: what was put into a batch is what its iteration hands to the handler, appending
  batches concatenates them, and inserting batches into a memtable makes each operation visible from
  its own sequence number on.
\<close>

section \<open>Operations\<close>

datatype batch_op = Put_op slice slice | Delete_op slice

fun apply_op :: "batch_op \<Rightarrow> write_batch \<Rightarrow> write_batch" where
  "apply_op (Put_op k v) b = batch_Put k v b"
| "apply_op (Delete_op k) b = batch_Delete k b"

fun handle_op :: "'h handler \<Rightarrow> batch_op \<Rightarrow> 'h \<Rightarrow> 'h" where
  "handle_op handler (Put_op k v) h = handle_Put handler k v h"
| "handle_op handler (Delete_op k) h = handle_Delete handler k h"

fun short_op :: "batch_op \<Rightarrow> bool" where
  "short_op (Put_op k v) \<longleftrightarrow> length k < 2 ^ 32 \<and> length v < 2 ^ 32"
| "short_op (Delete_op k) \<longleftrightarrow> length k < 2 ^ 32"

fun op_bytes :: "batch_op \<Rightarrow> byte list" where
  "op_bytes (Put_op k v) = 1 # PutLengthPrefixedSlice [] k @ PutLengthPrefixedSlice [] v"
| "op_bytes (Delete_op k) = 0 # PutLengthPrefixedSlice [] k"

definition batch_of :: "batch_op list \<Rightarrow> write_batch" where
  "batch_of ops = fold apply_op ops WriteBatch"

text \<open>A batch is a sequence number, a count and the bytes of its operations.\<close>

definition batch_bytes :: "u64 \<Rightarrow> u32 \<Rightarrow> batch_op list \<Rightarrow> write_batch" where
  "batch_bytes seq n ops = EncodeFixed64 seq @ EncodeFixed32 n @ concat (map op_bytes ops)"

lemma batch_header [simp]:
  "Count (batch_bytes seq n ops) = n" "Sequence (batch_bytes seq n ops) = seq"
  "SetCount n' (batch_bytes seq n ops) = batch_bytes seq n' ops"
  "SetSequence seq' (batch_bytes seq n ops) = batch_bytes seq' n ops"
  "drop kHeader (batch_bytes seq n ops) = concat (map op_bytes ops)" "kHeader \<le> length (batch_bytes seq n ops)"
  by (simp_all add: batch_bytes_def Count_def Sequence_def SetCount_def SetSequence_def overwrite_def kHeader_def)

lemma batch_bytes_append: "batch_bytes seq n ops @ concat (map op_bytes ops') = batch_bytes seq n (ops @ ops')"
  by (simp add: batch_bytes_def)

lemma WriteBatch_bytes: "WriteBatch = batch_bytes 0 0 []"
  by (simp add: WriteBatch_def batch_Clear_def kHeader_def batch_bytes_def EncodeFixed64_le EncodeFixed32_le le_bytes_def numeral_eq_Suc)

lemma apply_op_bytes: "apply_op b (batch_bytes seq n ops) = batch_bytes seq (n + 1) (ops @ [b])"
  by (cases b) (simp_all add: batch_Put_def batch_Delete_def Let_def PutLengthPrefixedSlice_append [of "_ @ _"]
      batch_bytes_append [symmetric])

lemma fold_apply_bytes: "fold apply_op ops' (batch_bytes seq n ops) = batch_bytes seq (n + word_of_nat (length ops')) (ops @ ops')"
  by (induction ops' arbitrary: n ops) (simp_all add: apply_op_bytes algebra_simps)

lemma batch_of_bytes: "batch_of ops = batch_bytes 0 (word_of_nat (length ops)) ops"
  by (simp add: batch_of_def WriteBatch_bytes fold_apply_bytes)

section \<open>Iteration\<close>

lemma iterate_op:
  "short_op b \<Longrightarrow> iterate_loop handler (op_bytes b @ rest) found h = iterate_loop handler rest (found + 1) (handle_op handler b h)"
  by (cases b) (simp_all add: Let_def GetLengthPrefixedSlice_Put)

lemma iterate_ops:
  "\<forall>b\<in>set ops. short_op b \<Longrightarrow>
    iterate_loop handler (concat (map op_bytes ops)) found h = (OK, found + word_of_nat (length ops), fold (handle_op handler) ops h)"
proof (induction ops arbitrary: found h)
  case (Cons b ops)
  then show ?case by (simp add: iterate_op algebra_simps)
qed simp

lemma Iterate_bytes:
  "\<forall>b\<in>set ops. short_op b \<Longrightarrow> Iterate handler (batch_bytes seq (word_of_nat (length ops)) ops) h = (OK, fold (handle_op handler) ops h)"
  using iterate_ops [of ops handler 0 h] by (simp add: Iterate_def leD [OF batch_header(6)])

lemma Append_bytes: "batch_Append (batch_bytes s1 n1 ops1) (batch_bytes s2 n2 ops2) = batch_bytes s1 (n1 + n2) (ops1 @ ops2)"
  by (simp add: batch_Append_def) (simp add: batch_bytes_append)

section \<open>Damaged batches\<close>

lemma varint32_fallback_extend:
  "varint32_fallback shift r p = Some (n, rest) \<Longrightarrow> varint32_fallback shift r (p @ q) = Some (n, rest @ q)"
  by (induction shift r p rule: varint32_fallback.induct) (auto split: if_splits)

lemma GetVarint32_extend: "GetVarint32 p = Some (n, rest) \<Longrightarrow> GetVarint32 (p @ q) = Some (n, rest @ q)"
  by (cases p) (auto simp: GetVarint32_def GetVarint32Ptr_def GetVarint32PtrFallback_def
      dest: varint32_fallback_extend split: if_splits)

lemma GetLengthPrefixedSlice_extend:
  "GetLengthPrefixedSlice p = Some (v, rest) \<Longrightarrow> GetLengthPrefixedSlice (p @ q) = Some (v, rest @ q)"
proof -
  assume "GetLengthPrefixedSlice p = Some (v, rest)"
  then obtain n r where n: "GetVarint32 p = Some (n, r)" "unat n \<le> length r" "v = take (unat n) r" "rest = drop (unat n) r"
    by (auto simp: GetLengthPrefixedSlice_def split: option.splits if_splits)
  with GetVarint32_extend [OF n(1), of q] show ?thesis by (simp add: GetLengthPrefixedSlice_def)
qed

text \<open>A slice that is cut off is not parsed.\<close>

lemma Get_cut:
  assumes "length v < 2 ^ 32" "k < length (PutLengthPrefixedSlice [] v)"
  shows "GetLengthPrefixedSlice (take k (PutLengthPrefixedSlice [] v)) = None"
proof (rule ccontr)
  let ?b = "PutLengthPrefixedSlice [] v"
  assume "GetLengthPrefixedSlice (take k ?b) \<noteq> None"
  then obtain w rest where "GetLengthPrefixedSlice (take k ?b) = Some (w, rest)" by auto
  from GetLengthPrefixedSlice_extend [OF this, of "drop k ?b"]
  have "GetLengthPrefixedSlice ?b = Some (w, rest @ drop k ?b)" by simp
  then have "rest @ drop k ?b = []" using GetLengthPrefixedSlice_Put [OF assms(1), of "[]"] by simp
  with assms(2) show False by simp
qed

lemma iterate_cut:
  assumes "short_op b" "0 < k" "k < length (op_bytes b)"
  shows "\<not> is_ok (fst (iterate_loop handler (take k (op_bytes b)) found h))"
proof (cases b)
  case (Put_op key v)
  let ?k = "PutLengthPrefixedSlice [] key" and ?v = "PutLengthPrefixedSlice [] v"
  obtain j where k: "k = Suc j" using assms(2) by (cases k) auto
  have l: "length key < 2 ^ 32" "length v < 2 ^ 32" using assms(1) Put_op by auto
  show ?thesis
  proof (cases "j < length ?k")
    case True
    then show ?thesis using Put_op k Get_cut [OF l(1) True] by (simp add: Let_def)
  next
    case False
    then have "j - length ?k < length ?v" using assms(3) Put_op k by simp
    then show ?thesis
      using Put_op k False Get_cut [OF l(2)] GetLengthPrefixedSlice_Put [OF l(1)] by (simp add: Let_def)
  qed
next
  case (Delete_op key)
  then obtain j where "k = Suc j" "j < length (PutLengthPrefixedSlice [] key)" using assms(2,3) by (cases k) auto
  with assms(1) Delete_op Get_cut [of key j] show ?thesis by (simp add: Let_def)
qed

lemma iterate_prefix:
  "\<forall>b\<in>set ops. short_op b \<Longrightarrow> k < length (concat (map op_bytes ops)) \<Longrightarrow>
    case iterate_loop handler (take k (concat (map op_bytes ops))) found h of
      (s, n, h') \<Rightarrow> \<not> is_ok s \<or> (\<exists>j<length ops. n = found + word_of_nat j)"
proof (induction ops arbitrary: k found h)
  case (Cons b ops)
  consider "k = 0" | "0 < k" "k < length (op_bytes b)" | "length (op_bytes b) \<le> k" by linarith
  then show ?case
  proof cases
    case 1
    then show ?thesis by (auto intro: exI [of _ 0])
  next
    case 2
    then show ?thesis using iterate_cut [of b k handler found h] Cons.prems(1) by (auto split: prod.split)
  next
    case 3
    let ?k = "k - length (op_bytes b)"
    have t: "take k (concat (map op_bytes (b # ops))) = op_bytes b @ take ?k (concat (map op_bytes ops))" using 3 by simp
    have l: "?k < length (concat (map op_bytes ops))" using Cons.prems(2) 3 by simp
    obtain s n h' where i: "iterate_loop handler (take ?k (concat (map op_bytes ops))) (found + 1) (handle_op handler b h) = (s, n, h')"
      by (metis prod_cases3)
    have "\<not> is_ok s \<or> (\<exists>j<length ops. n = found + 1 + word_of_nat j)"
      using Cons.IH [OF _ l, of "found + 1" "handle_op handler b h"] Cons.prems(1) by (simp add: i)
    moreover have "\<exists>j<length (b # ops). n = found + word_of_nat j" if "j < length ops" "n = found + 1 + word_of_nat j" for j
      using that by (intro exI [of _ "Suc j"]) simp
    moreover have "short_op b" using Cons.prems(1) by simp
    ultimately show ?thesis unfolding t iterate_op [OF \<open>short_op b\<close>] i prod.case by blast
  qed
qed simp

lemma Iterate_cut:
  assumes "\<forall>b\<in>set ops. short_op b" "length ops < 2 ^ 32" "k < length (batch_bytes seq (word_of_nat (length ops)) ops)"
  shows "\<not> is_ok (fst (Iterate handler (take k (batch_bytes seq (word_of_nat (length ops)) ops)) h))"
proof (cases "k < kHeader")
  case True
  then have "length (take k (batch_bytes seq (word_of_nat (length ops)) ops)) < kHeader" by simp
  then show ?thesis by (simp only: Iterate_def if_True) simp
next
  case False
  let ?c = "concat (map op_bytes ops)" and ?b = "batch_bytes seq (word_of_nat (length ops)) ops"
  have d: "drop kHeader (take k ?b) = take (k - kHeader) ?c" by (simp add: drop_take)
  have l: "k - kHeader < length ?c" "length (take k ?b) = k" using assms(3) False by (simp_all add: batch_bytes_def kHeader_def)
  have c: "Count (take k ?b) = word_of_nat (length ops)"
    using False by (simp add: Count_def batch_bytes_def kHeader_def)
  have "word_of_nat j \<noteq> (word_of_nat (length ops) :: u32)" if "j < length ops" for j
    using that assms(2) by (simp add: word_unat_eq_iff unat_of_nat)
  with iterate_prefix [OF assms(1) l(1), where handler = handler and found = 0 and h = h] show ?thesis
    unfolding Iterate_def d c l(2) using False by (auto split: prod.splits)
qed

section \<open>Insertion into a memtable\<close>

fun entries_from :: "u64 \<Rightarrow> batch_op list \<Rightarrow> entry list" where
  "entries_from seq [] = []"
| "entries_from seq (Put_op k v # ops) = (\<lparr>key_user = k, key_sequence = seq, key_type = kTypeValue\<rparr>, v) # entries_from (seq + 1) ops"
| "entries_from seq (Delete_op k # ops) = (\<lparr>key_user = k, key_sequence = seq, key_type = kTypeDeletion\<rparr>, []) # entries_from (seq + 1) ops"

lemma inserter_ops:
  "fold (handle_op MemTableInserter) ops (seq, m) = (seq + word_of_nat (length ops), Option.bind m (add_all (entries_from seq ops)))"
proof (induction ops arbitrary: seq m)
  case Nil
  then show ?case by (cases m) simp_all
next
  case (Cons b ops)
  then show ?case by (cases b; cases m) (simp_all add: MemTableInserter_def algebra_simps)
qed

lemma InsertInto_batch:
  "\<forall>b\<in>set ops. short_op b \<Longrightarrow> InsertInto (SetSequence seq (batch_of ops)) m = (OK, add_all (entries_from seq ops) m)"
  by (simp add: InsertInto_def batch_of_bytes Iterate_bytes inserter_ops)

text \<open>The way the database applies its writes: each batch gets the sequence numbers behind those of
  the batches before it.\<close>

fun apply_batches :: "u64 \<Rightarrow> batch_op list list \<Rightarrow> memtable \<Rightarrow> memtable option" where
  "apply_batches seq [] m = Some m"
| "apply_batches seq (ops # batches) m =
     (case InsertInto (SetSequence seq (batch_of ops)) m of
        (s, Some m') \<Rightarrow> if is_ok s then apply_batches (seq + word_of_nat (length ops)) batches m' else None
      | (s, None) \<Rightarrow> None)"

lemma add_all_append: "add_all (es @ es') m = Option.bind (add_all es m) (add_all es')"
  by (induction es arbitrary: m) (simp_all cong: Option.bind_cong)

lemma entries_from_append:
  "entries_from seq (ops @ ops') = entries_from seq ops @ entries_from (seq + word_of_nat (length ops)) ops'"
proof (induction ops arbitrary: seq)
  case (Cons b ops)
  then show ?case by (cases b) (simp_all add: algebra_simps)
qed simp

lemma apply_batches_eq:
  "\<forall>b\<in>set (concat batches). short_op b \<Longrightarrow> apply_batches seq batches m = add_all (entries_from seq (concat batches)) m"
proof (induction batches arbitrary: seq m)
  case (Cons ops batches)
  then show ?case
    by (cases "add_all (entries_from seq ops) m") (simp_all add: InsertInto_batch entries_from_append add_all_append)
qed simp

lemma entries_sequences:
  "unat seq + length ops < 2 ^ 64 \<Longrightarrow>
    map (\<lambda>e. unat (key_sequence (fst e))) (entries_from seq ops) = map (\<lambda>i. unat seq + i) [0..<length ops]"
proof (induction ops arbitrary: seq)
  case (Cons b ops)
  have "unat (seq + 1) = unat seq + 1" using Cons.prems by (simp add: unat_word_ariths)
  then have "map (\<lambda>e. unat (key_sequence (fst e))) (entries_from (seq + 1) ops) = map (\<lambda>i. unat seq + i) [Suc 0..<Suc (length ops)]"
    using Cons by (simp add: map_Suc_upt [symmetric] del: upt_Suc)
  then show ?case by (cases b) (simp_all add: upt_conv_Cons del: upt_Suc)
qed simp

lemma entries_in_order:
  assumes "unat seq + length ops < 2 ^ 64"
  shows "in_order (entries_from seq ops)"
proof -
  have "sorted_wrt (<) (map (\<lambda>e. unat (key_sequence (fst e))) (entries_from seq ops))"
    unfolding entries_sequences [OF assms] by (simp add: sorted_wrt_map sorted_wrt_upt)
  then show ?thesis by (simp add: in_order_def sorted_wrt_map word_less_nat_alt)
qed

fun storable :: "batch_op \<Rightarrow> bool" where
  "storable (Put_op k v) \<longleftrightarrow> length k + 8 < 2 ^ 32 \<and> length v < 2 ^ 32"
| "storable (Delete_op k) \<longleftrightarrow> length k + 8 < 2 ^ 32"

lemma storable_short: "storable b \<Longrightarrow> short_op b"
  by (cases b) auto

lemma entries_valid:
  assumes "\<forall>b\<in>set ops. storable b" "unat seq + length ops \<le> 2 ^ 56"
  shows "\<forall>e\<in>set (entries_from seq ops). valid_entry e"
proof -
  have "\<forall>e\<in>set (entries_from seq ops). length (key_user (fst e)) + 8 < 2 ^ 32 \<and> length (snd e) < 2 ^ 32"
    using assms(1)
  proof (induction ops arbitrary: seq)
    case (Cons b ops)
    then show ?case by (cases b) auto
  qed simp
  moreover have "key_sequence (fst e) \<le> kMaxSequenceNumber" if "e \<in> set (entries_from seq ops)" for e
  proof -
    have "unat (key_sequence (fst e)) \<in> set (map (\<lambda>i. unat seq + i) [0..<length ops])"
      unfolding entries_sequences [OF order.strict_trans1 [OF assms(2)], simplified, symmetric] using that by simp
    then show ?thesis using assms(2) by (auto simp: word_le_nat_alt kMaxSequenceNumber_def)
  qed
  ultimately show ?thesis by (simp add: valid_entry_def)
qed

section \<open>Properties\<close>

text \<open>C17: what was put into a batch comes out: iterating over a batch hands exactly its operations to
  the handler, in order, and returns OK; the header holds the sequence number that was set and the
  number of the operations, and appending batches concatenates their operations.\<close>

theorem batch_roundtrip:
  assumes "\<forall>b\<in>set (ops @ ops'). short_op b"
  shows "Iterate handler (SetSequence seq (batch_of ops)) h = (OK, fold (handle_op handler) ops h) \<and>
    Sequence (SetSequence seq (batch_of ops)) = seq \<and> Count (batch_of ops) = word_of_nat (length ops) \<and>
    Iterate handler (batch_Append (batch_of ops) (batch_of ops')) h = (OK, fold (handle_op handler) (ops @ ops') h)"
proof -
  have "word_of_nat (length ops) + word_of_nat (length ops') = (word_of_nat (length (ops @ ops')) :: u32)" by simp
  then have "Iterate handler (batch_Append (batch_of ops) (batch_of ops')) h = (OK, fold (handle_op handler) (ops @ ops') h)"
    unfolding batch_of_bytes Append_bytes using Iterate_bytes [OF assms] by metis
  with assms show ?thesis by (simp add: batch_of_bytes Iterate_bytes)
qed

definition example_ops :: "batch_op list" where
  "example_ops = [Put_op [1] [10], Delete_op [1], Put_op [2] []]"

text \<open>A handler that writes down what it is told.\<close>

definition recorder :: "(slice \<times> slice option) list handler" where
  "recorder = \<lparr>handle_Put = (\<lambda>k v l. l @ [(k, Some v)]), handle_Delete = (\<lambda>k l. l @ [(k, None)])\<rparr>"

theorem batch_roundtrip_witness:
  "Iterate recorder (batch_Append (batch_of example_ops) (batch_of [Delete_op [2]])) [] =
    (OK, [([1], Some [10]), ([1], None), ([2], Some []), ([2], None)])"
  using batch_roundtrip [of example_ops "[Delete_op [2]]" recorder 0 "[]"]
  by (simp add: example_ops_def recorder_def)

text \<open>C18: a damaged batch is refused: iterating over a batch that lost any number of bytes at its end
  returns an error, wherever the cut is.\<close>

theorem batch_cut_rejected:
  assumes "\<forall>b\<in>set ops. short_op b" "length ops < 2 ^ 32" "k < length (batch_of ops)"
  shows "\<not> is_ok (fst (Iterate handler (take k (batch_of ops)) h))"
  using Iterate_cut [OF assms(1,2)] assms(3) by (simp add: batch_of_bytes)

theorem batch_cut_rejected_witness:
  "\<not> is_ok (fst (Iterate recorder (take 14 (batch_of example_ops)) []))"
  by (rule batch_cut_rejected) (simp_all add: example_ops_def batch_of_bytes batch_bytes_def)

text \<open>C6: a memtable is a multi-version map: after any sequence of batches, a lookup of a key at a
  snapshot returns the value of the last put of the key among the operations that the snapshot
  includes, NotFound when the last of them is a deletion, and reports the key absent when there is none.\<close>

theorem memtable_versions:
  assumes "\<forall>b\<in>set (concat batches). storable b" "unat seq + length (concat batches) \<le> 2 ^ 56"
    "s \<le> kMaxSequenceNumber" "length u + 8 < 2 ^ 32"
  shows "\<exists>m. apply_batches seq batches (MemTable BytewiseComparator junk) = Some m \<and>
    mem_Get m (LookupKey u s) = Some (newest (visible (entries_from seq (concat batches)) u s))"
proof -
  have "\<forall>b\<in>set (concat batches). short_op b" using assms(1) storable_short by blast
  moreover have "in_order (entries_from seq (concat batches))" using assms(2) by (intro entries_in_order) simp
  ultimately show ?thesis
    using bytewise_user.get_after_adds [OF entries_valid [OF assms(1,2)] _ assms(3,4)] by (simp add: apply_batches_eq)
qed

theorem memtable_versions_witness:
  "\<exists>m. apply_batches 7 [example_ops, [Put_op [1] [11]]] (MemTable BytewiseComparator (\<lambda>_ _. None)) = Some m \<and>
    mem_Get m (LookupKey [1] 8) = Some (Deleted (status_msg kNotFound [] []))"
proof -
  let ?b = "[example_ops, [Put_op [1] [11]]]"
  have e: "entries_from 7 (concat ?b) =
      [(\<lparr>key_user = [1], key_sequence = 7, key_type = kTypeValue\<rparr>, [10]), (\<lparr>key_user = [1], key_sequence = 8, key_type = kTypeDeletion\<rparr>, []),
       (\<lparr>key_user = [2], key_sequence = 9, key_type = kTypeValue\<rparr>, []), (\<lparr>key_user = [1], key_sequence = 10, key_type = kTypeValue\<rparr>, [11])]"
    by (simp add: example_ops_def)
  have "newest (visible (entries_from 7 (concat ?b)) [1] 8) = Deleted (status_msg kNotFound [] [])"
    unfolding e by (simp add: visible_def newest_def says_def)
  moreover have "\<forall>b\<in>set (concat ?b). storable b" "unat (7 :: u64) + length (concat ?b) \<le> 2 ^ 56"
    "(8 :: u64) \<le> kMaxSequenceNumber" "length [1 :: byte] + 8 < 2 ^ 32"
    by (simp_all add: example_ops_def kMaxSequenceNumber_def)
  note memtable_versions [OF this, of "\<lambda>_ _. None"]
  ultimately show ?thesis by metis
qed

end
