(* ===== verification/Ldb_Block.thy ===== *)
theory Ldb_Block
  imports Ldb_Key
begin

text \<open>
  The blocks of a table: \<open>table/block_builder.cc\<close>, which writes keys without the prefix they share
  with the key before, and \<open>table/block.cc\<close>, whose iterator reads them back and searches for keys.
  The two options a block depends on, the restart interval and the comparator, are parameters.

  \<open>data\<close> is the whole block; a pointer into it is an offset.  The fields of the iterator that the
  code keeps in \<open>uint32_t\<close> are numbers here, cut to 32 bits where the code stores them.
\<close>

section \<open>Building\<close>

record block_builder =
  bb_buffer :: "byte list"
  bb_restarts :: "u32 list"
  bb_counter :: nat
  finished :: bool
  last_key :: slice

definition BlockBuilder :: block_builder where
  "BlockBuilder = \<lparr>bb_buffer = [], bb_restarts = [0], bb_counter = 0, finished = False, last_key = []\<rparr>"

definition block_Reset :: "block_builder \<Rightarrow> block_builder" where
  "block_Reset b = b\<lparr>bb_buffer := [], bb_restarts := [0], bb_counter := 0, finished := False, last_key := []\<rparr>"

definition CurrentSizeEstimate :: "block_builder \<Rightarrow> nat" where
  "CurrentSizeEstimate b = length (bb_buffer b) + length (bb_restarts b) * 4 + 4"

definition block_empty :: "block_builder \<Rightarrow> bool" where
  "block_empty b \<longleftrightarrow> bb_buffer b = []"

definition block_Finish :: "block_builder \<Rightarrow> slice \<times> block_builder" where
  "block_Finish b =
     (let buffer = PutFixed32 (foldl PutFixed32 (bb_buffer b) (bb_restarts b)) (word_of_nat (length (bb_restarts b)))
      in (buffer, b\<lparr>bb_buffer := buffer, finished := True\<rparr>))"

fun shared_prefix :: "slice \<Rightarrow> slice \<Rightarrow> nat" where
  "shared_prefix (a # as) (b # bs) = (if a = b then Suc (shared_prefix as bs) else 0)"
| "shared_prefix _ _ = 0"

definition block_Add :: "nat \<Rightarrow> slice \<Rightarrow> slice \<Rightarrow> block_builder \<Rightarrow> block_builder" where
  "block_Add interval key value b =
     (let (shared, b1) =
        (if bb_counter b < interval then (shared_prefix (last_key b) key, b)
         else (0, b\<lparr>bb_restarts := bb_restarts b @ [word_of_nat (length (bb_buffer b))], bb_counter := 0\<rparr>));
          non_shared = length key - shared;
          buf1 = PutVarint32 (bb_buffer b1) (word_of_nat shared);
          buf2 = PutVarint32 buf1 (word_of_nat non_shared);
          buf3 = PutVarint32 buf2 (word_of_nat (length value));
          buf4 = buf3 @ drop shared key @ value
      in b1\<lparr>bb_buffer := buf4, last_key := take shared (last_key b) @ drop shared key, bb_counter := bb_counter b1 + 1\<rparr>)"

section \<open>Opening\<close>

record block =
  blk_data :: slice
  blk_size :: nat
  restart_offset :: nat

definition NumRestarts :: "slice \<Rightarrow> nat \<Rightarrow> nat" where
  "NumRestarts data sz = unat (DecodeFixed32 (drop (sz - 4) data))"

text \<open>A size of 0 marks an error.\<close>

definition Block :: "slice \<Rightarrow> block" where
  "Block data =
     (let sz = length data in
      if sz < 4 then \<lparr>blk_data = data, blk_size = 0, restart_offset = 0\<rparr>
      else
        let max_restarts_allowed = (sz - 4) div 4; n = NumRestarts data sz in
        if max_restarts_allowed < n then \<lparr>blk_data = data, blk_size = 0, restart_offset = 0\<rparr>
        else \<lparr>blk_data = data, blk_size = sz, restart_offset = (sz - (1 + n) mod 2 ^ 32 * 4) mod 2 ^ 32\<rparr>)"

text \<open>\<open>p\<close> are the bytes up to \<open>limit\<close>.  The sum of the two lengths is one of \<open>uint32_t\<close>.\<close>

definition DecodeEntry :: "byte list \<Rightarrow> (u32 \<times> u32 \<times> u32 \<times> byte list) option" where
  "DecodeEntry p =
     (if length p < 3 then None
      else
        let s0 = ucast (p ! 0) :: u32; n0 = ucast (p ! 1) :: u32; v0 = ucast (p ! 2) :: u32;
            header =
              (if s0 OR n0 OR v0 < 128 then Some (s0, n0, v0, drop 3 p)
               else case GetVarint32Ptr p of
                 None \<Rightarrow> None
               | Some (s, p1) \<Rightarrow> (case GetVarint32Ptr p1 of
                   None \<Rightarrow> None
                 | Some (n, p2) \<Rightarrow> (case GetVarint32Ptr p2 of
                     None \<Rightarrow> None
                   | Some (v, p3) \<Rightarrow> Some (s, n, v, p3))))
        in case header of
             None \<Rightarrow> None
           | Some (s, n, v, q) \<Rightarrow> if (word_of_nat (length q) :: u32) < n + v then None else Some (s, n, v, q))"

section \<open>Iterating\<close>

text \<open>\<open>value_\<close> is a slice of the block: its offset and its length.\<close>

record block_iter =
  bi_data :: slice
  bi_restarts :: u32
  num_restarts :: nat
  current :: nat
  restart_index :: nat
  bi_key :: slice
  value_pos :: nat
  value_len :: nat
  bi_status :: status

definition block_Iter :: "slice \<Rightarrow> u32 \<Rightarrow> nat \<Rightarrow> block_iter" where
  "block_Iter data rs n = \<lparr>bi_data = data, bi_restarts = rs, num_restarts = n, current = unat rs, restart_index = n,
     bi_key = [], value_pos = 0, value_len = 0, bi_status = OK\<rparr>"

definition bi_Valid :: "block_iter \<Rightarrow> bool" where "bi_Valid it \<longleftrightarrow> current it < unat (bi_restarts it)"

definition bi_value :: "block_iter \<Rightarrow> slice" where
  "bi_value it = take (value_len it) (drop (value_pos it) (bi_data it))"

definition NextEntryOffset :: "block_iter \<Rightarrow> nat" where
  "NextEntryOffset it = (value_pos it + value_len it) mod 2 ^ 32"

definition GetRestartPoint :: "block_iter \<Rightarrow> nat \<Rightarrow> nat" where
  "GetRestartPoint it index = unat (DecodeFixed32 (drop (unat (bi_restarts it) + index * 4) (bi_data it)))"

definition SeekToRestartPoint :: "nat \<Rightarrow> block_iter \<Rightarrow> block_iter" where
  "SeekToRestartPoint index it =
     it\<lparr>bi_key := [], restart_index := index, value_pos := GetRestartPoint it index, value_len := 0\<rparr>"

text \<open>The cleared value is an empty string outside of the block; its position is not used again.\<close>

definition CorruptionError :: "block_iter \<Rightarrow> block_iter" where
  "CorruptionError it = it\<lparr>current := unat (bi_restarts it), restart_index := num_restarts it,
     bi_status := Corruption ''bad entry in block'', bi_key := [], value_pos := 0, value_len := 0\<rparr>"

function advance_restart :: "block_iter \<Rightarrow> nat \<Rightarrow> nat" where
  "advance_restart it index =
     (if index + 1 < num_restarts it \<and> GetRestartPoint it (index + 1) < current it
      then advance_restart it (index + 1) else index)"
  by pat_completeness auto
termination by (relation "measure (\<lambda>(it, index). num_restarts it - index)") auto

declare advance_restart.simps [simp del]

definition ParseNextKey :: "block_iter \<Rightarrow> bool \<times> block_iter" where
  "ParseNextKey it0 =
     (let it = it0\<lparr>current := NextEntryOffset it0\<rparr>; limit = unat (bi_restarts it) in
      if limit \<le> current it
      then (False, it\<lparr>current := unat (bi_restarts it), restart_index := num_restarts it\<rparr>)
      else
        let p = take (limit - current it) (drop (current it) (bi_data it)) in
        case DecodeEntry p of
          None \<Rightarrow> (False, CorruptionError it)
        | Some (shared, non_shared, value_length, q) \<Rightarrow>
            if length (bi_key it) < unat shared then (False, CorruptionError it)
            else
              let pos = current it + (length p - length q);
                  it1 = it\<lparr>bi_key := take (unat shared) (bi_key it) @ take (unat non_shared) (drop pos (bi_data it)),
                           value_pos := pos + unat non_shared, value_len := unat value_length\<rparr>
              in (True, it1\<lparr>restart_index := advance_restart it1 (restart_index it1)\<rparr>))"

text \<open>A parsed entry ends behind the end of the one before, and not behind the restart array.\<close>

lemma DecodeEntry_shorter:
  assumes "DecodeEntry p = Some (s, n, v, q)"
  shows "length q < length p" "\<not> word_of_nat (length q) < n + v"
proof -
  have sh: "GetVarint32Ptr xs = Some (w, rest) \<Longrightarrow> length rest < length xs" for xs w rest
    using GetVarint_suffix(2) [of xs w rest] by (auto simp: GetVarint32_def)
  from assms show "length q < length p" "\<not> word_of_nat (length q) < n + v"
    by (auto simp: DecodeEntry_def Let_def split: if_splits option.splits dest!: sh)
qed

definition entry_rest :: "block_iter \<Rightarrow> byte list" where
  "entry_rest it = take (unat (bi_restarts it) - NextEntryOffset it) (drop (NextEntryOffset it) (bi_data it))"

text \<open>\<open>ParseNextKey\<close> by its cases.\<close>

lemma ParseNextKey_end:
  "unat (bi_restarts it) \<le> NextEntryOffset it \<Longrightarrow>
    ParseNextKey it = (False, it\<lparr>current := unat (bi_restarts it), restart_index := num_restarts it\<rparr>)"
  by (simp add: ParseNextKey_def)

lemma ParseNextKey_bad:
  "\<not> unat (bi_restarts it) \<le> NextEntryOffset it \<Longrightarrow> DecodeEntry (entry_rest it) = None \<Longrightarrow> \<not> fst (ParseNextKey it)"
  by (simp add: ParseNextKey_def entry_rest_def)

lemma ParseNextKey_entry:
  assumes "\<not> unat (bi_restarts it) \<le> NextEntryOffset it" "DecodeEntry (entry_rest it) = Some (s, n, v, q)"
  shows "ParseNextKey it =
    (let pos = NextEntryOffset it + (length (entry_rest it) - length q);
         it1 = it\<lparr>current := NextEntryOffset it, bi_key := take (unat s) (bi_key it) @ take (unat n) (drop pos (bi_data it)),
                  value_pos := pos + unat n, value_len := unat v\<rparr>
     in if length (bi_key it) < unat s then (False, CorruptionError (it\<lparr>current := NextEntryOffset it\<rparr>))
        else (True, it1\<lparr>restart_index := advance_restart it1 (restart_index it)\<rparr>))"
  using assms unfolding entry_rest_def by (simp add: ParseNextKey_def Let_def)

lemma ParseNextKey_progress:
  assumes "ParseNextKey it = (True, it')"
  shows "NextEntryOffset it < NextEntryOffset it'" "NextEntryOffset it' \<le> unat (bi_restarts it)" "bi_restarts it' = bi_restarts it"
proof -
  let ?c = "NextEntryOffset it" and ?R = "unat (bi_restarts it)"
  let ?p = "entry_rest it"
  have c: "\<not> ?R \<le> ?c" using ParseNextKey_end [of it] assms by auto
  obtain s n v q where d: "DecodeEntry ?p = Some (s, n, v, q)"
    using ParseNextKey_bad [OF c] assms by (cases "DecodeEntry ?p") auto
  have k: "\<not> length (bi_key it) < unat s" using assms ParseNextKey_entry [OF c d] by (auto simp: Let_def)
  have it': "value_pos it' = ?c + (length ?p - length q) + unat n" "value_len it' = unat v" "bi_restarts it' = bi_restarts it"
    using assms k ParseNextKey_entry [OF c d] by (simp_all add: Let_def prod_eq_iff) (auto simp: Let_def)
  note sh = DecodeEntry_shorter [OF d]
  have R: "?R < 2 ^ 32" using unsigned_less [of "bi_restarts it", where ?'a = nat] by simp
  have q: "length q < length ?p" "length ?p \<le> ?R - ?c" using sh(1) by (simp_all add: entry_rest_def)
  define m where "m = (unat n + unat v) mod 2 ^ 32"
  have m: "m \<le> length q"
    using sh(2) R q by (simp add: m_def word_less_nat_alt unat_word_ariths unat_of_nat not_less)
  have "NextEntryOffset it' = (?c + (length ?p - length q) + (unat n + unat v)) mod 2 ^ 32"
    unfolding NextEntryOffset_def [of it'] it' by (simp only: add.assoc)
  also have "\<dots> = (?c + (length ?p - length q) + m) mod 2 ^ 32" by (simp only: m_def mod_add_right_eq)
  finally have "NextEntryOffset it' = (?c + (length ?p - length q) + m) mod 2 ^ 32" .
  moreover have "?c + (length ?p - length q) + m \<le> ?R" using m q c by linarith
  ultimately have "NextEntryOffset it' = ?c + (length ?p - length q) + m" using R by simp
  with q \<open>?c + (length ?p - length q) + m \<le> ?R\<close> show "?c < NextEntryOffset it'" "NextEntryOffset it' \<le> ?R" by linarith+
  show "bi_restarts it' = bi_restarts it" by (rule it'(3))
qed

definition bi_Next :: "block_iter \<Rightarrow> block_iter" where
  "bi_Next it = snd (ParseNextKey it)"

text \<open>The loop that goes back to a restart point before \<open>original\<close>.\<close>

fun prev_restart :: "block_iter \<Rightarrow> nat \<Rightarrow> nat \<Rightarrow> nat option" where
  "prev_restart it original 0 = (if original \<le> GetRestartPoint it 0 then None else Some 0)"
| "prev_restart it original (Suc index) =
     (if original \<le> GetRestartPoint it (Suc index) then prev_restart it original index else Some (Suc index))"

lemma scan_measure:
  "(True, it') = ParseNextKey it \<Longrightarrow>
    unat (bi_restarts it') - NextEntryOffset it' < unat (bi_restarts it) - NextEntryOffset it"
  using ParseNextKey_progress [of it it'] by simp

function prev_scan :: "nat \<Rightarrow> block_iter \<Rightarrow> block_iter" where
  "prev_scan original it = (case ParseNextKey it of
     (True, it') \<Rightarrow> if NextEntryOffset it' < original then prev_scan original it' else it'
   | (False, it') \<Rightarrow> it')"
  by pat_completeness auto
termination by (relation "measure (\<lambda>(original, it). unat (bi_restarts it) - NextEntryOffset it)") (simp_all add: scan_measure)

definition bi_Prev :: "block_iter \<Rightarrow> block_iter" where
  "bi_Prev it =
     (let original = current it in
      case prev_restart it original (restart_index it) of
        None \<Rightarrow> it\<lparr>current := unat (bi_restarts it), restart_index := num_restarts it\<rparr>
      | Some index \<Rightarrow> prev_scan original (SeekToRestartPoint index it))"

text \<open>The binary search over the restart points; \<open>None\<close> for a corrupted entry.\<close>

function seek_search :: "comparator \<Rightarrow> block_iter \<Rightarrow> slice \<Rightarrow> nat \<Rightarrow> nat \<Rightarrow> nat option" where
  "seek_search c it target left right =
     (if left < right then
        let mid = (left + right + 1) div 2;
            region_offset = GetRestartPoint it mid
        in case DecodeEntry (take (unat (bi_restarts it) - region_offset) (drop region_offset (bi_data it))) of
             None \<Rightarrow> None
           | Some (shared, non_shared, value_length, q) \<Rightarrow>
               if shared \<noteq> 0 then None
               else if Compare c (take (unat non_shared) q) target < 0 then seek_search c it target mid right
               else seek_search c it target left (mid - 1)
      else Some left)"
  by pat_completeness auto
termination by (relation "measure (\<lambda>(c, it, target, left, right). right - left)") auto

function seek_scan :: "comparator \<Rightarrow> slice \<Rightarrow> block_iter \<Rightarrow> block_iter" where
  "seek_scan c target it = (case ParseNextKey it of
     (True, it') \<Rightarrow> if 0 \<le> Compare c (bi_key it') target then it' else seek_scan c target it'
   | (False, it') \<Rightarrow> it')"
  by pat_completeness auto
termination by (relation "measure (\<lambda>(c, target, it). unat (bi_restarts it) - NextEntryOffset it)") (simp_all add: scan_measure)

definition bi_Seek :: "comparator \<Rightarrow> slice \<Rightarrow> block_iter \<Rightarrow> block_iter" where
  "bi_Seek c target it =
     (case seek_search c it target 0 (num_restarts it - 1) of
        None \<Rightarrow> CorruptionError it
      | Some left \<Rightarrow> seek_scan c target (SeekToRestartPoint left it))"

definition bi_SeekToFirst :: "block_iter \<Rightarrow> block_iter" where
  "bi_SeekToFirst it = snd (ParseNextKey (SeekToRestartPoint 0 it))"

function last_scan :: "block_iter \<Rightarrow> block_iter" where
  "last_scan it = (case ParseNextKey it of
     (True, it') \<Rightarrow> if NextEntryOffset it' < unat (bi_restarts it') then last_scan it' else it'
   | (False, it') \<Rightarrow> it')"
  by pat_completeness auto
termination by (relation "measure (\<lambda>it. unat (bi_restarts it) - NextEntryOffset it)") (simp_all add: scan_measure)

declare prev_scan.simps [simp del] seek_search.simps [simp del] seek_scan.simps [simp del] last_scan.simps [simp del]

definition bi_SeekToLast :: "block_iter \<Rightarrow> block_iter" where
  "bi_SeekToLast it = last_scan (SeekToRestartPoint (num_restarts it - 1) it)"

text \<open>\<open>NewIterator\<close>: an iterator on the block, or one without entries and a fixed status (\<open>table/iterator.cc\<close>).\<close>

datatype block_iterator = EmptyIterator status | BlockIterator block_iter

definition block_NewIterator :: "block \<Rightarrow> block_iterator" where
  "block_NewIterator b =
     (if blk_size b < 4 then EmptyIterator (Corruption ''bad block contents'')
      else
        let n = NumRestarts (blk_data b) (blk_size b) in
        if n = 0 then EmptyIterator OK
        else BlockIterator (block_Iter (blk_data b) (word_of_nat (restart_offset b)) n))"

end
