(* ===== verification/Ldb_Block_Props.thy ===== *)
theory Ldb_Block_Props
  imports Ldb_Block Ldb_Key_Props
begin

text \<open>
  Blocks: the iterator over a block that was built from ascending entries visits exactly these
  entries in both directions, and \<open>Seek\<close> finds the first entry at or behind the target.  The
  proof describes a block by its entries with their shared prefixes, and by the entries at which
  the restart points stand.
\<close>

section \<open>Entries and their bytes\<close>

type_synonym blk_entry = "nat \<times> slice \<times> slice"

definition e_shared :: "blk_entry \<Rightarrow> nat" where "e_shared e = fst e"
definition e_key :: "blk_entry \<Rightarrow> slice" where "e_key e = fst (snd e)"
definition e_value :: "blk_entry \<Rightarrow> slice" where "e_value e = snd (snd e)"

lemma e_simps [simp]: "e_shared (s, k, v) = s" "e_key (s, k, v) = k" "e_value (s, k, v) = v"
  by (simp_all add: e_shared_def e_key_def e_value_def)

definition eb :: "blk_entry \<Rightarrow> byte list" where
  "eb e = EncodeVarint32 (word_of_nat (e_shared e)) @ EncodeVarint32 (word_of_nat (length (e_key e) - e_shared e)) @
     EncodeVarint32 (word_of_nat (length (e_value e))) @ drop (e_shared e) (e_key e) @ e_value e"

definition off :: "blk_entry list \<Rightarrow> nat \<Rightarrow> nat" where
  "off es i = length (concat (map eb (take i es)))"

lemma eb_length: "3 \<le> length (eb e)"
  unfolding eb_def length_append
  using length_EncodeVarint32 [of "word_of_nat (e_shared e)"] length_EncodeVarint32 [of "word_of_nat (length (e_key e) - e_shared e)"]
    length_EncodeVarint32 [of "word_of_nat (length (e_value e))"] by linarith

lemma off_0 [simp]: "off es 0 = 0"
  by (simp add: off_def)

lemma off_Suc: "i < length es \<Longrightarrow> off es (Suc i) = off es i + length (eb (es ! i))"
  by (simp add: off_def take_Suc_conv_app_nth)

lemma off_less: "i < j \<Longrightarrow> j \<le> length es \<Longrightarrow> off es i < off es j"
proof (induction j)
  case (Suc j)
  have "off es (Suc j) = off es j + length (eb (es ! j))" using Suc.prems by (intro off_Suc) simp
  then have "off es j < off es (Suc j)" using eb_length [of "es ! j"] by linarith
  with Suc show ?case by (cases "i = j") auto
qed simp

lemma off_le: "i \<le> j \<Longrightarrow> j \<le> length es \<Longrightarrow> off es i \<le> off es j"
  using off_less [of i j es] by (cases "i = j") auto

lemma off_le_iff: "i \<le> length es \<Longrightarrow> j \<le> length es \<Longrightarrow> off es i \<le> off es j \<longleftrightarrow> i \<le> j"
  using off_less [of j i es] off_le [of i j es] by (meson not_less)

lemma off_less_iff: "i \<le> length es \<Longrightarrow> j \<le> length es \<Longrightarrow> off es i < off es j \<longleftrightarrow> i < j"
  using off_le_iff [of j es i] by (simp add: not_le [symmetric])

lemma entries_at: "i < length es \<Longrightarrow> drop (off es i) (concat (map eb es)) = eb (es ! i) @ concat (map eb (drop (Suc i) es))"
proof -
  assume i: "i < length es"
  have "concat (map eb es) = concat (map eb (take i es)) @ concat (map eb (drop i es))"
    by (metis append_take_drop_id concat_append map_append)
  then have "drop (off es i) (concat (map eb es)) = concat (map eb (drop i es))" by (simp add: off_def)
  with i show ?thesis by (simp add: Cons_nth_drop_Suc [symmetric])
qed

section \<open>Decoding an entry\<close>

text \<open>The fast path is a special case of the general one.\<close>

lemma GetVarint32Ptr_byte: "b AND 128 = 0 \<Longrightarrow> GetVarint32Ptr (b # p) = Some (ucast b, p)"
  by (simp add: GetVarint32Ptr_def)

lemma or_less_128: "(ucast a OR ucast b OR ucast c :: u32) < 128 \<Longrightarrow> a AND 128 = 0 \<and> b AND 128 = 0 \<and> c AND 128 = 0" for a b c :: byte
proof -
  assume "(ucast a OR ucast b OR ucast c :: u32) < 128"
  then have "take_bit 7 (ucast a OR ucast b OR ucast c :: u32) = ucast a OR ucast b OR ucast c" by (intro take_bit_lt) simp
  then have n: "\<not> bit (ucast a OR ucast b OR ucast c :: u32) 7" by (metis bit_take_bit_iff less_irrefl)
  have z: "x AND 128 = 0" if "\<not> bit x 7" for x :: byte
    using that by (intro bit_word_eqI) (auto simp: bit_and_iff bit_consts)
  show ?thesis using n by (auto simp: bit_or_iff bit_ucast_iff intro!: z)
qed

lemma DecodeEntry_slow:
  "DecodeEntry p = (if length p < 3 then None
     else case GetVarint32Ptr p of None \<Rightarrow> None
       | Some (s, p1) \<Rightarrow> (case GetVarint32Ptr p1 of None \<Rightarrow> None
       | Some (n, p2) \<Rightarrow> (case GetVarint32Ptr p2 of None \<Rightarrow> None
       | Some (v, q) \<Rightarrow> if word_of_nat (length q) < n + v then None else Some (s, n, v, q))))"
proof (cases "length p < 3")
  case False
  then obtain a b c q where p: "p = a # b # c # q"
    by (auto simp: not_less numeral_3_eq_3 Suc_le_length_iff)
  show ?thesis
  proof (cases "(ucast a OR ucast b OR ucast c :: u32) < 128")
    case True
    with or_less_128 [OF True] show ?thesis by (simp add: DecodeEntry_def p GetVarint32Ptr_byte Let_def)
  next
    case False
    then show ?thesis by (simp add: DecodeEntry_def p Let_def split: option.split)
  qed
qed (simp add: DecodeEntry_def)

lemma DecodeEntry_eb:
  assumes "e_shared e \<le> length (e_key e)" "length (eb e) + length rest < 2 ^ 32"
  shows "DecodeEntry (eb e @ rest) = Some (word_of_nat (e_shared e), word_of_nat (length (e_key e) - e_shared e),
    word_of_nat (length (e_value e)), drop (e_shared e) (e_key e) @ e_value e @ rest)"
proof -
  have "length (drop (e_shared e) (e_key e) @ e_value e @ rest) < 2 ^ 32" using assms(2) by (simp add: eb_def)
  then have "\<not> (word_of_nat (length (drop (e_shared e) (e_key e) @ e_value e @ rest)) :: u32)
      < word_of_nat (length (e_key e) - e_shared e) + word_of_nat (length (e_value e))"
    by (simp add: word_less_nat_alt unat_of_nat unat_word_ariths mod_simps not_less)
  then show ?thesis
    using eb_length [of e] by (simp add: DecodeEntry_slow) (simp add: eb_def)
qed

section \<open>Blocks\<close>

text \<open>\<open>es\<close> are the entries, \<open>rs\<close> the numbers of the entries that begin at a restart point.\<close>

definition entries_ok :: "blk_entry list \<Rightarrow> bool" where
  "entries_ok es \<longleftrightarrow> (\<forall>i<length es. e_shared (es ! i) \<le> length (e_key (es ! i)) \<and>
     (if i = 0 then e_shared (es ! i) = 0
      else e_shared (es ! i) \<le> length (e_key (es ! (i - 1))) \<and>
        take (e_shared (es ! i)) (e_key (es ! (i - 1))) = take (e_shared (es ! i)) (e_key (es ! i))))"

definition restarts_ok :: "blk_entry list \<Rightarrow> nat list \<Rightarrow> bool" where
  "restarts_ok es rs \<longleftrightarrow> rs \<noteq> [] \<and> hd rs = 0 \<and> sorted_wrt (<) rs \<and>
     (\<forall>r\<in>set rs. r = 0 \<or> r < length es) \<and> (\<forall>r\<in>set rs. r < length es \<longrightarrow> e_shared (es ! r) = 0)"

definition block_bytes :: "blk_entry list \<Rightarrow> nat list \<Rightarrow> byte list" where
  "block_bytes es rs = concat (map eb es) @ concat (map (\<lambda>r. EncodeFixed32 (word_of_nat (off es r))) rs) @
     EncodeFixed32 (word_of_nat (length rs))"

lemma off_end: "off es (length es) = length (concat (map eb es))"
  by (simp add: off_def)

lemma length_restart_array: "length (concat (map (\<lambda>r. EncodeFixed32 (f r)) rs)) = 4 * length rs"
  by (induction rs) simp_all

lemma length_block_bytes: "length (block_bytes es rs) = off es (length es) + 4 * length rs + 4"
  by (simp add: block_bytes_def off_end length_restart_array)

lemma drop_fixed32: "j < length rs \<Longrightarrow>
  drop (4 * j) (concat (map (\<lambda>r. EncodeFixed32 (f r)) rs) @ zs) =
    EncodeFixed32 (f (rs ! j)) @ concat (map (\<lambda>r. EncodeFixed32 (f r)) (drop (Suc j) rs)) @ zs"
proof (induction rs arbitrary: j)
  case (Cons r rs)
  then show ?case by (cases j) simp_all
qed simp

section \<open>The iterator\<close>

text \<open>The iterator stands on the block of \<open>es\<close> and \<open>rs\<close>.\<close>

definition reads :: "blk_entry list \<Rightarrow> nat list \<Rightarrow> block_iter \<Rightarrow> bool" where
  "reads es rs it \<longleftrightarrow> entries_ok es \<and> restarts_ok es rs \<and> length (block_bytes es rs) < 2 ^ 32 \<and>
     bi_data it = block_bytes es rs \<and> bi_restarts it = word_of_nat (off es (length es)) \<and>
     num_restarts it = length rs \<and> bi_status it = OK"

text \<open>It will parse entry \<open>i\<close> next; it stands on entry \<open>i\<close>; it is at the end.\<close>

definition parses :: "blk_entry list \<Rightarrow> nat list \<Rightarrow> block_iter \<Rightarrow> nat \<Rightarrow> bool" where
  "parses es rs it i \<longleftrightarrow> reads es rs it \<and> i \<le> length es \<and> NextEntryOffset it = off es i \<and>
     restart_index it < length rs \<and> rs ! restart_index it \<le> i \<and>
     (i < length es \<longrightarrow> e_shared (es ! i) \<le> length (bi_key it) \<and>
        take (e_shared (es ! i)) (bi_key it) = take (e_shared (es ! i)) (e_key (es ! i)))"

definition stands :: "blk_entry list \<Rightarrow> nat list \<Rightarrow> block_iter \<Rightarrow> nat \<Rightarrow> bool" where
  "stands es rs it i \<longleftrightarrow> reads es rs it \<and> i < length es \<and> current it = off es i \<and> NextEntryOffset it = off es (Suc i) \<and>
     restart_index it < length rs \<and> rs ! restart_index it \<le> i \<and>
     (restart_index it + 1 < length rs \<longrightarrow> i \<le> rs ! (restart_index it + 1)) \<and>
     bi_key it = e_key (es ! i) \<and> bi_value it = e_value (es ! i)"

definition at_end :: "blk_entry list \<Rightarrow> nat list \<Rightarrow> block_iter \<Rightarrow> bool" where
  "at_end es rs it \<longleftrightarrow> reads es rs it \<and> \<not> bi_Valid it"

lemma reads_restarts: "reads es rs it \<Longrightarrow> unat (bi_restarts it) = off es (length es)"
  by (simp add: reads_def length_block_bytes unat_of_nat)

lemma reads_bound: "reads es rs it \<Longrightarrow> i \<le> length es \<Longrightarrow> off es i \<le> off es (length es) \<and> off es i < 2 ^ 32"
  using off_le [of i "length es" es] by (auto simp: reads_def length_block_bytes)

lemma restart_member: "restarts_ok es rs \<Longrightarrow> r \<in> set rs \<Longrightarrow> r \<noteq> 0 \<Longrightarrow> r < length es"
proof -
  assume r: "restarts_ok es rs" and "r \<in> set rs" "r \<noteq> 0"
  have "\<forall>r\<in>set rs. r = 0 \<or> r < length es" using r unfolding restarts_ok_def by (elim conjE)
  with \<open>r \<in> set rs\<close> have "r = 0 \<or> r < length es" by (rule bspec [rotated])
  with \<open>r \<noteq> 0\<close> show "r < length es" by simp
qed

lemma restart_bound: "restarts_ok es rs \<Longrightarrow> j < length rs \<Longrightarrow> rs ! j \<le> length es"
proof -
  assume "restarts_ok es rs" "j < length rs"
  then have "rs ! j = 0 \<or> rs ! j < length es" unfolding restarts_ok_def using nth_mem by blast
  then show ?thesis by auto
qed

lemma GetRestartPoint_reads: "reads es rs it \<Longrightarrow> j < length rs \<Longrightarrow> GetRestartPoint it j = off es (rs ! j)"
proof -
  assume r: "reads es rs it" and j: "j < length rs"
  have "rs ! j \<le> length es" using r j restart_bound by (simp add: reads_def)
  then have b: "off es (rs ! j) < 2 ^ 32" using reads_bound [OF r] by blast
  have "drop (unat (bi_restarts it) + j * 4) (bi_data it) =
      drop (4 * j) (concat (map (\<lambda>r. EncodeFixed32 (word_of_nat (off es r))) rs) @ EncodeFixed32 (word_of_nat (length rs)))"
    unfolding reads_restarts [OF r] using r by (simp add: reads_def block_bytes_def off_end mult.commute)
  then show ?thesis
    unfolding GetRestartPoint_def drop_fixed32 [OF j] using b by (simp add: unat_of_nat)
qed

lemma parses_rest:
  assumes "parses es rs it i" "i < length es"
  shows "entry_rest it = eb (es ! i) @ concat (map eb (drop (Suc i) es))"
proof -
  have r: "reads es rs it" using assms by (simp add: parses_def)
  have "drop (off es i) (bi_data it) = eb (es ! i) @ concat (map eb (drop (Suc i) es)) @
      drop (off es (length es)) (bi_data it)"
    using r off_le [of i "length es" es] assms(2) entries_at [OF assms(2)] by (simp add: reads_def block_bytes_def off_end)
  moreover have "length (eb (es ! i) @ concat (map eb (drop (Suc i) es))) = off es (length es) - off es i"
    using arg_cong [OF entries_at [OF assms(2)], of length] by (simp add: off_end)
  ultimately show ?thesis
    unfolding entry_rest_def reads_restarts [OF r] using assms(1) by (simp add: parses_def)
qed

lemma advance_restart_reads:
  assumes "reads es rs it" "index < length rs" "rs ! index \<le> i" "i < length es" "current it = off es i"
  shows "let j = advance_restart it index in j < length rs \<and> rs ! j \<le> i \<and> (j + 1 < length rs \<longrightarrow> i \<le> rs ! (j + 1))"
  using assms
proof (induction it index rule: advance_restart.induct)
  case (1 it index)
  have n: "num_restarts it = length rs" using 1(2) by (simp add: reads_def)
  have g: "GetRestartPoint it (index + 1) < current it \<longleftrightarrow> rs ! (index + 1) < i" if "index + 1 < length rs"
  proof -
    have "rs ! (index + 1) \<le> length es" using 1(2) that restart_bound unfolding reads_def by blast
    then show ?thesis using GetRestartPoint_reads [OF 1(2) that] 1(5,6) by (simp add: off_less_iff)
  qed
  show ?case
  proof (cases "index + 1 < num_restarts it \<and> GetRestartPoint it (index + 1) < current it")
    case True
    then have "rs ! (index + 1) \<le> i" "index + 1 < length rs" using g n by auto
    from 1(1) [OF True 1(2) this(2,1) 1(5,6)] True show ?thesis by (simp add: advance_restart.simps [of it index])
  next
    case False
    then have "advance_restart it index = index" by (subst advance_restart.simps) (rule if_not_P)
    with False 1(3,4) g n show ?thesis by (auto simp: Let_def)
  qed
qed

text \<open>No key is longer than the block.\<close>

lemma prefix_bound:
  assumes "reads es rs it" "m < length es"
  shows "length (e_key (es ! m)) < 2 ^ 32"
proof -
  have ok: "entries_ok es" using assms(1) by (simp add: reads_def)
  have "length (e_key (es ! m)) \<le> off es (Suc m)" using assms(2)
  proof (induction m)
    case 0
    then have "e_shared (es ! 0) = 0" using ok by (auto simp: entries_ok_def)
    then show ?case using off_Suc [OF 0] by (simp add: eb_def)
  next
    case (Suc m)
    then have "e_shared (es ! Suc m) \<le> length (e_key (es ! m))" using ok by (auto simp: entries_ok_def)
    also have "\<dots> \<le> off es (Suc m)" using Suc by simp
    finally show ?case using off_Suc [OF Suc.prems] by (simp add: eb_def)
  qed
  also have "\<dots> < 2 ^ 32" using reads_bound [OF assms(1), of "Suc m"] assms(2) by simp
  finally show ?thesis .
qed

lemma bi_update_simps [simp]:
  "reads es rs (it\<lparr>restart_index := j\<rparr>) = reads es rs it"
  "NextEntryOffset (it\<lparr>restart_index := j\<rparr>) = NextEntryOffset it"
  "bi_value (it\<lparr>restart_index := j\<rparr>) = bi_value it"
  by (simp_all add: reads_def NextEntryOffset_def bi_value_def)

lemma Parse_entry:
  assumes p: "parses es rs it i" and i: "i < length es"
  obtains it' where "ParseNextKey it = (True, it')" "stands es rs it' i"
proof -
  obtain s k v where e: "es ! i = (s, k, v)" by (cases "es ! i")
  let ?more = "concat (map eb (drop (Suc i) es))" and ?e = "eb (s, k, v)"
  let ?h = "EncodeVarint32 (word_of_nat s) @ EncodeVarint32 (word_of_nat (length k - s)) @ EncodeVarint32 (word_of_nat (length v))"
  let ?q = "drop s k @ v @ ?more"
  have r: "reads es rs it" and next_off: "NextEntryOffset it = off es i" using p by (simp_all add: parses_def)
  have b: "off es (length es) < 2 ^ 32" "off es i < off es (length es)" "off es (Suc i) \<le> off es (length es)"
    using reads_bound [OF r le_refl] off_less [OF i le_refl] off_le [of "Suc i" "length es" es] i by auto
  have s: "s \<le> length k" "s \<le> length (bi_key it)" "take s (bi_key it) = take s k"
    using p i e by (auto simp: parses_def reads_def entries_ok_def)
  have eb: "?e = ?h @ drop s k @ v" by (simp add: eb_def)
  have suc: "off es (Suc i) = off es i + length ?e" using off_Suc [OF i] e by simp
  have rest: "entry_rest it = ?e @ ?more" using parses_rest [OF p i] e by simp
  have "length (?e @ ?more) = off es (length es) - off es i"
    using arg_cong [OF entries_at [OF i], of length] e by (simp add: off_end)
  then have l: "length ?e + length ?more < 2 ^ 32" using b by simp
  then have small: "s < 2 ^ 32" "length k - s < 2 ^ 32" "length v < 2 ^ 32"
  proof -
    have "length k - s \<le> length ?e" "length v \<le> length ?e" unfolding eb by simp_all
    with l show "length k - s < 2 ^ 32" "length v < 2 ^ 32" by linarith+
    show "s < 2 ^ 32"
    proof (cases i)
      case 0
      then show ?thesis using r i e by (auto simp: reads_def entries_ok_def)
    next
      case (Suc m)
      then have "s \<le> length (e_key (es ! m))" using r i e by (auto simp: reads_def entries_ok_def)
      with prefix_bound [OF r, of m] Suc i show ?thesis by simp
    qed
  qed
  have un: "unat (word_of_nat s :: u32) = s" "unat (word_of_nat (length k - s) :: u32) = length k - s"
    "unat (word_of_nat (length v) :: u32) = length v"
    unfolding unat_of_nat using small by simp_all
  have d: "DecodeEntry (entry_rest it) = Some (word_of_nat s, word_of_nat (length k - s), word_of_nat (length v), ?q)"
    unfolding rest using DecodeEntry_eb [of "(s, k, v)" ?more] s(1) l by simp
  have not_end: "\<not> unat (bi_restarts it) \<le> NextEntryOffset it"
    using b by (simp add: reads_restarts [OF r] next_off)
  have pos: "length (entry_rest it) - length ?q = length ?h" by (simp add: rest eb)
  have data: "drop (off es i + length ?h) (bi_data it) = ?q @ drop (off es (length es)) (bi_data it)"
  proof -
    have "drop (off es i) (bi_data it) = ?e @ ?more @ drop (off es (length es)) (bi_data it)"
      using r b(2) entries_at [OF i] e by (simp add: reads_def block_bytes_def off_end)
    then have "drop (length ?h) (drop (off es i) (bi_data it)) = ?q @ drop (off es (length es)) (bi_data it)"
      by (simp add: eb)
    then show ?thesis by (simp add: add.commute)
  qed
  define it1 where "it1 = it\<lparr>current := off es i, bi_key := k, value_pos := off es i + length ?h + (length k - s), value_len := length v\<rparr>"
  have key: "take s (bi_key it) @ take (length k - s) (?q @ drop (off es (length es)) (bi_data it)) = k"
    unfolding s(3) using s(1) by simp
  have parse: "ParseNextKey it = (True, it1\<lparr>restart_index := advance_restart it1 (restart_index it)\<rparr>)"
    unfolding ParseNextKey_entry [OF not_end d] pos next_off Let_def data un key
    using s(2) by (simp add: it1_def)
  have r1: "reads es rs it1" using r by (simp add: reads_def it1_def)
  have "NextEntryOffset it1 = off es (Suc i)"
  proof -
    have "off es i + length ?h + (length k - s) + length v = off es (Suc i)" unfolding suc eb by simp
    moreover have "off es (Suc i) < 2 ^ 32" using b by simp
    ultimately show ?thesis unfolding NextEntryOffset_def it1_def by simp
  qed
  moreover have "bi_value it1 = v"
  proof -
    have "drop (length k - s) (drop (off es i + length ?h) (bi_data it)) = v @ ?more @ drop (off es (length es)) (bi_data it)"
      unfolding data using s(1) by simp
    then have "drop (off es i + length ?h + (length k - s)) (bi_data it) = v @ ?more @ drop (off es (length es)) (bi_data it)"
      by (simp add: add.commute)
    then show ?thesis by (simp add: bi_value_def it1_def)
  qed
  moreover have "current it1 = off es i" "bi_key it1 = k" by (simp_all add: it1_def)
  moreover have "let j = advance_restart it1 (restart_index it) in j < length rs \<and> rs ! j \<le> i \<and> (j + 1 < length rs \<longrightarrow> i \<le> rs ! (j + 1))"
    using advance_restart_reads [OF r1 _ _ i, of "restart_index it"] p by (simp add: parses_def it1_def)
  ultimately have "stands es rs (it1\<lparr>restart_index := advance_restart it1 (restart_index it)\<rparr>) i"
    using r1 i e by (simp add: stands_def Let_def)
  with parse show ?thesis by (rule that)
qed

lemma Parse_end:
  assumes "parses es rs it (length es)"
  obtains it' where "ParseNextKey it = (False, it')" "at_end es rs it'"
proof -
  have r: "reads es rs it" and n: "NextEntryOffset it = off es (length es)" using assms by (simp_all add: parses_def)
  have "ParseNextKey it = (False, it\<lparr>current := unat (bi_restarts it), restart_index := num_restarts it\<rparr>)"
    by (rule ParseNextKey_end) (simp add: reads_restarts [OF r] n)
  moreover have "at_end es rs (it\<lparr>current := unat (bi_restarts it), restart_index := num_restarts it\<rparr>)"
    using r by (simp add: at_end_def reads_def bi_Valid_def)
  ultimately show ?thesis by (rule that)
qed

lemma stands_parses: "stands es rs it i \<Longrightarrow> parses es rs it (Suc i)"
  by (auto simp: stands_def parses_def reads_def entries_ok_def)

lemma stands_Valid: "stands es rs it i \<Longrightarrow> bi_Valid it"
  using reads_restarts [of es rs it] off_less [of i "length es" es] by (simp add: stands_def bi_Valid_def)

lemma Seek_parses:
  assumes "reads es rs it" "j < length rs"
  shows "parses es rs (SeekToRestartPoint j it) (rs ! j)"
proof -
  have r: "restarts_ok es rs" and l: "rs ! j \<le> length es" using assms restart_bound by (auto simp: reads_def)
  have "off es (rs ! j) < 2 ^ 32" using reads_bound [OF assms(1) l] by simp
  moreover have "e_shared (es ! (rs ! j)) = 0" if "rs ! j < length es"
    using r that nth_mem [OF assms(2)] unfolding restarts_ok_def by blast
  moreover have "reads es rs (SeekToRestartPoint j it)" using assms(1) by (simp add: reads_def SeekToRestartPoint_def)
  ultimately show ?thesis
    using assms l by (simp add: parses_def SeekToRestartPoint_def NextEntryOffset_def GetRestartPoint_reads)
qed

lemma restart_0: "reads es rs it \<Longrightarrow> rs ! 0 = 0 \<and> 0 < length rs"
  by (cases rs) (simp_all add: reads_def restarts_ok_def)

lemma restarts_mono: "reads es rs it \<Longrightarrow> i < j \<Longrightarrow> j < length rs \<Longrightarrow> rs ! i < rs ! j"
  by (simp add: reads_def restarts_ok_def sorted_wrt_iff_nth_less)

text \<open>The results of the five operations.\<close>

definition result :: "blk_entry list \<Rightarrow> nat list \<Rightarrow> block_iter \<Rightarrow> nat \<Rightarrow> bool" where
  "result es rs it i \<longleftrightarrow> (if i < length es then stands es rs it i else at_end es rs it)"

lemma Parse_result: "parses es rs it i \<Longrightarrow> result es rs (snd (ParseNextKey it)) i"
proof (cases "i < length es")
  case True
  then show "parses es rs it i \<Longrightarrow> ?thesis" using Parse_entry [of es rs it i] by (metis result_def snd_conv)
next
  case False
  assume "parses es rs it i"
  moreover from this False have "i = length es" by (simp add: parses_def)
  ultimately show ?thesis using Parse_end [of es rs it] by (metis result_def less_irrefl snd_conv)
qed

lemma Next_result: "stands es rs it i \<Longrightarrow> result es rs (bi_Next it) (Suc i)"
  unfolding bi_Next_def by (intro Parse_result stands_parses)

lemma SeekToFirst_result: "reads es rs it \<Longrightarrow> result es rs (bi_SeekToFirst it) 0"
  unfolding bi_SeekToFirst_def using Seek_parses [of es rs it 0] restart_0 [of es rs it] by (intro Parse_result) simp

lemma last_scan_result: "parses es rs it i \<Longrightarrow> i < length es \<Longrightarrow> stands es rs (last_scan it) (length es - 1)"
proof (induction "length es - i" arbitrary: it i rule: less_induct)
  case less
  obtain it' where it': "ParseNextKey it = (True, it')" "stands es rs it' i" using Parse_entry [OF less(2,3)] .
  have n: "NextEntryOffset it' < unat (bi_restarts it') \<longleftrightarrow> Suc i < length es"
    using it'(2) reads_restarts [of es rs it'] less(3) by (simp add: stands_def off_less_iff)
  show ?case
  proof (cases "Suc i < length es")
    case True
    then have "last_scan it = last_scan it'" using n it'(1) by (simp add: last_scan.simps [of it])
    moreover have "stands es rs (last_scan it') (length es - 1)"
      using less(1) [OF _ stands_parses [OF it'(2)] True] less(3) by simp
    ultimately show ?thesis by simp
  next
    case False
    then have "last_scan it = it'" "i = length es - 1" using n it'(1) less(3) by (simp_all add: last_scan.simps [of it])
    with it'(2) show ?thesis by simp
  qed
qed

lemma SeekToLast_result: "reads es rs it \<Longrightarrow> if es = [] then at_end es rs (bi_SeekToLast it) else stands es rs (bi_SeekToLast it) (length es - 1)"
proof -
  assume r: "reads es rs it"
  have n: "num_restarts it - 1 < length rs" "num_restarts it = length rs" using r restart_0 [OF r] by (auto simp: reads_def)
  note p = Seek_parses [OF r n(1)]
  show ?thesis
  proof (cases "rs ! (num_restarts it - 1) < length es")
    case True
    with last_scan_result [OF p True] show ?thesis by (auto simp: bi_SeekToLast_def)
  next
    case False
    have "rs ! (num_restarts it - 1) = 0 \<or> rs ! (num_restarts it - 1) < length es"
      using r n(1) nth_mem unfolding reads_def restarts_ok_def by blast
    with False have e: "es = []" "rs ! (num_restarts it - 1) = length es" by auto
    obtain it' where "ParseNextKey (SeekToRestartPoint (num_restarts it - 1) it) = (False, it')" "at_end es rs it'"
      using Parse_end p unfolding e(2) by blast
    moreover from this have "last_scan (SeekToRestartPoint (num_restarts it - 1) it) = it'" by (subst last_scan.simps) simp
    ultimately show ?thesis using e(1) by (simp add: bi_SeekToLast_def)
  qed
qed

lemma prev_scan_result: "parses es rs it i \<Longrightarrow> i < m \<Longrightarrow> m < length es \<Longrightarrow> stands es rs (prev_scan (off es m) it) (m - 1)"
proof (induction "m - i" arbitrary: it i rule: less_induct)
  case less
  have i: "i < length es" using less(3,4) by simp
  obtain it' where it': "ParseNextKey it = (True, it')" "stands es rs it' i" using Parse_entry [OF less(2) i] .
  have n: "NextEntryOffset it' < off es m \<longleftrightarrow> Suc i < m"
    using it'(2) less(4) i by (simp add: stands_def off_less_iff)
  show ?case
  proof (cases "Suc i < m")
    case True
    then have "prev_scan (off es m) it = prev_scan (off es m) it'" using n it'(1) by (simp add: prev_scan.simps [of _ it])
    moreover have "stands es rs (prev_scan (off es m) it') (m - 1)"
      using less(1) [OF _ stands_parses [OF it'(2)] True less(4)] less(3) by simp
    ultimately show ?thesis by simp
  next
    case False
    then have "prev_scan (off es m) it = it'" "i = m - 1" using n it'(1) less(3) by (simp_all add: prev_scan.simps [of _ it])
    with it'(2) show ?thesis by simp
  qed
qed

lemma prev_restart_result:
  assumes "reads es rs it" "m \<le> length es" "j < length rs"
  shows "case prev_restart it (off es m) j of None \<Rightarrow> m = 0 | Some k \<Rightarrow> k < length rs \<and> rs ! k < m"
  using assms(3)
proof (induction j)
  case 0
  have "GetRestartPoint it 0 = off es (rs ! 0)" using GetRestartPoint_reads [OF assms(1) 0] .
  then have "GetRestartPoint it 0 = 0" using restart_0 [OF assms(1)] by simp
  moreover have "off es m \<le> 0 \<longleftrightarrow> m = 0" using off_le_iff [OF assms(2), of 0] by simp
  ultimately show ?case using restart_0 [OF assms(1)] by simp
next
  case (Suc j)
  have "rs ! Suc j \<le> length es" using assms(1) Suc.prems restart_bound unfolding reads_def by blast
  then have "off es m \<le> GetRestartPoint it (Suc j) \<longleftrightarrow> m \<le> rs ! Suc j"
    using GetRestartPoint_reads [OF assms(1) Suc.prems] off_le_iff [OF assms(2)] by simp
  with Suc show ?case by auto
qed

lemma Prev_result: "stands es rs it i \<Longrightarrow> if i = 0 then at_end es rs (bi_Prev it) else stands es rs (bi_Prev it) (i - 1)"
proof -
  assume st: "stands es rs it i"
  then have r: "reads es rs it" and i: "i < length es" "current it = off es i" "restart_index it < length rs"
    by (simp_all add: stands_def)
  show ?thesis
  proof (cases "prev_restart it (off es i) (restart_index it)")
    case None
    with prev_restart_result [OF r _ i(3), of i] i(1) have "i = 0" by simp
    with None i(2) r show ?thesis by (simp add: bi_Prev_def at_end_def reads_def bi_Valid_def)
  next
    case (Some k)
    with prev_restart_result [OF r _ i(3), of i] i(1) have k: "k < length rs" "rs ! k < i" by auto
    with Some i(1,2) prev_scan_result [OF Seek_parses [OF r k(1)] k(2) i(1)] show ?thesis by (simp add: bi_Prev_def)
  qed
qed

section \<open>Seeking\<close>

definition first_ge :: "comparator \<Rightarrow> slice \<Rightarrow> blk_entry list \<Rightarrow> nat" where
  "first_ge c target es = length (takeWhile (\<lambda>e. Compare c (e_key e) target < 0) es)"

lemma first_ge_le: "first_ge c target es \<le> length es"
  by (simp add: first_ge_def length_takeWhile_le)

lemma first_ge_before: "j < first_ge c target es \<Longrightarrow> Compare c (e_key (es ! j)) target < 0"
  unfolding first_ge_def using nth_mem set_takeWhileD takeWhile_nth by fastforce

lemma first_ge_at: "first_ge c target es < length es \<Longrightarrow> \<not> Compare c (e_key (es ! first_ge c target es)) target < 0"
  unfolding first_ge_def by (rule nth_length_takeWhile)

lemma first_ge_eqI:
  assumes "i \<le> first_ge c target es" "i < length es" "\<not> Compare c (e_key (es ! i)) target < 0"
  shows "first_ge c target es = i"
  using assms first_ge_before [of i c target es] by (cases "i < first_ge c target es") auto

lemma first_ge_gt:
  assumes "i \<le> first_ge c target es" "i < length es" "Compare c (e_key (es ! i)) target < 0"
  shows "Suc i \<le> first_ge c target es"
  using assms first_ge_at [of c target es] by (cases "i = first_ge c target es") auto

lemma seek_scan_result:
  "parses es rs it i \<Longrightarrow> i \<le> first_ge c target es \<Longrightarrow> result es rs (seek_scan c target it) (first_ge c target es)"
proof (induction "length es - i" arbitrary: it i rule: less_induct)
  case less
  show ?case
  proof (cases "i < length es")
    case True
    obtain it' where it': "ParseNextKey it = (True, it')" "stands es rs it' i" using Parse_entry [OF less(2) True] .
    have k: "bi_key it' = e_key (es ! i)" using it'(2) by (simp add: stands_def)
    show ?thesis
    proof (cases "Compare c (e_key (es ! i)) target < 0")
      case lt: True
      then have "seek_scan c target it = seek_scan c target it'"
        by (subst seek_scan.simps) (simp add: it'(1) k)
      with less(1) [OF _ stands_parses [OF it'(2)] first_ge_gt [OF less(3) True lt]] True show ?thesis by simp
    next
      case False
      then have "seek_scan c target it = it'" by (subst seek_scan.simps) (simp add: it'(1) k)
      with it'(2) first_ge_eqI [OF less(3) True False] True show ?thesis by (simp add: result_def)
    qed
  next
    case False
    then have i: "i = length es" using less(2) by (simp add: parses_def)
    obtain it' where it': "ParseNextKey it = (False, it')" "at_end es rs it'" using Parse_end less(2) unfolding i by blast
    have "seek_scan c target it = it'" by (subst seek_scan.simps) (simp add: it'(1))
    moreover have "first_ge c target es = length es" using less(3) first_ge_le [of c target es] i by simp
    ultimately show ?thesis using it'(2) by (simp add: result_def)
  qed
qed

definition ascending_keys :: "comparator \<Rightarrow> slice list \<Rightarrow> bool" where
  "ascending_keys c = sorted_wrt (\<lambda>a b. Compare c a b < 0)"

text \<open>The key at a restart point, as the binary search reads it.\<close>

lemma restart_entry:
  assumes "reads es rs it" "j < length rs" "rs ! j < length es"
  obtains q n v where "DecodeEntry (take (unat (bi_restarts it) - GetRestartPoint it j) (drop (GetRestartPoint it j) (bi_data it))) =
      Some (0, n, v, q)" "take (unat n) q = e_key (es ! (rs ! j))"
proof -
  let ?it = "SeekToRestartPoint j it" and ?e = "es ! (rs ! j)"
  have p: "parses es rs ?it (rs ! j)" by (rule Seek_parses [OF assms(1,2)])
  have l: "rs ! j \<le> length es" using assms(3) by simp
  have off: "GetRestartPoint it j = off es (rs ! j)" by (rule GetRestartPoint_reads [OF assms(1,2)])
  then have "NextEntryOffset ?it = GetRestartPoint it j"
    using reads_bound [OF assms(1) l] by (simp add: NextEntryOffset_def SeekToRestartPoint_def)
  then have rest: "take (unat (bi_restarts it) - GetRestartPoint it j) (drop (GetRestartPoint it j) (bi_data it)) =
      eb ?e @ concat (map eb (drop (Suc (rs ! j)) es))"
    using parses_rest [OF p assms(3)] by (simp add: entry_rest_def) (simp add: SeekToRestartPoint_def)
  have s: "e_shared ?e = 0" using assms nth_mem [OF assms(2)] unfolding reads_def restarts_ok_def by blast
  have "length (eb ?e @ concat (map eb (drop (Suc (rs ! j)) es))) = off es (length es) - off es (rs ! j)"
    using arg_cong [OF entries_at [OF assms(3)], of length] by (simp add: off_end)
  then have b: "length (eb ?e) + length (concat (map eb (drop (Suc (rs ! j)) es))) < 2 ^ 32"
    using reads_bound [OF assms(1) le_refl] by simp
  have "DecodeEntry (eb ?e @ concat (map eb (drop (Suc (rs ! j)) es))) = Some (0, word_of_nat (length (e_key ?e)),
      word_of_nat (length (e_value ?e)), e_key ?e @ e_value ?e @ concat (map eb (drop (Suc (rs ! j)) es)))"
    using DecodeEntry_eb [of ?e, OF _ b] s by simp
  moreover have "take (unat (word_of_nat (length (e_key ?e)) :: u32))
      (e_key ?e @ e_value ?e @ concat (map eb (drop (Suc (rs ! j)) es))) = e_key ?e"
    unfolding unat_of_nat using prefix_bound [OF assms(1,3)] by simp
  ultimately show ?thesis by (rule that [unfolded rest])
qed

lemma seek_search_result:
  assumes "reads es rs it" "r < length rs" "l \<le> r" "l = 0 \<or> Compare c (e_key (es ! (rs ! l))) target < 0"
  shows "\<exists>left<length rs. seek_search c it target l r = Some left \<and> (left = 0 \<or> Compare c (e_key (es ! (rs ! left))) target < 0)"
  using assms
proof (induction "r - l" arbitrary: l r rule: less_induct)
  case less
  note r = less(2) and b = less(3-5)
  show ?case
  proof (cases "l < r")
    case True
    let ?m = "(l + r + 1) div 2"
    have m: "l < ?m" "?m \<le> r" "?m < length rs" using True b(1) by linarith+
    have "rs ! 0 < rs ! ?m" using restarts_mono [OF r _ m(3), of 0] m(1) by simp
    then have "rs ! ?m < length es" using r nth_mem [OF m(3)] unfolding reads_def restarts_ok_def by fastforce
    from restart_entry [OF r m(3) this] obtain q n v where
      d: "DecodeEntry (take (unat (bi_restarts it) - GetRestartPoint it ?m) (drop (GetRestartPoint it ?m) (bi_data it))) = Some (0, n, v, q)"
      and k: "take (unat n) q = e_key (es ! (rs ! ?m))" .
    have step: "seek_search c it target l r =
        (if Compare c (e_key (es ! (rs ! ?m))) target < 0 then seek_search c it target ?m r else seek_search c it target l (?m - 1))"
      by (subst seek_search.simps) (simp only: True if_True Let_def d option.case prod.case k simp_thms if_False)
    show ?thesis
    proof (cases "Compare c (e_key (es ! (rs ! ?m))) target < 0")
      case lt: True
      have "r - ?m < r - l" using m True by linarith
      from less(1) [OF this r b(1) m(2)] lt show ?thesis unfolding step if_P [OF lt] by blast
    next
      case False
      have "?m - 1 - l < r - l" "?m - 1 < length rs" "l \<le> ?m - 1" using m True by linarith+
      from less(1) [OF this(1) r this(2,3) b(3)] show ?thesis unfolding step if_not_P [OF False] .
    qed
  next
    case False
    then have "seek_search c it target l r = Some l" by (subst seek_search.simps) simp
    with b show ?thesis by auto
  qed
qed

text \<open>\<open>Seek\<close> needs of the comparator only that it is transitive.\<close>

lemma Seek_result:
  assumes r: "reads es rs it" and asc: "ascending_keys c (map e_key es)"
    and trans: "\<And>a b. Compare c a b < 0 \<Longrightarrow> Compare c b target < 0 \<Longrightarrow> Compare c a target < 0"
  shows "result es rs (bi_Seek c target it) (first_ge c target es)"
proof -
  have n: "num_restarts it - 1 < length rs" using r restart_0 [OF r] by (simp add: reads_def)
  obtain left where left: "left < length rs" "seek_search c it target 0 (num_restarts it - 1) = Some left"
      "left = 0 \<or> Compare c (e_key (es ! (rs ! left))) target < 0"
    using seek_search_result [OF r n le0, of c target] by blast
  have "rs ! left \<le> first_ge c target es"
  proof (rule ccontr)
    define g where "g = first_ge c target es"
    assume *: "\<not> rs ! left \<le> first_ge c target es"
    then have g: "g < rs ! left" by (simp add: g_def)
    then have "rs ! left \<noteq> 0" by linarith
    moreover from this have "left \<noteq> 0" using restart_0 [OF r] by metis
    ultimately have "rs ! left \<noteq> 0" "left \<noteq> 0" by blast+
    with left(3) have lt: "Compare c (e_key (es ! (rs ! left))) target < 0" by blast
    have l: "rs ! left < length es"
      using restart_member [OF _ nth_mem [OF left(1)] \<open>rs ! left \<noteq> 0\<close>] r by (simp only: reads_def)
    then have gl: "g < length es" using g by linarith
    have "Compare c (map e_key es ! g) (map e_key es ! (rs ! left)) < 0"
      using sorted_wrt_nth_less [OF asc [unfolded ascending_keys_def] g] l by (simp only: length_map)
    then have "Compare c (e_key (es ! g)) (e_key (es ! (rs ! left))) < 0" by (simp only: nth_map [OF gl] nth_map [OF l])
    with trans lt have "Compare c (e_key (es ! g)) target < 0" by blast
    with first_ge_at [of c target es] gl show False unfolding g_def by blast
  qed
  with seek_scan_result [OF Seek_parses [OF r left(1)]] show ?thesis unfolding bi_Seek_def left(2) option.case by blast
qed

section \<open>What the builder makes\<close>

definition build_block :: "nat \<Rightarrow> (slice \<times> slice) list \<Rightarrow> block_builder" where
  "build_block interval kvs = fold (\<lambda>(k, v). block_Add interval k v) kvs BlockBuilder"

text \<open>The state of the builder after the entries \<open>es\<close>.\<close>

definition builds :: "nat \<Rightarrow> blk_entry list \<Rightarrow> nat list \<Rightarrow> block_builder \<Rightarrow> bool" where
  "builds interval es rs b \<longleftrightarrow> entries_ok es \<and> restarts_ok es rs \<and>
     bb_buffer b = concat (map eb es) \<and> bb_restarts b = map (\<lambda>r. word_of_nat (off es r)) rs \<and>
     last_key b = (if es = [] then [] else e_key (last es)) \<and>
     bb_counter b + last rs = length es \<and> bb_counter b \<le> interval"

lemma shared_prefix_spec:
  "shared_prefix a b \<le> length a \<and> shared_prefix a b \<le> length b \<and> take (shared_prefix a b) a = take (shared_prefix a b) b"
  by (induction a b rule: shared_prefix.induct) auto

lemma entries_ok_snoc:
  assumes "entries_ok es" "s \<le> length k" "es = [] \<Longrightarrow> s = 0"
    "es \<noteq> [] \<Longrightarrow> s \<le> length (e_key (last es)) \<and> take s (e_key (last es)) = take s k"
  shows "entries_ok (es @ [(s, k, v)])"
  using assms by (auto simp: entries_ok_def nth_append last_conv_nth less_Suc_eq)

lemma off_snoc: "i \<le> length es \<Longrightarrow> off (es @ [e]) i = off es i"
  by (simp add: off_def)

lemma restarts_ok_snoc: "restarts_ok es rs \<Longrightarrow> es = [] \<Longrightarrow> s = 0 \<Longrightarrow> restarts_ok (es @ [(s, k, v)]) rs"
  "restarts_ok es rs \<Longrightarrow> es \<noteq> [] \<Longrightarrow> restarts_ok (es @ [e]) rs"
  "restarts_ok es rs \<Longrightarrow> last rs < length es \<Longrightarrow> restarts_ok (es @ [(0, k, v)]) (rs @ [length es])"
proof -
  show "restarts_ok (es @ [(s, k, v)]) rs" if "restarts_ok es rs" "es = []" "s = 0"
  proof -
    have "\<forall>r\<in>set rs. r = 0" using that(1,2) restart_member by fastforce
    with that show ?thesis by (auto simp: restarts_ok_def)
  qed
  show "restarts_ok es rs \<Longrightarrow> es \<noteq> [] \<Longrightarrow> restarts_ok (es @ [e]) rs"
    by (auto simp: restarts_ok_def nth_append)
  assume r: "restarts_ok es rs" and l: "last rs < length es"
  obtain rs' x where "rs = rs' @ [x]" using r by (cases rs rule: rev_cases) (auto simp: restarts_ok_def)
  with r have "\<forall>r\<in>set rs. r \<le> last rs" by (auto simp: restarts_ok_def sorted_wrt_append)
  with l have "\<forall>r\<in>set rs. r < length es" by auto
  with r show "restarts_ok (es @ [(0, k, v)]) (rs @ [length es])"
    by (auto simp: restarts_ok_def sorted_wrt_append nth_append)
qed

lemma Add_builds:
  assumes b: "builds interval es rs b" and i: "0 < interval"
  shows "\<exists>s rs'. builds interval (es @ [(s, key, value)]) rs' (block_Add interval key value b)"
proof (cases "bb_counter b < interval")
  case True
  let ?s = "shared_prefix (last_key b) key"
  have sp: "?s \<le> length (last_key b)" "?s \<le> length key" "take ?s (last_key b) = take ?s key"
    using shared_prefix_spec by blast+
  have e: "entries_ok (es @ [(?s, key, value)])"
    using b sp by (intro entries_ok_snoc) (auto simp: builds_def)
  have r: "restarts_ok (es @ [(?s, key, value)]) rs"
    using b restarts_ok_snoc(1,2) by (cases "es = []") (auto simp: builds_def)
  have "r \<le> length es" if "r \<in> set rs" for r using b that by (auto simp: builds_def restarts_ok_def)
  then have "map (\<lambda>r. word_of_nat (off (es @ [(?s, key, value)]) r)) rs = (map (\<lambda>r. word_of_nat (off es r)) rs :: u32 list)"
    by (simp add: off_snoc)
  with True b e r sp have "builds interval (es @ [(?s, key, value)]) rs (block_Add interval key value b)"
    by (simp add: builds_def block_Add_def PutVarint32_def eb_def)
  then show ?thesis by blast
next
  case False
  have l: "last rs < length es" using b False i by (simp add: builds_def)
  have e: "entries_ok (es @ [(0, key, value)])" using b by (intro entries_ok_snoc) (auto simp: builds_def)
  have r: "restarts_ok (es @ [(0, key, value)]) (rs @ [length es])" using b l restarts_ok_snoc(3) by (simp add: builds_def)
  have "r \<le> length es" if "r \<in> set rs" for r using b that by (auto simp: builds_def restarts_ok_def)
  then have "map (\<lambda>r. word_of_nat (off (es @ [(0, key, value)]) r)) rs = (map (\<lambda>r. word_of_nat (off es r)) rs :: u32 list)"
    by (simp add: off_snoc)
  with False i b e r have "builds interval (es @ [(0, key, value)]) (rs @ [length es]) (block_Add interval key value b)"
    by (simp add: builds_def block_Add_def PutVarint32_def eb_def off_snoc off_end)
  then show ?thesis by blast
qed

lemma build_block_builds:
  assumes "0 < interval"
  shows "\<exists>es rs. builds interval es rs (build_block interval kvs) \<and> map snd es = kvs"
proof (induction kvs rule: rev_induct)
  case Nil
  have "builds interval [] [0] BlockBuilder"
    by (simp add: builds_def entries_ok_def restarts_ok_def BlockBuilder_def)
  then show ?case by (auto simp: build_block_def)
next
  case (snoc kv kvs)
  then obtain es rs where "builds interval es rs (build_block interval kvs)" "map snd es = kvs" by blast
  moreover obtain k v where "kv = (k, v)" by (cases kv)
  ultimately show ?case using Add_builds [OF _ assms, of es rs "build_block interval kvs" k v]
    by (fastforce simp: build_block_def)
qed

lemma Finish_bytes: "builds interval es rs b \<Longrightarrow> fst (block_Finish b) = block_bytes es rs"
  by (simp add: builds_def block_Finish_def foldl_PutFixed32 PutFixed32_def block_bytes_def o_def Let_def)

text \<open>Opening the finished block gives an iterator that reads it.\<close>

lemma open_reads:
  assumes "entries_ok es" "restarts_ok es rs" "length (block_bytes es rs) < 2 ^ 32"
  obtains it where "block_NewIterator (Block (block_bytes es rs)) = BlockIterator it" "reads es rs it"
proof -
  let ?d = "block_bytes es rs"
  have len: "length ?d = off es (length es) + 4 * length rs + 4" by (rule length_block_bytes)
  have rs: "0 < length rs" using assms(2) by (simp add: restarts_ok_def)
  have "drop (length ?d - 4) ?d = EncodeFixed32 (word_of_nat (length rs))"
    unfolding len by (simp add: block_bytes_def off_end length_restart_array)
  then have n: "NumRestarts ?d (length ?d) = length rs"
    using assms(3) len by (simp add: NumRestarts_def unat_of_nat)
  have "(length ?d - (1 + length rs) mod 2 ^ 32 * 4) mod 2 ^ 32 = off es (length es)"
    using assms(3) len by simp
  moreover have "\<not> (length ?d - 4) div 4 < length rs" using len by simp
  ultimately have "Block ?d = \<lparr>blk_data = ?d, blk_size = length ?d, restart_offset = off es (length es)\<rparr>"
    unfolding Block_def Let_def n using len by simp
  then have "block_NewIterator (Block ?d) = BlockIterator (block_Iter ?d (word_of_nat (off es (length es))) (length rs))"
    using n rs len by (simp add: block_NewIterator_def)
  moreover have "reads es rs (block_Iter ?d (word_of_nat (off es (length es))) (length rs))"
    using assms by (simp add: reads_def block_Iter_def)
  ultimately show ?thesis by (rule that)
qed

section \<open>Properties\<close>

fun bi_walk :: "nat \<Rightarrow> block_iter \<Rightarrow> (slice \<times> slice) list" where
  "bi_walk 0 it = []"
| "bi_walk (Suc n) it = (if bi_Valid it then (bi_key it, bi_value it) # bi_walk n (bi_Next it) else [])"

fun bi_walk_back :: "nat \<Rightarrow> block_iter \<Rightarrow> (slice \<times> slice) list" where
  "bi_walk_back 0 it = []"
| "bi_walk_back (Suc n) it = (if bi_Valid it then (bi_key it, bi_value it) # bi_walk_back n (bi_Prev it) else [])"

lemma walk_end: "at_end es rs it \<Longrightarrow> bi_walk n it = [] \<and> bi_walk_back n it = []"
  by (cases n) (simp_all add: at_end_def)

lemma walk_result:
  assumes "result es rs it i" "length es \<le> i + n"
  shows "bi_walk n it = map snd (drop i es)"
  using assms
proof (induction n arbitrary: it i)
  case (Suc n)
  show ?case
  proof (cases "i < length es")
    case True
    then have st: "stands es rs it i" using Suc.prems by (simp add: result_def)
    then have "bi_key it = e_key (es ! i)" "bi_value it = e_value (es ! i)" by (simp_all add: stands_def)
    moreover have "drop i es = es ! i # drop (Suc i) es" by (rule Cons_nth_drop_Suc [OF True, symmetric])
    ultimately show ?thesis
      using stands_Valid [OF st] Suc.IH [OF Next_result [OF st]] Suc.prems(2) by (simp add: e_key_def e_value_def)
  next
    case False
    then show ?thesis using Suc.prems walk_end [of es rs it "Suc n"] by (simp add: result_def del: bi_walk.simps)
  qed
qed (simp_all add: result_def)

lemma walk_back_result:
  "stands es rs it i \<Longrightarrow> i < n \<Longrightarrow> bi_walk_back n it = rev (map snd (take (Suc i) es))"
proof (induction n arbitrary: it i)
  case (Suc n)
  have i: "i < length es" using Suc.prems by (simp add: stands_def)
  have kv: "bi_key it = e_key (es ! i)" "bi_value it = e_value (es ! i)" using Suc.prems by (simp_all add: stands_def)
  have t: "rev (map snd (take (Suc i) es)) = snd (es ! i) # rev (map snd (take i es))"
    using i by (simp add: take_Suc_conv_app_nth)
  have "bi_walk_back n (bi_Prev it) = rev (map snd (take i es))"
  proof (cases i)
    case 0
    with Prev_result [OF Suc.prems(1)] walk_end show ?thesis by simp
  next
    case (Suc j)
    with Prev_result [OF Suc.prems(1)] Suc.IH [of "bi_Prev it" j] Suc.prems(2) show ?thesis by simp
  qed
  with stands_Valid [OF Suc.prems(1)] kv t show ?case by (simp add: e_key_def e_value_def)
qed simp

lemma built_reads:
  assumes "0 < interval" "length (fst (block_Finish (build_block interval kvs))) < 2 ^ 32"
  obtains it es rs where "block_NewIterator (Block (fst (block_Finish (build_block interval kvs)))) = BlockIterator it"
    "reads es rs it" "map snd es = kvs"
proof -
  obtain es rs where b: "builds interval es rs (build_block interval kvs)" "map snd es = kvs"
    using build_block_builds [OF assms(1)] by blast
  have "entries_ok es" "restarts_ok es rs" using b(1) by (simp_all add: builds_def)
  then obtain it where "block_NewIterator (Block (block_bytes es rs)) = BlockIterator it" "reads es rs it"
    using assms(2) unfolding Finish_bytes [OF b(1)] by (rule open_reads)
  with b show ?thesis by (intro that) (simp_all add: Finish_bytes)
qed

text \<open>C16: what was added to a block is read back from it: for every restart interval and every list of
  entries whose block is below 4 GB, the iterator over the finished block gives the entries in
  order from \<open>SeekToFirst\<close> with \<open>Next\<close>, and in reverse from \<open>SeekToLast\<close> with \<open>Prev\<close>.\<close>

theorem block_roundtrip:
  assumes "0 < interval" "length (fst (block_Finish (build_block interval kvs))) < 2 ^ 32" "length kvs \<le> n"
  shows "\<exists>it. block_NewIterator (Block (fst (block_Finish (build_block interval kvs)))) = BlockIterator it \<and>
    bi_walk n (bi_SeekToFirst it) = kvs \<and> bi_walk_back n (bi_SeekToLast it) = rev kvs"
proof -
  obtain it es rs where it: "block_NewIterator (Block (fst (block_Finish (build_block interval kvs)))) = BlockIterator it"
      "reads es rs it" "map snd es = kvs"
    using built_reads [OF assms(1,2)] .
  have l: "length es = length kvs" using it(3) by auto
  have "bi_walk n (bi_SeekToFirst it) = kvs"
    using walk_result [OF SeekToFirst_result [OF it(2)], of n] assms(3) it(3) l by simp
  moreover have "bi_walk_back n (bi_SeekToLast it) = rev kvs"
  proof (cases "es = []")
    case True
    then have "at_end es rs (bi_SeekToLast it)" "kvs = []" using SeekToLast_result [OF it(2)] it(3) by simp_all
    then show ?thesis using walk_end [of es rs "bi_SeekToLast it" n] by simp
  next
    case False
    then have st: "stands es rs (bi_SeekToLast it) (length es - 1)" using SeekToLast_result [OF it(2)] by simp
    have n: "length es - 1 < n" "Suc (length es - 1) = length es" using False l assms(3) by (cases es; simp)+
    show ?thesis using walk_back_result [OF st n(1)] unfolding n(2) by (simp add: it(3))
  qed
  ultimately show ?thesis using it(1) by blast
qed

definition example_kvs :: "(slice \<times> slice) list" where
  "example_kvs = [([1, 1], [10]), ([1, 1, 2], []), ([1, 3], [30, 31]), ([2], [40])]"

lemma example_block: "length (fst (block_Finish (build_block 2 example_kvs))) < 2 ^ 32"
  by (simp add: example_kvs_def build_block_def block_Add_def BlockBuilder_def block_Finish_def PutVarint32_def PutFixed32_def
      EncodeVarint32_def Let_def)

theorem block_roundtrip_witness:
  "\<exists>it. block_NewIterator (Block (fst (block_Finish (build_block 2 example_kvs)))) = BlockIterator it \<and>
    bi_walk_back 4 (bi_SeekToLast it) = [([2], [40]), ([1, 3], [30, 31]), ([1, 1, 2], []), ([1, 1], [10])]"
  using block_roundtrip [of 2 example_kvs 4, OF _ example_block] by (auto simp: example_kvs_def)

text \<open>C15: \<open>Seek\<close> in a block finds the first entry at or behind the target, over the restart points and the
  entries between them: iterating from there gives exactly the entries that are not before the target.
  Of the comparator this needs the order of the keys and its transitivity.\<close>

theorem block_seek:
  assumes "comparator_contract c ok" "0 < interval" "length (fst (block_Finish (build_block interval kvs))) < 2 ^ 32"
    "ascending_keys c (map fst kvs)" "length kvs \<le> n"
  shows "\<exists>it. block_NewIterator (Block (fst (block_Finish (build_block interval kvs)))) = BlockIterator it \<and>
    bi_walk n (bi_Seek c target it) = dropWhile (\<lambda>kv. Compare c (fst kv) target < 0) kvs"
proof -
  obtain it es rs where it: "block_NewIterator (Block (fst (block_Finish (build_block interval kvs)))) = BlockIterator it"
      "reads es rs it" "map snd es = kvs"
    using built_reads [OF assms(2,3)] .
  have "map e_key es = map fst kvs" unfolding it(3) [symmetric] by (simp add: e_key_def)
  then have "result es rs (bi_Seek c target it) (first_ge c target es)"
    using Seek_result [OF it(2)] assms(4) comparator_contract.compare_trans [OF assms(1)] by metis
  moreover have "length es \<le> first_ge c target es + n" using assms(5) it(3) by auto
  ultimately have "bi_walk n (bi_Seek c target it) = map snd (drop (first_ge c target es) es)" by (rule walk_result)
  also have "\<dots> = dropWhile (\<lambda>kv. Compare c (fst kv) target < 0) kvs"
    unfolding first_ge_def it(3) [symmetric] dropWhile_map by (simp add: dropWhile_eq_drop e_key_def o_def)
  finally show ?thesis using it(1) by blast
qed

theorem block_seek_witness:
  "\<exists>it. block_NewIterator (Block (fst (block_Finish (build_block 2 example_kvs)))) = BlockIterator it \<and>
    bi_walk 4 (bi_Seek BytewiseComparator [1, 2] it) = [([1, 3], [30, 31]), ([2], [40])]"
  using block_seek [of BytewiseComparator "\<lambda>_. True" 2 example_kvs 4 "[1, 2]", OF bytewise.comparator_contract_axioms _ example_block]
  by (simp add: example_kvs_def ascending_keys_def Compare_bytewise)


lemma example_parse:
  "ParseNextKey (block_Iter [0, 1, 1, 7, 8, 0, 0, 0, 0, 1, 0, 0, 0] 5 1) =
    (True, \<lparr>bi_data = [0, 1, 1, 7, 8, 0, 0, 0, 0, 1, 0, 0, 0], bi_restarts = 5, num_restarts = 1, current = 0,
      restart_index = 1, bi_key = [7], value_pos = 4, value_len = 1, bi_status = OK\<rparr>)"
  by (simp add: ParseNextKey_def block_Iter_def NextEntryOffset_def DecodeEntry_def advance_restart.simps Let_def)



end
