(* ===== verification/Ldb_Filename.thy ===== *)
theory Ldb_Filename
  imports Ldb_Logging
begin

text \<open>
  The names of the files of a database, \<open>db/filename.cc\<close>, the helpers of \<open>util/env.cc\<close> that write
  and read whole files, and \<open>SetCurrentFile\<close>, which replaces the file \<open>CURRENT\<close>.

  An \<open>Env\<close> (\<open>include/leveldb/env.h\<close>) is abstract in the code.  Its operations that are used here are
  the fields of a record, over a state \<open>'e\<close> of the environment and handles \<open>'h\<close> for open files.
\<close>

section \<open>Names\<close>

datatype FileType = kLogFile | kDBLockFile | kTableFile | kDescriptorFile | kCurrentFile | kTempFile | kInfoLogFile

text \<open>The conversion \<open>%06llu\<close>, and \<open>snprintf\<close> into a buffer of \<open>n\<close> bytes.\<close>

definition decimal6 :: "nat \<Rightarrow> string" where
  "decimal6 n = replicate (6 - length (decimal n)) CHR ''0'' @ decimal n"

definition snprintf :: "nat \<Rightarrow> string \<Rightarrow> string" where "snprintf n s = take (n - 1) s"

definition MakeFileName :: "string \<Rightarrow> u64 \<Rightarrow> string \<Rightarrow> string" where
  "MakeFileName name number suffix = name @ snprintf 100 (''/'' @ decimal6 (unat number) @ ''.'' @ suffix)"

definition LogFileName :: "string \<Rightarrow> u64 \<Rightarrow> string" where "LogFileName name number = MakeFileName name number ''log''"
definition TableFileName :: "string \<Rightarrow> u64 \<Rightarrow> string" where "TableFileName name number = MakeFileName name number ''ldb''"
definition SSTTableFileName :: "string \<Rightarrow> u64 \<Rightarrow> string" where "SSTTableFileName name number = MakeFileName name number ''sst''"
definition DescriptorFileName :: "string \<Rightarrow> u64 \<Rightarrow> string" where
  "DescriptorFileName dbname number = dbname @ snprintf 100 (''/MANIFEST-'' @ decimal6 (unat number))"
definition CurrentFileName :: "string \<Rightarrow> string" where "CurrentFileName dbname = dbname @ ''/CURRENT''"
definition LockFileName :: "string \<Rightarrow> string" where "LockFileName dbname = dbname @ ''/LOCK''"
definition TempFileName :: "string \<Rightarrow> u64 \<Rightarrow> string" where "TempFileName dbname number = MakeFileName dbname number ''dbtmp''"
definition InfoLogFileName :: "string \<Rightarrow> string" where "InfoLogFileName dbname = dbname @ ''/LOG''"
definition OldInfoLogFileName :: "string \<Rightarrow> string" where "OldInfoLogFileName dbname = dbname @ ''/LOG.old''"

definition starts_with :: "string \<Rightarrow> string \<Rightarrow> bool" where
  "starts_with s x \<longleftrightarrow> length x \<le> length s \<and> take (length x) s = x"

definition ParseFileName :: "string \<Rightarrow> (u64 \<times> FileType) option" where
  "ParseFileName fname =
     (if fname = ''CURRENT'' then Some (0, kCurrentFile)
      else if fname = ''LOCK'' then Some (0, kDBLockFile)
      else if fname = ''LOG'' \<or> fname = ''LOG.old'' then Some (0, kInfoLogFile)
      else if starts_with fname ''MANIFEST-'' then
        (case ConsumeDecimalNumber (drop (length ''MANIFEST-'') fname) of
           (rest, None) \<Rightarrow> None
         | (rest, Some num) \<Rightarrow> if rest \<noteq> [] then None else Some (num, kDescriptorFile))
      else
        (case ConsumeDecimalNumber fname of
           (rest, None) \<Rightarrow> None
         | (suffix, Some num) \<Rightarrow>
             if suffix = ''.log'' then Some (num, kLogFile)
             else if suffix = ''.sst'' \<or> suffix = ''.ldb'' then Some (num, kTableFile)
             else if suffix = ''.dbtmp'' then Some (num, kTempFile)
             else None))"

section \<open>Whole files\<close>

record ('e, 'h) env_ops =
  NewWritableFile :: "string \<Rightarrow> 'e \<Rightarrow> status \<times> 'h \<times> 'e"
  file_Append :: "'h \<Rightarrow> slice \<Rightarrow> 'e \<Rightarrow> status \<times> 'e"
  file_Sync :: "'h \<Rightarrow> 'e \<Rightarrow> status \<times> 'e"
  file_Close :: "'h \<Rightarrow> 'e \<Rightarrow> status \<times> 'e"
  file_delete :: "'h \<Rightarrow> 'e \<Rightarrow> 'e"
  DeleteFile :: "string \<Rightarrow> 'e \<Rightarrow> status \<times> 'e"
  RenameFile :: "string \<Rightarrow> string \<Rightarrow> 'e \<Rightarrow> status \<times> 'e"
  NewSequentialFile :: "string \<Rightarrow> 'e \<Rightarrow> status \<times> 'h \<times> 'e"
  file_Read :: "'h \<Rightarrow> nat \<Rightarrow> 'e \<Rightarrow> status \<times> slice \<times> 'e"

definition DoWriteStringToFile ::
    "('e, 'h) env_ops \<Rightarrow> slice \<Rightarrow> string \<Rightarrow> bool \<Rightarrow> 'e \<Rightarrow> status \<times> 'e" where
  "DoWriteStringToFile env data fname should_sync e =
     (case NewWritableFile env fname e of (s, h, e1) \<Rightarrow>
        if \<not> is_ok s then (s, e1)
        else
          let (s2, e2) = file_Append env h data e1;
              (s3, e3) = (if is_ok s2 \<and> should_sync then file_Sync env h e2 else (s2, e2));
              (s4, e4) = (if is_ok s3 then file_Close env h e3 else (s3, e3));
              e5 = file_delete env h e4
          in if \<not> is_ok s4 then (s4, snd (DeleteFile env fname e5)) else (s4, e5))"

definition WriteStringToFile :: "('e, 'h) env_ops \<Rightarrow> slice \<Rightarrow> string \<Rightarrow> 'e \<Rightarrow> status \<times> 'e" where
  "WriteStringToFile env data fname e = DoWriteStringToFile env data fname False e"

definition WriteStringToFileSync :: "('e, 'h) env_ops \<Rightarrow> slice \<Rightarrow> string \<Rightarrow> 'e \<Rightarrow> status \<times> 'e" where
  "WriteStringToFileSync env data fname e = DoWriteStringToFile env data fname True e"

text \<open>The loop ends when a read fails or returns nothing; a file may have no end, so this is a partial function.\<close>

partial_function (option) read_all :: "('e, 'h) env_ops \<Rightarrow> 'h \<Rightarrow> slice \<Rightarrow> 'e \<Rightarrow> (status \<times> slice \<times> 'e) option" where
  "read_all env h data e =
     (case file_Read env h 8192 e of (s, fragment, e1) \<Rightarrow>
        if \<not> is_ok s then Some (s, data, e1)
        else if fragment = [] then Some (s, data @ fragment, e1)
        else read_all env h (data @ fragment) e1)"

definition ReadFileToString :: "('e, 'h) env_ops \<Rightarrow> string \<Rightarrow> 'e \<Rightarrow> (status \<times> slice \<times> 'e) option" where
  "ReadFileToString env fname e =
     (case NewSequentialFile env fname e of (s, h, e1) \<Rightarrow>
        if \<not> is_ok s then Some (s, [], e1)
        else (case read_all env h [] e1 of
                None \<Rightarrow> None
              | Some (s, data, e2) \<Rightarrow> Some (s, data, file_delete env h e2)))"

section \<open>The file CURRENT\<close>

definition SetCurrentFile :: "('e, 'h) env_ops \<Rightarrow> string \<Rightarrow> u64 \<Rightarrow> 'e \<Rightarrow> status \<times> 'e" where
  "SetCurrentFile env dbname descriptor_number e =
     (let manifest = DescriptorFileName dbname descriptor_number;
          contents = drop (length dbname + 1) manifest;
          tmp = TempFileName dbname descriptor_number;
          (s1, e1) = WriteStringToFileSync env (text_bytes (contents @ [CHR 0x0A])) tmp e;
          (s2, e2) = (if is_ok s1 then RenameFile env tmp (CurrentFileName dbname) e1 else (s1, e1))
      in if \<not> is_ok s2 then (s2, snd (DeleteFile env tmp e2)) else (s2, e2))"

section \<open>Names are parsed back\<close>

lemma decimal6_digits: "list_all is_digit (decimal6 n)" "decimal6 n \<noteq> []"
proof -
  have "is_digit CHR ''0''" by (simp add: is_digit_def)
  then show "list_all is_digit (decimal6 n)" using decimal_digits(1) [of n] by (auto simp: decimal6_def list_all_iff)
qed (simp add: decimal6_def decimal_digits)

lemma digits_value_zeros: "digits_value 0 (replicate k CHR ''0'' @ ds) = digits_value 0 ds"
  by (induction k) (simp_all add: digits_value_def digit_val_def)

lemma decimal6_value: "digits_value 0 (decimal6 n) = n"
  by (simp add: decimal6_def digits_value_zeros decimal_value)

lemma decimal6_length: "n < 2 ^ 64 \<Longrightarrow> length (decimal6 n) \<le> 20"
  using decimal_length [of n 20] by (simp add: decimal6_def)

lemma takeWhile_digits:
  assumes "list_all is_digit ds" "rest = [] \<or> \<not> is_digit (hd rest)"
  shows "takeWhile is_digit (ds @ rest) = ds \<and> dropWhile is_digit (ds @ rest) = rest"
  using assms
proof (induction ds)
  case Nil
  then show ?case by (cases rest) auto
qed auto

lemma Consume_decimal6:
  assumes "rest = [] \<or> \<not> is_digit (hd rest)"
  shows "ConsumeDecimalNumber (decimal6 (unat n) @ rest) = (rest, Some n)"
proof -
  let ?s = "decimal6 (unat n) @ rest"
  note w = takeWhile_digits [OF decimal6_digits(1) assms]
  have "unat n < 2 ^ 64" using unsigned_less [of n, where ?'a = nat] by simp
  then have v: "snd (ConsumeDecimalNumber ?s) = Some n"
    unfolding ConsumeDecimalNumber_spec(1) w by (simp add: decimal6_digits decimal6_value Let_def w)
  then have "fst (ConsumeDecimalNumber ?s) = rest" using ConsumeDecimalNumber_spec(2) [of ?s] w by simp
  with v show ?thesis by (simp add: prod_eq_iff)
qed

lemma MakeFileName_parts:
  assumes "length suffix \<le> 10"
  shows "drop (length name + 1) (MakeFileName name number suffix) = decimal6 (unat number) @ ''.'' @ suffix"
proof -
  have "unat number < 2 ^ 64" using unsigned_less [of number, where ?'a = nat] by simp
  from decimal6_length [OF this] assms show ?thesis by (simp add: MakeFileName_def snprintf_def)
qed

lemma DescriptorFileName_parts:
  "drop (length name + 1) (DescriptorFileName name number) = ''MANIFEST-'' @ decimal6 (unat number)"
proof -
  have "unat number < 2 ^ 64" using unsigned_less [of number, where ?'a = nat] by simp
  from decimal6_length [OF this] show ?thesis by (simp add: DescriptorFileName_def snprintf_def)
qed

text \<open>A name that starts with a digit is none of the fixed ones.\<close>

lemma Parse_number:
  assumes "\<not> is_digit (hd suffix)" "suffix \<noteq> []"
  shows "ParseFileName (decimal6 (unat n) @ suffix) =
    (if suffix = ''.log'' then Some (n, kLogFile)
     else if suffix = ''.sst'' \<or> suffix = ''.ldb'' then Some (n, kTableFile)
     else if suffix = ''.dbtmp'' then Some (n, kTempFile) else None)"
proof -
  obtain c cs where d: "decimal6 (unat n) = c # cs" using decimal6_digits(2) [of "unat n"] by (cases "decimal6 (unat n)") auto
  then have "is_digit c" using decimal6_digits(1) [of "unat n"] by simp
  then have c: "c \<noteq> CHR ''C''" "c \<noteq> CHR ''L''" "c \<noteq> CHR ''M''" by (auto simp: is_digit_def)
  have "ParseFileName (c # cs @ suffix) =
    (case ConsumeDecimalNumber (c # cs @ suffix) of (rest, None) \<Rightarrow> None
     | (suffix, Some num) \<Rightarrow>
         if suffix = ''.log'' then Some (num, kLogFile)
         else if suffix = ''.sst'' \<or> suffix = ''.ldb'' then Some (num, kTableFile)
         else if suffix = ''.dbtmp'' then Some (num, kTempFile) else None)"
    using c by (simp add: ParseFileName_def starts_with_def)
  with Consume_decimal6 [of suffix n] assms show ?thesis by (simp add: d)
qed

lemma Parse_manifest: "ParseFileName (''MANIFEST-'' @ decimal6 (unat n)) = Some (n, kDescriptorFile)"
  using Consume_decimal6 [of "[]" n] by (simp add: ParseFileName_def starts_with_def)

lemma numbered_names:
  "ParseFileName (drop (length name + 1) (LogFileName name n)) = Some (n, kLogFile)"
  "ParseFileName (drop (length name + 1) (TableFileName name n)) = Some (n, kTableFile)"
  "ParseFileName (drop (length name + 1) (SSTTableFileName name n)) = Some (n, kTableFile)"
  "ParseFileName (drop (length name + 1) (TempFileName name n)) = Some (n, kTempFile)"
proof -
  have "\<not> is_digit CHR ''.''" by (simp add: is_digit_def)
  then show "ParseFileName (drop (length name + 1) (LogFileName name n)) = Some (n, kLogFile)"
    "ParseFileName (drop (length name + 1) (TableFileName name n)) = Some (n, kTableFile)"
    "ParseFileName (drop (length name + 1) (SSTTableFileName name n)) = Some (n, kTableFile)"
    "ParseFileName (drop (length name + 1) (TempFileName name n)) = Some (n, kTempFile)"
    unfolding LogFileName_def TableFileName_def SSTTableFileName_def TempFileName_def
    by (simp_all add: MakeFileName_parts [simplified] Parse_number)
qed

lemma fixed_names:
  "ParseFileName (drop (length name + 1) (CurrentFileName name)) = Some (0, kCurrentFile)"
  "ParseFileName (drop (length name + 1) (LockFileName name)) = Some (0, kDBLockFile)"
  "ParseFileName (drop (length name + 1) (InfoLogFileName name)) = Some (0, kInfoLogFile)"
  "ParseFileName (drop (length name + 1) (OldInfoLogFileName name)) = Some (0, kInfoLogFile)"
  by (simp_all add: CurrentFileName_def LockFileName_def InfoLogFileName_def OldInfoLogFileName_def ParseFileName_def)

text \<open>C28: the names of the files of a database are parsed back, behind the name of its directory: every
  name gives its type and its number for all 64-bit numbers.  The parser takes numbers of any
  number of digits, but none that needs more than 64 bits.\<close>

theorem file_names:
  "ParseFileName (drop (length name + 1) (LogFileName name n)) = Some (n, kLogFile) \<and>
   ParseFileName (drop (length name + 1) (TableFileName name n)) = Some (n, kTableFile) \<and>
   ParseFileName (drop (length name + 1) (SSTTableFileName name n)) = Some (n, kTableFile) \<and>
   ParseFileName (drop (length name + 1) (TempFileName name n)) = Some (n, kTempFile) \<and>
   ParseFileName (drop (length name + 1) (DescriptorFileName name n)) = Some (n, kDescriptorFile) \<and>
   ParseFileName (drop (length name + 1) (CurrentFileName name)) = Some (0, kCurrentFile) \<and>
   ParseFileName (drop (length name + 1) (LockFileName name)) = Some (0, kDBLockFile) \<and>
   ParseFileName (drop (length name + 1) (InfoLogFileName name)) = Some (0, kInfoLogFile) \<and>
   ParseFileName (drop (length name + 1) (OldInfoLogFileName name)) = Some (0, kInfoLogFile) \<and>
   ParseFileName (''MANIFEST-'' @ decimal (2 ^ 64 + k)) = None"
proof -
  have w: "takeWhile is_digit (decimal (2 ^ 64 + k)) = decimal (2 ^ 64 + k)"
    using takeWhile_digits [OF decimal_digits(1), of "[]" "2 ^ 64 + k"] by simp
  have "snd (ConsumeDecimalNumber (decimal (2 ^ 64 + k))) = None"
    unfolding ConsumeDecimalNumber_spec w Let_def decimal_value by simp
  then have "ParseFileName (''MANIFEST-'' @ decimal (2 ^ 64 + k)) = None"
    by (auto simp: ParseFileName_def starts_with_def split: prod.splits)
  with numbered_names fixed_names DescriptorFileName_parts [of name n] Parse_manifest [of n] show ?thesis by metis
qed

end
