(* ===== verification/Ldb_Edit.thy ===== *)
theory Ldb_Edit
  imports Ldb_Filename Ldb_Key Ldb_Coding "HOL-Library.Product_Lexorder"
begin

text \<open>
  Version edits, \<open>db/version_edit.cc\<close> and \<open>db/version_edit.h\<close>: the records of the manifest, with their
  encoding and parser, and the debug strings of keys (\<open>db/dbformat.cc\<close>).  An \<open>InternalKey\<close> is
  its string \<open>rep_\<close>.  The \<open>std::set\<close> of deleted files is a set, walked in ascending order.
\<close>

section \<open>Internal keys as strings\<close>

definition InternalKey_EncodeOf :: "slice \<Rightarrow> u64 \<Rightarrow> ValueType \<Rightarrow> slice" where
  "InternalKey_EncodeOf ukey s t = AppendInternalKey [] \<lparr>key_user = ukey, key_sequence = s, key_type = t\<rparr>"

definition ParsedInternalKey_DebugString :: "ParsedInternalKey \<Rightarrow> string" where
  "ParsedInternalKey_DebugString k =
     [CHR 0x27] @ EscapeString (key_user k) @
     snprintf 50 ([CHR 0x27] @ '' @ '' @ decimal (unat (key_sequence k)) @ '' : '' @ decimal (unat (type_byte (key_type k))))"

definition InternalKey_DebugString :: "slice \<Rightarrow> string" where
  "InternalKey_DebugString rep = (case ParseInternalKey rep of
     Some pk \<Rightarrow> ParsedInternalKey_DebugString pk
   | None \<Rightarrow> ''(bad)'' @ EscapeString rep)"

section \<open>Edits\<close>

definition kNumLevels :: nat where "kNumLevels = 7"

record FileMetaData =
  fm_refs :: int
  allowed_seeks :: int
  fm_number :: u64
  file_size :: u64
  smallest :: slice
  largest :: slice

text \<open>The constructor leaves \<open>number\<close> undefined; it is a parameter.\<close>

definition FileMetaData_init :: "u64 \<Rightarrow> FileMetaData" where
  "FileMetaData_init junk = \<lparr>fm_refs = 0, allowed_seeks = 2 ^ 30, fm_number = junk, file_size = 0, smallest = [], largest = []\<rparr>"

record version_edit =
  comparator_name :: slice
  log_number :: u64
  prev_log_number :: u64
  next_file_number :: u64
  last_sequence :: u64
  has_comparator :: bool
  has_log_number :: bool
  has_prev_log_number :: bool
  has_next_file_number :: bool
  has_last_sequence :: bool
  compact_pointers :: "(int \<times> slice) list"
  deleted_files :: "(int \<times> u64) set"
  new_files :: "(int \<times> FileMetaData) list"

text \<open>\<open>Clear\<close> keeps the compaction pointers.\<close>

definition edit_Clear :: "version_edit \<Rightarrow> version_edit" where
  "edit_Clear e = e\<lparr>comparator_name := [], log_number := 0, prev_log_number := 0, last_sequence := 0, next_file_number := 0,
     has_comparator := False, has_log_number := False, has_prev_log_number := False,
     has_next_file_number := False, has_last_sequence := False, deleted_files := {}, new_files := []\<rparr>"

definition SetComparatorName :: "slice \<Rightarrow> version_edit \<Rightarrow> version_edit" where
  "SetComparatorName name e = e\<lparr>has_comparator := True, comparator_name := name\<rparr>"
definition SetLogNumber :: "u64 \<Rightarrow> version_edit \<Rightarrow> version_edit" where
  "SetLogNumber num e = e\<lparr>has_log_number := True, log_number := num\<rparr>"
definition SetPrevLogNumber :: "u64 \<Rightarrow> version_edit \<Rightarrow> version_edit" where
  "SetPrevLogNumber num e = e\<lparr>has_prev_log_number := True, prev_log_number := num\<rparr>"
definition SetNextFile :: "u64 \<Rightarrow> version_edit \<Rightarrow> version_edit" where
  "SetNextFile num e = e\<lparr>has_next_file_number := True, next_file_number := num\<rparr>"
definition SetLastSequence :: "u64 \<Rightarrow> version_edit \<Rightarrow> version_edit" where
  "SetLastSequence seq e = e\<lparr>has_last_sequence := True, last_sequence := seq\<rparr>"
definition SetCompactPointer :: "int \<Rightarrow> slice \<Rightarrow> version_edit \<Rightarrow> version_edit" where
  "SetCompactPointer level key e = e\<lparr>compact_pointers := compact_pointers e @ [(level, key)]\<rparr>"
definition AddFile :: "int \<Rightarrow> u64 \<Rightarrow> u64 \<Rightarrow> slice \<Rightarrow> slice \<Rightarrow> version_edit \<Rightarrow> version_edit" where
  "AddFile level file fsize small large e =
     e\<lparr>new_files := new_files e @ [(level, (FileMetaData_init 0)\<lparr>fm_number := file, file_size := fsize, smallest := small, largest := large\<rparr>)]\<rparr>"
definition edit_DeleteFile :: "int \<Rightarrow> u64 \<Rightarrow> version_edit \<Rightarrow> version_edit" where
  "edit_DeleteFile level file e = e\<lparr>deleted_files := insert (level, file) (deleted_files e)\<rparr>"

section \<open>Encoding\<close>

definition kComparator :: u32 where "kComparator = 1"
definition kLogNumber :: u32 where "kLogNumber = 2"
definition kNextFileNumber :: u32 where "kNextFileNumber = 3"
definition kLastSequence :: u32 where "kLastSequence = 4"
definition kCompactPointer :: u32 where "kCompactPointer = 5"
definition kDeletedFile :: u32 where "kDeletedFile = 6"
definition kNewFile :: u32 where "kNewFile = 7"
definition kPrevLogNumber :: u32 where "kPrevLogNumber = 9"

lemmas edit_tags = kComparator_def kLogNumber_def kNextFileNumber_def kLastSequence_def kCompactPointer_def
  kDeletedFile_def kNewFile_def kPrevLogNumber_def

definition put_number :: "bool \<Rightarrow> u32 \<Rightarrow> u64 \<Rightarrow> byte list \<Rightarrow> byte list" where
  "put_number has tag num dst = (if has then PutVarint64 (PutVarint32 dst tag) num else dst)"

definition put_pointer :: "int \<times> slice \<Rightarrow> byte list \<Rightarrow> byte list" where
  "put_pointer p dst = PutLengthPrefixedSlice (PutVarint32 (PutVarint32 dst kCompactPointer) (word_of_int (fst p))) (snd p)"

definition put_deleted :: "int \<times> u64 \<Rightarrow> byte list \<Rightarrow> byte list" where
  "put_deleted d dst = PutVarint64 (PutVarint32 (PutVarint32 dst kDeletedFile) (word_of_int (fst d))) (snd d)"

definition put_file :: "int \<times> FileMetaData \<Rightarrow> byte list \<Rightarrow> byte list" where
  "put_file n dst =
     (let f = snd n;
          d1 = PutVarint32 (PutVarint32 dst kNewFile) (word_of_int (fst n));
          d2 = PutVarint64 (PutVarint64 d1 (fm_number f)) (file_size f)
      in PutLengthPrefixedSlice (PutLengthPrefixedSlice d2 (smallest f)) (largest f))"

definition edit_EncodeTo :: "version_edit \<Rightarrow> byte list \<Rightarrow> byte list" where
  "edit_EncodeTo e dst =
     (let d1 = (if has_comparator e then PutLengthPrefixedSlice (PutVarint32 dst kComparator) (comparator_name e) else dst);
          d2 = put_number (has_log_number e) kLogNumber (log_number e) d1;
          d3 = put_number (has_prev_log_number e) kPrevLogNumber (prev_log_number e) d2;
          d4 = put_number (has_next_file_number e) kNextFileNumber (next_file_number e) d3;
          d5 = put_number (has_last_sequence e) kLastSequence (last_sequence e) d4;
          d6 = fold put_pointer (compact_pointers e) d5;
          d7 = fold put_deleted (sorted_list_of_set (deleted_files e)) d6
      in fold put_file (new_files e) d7)"

section \<open>Parsing\<close>

definition GetInternalKey :: "slice \<Rightarrow> (slice \<times> slice) option" where
  "GetInternalKey input = GetLengthPrefixedSlice input"

definition GetLevel :: "slice \<Rightarrow> (int \<times> slice) option" where
  "GetLevel input = (case GetVarint32 input of
     Some (v, rest) \<Rightarrow> if unat v < kNumLevels then Some (int (unat v), rest) else None
   | None \<Rightarrow> None)"

definition get_file :: "slice \<Rightarrow> ((int \<times> FileMetaData) \<times> slice) option" where
  "get_file input =
     Option.bind (GetLevel input) (\<lambda>(level, i1).
     Option.bind (GetVarint64 i1) (\<lambda>(num, i2).
     Option.bind (GetVarint64 i2) (\<lambda>(fsize, i3).
     Option.bind (GetInternalKey i3) (\<lambda>(small, i4).
     Option.bind (GetInternalKey i4) (\<lambda>(large, i5).
       Some ((level, (FileMetaData_init 0)\<lparr>fm_number := num, file_size := fsize, smallest := small, largest := large\<rparr>), i5))))))"

text \<open>One record behind its tag: the message of the error, or the rest and the changed edit.\<close>

definition edit_field :: "u32 \<Rightarrow> slice \<Rightarrow> version_edit \<Rightarrow> string + (slice \<times> version_edit)" where
  "edit_field tag input e =
     (if tag = kComparator then
        (case GetLengthPrefixedSlice input of
           Some (str, rest) \<Rightarrow> Inr (rest, e\<lparr>comparator_name := str, has_comparator := True\<rparr>)
         | None \<Rightarrow> Inl ''comparator name'')
      else if tag = kLogNumber then
        (case GetVarint64 input of
           Some (n, rest) \<Rightarrow> Inr (rest, e\<lparr>log_number := n, has_log_number := True\<rparr>)
         | None \<Rightarrow> Inl ''log number'')
      else if tag = kPrevLogNumber then
        (case GetVarint64 input of
           Some (n, rest) \<Rightarrow> Inr (rest, e\<lparr>prev_log_number := n, has_prev_log_number := True\<rparr>)
         | None \<Rightarrow> Inl ''previous log number'')
      else if tag = kNextFileNumber then
        (case GetVarint64 input of
           Some (n, rest) \<Rightarrow> Inr (rest, e\<lparr>next_file_number := n, has_next_file_number := True\<rparr>)
         | None \<Rightarrow> Inl ''next file number'')
      else if tag = kLastSequence then
        (case GetVarint64 input of
           Some (n, rest) \<Rightarrow> Inr (rest, e\<lparr>last_sequence := n, has_last_sequence := True\<rparr>)
         | None \<Rightarrow> Inl ''last sequence number'')
      else if tag = kCompactPointer then
        (case Option.bind (GetLevel input) (\<lambda>(level, i1). map_option (\<lambda>(key, i2). (level, key, i2)) (GetInternalKey i1)) of
           Some (level, key, rest) \<Rightarrow> Inr (rest, e\<lparr>compact_pointers := compact_pointers e @ [(level, key)]\<rparr>)
         | None \<Rightarrow> Inl ''compaction pointer'')
      else if tag = kDeletedFile then
        (case Option.bind (GetLevel input) (\<lambda>(level, i1). map_option (\<lambda>(n, i2). (level, n, i2)) (GetVarint64 i1)) of
           Some (level, n, rest) \<Rightarrow> Inr (rest, e\<lparr>deleted_files := insert (level, n) (deleted_files e)\<rparr>)
         | None \<Rightarrow> Inl ''deleted file'')
      else if tag = kNewFile then
        (case get_file input of
           Some (f, rest) \<Rightarrow> Inr (rest, e\<lparr>new_files := new_files e @ [f]\<rparr>)
         | None \<Rightarrow> Inl ''new-file entry'')
      else Inl ''unknown tag'')"

lemma Get_shorter:
  "GetVarint64 i = Some (n, r) \<Longrightarrow> length r \<le> length i" "GetVarint32 i = Some (v, r) \<Longrightarrow> length r < length i"
  "GetLengthPrefixedSlice i = Some (x, r) \<Longrightarrow> length r \<le> length i"
  by (auto simp: GetLengthPrefixedSlice_def split: option.splits if_splits dest!: GetVarint_suffix)

lemma GetLevel_shorter: "GetLevel i = Some (l, r) \<Longrightarrow> length r \<le> length i"
  by (auto simp: GetLevel_def split: option.splits if_splits dest!: Get_shorter)

lemma get_file_shorter: "get_file i = Some (f, r) \<Longrightarrow> length r \<le> length i"
  by (auto simp: get_file_def GetInternalKey_def bind_eq_Some_conv dest!: Get_shorter GetLevel_shorter)

lemma edit_field_shorter: "edit_field tag i e = Inr (r, e') \<Longrightarrow> length r \<le> length i"
  by (auto simp: edit_field_def GetInternalKey_def bind_eq_Some_conv split: if_splits option.splits
      dest!: Get_shorter GetLevel_shorter get_file_shorter)

text \<open>The loop: the message, the rest of the input, and the edit.\<close>

function edit_loop :: "slice \<Rightarrow> version_edit \<Rightarrow> string option \<times> slice \<times> version_edit" where
  "edit_loop input e =
     (case GetVarint32 input of
        None \<Rightarrow> (None, input, e)
      | Some (tag, input1) \<Rightarrow>
          (case edit_field tag input1 e of
             Inl msg \<Rightarrow> (Some msg, input1, e)
           | Inr (input2, e') \<Rightarrow> edit_loop input2 e'))"
  by pat_completeness auto
termination
  by (relation "measure (\<lambda>(input, e). length input)")
    (auto dest!: Get_shorter edit_field_shorter dest: order.strict_trans1)

declare edit_loop.simps [simp del]

definition edit_DecodeFrom :: "slice \<Rightarrow> version_edit \<Rightarrow> status \<times> version_edit" where
  "edit_DecodeFrom src e0 =
     (case edit_loop src (edit_Clear e0) of (msg, input, e) \<Rightarrow>
        let msg' = (if msg = None \<and> input \<noteq> [] then Some ''invalid tag'' else msg)
        in (case msg' of Some text \<Rightarrow> status_msg kCorruption ''VersionEdit'' text | None \<Rightarrow> OK, e))"

section \<open>Debug strings\<close>

text \<open>\<open>AppendNumberTo\<close> takes an unsigned 64-bit number; a level is converted.\<close>

definition edit_DebugString :: "version_edit \<Rightarrow> string" where
  "edit_DebugString e =
     (let nl = [CHR 0x0A];
          num = (\<lambda>has text n r. if has then AppendNumberTo (r @ nl @ text) n else r);
          r1 = ''VersionEdit {'' @ (if has_comparator e then nl @ ''  Comparator: '' @ map (\<lambda>b. char_of (unat b)) (comparator_name e) else []);
          r2 = num (has_log_number e) ''  LogNumber: '' (log_number e) r1;
          r3 = num (has_prev_log_number e) ''  PrevLogNumber: '' (prev_log_number e) r2;
          r4 = num (has_next_file_number e) ''  NextFile: '' (next_file_number e) r3;
          r5 = num (has_last_sequence e) ''  LastSeq: '' (last_sequence e) r4;
          r6 = fold (\<lambda>(level, key) r. AppendNumberTo (r @ nl @ ''  CompactPointer: '') (word_of_int level) @ '' '' @ InternalKey_DebugString key)
                 (compact_pointers e) r5;
          r7 = fold (\<lambda>(level, n) r. AppendNumberTo (AppendNumberTo (r @ nl @ ''  DeleteFile: '') (word_of_int level) @ '' '') n)
                 (sorted_list_of_set (deleted_files e)) r6;
          r8 = fold (\<lambda>(level, f) r.
                  AppendNumberTo (AppendNumberTo (AppendNumberTo (r @ nl @ ''  AddFile: '') (word_of_int level) @ '' '') (fm_number f) @ '' '')
                    (file_size f) @ '' '' @ InternalKey_DebugString (smallest f) @ '' .. '' @ InternalKey_DebugString (largest f))
                 (new_files e) r7
      in r8 @ nl @ ''}'' @ nl)"

end
