(* ===== verification/Ldb_Edit_Props.thy ===== *)
theory Ldb_Edit_Props
  imports Ldb_Edit
begin

text \<open>
  The manifest records are parsed back (\<open>db/version_edit.cc\<close>).  Every record is shown to be consumed
  by one round of the parser's loop; the round trip composes them.
\<close>

section \<open>One record\<close>

definition level_ok :: "int \<Rightarrow> bool" where "level_ok l \<longleftrightarrow> 0 \<le> l \<and> l < int kNumLevels"

definition short :: "slice \<Rightarrow> bool" where "short s \<longleftrightarrow> length s < 2 ^ 32"

lemma GetLevel_Encode: "level_ok l \<Longrightarrow> GetLevel (EncodeVarint32 (word_of_int l) @ rest) = Some (l, rest)"
proof -
  assume l: "level_ok l"
  then have "unat (word_of_int l :: u32) = nat l"
    by (simp add: level_ok_def kNumLevels_def unsigned_of_int take_bit_int_eq_self nat_mod_distrib)
  with l show ?thesis by (auto simp: GetLevel_def level_ok_def kNumLevels_def)
qed

lemma edit_loop_end [simp]: "edit_loop [] e = (None, [], e)"
  by (subst edit_loop.simps) (simp add: GetVarint32_def GetVarint32Ptr_def GetVarint32PtrFallback_def)

lemma edit_loop_field:
  "edit_field tag input e = Inr (rest, e') \<Longrightarrow> edit_loop (EncodeVarint32 tag @ input) e = edit_loop rest e'"
  by (subst edit_loop.simps) simp

lemma prefixed [simp]: "short s \<Longrightarrow> GetLengthPrefixedSlice (PutLengthPrefixedSlice [] s @ rest) = Some (s, rest)"
  by (simp add: short_def GetLengthPrefixedSlice_Put)

definition number_bytes :: "bool \<Rightarrow> u32 \<Rightarrow> u64 \<Rightarrow> byte list" where
  "number_bytes has tag n = (if has then EncodeVarint32 tag @ EncodeVarint64 n else [])"

definition pointer_bytes :: "int \<times> slice \<Rightarrow> byte list" where
  "pointer_bytes p = EncodeVarint32 kCompactPointer @ EncodeVarint32 (word_of_int (fst p)) @ PutLengthPrefixedSlice [] (snd p)"

definition deleted_bytes :: "int \<times> u64 \<Rightarrow> byte list" where
  "deleted_bytes d = EncodeVarint32 kDeletedFile @ EncodeVarint32 (word_of_int (fst d)) @ EncodeVarint64 (snd d)"

definition file_bytes :: "int \<times> FileMetaData \<Rightarrow> byte list" where
  "file_bytes n = EncodeVarint32 kNewFile @ EncodeVarint32 (word_of_int (fst n)) @ EncodeVarint64 (fm_number (snd n)) @
     EncodeVarint64 (file_size (snd n)) @ PutLengthPrefixedSlice [] (smallest (snd n)) @ PutLengthPrefixedSlice [] (largest (snd n))"

lemma put_bytes:
  "put_number has tag n dst = dst @ number_bytes has tag n" "put_pointer p dst = dst @ pointer_bytes p"
  "put_deleted d dst = dst @ deleted_bytes d"
  unfolding put_number_def number_bytes_def put_pointer_def pointer_bytes_def put_deleted_def deleted_bytes_def
    PutLengthPrefixedSlice_append [of "PutVarint32 _ _"]
  by (simp_all add: PutVarint32_def PutVarint64_def)

lemma put_file_bytes: "put_file f dst = dst @ file_bytes f"
  unfolding put_file_def file_bytes_def Let_def PutLengthPrefixedSlice_append [of "PutLengthPrefixedSlice _ _"]
    PutLengthPrefixedSlice_append [of "PutVarint64 _ _"]
  by (simp add: PutVarint32_def PutVarint64_def)

lemma fold_put: "(\<And>x dst. g x dst = dst @ bytes x) \<Longrightarrow> fold g xs dst = dst @ concat (map bytes xs)"
  by (induction xs arbitrary: dst) simp_all

text \<open>What the parser makes of each record.\<close>

lemma parse_number:
  "edit_loop (number_bytes h kLogNumber n @ rest) e =
    edit_loop rest (if h then e\<lparr>log_number := n, has_log_number := True\<rparr> else e)"
  "edit_loop (number_bytes h kPrevLogNumber n @ rest) e =
    edit_loop rest (if h then e\<lparr>prev_log_number := n, has_prev_log_number := True\<rparr> else e)"
  "edit_loop (number_bytes h kNextFileNumber n @ rest) e =
    edit_loop rest (if h then e\<lparr>next_file_number := n, has_next_file_number := True\<rparr> else e)"
  "edit_loop (number_bytes h kLastSequence n @ rest) e =
    edit_loop rest (if h then e\<lparr>last_sequence := n, has_last_sequence := True\<rparr> else e)"
  by (simp_all add: number_bytes_def edit_loop_field edit_field_def edit_tags)

lemma parse_pointer:
  "level_ok (fst p) \<Longrightarrow> short (snd p) \<Longrightarrow>
    edit_loop (pointer_bytes p @ rest) e = edit_loop rest (e\<lparr>compact_pointers := compact_pointers e @ [p]\<rparr>)"
  unfolding pointer_bytes_def append_assoc
  by (rule edit_loop_field) (simp add: edit_field_def edit_tags GetLevel_Encode GetInternalKey_def)

lemma parse_deleted:
  "level_ok (fst d) \<Longrightarrow>
    edit_loop (deleted_bytes d @ rest) e = edit_loop rest (e\<lparr>deleted_files := insert d (deleted_files e)\<rparr>)"
  unfolding deleted_bytes_def append_assoc
  by (rule edit_loop_field) (simp add: edit_field_def edit_tags GetLevel_Encode)

definition saved_file :: "FileMetaData \<Rightarrow> FileMetaData" where
  "saved_file f = f\<lparr>fm_refs := 0, allowed_seeks := 2 ^ 30\<rparr>"

definition file_ok :: "int \<times> FileMetaData \<Rightarrow> bool" where
  "file_ok f \<longleftrightarrow> level_ok (fst f) \<and> short (smallest (snd f)) \<and> short (largest (snd f))"

lemma parse_file:
  "file_ok f \<Longrightarrow>
    edit_loop (file_bytes f @ rest) e = edit_loop rest (e\<lparr>new_files := new_files e @ [(fst f, saved_file (snd f))]\<rparr>)"
  unfolding file_bytes_def append_assoc
  by (rule edit_loop_field)
    (simp add: edit_field_def edit_tags get_file_def GetLevel_Encode GetInternalKey_def file_ok_def saved_file_def FileMetaData_init_def)

section \<open>Lists of records\<close>

lemma parse_pointers:
  "\<forall>p\<in>set ps. level_ok (fst p) \<and> short (snd p) \<Longrightarrow>
    edit_loop (concat (map pointer_bytes ps) @ rest) e = edit_loop rest (e\<lparr>compact_pointers := compact_pointers e @ ps\<rparr>)"
  by (induction ps arbitrary: e) (simp_all add: parse_pointer)

lemma parse_deletions:
  "\<forall>d\<in>set ds. level_ok (fst d) \<Longrightarrow>
    edit_loop (concat (map deleted_bytes ds) @ rest) e = edit_loop rest (e\<lparr>deleted_files := deleted_files e \<union> set ds\<rparr>)"
  by (induction ds arbitrary: e) (simp_all add: parse_deleted)

lemma parse_files:
  "\<forall>f\<in>set fs. file_ok f \<Longrightarrow>
    edit_loop (concat (map file_bytes fs) @ rest) e =
      edit_loop rest (e\<lparr>new_files := new_files e @ map (map_prod id saved_file) fs\<rparr>)"
  by (induction fs arbitrary: e) (simp_all add: parse_file split_beta map_prod_def)

section \<open>Round trip\<close>

definition edit_ok :: "version_edit \<Rightarrow> bool" where
  "edit_ok e \<longleftrightarrow> short (comparator_name e) \<and> (\<forall>p\<in>set (compact_pointers e). level_ok (fst p) \<and> short (snd p)) \<and>
     finite (deleted_files e) \<and> (\<forall>d\<in>deleted_files e. level_ok (fst d)) \<and> (\<forall>f\<in>set (new_files e). file_ok f)"

text \<open>What a record holds of an edit: the fields that were set, and the files without their counters.\<close>

definition saved :: "version_edit \<Rightarrow> version_edit" where
  "saved e = e\<lparr>comparator_name := (if has_comparator e then comparator_name e else []),
     log_number := (if has_log_number e then log_number e else 0),
     prev_log_number := (if has_prev_log_number e then prev_log_number e else 0),
     next_file_number := (if has_next_file_number e then next_file_number e else 0),
     last_sequence := (if has_last_sequence e then last_sequence e else 0),
     new_files := map (map_prod id saved_file) (new_files e)\<rparr>"

lemma EncodeTo_bytes:
  "edit_EncodeTo e [] =
    (if has_comparator e then EncodeVarint32 kComparator @ PutLengthPrefixedSlice [] (comparator_name e) else []) @
    number_bytes (has_log_number e) kLogNumber (log_number e) @
    number_bytes (has_prev_log_number e) kPrevLogNumber (prev_log_number e) @
    number_bytes (has_next_file_number e) kNextFileNumber (next_file_number e) @
    number_bytes (has_last_sequence e) kLastSequence (last_sequence e) @
    concat (map pointer_bytes (compact_pointers e)) @
    concat (map deleted_bytes (sorted_list_of_set (deleted_files e))) @ concat (map file_bytes (new_files e))"
  unfolding edit_EncodeTo_def Let_def
  by (simp add: put_bytes put_file_bytes fold_put [of put_pointer, OF put_bytes(2)] fold_put [of put_deleted, OF put_bytes(3)]
      fold_put [of put_file, OF put_file_bytes] PutLengthPrefixedSlice_append [of "EncodeVarint32 _"] PutVarint32_def)

lemma parse_comparator:
  "short name \<Longrightarrow>
    edit_loop ((if h then EncodeVarint32 kComparator @ PutLengthPrefixedSlice [] name else []) @ rest) e =
      edit_loop rest (if h then e\<lparr>comparator_name := name, has_comparator := True\<rparr> else e)"
  by (simp add: edit_loop_field edit_field_def edit_tags)

text \<open>C14: a manifest record gives back the edit it was written from, with every number, deleted file and
  new file.  The parser reuses the object it fills: the compaction pointers that this held before
  stay in front of the ones in the record, because \<open>Clear\<close> does not remove them.\<close>

theorem edit_roundtrip:
  assumes "edit_ok e"
  shows "edit_DecodeFrom (edit_EncodeTo e []) e0 = (OK, (saved e)\<lparr>compact_pointers := compact_pointers e0 @ compact_pointers e\<rparr>)"
proof -
  have ok: "short (comparator_name e)" "\<forall>p\<in>set (compact_pointers e). level_ok (fst p) \<and> short (snd p)"
    "\<forall>d\<in>set (sorted_list_of_set (deleted_files e)). level_ok (fst d)" "\<forall>f\<in>set (new_files e). file_ok f"
    and fin: "set (sorted_list_of_set (deleted_files e)) = deleted_files e"
    using assms by (auto simp: edit_ok_def)
  note files = parse_files [OF ok(4), of "[]", simplified]
  have "edit_loop (edit_EncodeTo e []) (edit_Clear e0) =
      (None, [], (saved e)\<lparr>compact_pointers := compact_pointers e0 @ compact_pointers e\<rparr>)"
    unfolding EncodeTo_bytes parse_comparator [OF ok(1)] parse_number parse_pointers [OF ok(2)] parse_deletions [OF ok(3)] files fin
    by (simp add: edit_Clear_def saved_def)
  then show ?thesis by (simp add: edit_DecodeFrom_def)
qed

definition example_edit :: version_edit where
  "example_edit = AddFile 2 9 100 [1] [2] (edit_DeleteFile 1 7 (SetCompactPointer 3 [5] (SetLogNumber 8
     \<lparr>comparator_name = [], log_number = 0, prev_log_number = 0, next_file_number = 0, last_sequence = 0,
      has_comparator = False, has_log_number = False, has_prev_log_number = False, has_next_file_number = False,
      has_last_sequence = False, compact_pointers = [], deleted_files = {}, new_files = []\<rparr>)))"

lemmas example_edit_simps = example_edit_def AddFile_def edit_DeleteFile_def SetCompactPointer_def SetLogNumber_def

theorem edit_roundtrip_witness:
  "compact_pointers (snd (edit_DecodeFrom (edit_EncodeTo example_edit []) example_edit)) = [(3, [5]), (3, [5])] \<and>
    deleted_files (snd (edit_DecodeFrom (edit_EncodeTo example_edit []) example_edit)) = {(1, 7)}"
proof -
  have "edit_ok example_edit"
    by (simp add: example_edit_simps edit_ok_def file_ok_def level_ok_def short_def kNumLevels_def FileMetaData_init_def)
  from edit_roundtrip [OF this, of example_edit] show ?thesis by (simp add: saved_def) (simp add: example_edit_simps)
qed

end
