(* ===== verification/Ldb_Iterator.thy ===== *)
theory Ldb_Iterator
  imports Ldb_Block_Props "HOL-Library.Monad_Syntax"
begin

text \<open>
  The interface of iterators, \<open>include/leveldb/iterator.h\<close>, as a record of operations on a state
  \<open>'i\<close>, and \<open>table/iterator_wrapper.h\<close>, which keeps the results of \<open>Valid\<close> and \<open>key\<close>.

  The operations that move an iterator may contain loops over iterators of other kinds; they return
  \<open>None\<close> when they do not return.

  The locale \<open>list_iterator\<close> is the contract: \<open>over it xs i\<close> says that the iterator goes over the list
  \<open>xs\<close> of keys and values, which is sorted by the comparator, and stands on its element \<open>i\<close>, or is
  not valid when \<open>i\<close> is the length of the list.
\<close>

section \<open>The interface\<close>

record 'i iter_ops =
  it_Valid :: "'i \<Rightarrow> bool"
  it_key :: "'i \<Rightarrow> slice"
  it_value :: "'i \<Rightarrow> slice"
  it_status :: "'i \<Rightarrow> status"
  it_Seek :: "slice \<Rightarrow> 'i \<Rightarrow> 'i option"
  it_SeekToFirst :: "'i \<Rightarrow> 'i option"
  it_SeekToLast :: "'i \<Rightarrow> 'i option"
  it_Next :: "'i \<Rightarrow> 'i option"
  it_Prev :: "'i \<Rightarrow> 'i option"

section \<open>The wrapper\<close>

text \<open>\<open>iter_\<close> is \<open>None\<close> for NULL; the operations need it not to be.\<close>

record 'i wrapper =
  w_iter :: "'i option"
  w_valid :: bool
  w_key :: slice

definition IteratorWrapper :: "'i wrapper" where
  "IteratorWrapper = \<lparr>w_iter = None, w_valid = False, w_key = []\<rparr>"

definition w_Update :: "'i iter_ops \<Rightarrow> 'i wrapper \<Rightarrow> 'i wrapper" where
  "w_Update ops w = (case w_iter w of
     None \<Rightarrow> w
   | Some it \<Rightarrow> (let w1 = w\<lparr>w_valid := it_Valid ops it\<rparr> in if w_valid w1 then w1\<lparr>w_key := it_key ops it\<rparr> else w1))"

definition w_Set :: "'i iter_ops \<Rightarrow> 'i option \<Rightarrow> 'i wrapper \<Rightarrow> 'i wrapper" where
  "w_Set ops it w =
     (let w1 = w\<lparr>w_iter := it\<rparr> in if it = None then w1\<lparr>w_valid := False\<rparr> else w_Update ops w1)"

definition w_move :: "'i iter_ops \<Rightarrow> ('i \<Rightarrow> 'i option) \<Rightarrow> 'i wrapper \<Rightarrow> 'i wrapper option" where
  "w_move ops f w = do { it \<leftarrow> w_iter w; it' \<leftarrow> f it; Some (w_Update ops (w\<lparr>w_iter := Some it'\<rparr>)) }"

definition wrapper_ops :: "'i iter_ops \<Rightarrow> 'i wrapper iter_ops" where
  "wrapper_ops ops =
     \<lparr>it_Valid = w_valid, it_key = w_key, it_value = (\<lambda>w. it_value ops (the (w_iter w))),
      it_status = (\<lambda>w. it_status ops (the (w_iter w))),
      it_Seek = (\<lambda>k. w_move ops (it_Seek ops k)), it_SeekToFirst = w_move ops (it_SeekToFirst ops),
      it_SeekToLast = w_move ops (it_SeekToLast ops), it_Next = w_move ops (it_Next ops), it_Prev = w_move ops (it_Prev ops)\<rparr>"

section \<open>The contract\<close>

definition lower_bound :: "comparator \<Rightarrow> slice \<Rightarrow> (slice \<times> slice) list \<Rightarrow> nat" where
  "lower_bound c target xs = length (takeWhile (\<lambda>kv. Compare c (fst kv) target < 0) xs)"

lemma lower_bound_le [simp]: "lower_bound c target xs \<le> length xs"
  by (simp add: lower_bound_def length_takeWhile_le)

lemma lower_bound_drop: "drop (lower_bound c k xs) xs = dropWhile (\<lambda>kv. Compare c (fst kv) k < 0) xs"
  by (simp add: lower_bound_def dropWhile_eq_drop)

text \<open>The outcome of an operation: it returns an iterator at the position.\<close>

definition lands :: "('i \<Rightarrow> (slice \<times> slice) list \<Rightarrow> nat \<Rightarrow> bool) \<Rightarrow> 'i option \<Rightarrow> (slice \<times> slice) list \<Rightarrow> nat \<Rightarrow> bool" where
  "lands over r xs i \<longleftrightarrow> (\<exists>it. r = Some it \<and> over it xs i)"

lemma landsI: "over it xs i \<Longrightarrow> lands over (Some it) xs i"
  by (simp add: lands_def)

lemma landsE: "lands over r xs i \<Longrightarrow> (\<And>it. r = Some it \<Longrightarrow> over it xs i \<Longrightarrow> P) \<Longrightarrow> P"
  by (auto simp: lands_def)

definition prev_pos :: "'a list \<Rightarrow> nat \<Rightarrow> nat" where "prev_pos xs i = (if i = 0 then length xs else i - 1)"

text \<open>The keys a client may ask for satisfy \<open>ok\<close>; for the comparator of internal keys they have a trailer.\<close>

locale list_iterator =
  fixes ops :: "'i iter_ops" and c :: comparator and ok :: "slice \<Rightarrow> bool"
    and over :: "'i \<Rightarrow> (slice \<times> slice) list \<Rightarrow> nat \<Rightarrow> bool"
  assumes over_pos: "over it xs i \<Longrightarrow> i \<le> length xs"
    and valid: "over it xs i \<Longrightarrow> it_Valid ops it \<longleftrightarrow> i < length xs"
    and key: "over it xs i \<Longrightarrow> i < length xs \<Longrightarrow> it_key ops it = fst (xs ! i)"
    and val: "over it xs i \<Longrightarrow> i < length xs \<Longrightarrow> it_value ops it = snd (xs ! i)"
    and status: "over it xs i \<Longrightarrow> it_status ops it = OK"
    and moves_next: "over it xs i \<Longrightarrow> i < length xs \<Longrightarrow> lands over (it_Next ops it) xs (Suc i)"
    and moves_prev: "over it xs i \<Longrightarrow> i < length xs \<Longrightarrow> lands over (it_Prev ops it) xs (prev_pos xs i)"
    and moves_first: "over it xs i \<Longrightarrow> lands over (it_SeekToFirst ops it) xs 0"
    and moves_last: "over it xs i \<Longrightarrow> lands over (it_SeekToLast ops it) xs (length xs - 1)"
    and moves_seek: "over it xs i \<Longrightarrow> ok target \<Longrightarrow> lands over (it_Seek ops target it) xs (lower_bound c target xs)"

section \<open>Walking\<close>

text \<open>What a client reads that moves the iterator at most \<open>n\<close> times.\<close>

fun it_walk :: "'i iter_ops \<Rightarrow> nat \<Rightarrow> 'i \<Rightarrow> (slice \<times> slice) list option" where
  "it_walk ops 0 it = Some []"
| "it_walk ops (Suc n) it =
     (if it_Valid ops it then do { it' \<leftarrow> it_Next ops it; r \<leftarrow> it_walk ops n it'; Some ((it_key ops it, it_value ops it) # r) }
      else Some [])"

fun it_walk_back :: "'i iter_ops \<Rightarrow> nat \<Rightarrow> 'i \<Rightarrow> (slice \<times> slice) list option" where
  "it_walk_back ops 0 it = Some []"
| "it_walk_back ops (Suc n) it =
     (if it_Valid ops it then do { it' \<leftarrow> it_Prev ops it; r \<leftarrow> it_walk_back ops n it'; Some ((it_key ops it, it_value ops it) # r) }
      else Some [])"

context list_iterator
begin

lemma walk_eq: "over it xs i \<Longrightarrow> length xs \<le> i + n \<Longrightarrow> it_walk ops n it = Some (drop i xs)"
proof (induction n arbitrary: it i)
  case 0
  then show ?case by simp
next
  case (Suc n)
  show ?case
  proof (cases "i < length xs")
    case True
    obtain it' where it': "it_Next ops it = Some it'" "over it' xs (Suc i)"
      using moves_next [OF Suc.prems(1) True] by (rule landsE)
    have "it_walk ops n it' = Some (drop (Suc i) xs)" using Suc.IH [OF it'(2)] Suc.prems(2) by simp
    moreover have "drop i xs = xs ! i # drop (Suc i) xs" by (rule Cons_nth_drop_Suc [OF True, symmetric])
    ultimately show ?thesis
      using it'(1) valid [OF Suc.prems(1)] key [OF Suc.prems(1) True] val [OF Suc.prems(1) True] True by simp
  next
    case False
    then show ?thesis using valid [OF Suc.prems(1)] by simp
  qed
qed

lemma walk_back_eq:
  "over it xs i \<Longrightarrow> i < length xs \<Longrightarrow> i < n \<Longrightarrow> it_walk_back ops n it = Some (rev (take (Suc i) xs))"
proof (induction n arbitrary: it i)
  case (Suc n)
  obtain it' where it': "it_Prev ops it = Some it'" "over it' xs (prev_pos xs i)"
    using moves_prev [OF Suc.prems(1,2)] by (rule landsE)
  have "it_walk_back ops n it' = Some (rev (take i xs))"
  proof (cases i)
    case 0
    then have "\<not> it_Valid ops it'" using valid [OF it'(2)] by (simp add: prev_pos_def)
    then show ?thesis using 0 by (cases n) simp_all
  next
    case (Suc j)
    with Suc.IH [of it' j] it'(2) Suc.prems show ?thesis by (simp add: prev_pos_def)
  qed
  moreover have "rev (take (Suc i) xs) = xs ! i # rev (take i xs)" using Suc.prems(2) by (simp add: take_Suc_conv_app_nth)
  ultimately show ?case
    using it'(1) valid [OF Suc.prems(1)] key [OF Suc.prems(1,2)] val [OF Suc.prems(1,2)] Suc.prems(2) by simp
qed simp

text \<open>What a client sees from each of the three starts.\<close>

lemma walks:
  assumes "over it xs i" "length xs \<le> n"
  shows "Option.bind (it_SeekToFirst ops it) (it_walk ops n) = Some xs"
    "Option.bind (it_SeekToLast ops it) (it_walk_back ops n) = Some (rev xs)"
    "ok k \<Longrightarrow> Option.bind (it_Seek ops k it) (it_walk ops n) = Some (dropWhile (\<lambda>kv. Compare c (fst kv) k < 0) xs)"
proof -
  obtain i1 where i1: "it_SeekToFirst ops it = Some i1" "over i1 xs 0"
    using moves_first [OF assms(1)] by (rule landsE)
  show "Option.bind (it_SeekToFirst ops it) (it_walk ops n) = Some xs"
    using walk_eq [OF i1(2), of n] assms(2) i1(1) by simp
  obtain i2 where i2: "it_SeekToLast ops it = Some i2" "over i2 xs (length xs - 1)"
    using moves_last [OF assms(1)] by (rule landsE)
  show "Option.bind (it_SeekToLast ops it) (it_walk_back ops n) = Some (rev xs)"
  proof (cases "xs = []")
    case True
    then have "\<not> it_Valid ops i2" using valid [OF i2(2)] by simp
    then show ?thesis using i2(1) True by (cases n) simp_all
  next
    case False
    then have "length xs - 1 < length xs" "length xs - 1 < n" using assms(2) by (cases xs; simp)+
    from walk_back_eq [OF i2(2) this] False i2(1) show ?thesis by simp
  qed
  assume k: "ok k"
  obtain i3 where i3: "it_Seek ops k it = Some i3" "over i3 xs (lower_bound c k xs)"
    using moves_seek [OF assms(1) k] by (rule landsE)
  with walk_eq [OF i3(2), of n] assms(2)
  show "Option.bind (it_Seek ops k it) (it_walk ops n) = Some (dropWhile (\<lambda>kv. Compare c (fst kv) k < 0) xs)"
    by (simp add: lower_bound_drop)
qed

text \<open>The wrapper around an iterator keeps the contract.\<close>

definition w_over :: "'i wrapper \<Rightarrow> (slice \<times> slice) list \<Rightarrow> nat \<Rightarrow> bool" where
  "w_over w xs i \<longleftrightarrow> (\<exists>it. w_iter w = Some it \<and> over it xs i) \<and> (w_valid w \<longleftrightarrow> i < length xs) \<and>
     (i < length xs \<longrightarrow> w_key w = fst (xs ! i))"

lemma w_Update_over: "w_iter w = Some it \<Longrightarrow> over it xs i \<Longrightarrow> w_over (w_Update ops w) xs i"
  using valid [of it xs i] key [of it xs i] by (simp add: w_over_def w_Update_def Let_def)

lemma w_Set_over: "over it xs i \<Longrightarrow> w_over (w_Set ops (Some it) w) xs i"
  using w_Update_over [of "w\<lparr>w_iter := Some it\<rparr>" it xs i] by (simp add: w_Set_def Let_def)

lemma w_move_lands:
  assumes "w_over w xs i" "\<And>it. over it xs i \<Longrightarrow> lands over (f it) xs j"
  shows "lands w_over (w_move ops f w) xs j"
proof -
  obtain it where it: "w_iter w = Some it" "over it xs i" using assms(1) by (auto simp: w_over_def)
  obtain it' where it': "f it = Some it'" "over it' xs j" using assms(2) [OF it(2)] by (rule landsE)
  from w_Update_over [of "w\<lparr>w_iter := Some it'\<rparr>", OF _ it'(2)] show ?thesis
    by (simp add: w_move_def it it' lands_def)
qed

lemma wrapper_contract: "list_iterator (wrapper_ops ops) c ok w_over"
proof
  fix w xs i
  assume o: "w_over w xs i"
  then obtain it where it: "w_iter w = Some it" "over it xs i" by (auto simp: w_over_def)
  show "i \<le> length xs" by (rule over_pos [OF it(2)])
  show "it_Valid (wrapper_ops ops) w = (i < length xs)" using o by (simp add: wrapper_ops_def w_over_def)
  show "i < length xs \<Longrightarrow> it_key (wrapper_ops ops) w = fst (xs ! i)" using o by (simp add: wrapper_ops_def w_over_def)
  show "i < length xs \<Longrightarrow> it_value (wrapper_ops ops) w = snd (xs ! i)" using val [OF it(2)] it(1) by (simp add: wrapper_ops_def)
  show "it_status (wrapper_ops ops) w = OK" using status [OF it(2)] it(1) by (simp add: wrapper_ops_def)
  show "i < length xs \<Longrightarrow> lands w_over (it_Next (wrapper_ops ops) w) xs (Suc i)"
    using w_move_lands [OF o moves_next] by (simp add: wrapper_ops_def)
  show "i < length xs \<Longrightarrow> lands w_over (it_Prev (wrapper_ops ops) w) xs (prev_pos xs i)"
    using w_move_lands [OF o moves_prev] by (simp add: wrapper_ops_def)
  show "lands w_over (it_SeekToFirst (wrapper_ops ops) w) xs 0"
    using w_move_lands [OF o moves_first] by (simp add: wrapper_ops_def)
  show "lands w_over (it_SeekToLast (wrapper_ops ops) w) xs (length xs - 1)"
    using w_move_lands [OF o moves_last] by (simp add: wrapper_ops_def)
  show "ok k \<Longrightarrow> lands w_over (it_Seek (wrapper_ops ops) k w) xs (lower_bound c k xs)" for k
    using w_move_lands [OF o moves_seek] by (simp add: wrapper_ops_def)
qed

end

section \<open>Iterators over blocks\<close>

fun on_block :: "(block_iter \<Rightarrow> block_iter) \<Rightarrow> block_iterator \<Rightarrow> block_iterator" where
  "on_block f (EmptyIterator s) = EmptyIterator s"
| "on_block f (BlockIterator it) = BlockIterator (f it)"

definition lift_block :: "(block_iter \<Rightarrow> block_iter) \<Rightarrow> block_iterator \<Rightarrow> block_iterator option" where
  "lift_block f it = Some (on_block f it)"

lemma lift_block_simps [simp]: "lift_block f (BlockIterator it) = Some (BlockIterator (f it))"
  by (simp add: lift_block_def)

text \<open>The constant iterators of \<open>table/iterator.cc\<close> ignore every move.\<close>

definition block_ops :: "comparator \<Rightarrow> block_iterator iter_ops" where
  "block_ops c =
     \<lparr>it_Valid = (\<lambda>i. case i of EmptyIterator _ \<Rightarrow> False | BlockIterator it \<Rightarrow> bi_Valid it),
      it_key = (\<lambda>i. case i of EmptyIterator _ \<Rightarrow> [] | BlockIterator it \<Rightarrow> bi_key it),
      it_value = (\<lambda>i. case i of EmptyIterator _ \<Rightarrow> [] | BlockIterator it \<Rightarrow> bi_value it),
      it_status = (\<lambda>i. case i of EmptyIterator s \<Rightarrow> s | BlockIterator it \<Rightarrow> bi_status it),
      it_Seek = (\<lambda>k. lift_block (bi_Seek c k)), it_SeekToFirst = lift_block bi_SeekToFirst,
      it_SeekToLast = lift_block bi_SeekToLast, it_Next = lift_block bi_Next, it_Prev = lift_block bi_Prev\<rparr>"

definition block_over :: "comparator \<Rightarrow> block_iterator \<Rightarrow> (slice \<times> slice) list \<Rightarrow> nat \<Rightarrow> bool" where
  "block_over c it xs i \<longleftrightarrow> i \<le> length xs \<and> ascending_keys c (map fst xs) \<and>
     (\<exists>es rs b. it = BlockIterator b \<and> result es rs b i \<and> map snd es = xs)"

lemma result_reads: "result es rs b i \<Longrightarrow> reads es rs b"
  by (auto simp: result_def stands_def at_end_def split: if_splits)

lemma first_ge_bound: "first_ge c k es = lower_bound c k (map snd es)"
  unfolding first_ge_def lower_bound_def takeWhile_map by (simp add: e_key_def o_def)

lemma lands_block:
  assumes "result es rs (f b) i" "i \<le> length es" "ascending_keys c (map (fst \<circ> snd) es)"
  shows "lands (block_over c) (lift_block f (BlockIterator b)) (map snd es) i"
  using assms by (auto simp: lands_def block_over_def)

text \<open>The block iterator keeps the contract.\<close>

lemma block_contract:
  assumes "\<And>a b d. ok d \<Longrightarrow> Compare c a b < 0 \<Longrightarrow> Compare c b d < 0 \<Longrightarrow> Compare c a d < 0"
  shows "list_iterator (block_ops c) c ok (block_over c)"
proof
  fix it xs i
  assume "block_over c it xs i"
  then obtain es rs b where it: "it = BlockIterator b" and r: "result es rs b i" and xs: "xs = map snd es"
      and i: "i \<le> length xs" and asc: "ascending_keys c (map (fst \<circ> snd) es)"
    by (auto simp: block_over_def)
  note rd = result_reads [OF r]
  have st: "stands es rs b i" if "i < length xs" using r that xs by (simp add: result_def)
  show "i \<le> length xs" by (rule i)
  show "it_Valid (block_ops c) it = (i < length xs)"
    using r st stands_Valid [of es rs b i] xs by (cases "i < length xs") (simp_all add: block_ops_def it result_def at_end_def)
  show "i < length xs \<Longrightarrow> it_key (block_ops c) it = fst (xs ! i)"
    using st by (simp add: block_ops_def it stands_def xs e_key_def)
  show "i < length xs \<Longrightarrow> it_value (block_ops c) it = snd (xs ! i)"
    using st by (simp add: block_ops_def it stands_def xs e_value_def)
  show "it_status (block_ops c) it = OK" using rd by (simp add: block_ops_def it reads_def)
  show "i < length xs \<Longrightarrow> lands (block_over c) (it_Next (block_ops c) it) xs (Suc i)"
    using lands_block [of es rs bi_Next, OF Next_result [OF st] _ asc] xs by (simp add: block_ops_def it)
  show "lands (block_over c) (it_Prev (block_ops c) it) xs (prev_pos xs i)" if l: "i < length xs"
  proof -
    have "result es rs (bi_Prev b) (prev_pos xs i)"
      using Prev_result [OF st [OF l]] l xs by (cases i) (simp_all add: prev_pos_def result_def)
    moreover have "prev_pos xs i \<le> length es" using l xs by (auto simp: prev_pos_def)
    ultimately show ?thesis using lands_block [of es rs bi_Prev, OF _ _ asc] xs by (simp add: block_ops_def it)
  qed
  show "lands (block_over c) (it_SeekToFirst (block_ops c) it) xs 0"
    using lands_block [of es rs bi_SeekToFirst, OF SeekToFirst_result [OF rd] _ asc] xs by (simp add: block_ops_def it)
  show "lands (block_over c) (it_SeekToLast (block_ops c) it) xs (length xs - 1)"
  proof -
    have "result es rs (bi_SeekToLast b) (length es - 1)"
      using SeekToLast_result [OF rd] by (cases "es = []") (simp_all add: result_def)
    from lands_block [of es rs bi_SeekToLast, OF this _ asc] xs show ?thesis by (simp add: block_ops_def it)
  qed
  show "lands (block_over c) (it_Seek (block_ops c) k it) xs (lower_bound c k xs)" if "ok k" for k
  proof -
    have "map e_key es = map (fst \<circ> snd) es" by (simp add: e_key_def)
    then have a: "ascending_keys c (map e_key es)" using asc by metis
    have "result es rs (bi_Seek c k b) (first_ge c k es)"
      by (rule Seek_result [OF rd a assms [OF that]])
    from lands_block [of es rs "bi_Seek c k", OF this first_ge_le asc] xs show ?thesis
      by (simp add: block_ops_def it first_ge_bound)
  qed
qed

interpretation bytewise_blocks: list_iterator "block_ops BytewiseComparator" BytewiseComparator "\<lambda>_. True" "block_over BytewiseComparator"
  by (rule block_contract) (rule bytewise.compare_trans)

end
