(* ===== verification/Ldb_Two_Level.thy ===== *)
theory Ldb_Two_Level
  imports Ldb_Iterator
begin

text \<open>
  \<open>table/two_level_iterator.cc\<close>: an iterator over the blocks that an index iterator names.  The block
  function and the operations of the two iterators are parameters.  The loops that skip empty
  blocks are partial functions: they return when the index iterator comes to an end.
\<close>

record ('x, 'd) two_level =
  index_iter :: "'x wrapper"
  data_iter :: "'d wrapper"
  data_block_handle :: slice
  tl_status :: status

definition TwoLevelIterator :: "'x iter_ops \<Rightarrow> 'x \<Rightarrow> ('x, 'd) two_level" where
  "TwoLevelIterator xops x = \<lparr>index_iter = w_Set xops (Some x) IteratorWrapper, data_iter = IteratorWrapper,
     data_block_handle = [], tl_status = OK\<rparr>"

definition SaveError :: "status \<Rightarrow> ('x, 'd) two_level \<Rightarrow> ('x, 'd) two_level" where
  "SaveError s t = (if is_ok (tl_status t) \<and> \<not> is_ok s then t\<lparr>tl_status := s\<rparr> else t)"

definition SetDataIterator :: "'d iter_ops \<Rightarrow> 'd option \<Rightarrow> ('x, 'd) two_level \<Rightarrow> ('x, 'd) two_level" where
  "SetDataIterator dops d t =
     (let t1 = (if w_iter (data_iter t) \<noteq> None then SaveError (it_status (wrapper_ops dops) (data_iter t)) t else t)
      in t1\<lparr>data_iter := w_Set dops d (data_iter t1)\<rparr>)"

definition InitDataBlock ::
    "'x iter_ops \<Rightarrow> 'd iter_ops \<Rightarrow> (slice \<Rightarrow> 'd) \<Rightarrow> ('x, 'd) two_level \<Rightarrow> ('x, 'd) two_level" where
  "InitDataBlock xops dops block_function t =
     (if \<not> w_valid (index_iter t) then SetDataIterator dops None t
      else
        let handle = it_value (wrapper_ops xops) (index_iter t) in
        if w_iter (data_iter t) \<noteq> None \<and> slice_compare handle (data_block_handle t) = 0 then t
        else SetDataIterator dops (Some (block_function handle)) (t\<lparr>data_block_handle := handle\<rparr>))"

text \<open>A move of the data iterator unless it is NULL.\<close>

definition data_move :: "('d wrapper \<Rightarrow> 'd wrapper option) \<Rightarrow> ('x, 'd) two_level \<Rightarrow> ('x, 'd) two_level option" where
  "data_move f t =
     (if w_iter (data_iter t) \<noteq> None then map_option (\<lambda>d. t\<lparr>data_iter := d\<rparr>) (f (data_iter t)) else Some t)"

partial_function (option) skip_forward ::
    "'x iter_ops \<Rightarrow> 'd iter_ops \<Rightarrow> (slice \<Rightarrow> 'd) \<Rightarrow> ('x, 'd) two_level \<Rightarrow> ('x, 'd) two_level option" where
  "skip_forward xops dops block_function t =
     (if w_iter (data_iter t) = None \<or> \<not> w_valid (data_iter t) then
        if \<not> w_valid (index_iter t) then Some (SetDataIterator dops None t)
        else do {
          x \<leftarrow> it_Next (wrapper_ops xops) (index_iter t);
          t1 \<leftarrow> data_move (it_SeekToFirst (wrapper_ops dops)) (InitDataBlock xops dops block_function (t\<lparr>index_iter := x\<rparr>));
          skip_forward xops dops block_function t1 }
      else Some t)"

partial_function (option) skip_backward ::
    "'x iter_ops \<Rightarrow> 'd iter_ops \<Rightarrow> (slice \<Rightarrow> 'd) \<Rightarrow> ('x, 'd) two_level \<Rightarrow> ('x, 'd) two_level option" where
  "skip_backward xops dops block_function t =
     (if w_iter (data_iter t) = None \<or> \<not> w_valid (data_iter t) then
        if \<not> w_valid (index_iter t) then Some (SetDataIterator dops None t)
        else do {
          x \<leftarrow> it_Prev (wrapper_ops xops) (index_iter t);
          t1 \<leftarrow> data_move (it_SeekToLast (wrapper_ops dops)) (InitDataBlock xops dops block_function (t\<lparr>index_iter := x\<rparr>));
          skip_backward xops dops block_function t1 }
      else Some t)"

definition tl_Seek where
  "tl_Seek xops dops block_function target t = do {
     x \<leftarrow> it_Seek (wrapper_ops xops) target (index_iter t);
     t1 \<leftarrow> data_move (it_Seek (wrapper_ops dops) target) (InitDataBlock xops dops block_function (t\<lparr>index_iter := x\<rparr>));
     skip_forward xops dops block_function t1 }"

definition tl_SeekToFirst where
  "tl_SeekToFirst xops dops block_function t = do {
     x \<leftarrow> it_SeekToFirst (wrapper_ops xops) (index_iter t);
     t1 \<leftarrow> data_move (it_SeekToFirst (wrapper_ops dops)) (InitDataBlock xops dops block_function (t\<lparr>index_iter := x\<rparr>));
     skip_forward xops dops block_function t1 }"

definition tl_SeekToLast where
  "tl_SeekToLast xops dops block_function t = do {
     x \<leftarrow> it_SeekToLast (wrapper_ops xops) (index_iter t);
     t1 \<leftarrow> data_move (it_SeekToLast (wrapper_ops dops)) (InitDataBlock xops dops block_function (t\<lparr>index_iter := x\<rparr>));
     skip_backward xops dops block_function t1 }"

definition tl_Next where
  "tl_Next xops dops block_function t = do {
     d \<leftarrow> it_Next (wrapper_ops dops) (data_iter t);
     skip_forward xops dops block_function (t\<lparr>data_iter := d\<rparr>) }"

definition tl_Prev where
  "tl_Prev xops dops block_function t = do {
     d \<leftarrow> it_Prev (wrapper_ops dops) (data_iter t);
     skip_backward xops dops block_function (t\<lparr>data_iter := d\<rparr>) }"

definition tl_get_status where
  "tl_get_status xops dops t =
     (if \<not> is_ok (it_status (wrapper_ops xops) (index_iter t)) then it_status (wrapper_ops xops) (index_iter t)
      else if w_iter (data_iter t) \<noteq> None \<and> \<not> is_ok (it_status (wrapper_ops dops) (data_iter t))
      then it_status (wrapper_ops dops) (data_iter t) else tl_status t)"

definition two_level_ops :: "'x iter_ops \<Rightarrow> 'd iter_ops \<Rightarrow> (slice \<Rightarrow> 'd) \<Rightarrow> ('x, 'd) two_level iter_ops" where
  "two_level_ops xops dops block_function =
     \<lparr>it_Valid = (\<lambda>t. w_valid (data_iter t)), it_key = (\<lambda>t. w_key (data_iter t)),
      it_value = (\<lambda>t. it_value (wrapper_ops dops) (data_iter t)), it_status = tl_get_status xops dops,
      it_Seek = tl_Seek xops dops block_function, it_SeekToFirst = tl_SeekToFirst xops dops block_function,
      it_SeekToLast = tl_SeekToLast xops dops block_function, it_Next = tl_Next xops dops block_function,
      it_Prev = tl_Prev xops dops block_function\<rparr>"

section \<open>Positions in a list of blocks\<close>

definition start :: "'a list list \<Rightarrow> nat \<Rightarrow> nat" where "start dss j = length (concat (take j dss))"

lemma start_0 [simp]: "start dss 0 = 0" by (simp add: start_def)
lemma start_Suc: "j < length dss \<Longrightarrow> start dss (Suc j) = start dss j + length (dss ! j)"
  by (simp add: start_def take_Suc_conv_app_nth)
lemma start_end: "length dss \<le> j \<Longrightarrow> start dss j = length (concat dss)" by (simp add: start_def)

lemma concat_split: "j < length dss \<Longrightarrow> concat dss = concat (take j dss) @ dss ! j @ concat (drop (Suc j) dss)"
  by (metis concat.simps(2) concat_append id_take_nth_drop)

lemma start_in: "j < length dss \<Longrightarrow> p < length (dss ! j) \<Longrightarrow>
    start dss j + p < length (concat dss) \<and> concat dss ! (start dss j + p) = dss ! j ! p"
  using concat_split [of j dss] by (simp add: start_def nth_append)

lemma prev_pos_end: "i = length xs \<Longrightarrow> prev_pos xs i = length xs - 1"
  by (simp add: prev_pos_def)

lemma lower_bound_append:
  "\<forall>kv\<in>set us. Compare c (fst kv) t < 0 \<Longrightarrow> lower_bound c t (us @ vs) = length us + lower_bound c t vs"
  "\<forall>kv\<in>set vs. \<not> Compare c (fst kv) t < 0 \<Longrightarrow> lower_bound c t (us @ vs) = lower_bound c t us"
proof -
  show "\<forall>kv\<in>set us. Compare c (fst kv) t < 0 \<Longrightarrow> lower_bound c t (us @ vs) = length us + lower_bound c t vs"
    by (simp add: lower_bound_def takeWhile_append)
  assume "\<forall>kv\<in>set vs. \<not> Compare c (fst kv) t < 0"
  then have "takeWhile (\<lambda>kv. Compare c (fst kv) t < 0) vs = []" by (cases vs) auto
  then show "lower_bound c t (us @ vs) = lower_bound c t us"
    by (cases "\<forall>kv\<in>set us. Compare c (fst kv) t < 0")
      (auto simp: lower_bound_def takeWhile_append takeWhile_eq_all_conv [THEN iffD2])
qed

lemma lower_bound_eqI:
  assumes "\<forall>kv\<in>set us. Compare c (fst kv) t < 0" "vs \<noteq> [] \<Longrightarrow> \<not> Compare c (fst (hd vs)) t < 0"
  shows "lower_bound c t (us @ vs) = length us"
proof -
  have "lower_bound c t vs = 0" using assms(2) by (cases vs) (simp_all add: lower_bound_def)
  with lower_bound_append(1) [OF assms(1), of vs] show ?thesis by simp
qed

lemma lower_bound_before: "j < lower_bound c t xs \<Longrightarrow> Compare c (fst (xs ! j)) t < 0"
  unfolding lower_bound_def using nth_mem set_takeWhileD takeWhile_nth by fastforce

lemma lower_bound_at: "lower_bound c t xs < length xs \<Longrightarrow> \<not> Compare c (fst (xs ! lower_bound c t xs)) t < 0"
  unfolding lower_bound_def by (rule nth_length_takeWhile)

section \<open>The contract is kept\<close>

locale two_level = comparator_contract c ok + index: list_iterator xops c ok xover + data: list_iterator dops c ok dover
  for c :: comparator and ok :: "slice \<Rightarrow> bool"
    and xops :: "'x iter_ops" and xover :: "'x \<Rightarrow> (slice \<times> slice) list \<Rightarrow> nat \<Rightarrow> bool"
    and dops :: "'d iter_ops" and dover :: "'d \<Rightarrow> (slice \<times> slice) list \<Rightarrow> nat \<Rightarrow> bool" +
  fixes block_function :: "slice \<Rightarrow> 'd"
begin

text \<open>The index entries \<open>xs\<close> name the blocks \<open>dss\<close>, and every index key lies between the blocks around it.\<close>

definition parts :: "(slice \<times> slice) list \<Rightarrow> (slice \<times> slice) list list \<Rightarrow> bool" where
  "parts xs dss \<longleftrightarrow> length dss = length xs \<and> distinct (map snd xs) \<and>
     (\<forall>j<length xs. \<exists>p. dover (block_function (snd (xs ! j))) (dss ! j) p) \<and>
     (\<forall>kv\<in>set xs \<union> set (concat dss). ok (fst kv)) \<and>
     (\<forall>j<length xs. \<forall>kv\<in>set (dss ! j). Compare c (fst kv) (fst (xs ! j)) \<le> 0) \<and>
     (\<forall>j<length xs. \<forall>i<j. \<forall>kv\<in>set (dss ! j). Compare c (fst (xs ! i)) (fst kv) < 0)"

definition idle :: "('x, 'd) two_level \<Rightarrow> bool" where
  "idle t \<longleftrightarrow> w_iter (data_iter t) = None \<and> \<not> w_valid (data_iter t)"

text \<open>The data iterator is NULL or on the block that the handle names.\<close>

definition loaded where
  "loaded t xs dss \<longleftrightarrow> tl_status t = OK \<and>
     (idle t \<or> (\<exists>i<length xs. \<exists>p. data_block_handle t = snd (xs ! i) \<and> data.w_over (data_iter t) (dss ! i) p))"

definition at_block where
  "at_block t xs dss j p \<longleftrightarrow> j < length xs \<and> index.w_over (index_iter t) xs j \<and> tl_status t = OK \<and>
     data_block_handle t = snd (xs ! j) \<and> data.w_over (data_iter t) (dss ! j) p"

definition exhausted where
  "exhausted t xs \<longleftrightarrow> index.w_over (index_iter t) xs (length xs) \<and> tl_status t = OK \<and> idle t"

definition tl_over :: "('x, 'd) two_level \<Rightarrow> (slice \<times> slice) list \<Rightarrow> nat \<Rightarrow> bool" where
  "tl_over t kvs i \<longleftrightarrow> (\<exists>xs dss. parts xs dss \<and> kvs = concat dss \<and>
     ((\<exists>j p. at_block t xs dss j p \<and> p < length (dss ! j) \<and> i = start dss j + p) \<or> (exhausted t xs \<and> i = length kvs)))"

lemma windex: "list_iterator (wrapper_ops xops) c ok index.w_over" by (rule index.wrapper_contract)
lemma wdata: "list_iterator (wrapper_ops dops) c ok data.w_over" by (rule data.wrapper_contract)

lemma w_over_some: "data.w_over w ds p \<Longrightarrow> w_iter w \<noteq> None" "index.w_over x xs j \<Longrightarrow> w_iter x \<noteq> None"
  by (auto simp: data.w_over_def index.w_over_def)

lemma w_over_valid: "data.w_over w ds p \<Longrightarrow> w_valid w \<longleftrightarrow> p < length ds" "index.w_over x xs j \<Longrightarrow> w_valid x \<longleftrightarrow> j < length xs"
  by (auto simp: data.w_over_def index.w_over_def)

lemma at_loaded: "at_block t xs dss j p \<Longrightarrow> loaded t xs dss" "exhausted t xs \<Longrightarrow> loaded t xs dss"
  by (auto simp: at_block_def loaded_def exhausted_def)

lemma loaded_index: "loaded (t\<lparr>index_iter := x\<rparr>) xs dss \<longleftrightarrow> loaded t xs dss"
  by (simp add: loaded_def idle_def)

lemma SetData_quiet:
  "(w_iter (data_iter t) \<noteq> None \<Longrightarrow> it_status (wrapper_ops dops) (data_iter t) = OK) \<Longrightarrow>
    SetDataIterator dops d t = t\<lparr>data_iter := w_Set dops d (data_iter t)\<rparr>"
  by (cases "w_iter (data_iter t)") (simp_all add: SetDataIterator_def SaveError_def)

lemma loaded_quiet: "loaded t xs dss \<Longrightarrow> w_iter (data_iter t) \<noteq> None \<Longrightarrow> it_status (wrapper_ops dops) (data_iter t) = OK"
  using list_iterator.status [OF wdata] by (auto simp: loaded_def idle_def)

lemma SetData_loaded: "loaded t xs dss \<Longrightarrow> SetDataIterator dops d t = t\<lparr>data_iter := w_Set dops d (data_iter t)\<rparr>"
  by (rule SetData_quiet) (rule loaded_quiet)

text \<open>\<open>InitDataBlock\<close> loads the block that the index stands on.\<close>

lemma Init_at:
  assumes "parts xs dss" "loaded t xs dss" "index.w_over (index_iter t) xs j" "j < length xs"
  shows "\<exists>p. at_block (InitDataBlock xops dops block_function t) xs dss j p"
proof -
  have v: "w_valid (index_iter t)" using assms(3,4) w_over_valid by blast
  have h: "it_value (wrapper_ops xops) (index_iter t) = snd (xs ! j)"
    by (rule list_iterator.val [OF windex assms(3,4)])
  show ?thesis
  proof (cases "w_iter (data_iter t) \<noteq> None \<and> slice_compare (snd (xs ! j)) (data_block_handle t) = 0")
    case True
    then have e: "data_block_handle t = snd (xs ! j)" by (simp add: slice_compare_eq)
    obtain i p where i: "i < length xs" "data_block_handle t = snd (xs ! i)" "data.w_over (data_iter t) (dss ! i) p"
      using assms(2) True by (auto simp: loaded_def idle_def)
    have "distinct (map snd xs)" using assms(1) by (simp add: parts_def)
    then have "i = j" using i(1,2) assms(4) e by (metis length_map nth_eq_iff_index_eq nth_map)
    with True v h e i assms(2-4) show ?thesis by (auto simp: InitDataBlock_def at_block_def loaded_def)
  next
    case False
    obtain p where p: "dover (block_function (snd (xs ! j))) (dss ! j) p" using assms(1,4) by (auto simp: parts_def)
    have "InitDataBlock xops dops block_function t =
        t\<lparr>data_block_handle := snd (xs ! j), data_iter := w_Set dops (Some (block_function (snd (xs ! j)))) (data_iter t)\<rparr>"
      using v h False SetData_quiet [of "t\<lparr>data_block_handle := snd (xs ! j)\<rparr>"] loaded_quiet [OF assms(2)]
      by (auto simp: InitDataBlock_def Let_def)
    with data.w_Set_over [OF p] assms(2-4) show ?thesis by (auto simp: at_block_def loaded_def)
  qed
qed

lemma Init_end:
  assumes "loaded t xs dss" "index.w_over (index_iter t) xs (length xs)"
  shows "exhausted (InitDataBlock xops dops block_function t) xs"
  using assms w_over_valid(2) [OF assms(2)] unfolding InitDataBlock_def SetData_loaded [OF assms(1)]
  by (simp add: exhausted_def loaded_def idle_def w_Set_def)

text \<open>The block of the index, with the data iterator moved inside.\<close>

lemma load_move:
  assumes "parts xs dss" "loaded t xs dss" "index.w_over x xs j" "j < length xs"
    "\<And>w p. data.w_over w (dss ! j) p \<Longrightarrow> lands data.w_over (f w) (dss ! j) q"
  shows "\<exists>t1. data_move f (InitDataBlock xops dops block_function (t\<lparr>index_iter := x\<rparr>)) = Some t1 \<and> at_block t1 xs dss j q"
proof -
  let ?t = "InitDataBlock xops dops block_function (t\<lparr>index_iter := x\<rparr>)"
  obtain p where p: "at_block ?t xs dss j p"
    using Init_at [of xs dss "t\<lparr>index_iter := x\<rparr>" j] assms(1-4) by (auto simp: loaded_index)
  then have w: "data.w_over (data_iter ?t) (dss ! j) p" by (simp add: at_block_def)
  obtain d where "f (data_iter ?t) = Some d" "data.w_over d (dss ! j) q" using assms(5) [OF w] by (rule landsE)
  with p w_over_some(1) [OF w] show ?thesis by (auto simp: data_move_def at_block_def)
qed

lemma load_end:
  assumes "loaded t xs dss" "index.w_over x xs (length xs)"
  shows "\<exists>t1. data_move f (InitDataBlock xops dops block_function (t\<lparr>index_iter := x\<rparr>)) = Some t1 \<and> exhausted t1 xs"
  using Init_end [of "t\<lparr>index_iter := x\<rparr>" xs dss] assms by (auto simp: loaded_index data_move_def exhausted_def idle_def)

lemma skip_exhausted:
  assumes "exhausted t xs"
  shows "\<exists>t1. skip_forward xops dops block_function t = Some t1 \<and> exhausted t1 xs"
    "\<exists>t1. skip_backward xops dops block_function t = Some t1 \<and> exhausted t1 xs"
proof -
  have "\<not> w_valid (index_iter t)" "w_iter (data_iter t) = None" using assms w_over_valid(2) by (auto simp: exhausted_def idle_def)
  moreover have "exhausted (SetDataIterator dops None t) xs"
    using assms by (simp add: SetData_loaded [OF at_loaded(2) [OF assms, of undefined]] exhausted_def idle_def w_Set_def)
  ultimately show "\<exists>t1. skip_forward xops dops block_function t = Some t1 \<and> exhausted t1 xs"
    "\<exists>t1. skip_backward xops dops block_function t = Some t1 \<and> exhausted t1 xs"
    by (simp_all add: skip_forward.simps [of xops] skip_backward.simps [of xops])
qed

lemma over_exhausted: "parts xs dss \<Longrightarrow> exhausted t xs \<Longrightarrow> tl_over t (concat dss) (length (concat dss))"
  by (auto simp: tl_over_def)

lemma over_at: "parts xs dss \<Longrightarrow> at_block t xs dss j p \<Longrightarrow> p < length (dss ! j) \<Longrightarrow> tl_over t (concat dss) (start dss j + p)"
  by (auto simp: tl_over_def)

lemma skip_forward_lands:
  assumes "parts xs dss" "at_block t xs dss j p" "p \<le> length (dss ! j)"
  shows "lands tl_over (skip_forward xops dops block_function t) (concat dss) (start dss j + p)"
  using assms(2,3)
proof (induction "length xs - j" arbitrary: t j p rule: less_induct)
  case less
  have d: "data.w_over (data_iter t) (dss ! j) p" and x: "index.w_over (index_iter t) xs j" and j: "j < length xs"
    using less.prems(1) by (simp_all add: at_block_def)
  have l: "length dss = length xs" using assms(1) by (simp add: parts_def)
  show ?case
  proof (cases "p < length (dss ! j)")
    case True
    then have "skip_forward xops dops block_function t = Some t"
      using w_over_some(1) [OF d] w_over_valid(1) [OF d] by (subst skip_forward.simps) auto
    with over_at [OF assms(1) less.prems(1) True] show ?thesis by (simp add: landsI)
  next
    case False
    then have pos: "start dss j + p = start dss (Suc j)" using less.prems(2) j l by (simp add: start_Suc)
    obtain x' where x': "it_Next (wrapper_ops xops) (index_iter t) = Some x'" "index.w_over x' xs (Suc j)"
      using list_iterator.moves_next [OF windex x j] by (rule landsE)
    have unf: "skip_forward xops dops block_function t =
        Option.bind (data_move (it_SeekToFirst (wrapper_ops dops)) (InitDataBlock xops dops block_function (t\<lparr>index_iter := x'\<rparr>)))
          (skip_forward xops dops block_function)"
      using w_over_valid(1) [OF d] w_over_valid(2) [OF x] False j x'(1) by (subst skip_forward.simps) simp
    show ?thesis
    proof (cases "Suc j < length xs")
      case True
      obtain t1 where t1: "data_move (it_SeekToFirst (wrapper_ops dops)) (InitDataBlock xops dops block_function (t\<lparr>index_iter := x'\<rparr>)) = Some t1"
          "at_block t1 xs dss (Suc j) 0"
        using load_move [of xs dss t x' "Suc j" "it_SeekToFirst (wrapper_ops dops)", OF assms(1) at_loaded(1) [OF less.prems(1)] x'(2) True] list_iterator.moves_first [OF wdata] by blast
      have "length xs - Suc j < length xs - j" using j by linarith
      from less.hyps [OF this t1(2)] show ?thesis by (simp add: unf t1(1) pos)
    next
      case False
      then have e: "Suc j = length xs" using j by simp
      obtain t1 where t1: "data_move (it_SeekToFirst (wrapper_ops dops)) (InitDataBlock xops dops block_function (t\<lparr>index_iter := x'\<rparr>)) = Some t1"
          "exhausted t1 xs"
        using load_end [OF at_loaded(1) [OF less.prems(1)] x'(2) [unfolded e]] by blast
      obtain t2 where "skip_forward xops dops block_function t1 = Some t2" "exhausted t2 xs" using skip_exhausted(1) [OF t1(2)] by blast
      with over_exhausted [OF assms(1)] show ?thesis by (simp add: unf t1(1) pos e l start_end landsI)
    qed
  qed
qed

lemma skip_backward_lands:
  assumes "parts xs dss" "at_block t xs dss j p" "p \<le> length (dss ! j)"
  shows "lands tl_over (skip_backward xops dops block_function t) (concat dss)
    (if p < length (dss ! j) then start dss j + p else prev_pos (concat dss) (start dss j))"
  using assms(2,3)
proof (induction j arbitrary: t p rule: less_induct)
  case (less j)
  have d: "data.w_over (data_iter t) (dss ! j) p" and x: "index.w_over (index_iter t) xs j" and j: "j < length xs"
    using less.prems(1) by (simp_all add: at_block_def)
  have l: "length dss = length xs" using assms(1) by (simp add: parts_def)
  show ?case
  proof (cases "p < length (dss ! j)")
    case True
    then have "skip_backward xops dops block_function t = Some t"
      using w_over_some(1) [OF d] w_over_valid(1) [OF d] by (subst skip_backward.simps) auto
    with over_at [OF assms(1) less.prems(1) True] True show ?thesis by (simp add: landsI)
  next
    case False
    obtain x' where x': "it_Prev (wrapper_ops xops) (index_iter t) = Some x'" "index.w_over x' xs (prev_pos xs j)"
      using list_iterator.moves_prev [OF windex x j] by (rule landsE)
    have unf: "skip_backward xops dops block_function t =
        Option.bind (data_move (it_SeekToLast (wrapper_ops dops)) (InitDataBlock xops dops block_function (t\<lparr>index_iter := x'\<rparr>)))
          (skip_backward xops dops block_function)"
      using w_over_valid(1) [OF d] w_over_valid(2) [OF x] False j x'(1) by (subst skip_backward.simps) simp
    show ?thesis
    proof (cases j)
      case 0
      obtain t1 where t1: "data_move (it_SeekToLast (wrapper_ops dops)) (InitDataBlock xops dops block_function (t\<lparr>index_iter := x'\<rparr>)) = Some t1"
          "exhausted t1 xs"
        using load_end [OF at_loaded(1) [OF less.prems(1)], of x'] x'(2) 0 by (auto simp: prev_pos_def)
      obtain t2 where "skip_backward xops dops block_function t1 = Some t2" "exhausted t2 xs" using skip_exhausted(2) [OF t1(2)] by blast
      with over_exhausted [OF assms(1)] False show ?thesis by (simp add: unf t1(1) 0 prev_pos_def landsI)
    next
      case (Suc i)
      have i: "i < length xs" "index.w_over x' xs i" using Suc j x'(2) by (simp_all add: prev_pos_def)
      obtain t1 where t1: "data_move (it_SeekToLast (wrapper_ops dops)) (InitDataBlock xops dops block_function (t\<lparr>index_iter := x'\<rparr>)) = Some t1"
          "at_block t1 xs dss i (length (dss ! i) - 1)"
        using load_move [of xs dss t x' i "it_SeekToLast (wrapper_ops dops)", OF assms(1) at_loaded(1) [OF less.prems(1)] i(2,1)] list_iterator.moves_last [OF wdata] by blast
      have "start dss j = start dss i + length (dss ! i)" using Suc i l by (simp add: start_Suc)
      then have "(if length (dss ! i) - 1 < length (dss ! i) then start dss i + (length (dss ! i) - 1) else prev_pos (concat dss) (start dss i)) =
          prev_pos (concat dss) (start dss j)"
        by (cases "dss ! i") (simp_all add: prev_pos_def)
      with less.IH [OF _ t1(2)] Suc False show ?thesis by (simp add: unf t1(1))
    qed
  qed
qed

text \<open>The blocks before the index position are before the target, and those behind it are not.\<close>

lemma seek_position:
  assumes "parts xs dss" "ok target" "lower_bound c target xs = j"
  shows "j < length xs \<Longrightarrow> lower_bound c target (concat dss) = start dss j + lower_bound c target (dss ! j)"
    "j = length xs \<Longrightarrow> lower_bound c target (concat dss) = length (concat dss)"
proof -
  have l: "length dss = length xs" using assms(1) by (simp add: parts_def)
  have oks: "ok (fst kv)" if "kv \<in> set xs \<or> (\<exists>i<length xs. kv \<in> set (dss ! i))" for kv
  proof -
    have "set (dss ! i) \<subseteq> set (concat dss)" if "i < length xs" for i using nth_mem [of i dss] that l by (metis UN_upper set_concat)
    then have "kv \<in> set xs \<union> set (concat dss)" using that by blast
    with assms(1) show ?thesis unfolding parts_def by blast
  qed
  have less: "Compare c (fst kv) target < 0" if "i < j" "kv \<in> set (dss ! i)" for i kv
  proof -
    have i: "i < length xs" using that(1) assms(3) lower_bound_le [of c target xs] by linarith
    have le: "Compare c (fst kv) (fst (xs ! i)) \<le> 0" using assms(1) i that(2) by (auto simp: parts_def)
    have lt: "Compare c (fst (xs ! i)) target < 0" using lower_bound_before that(1) assms(3) by blast
    have "ok (fst kv)" "ok (fst (xs ! i))" using oks [of kv] oks [of "xs ! i"] nth_mem [OF i] that(2) i by blast+
    with le lt compare_eq [of "fst kv" "fst (xs ! i)"] compare_trans [of "fst kv" "fst (xs ! i)" target] show ?thesis
      by (metis le_less)
  qed
  have before: "\<forall>kv\<in>set (concat (take j dss)). Compare c (fst kv) target < 0"
    using less by (fastforce simp: in_set_conv_nth)
  show "lower_bound c target (concat dss) = length (concat dss)" if "j = length xs"
    using lower_bound_append(1) [OF before, of "[]"] that l by (simp add: lower_bound_def)
  show "lower_bound c target (concat dss) = start dss j + lower_bound c target (dss ! j)" if j: "j < length xs"
  proof -
    have ge: "\<not> Compare c (fst (xs ! j)) target < 0" using lower_bound_at [of c target xs] assms(3) j by simp
    have "\<not> Compare c (fst kv) target < 0" if "i < length xs" "j < i" "kv \<in> set (dss ! i)" for i kv
    proof
      assume "Compare c (fst kv) target < 0"
      moreover have "Compare c (fst (xs ! j)) (fst kv) < 0" using assms(1) that by (auto simp: parts_def)
      ultimately show False using ge compare_trans by blast
    qed
    then have behind: "\<not> Compare c (fst kv) target < 0" if "Suc j + k < length dss" "kv \<in> set (dss ! (Suc j + k))" for k kv
      using that l by simp
    have "\<forall>kv\<in>set (concat (drop (Suc j) dss)). \<not> Compare c (fst kv) target < 0"
    proof
      fix kv assume "kv \<in> set (concat (drop (Suc j) dss))"
      then obtain ds where ds: "ds \<in> set (drop (Suc j) dss)" "kv \<in> set ds" by auto
      obtain k where "k < length (drop (Suc j) dss)" "drop (Suc j) dss ! k = ds" using ds(1) unfolding in_set_conv_nth by blast
      with ds(2) have "k < length (drop (Suc j) dss)" "kv \<in> set (drop (Suc j) dss ! k)" by simp_all
      then show "\<not> Compare c (fst kv) target < 0" using behind [of k kv] by simp
    qed
    from lower_bound_append(2) [OF this, of "dss ! j"] lower_bound_append(1) [OF before, of "dss ! j @ concat (drop (Suc j) dss)"]
    show ?thesis using concat_split [of j dss] j l by (simp add: start_def)
  qed
qed

text \<open>The five moves.\<close>

lemma seek_lands:
  assumes "parts xs dss" "loaded t xs dss" "index.w_over (index_iter t) xs i" "ok target"
  shows "lands tl_over (tl_Seek xops dops block_function target t) (concat dss) (lower_bound c target (concat dss))"
proof -
  define j where "j = lower_bound c target xs"
  obtain x where x: "it_Seek (wrapper_ops xops) target (index_iter t) = Some x" "index.w_over x xs j"
    using list_iterator.moves_seek [OF windex assms(3,4)] unfolding j_def by (rule landsE)
  note pos = seek_position [OF assms(1,4) j_def [symmetric]]
  show ?thesis
  proof (cases "j < length xs")
    case True
    obtain t1 where t1: "data_move (it_Seek (wrapper_ops dops) target) (InitDataBlock xops dops block_function (t\<lparr>index_iter := x\<rparr>)) = Some t1"
        "at_block t1 xs dss j (lower_bound c target (dss ! j))"
      using load_move [of xs dss t x j "it_Seek (wrapper_ops dops) target", OF assms(1,2) x(2) True] list_iterator.moves_seek [OF wdata _ assms(4)] by blast
    from skip_forward_lands [OF assms(1) t1(2) lower_bound_le] show ?thesis by (simp add: tl_Seek_def x(1) t1(1) pos(1) [OF True])
  next
    case False
    then have e: "j = length xs" using lower_bound_le [of c target xs] by (simp add: j_def)
    obtain t1 where t1: "data_move (it_Seek (wrapper_ops dops) target) (InitDataBlock xops dops block_function (t\<lparr>index_iter := x\<rparr>)) = Some t1"
        "exhausted t1 xs"
      using load_end [OF assms(2) x(2) [unfolded e]] by blast
    obtain t2 where "skip_forward xops dops block_function t1 = Some t2" "exhausted t2 xs" using skip_exhausted(1) [OF t1(2)] by blast
    with over_exhausted [OF assms(1)] show ?thesis by (simp add: tl_Seek_def x(1) t1(1) pos(2) [OF e] landsI)
  qed
qed

lemma first_lands:
  assumes "parts xs dss" "loaded t xs dss" "index.w_over (index_iter t) xs i"
  shows "lands tl_over (tl_SeekToFirst xops dops block_function t) (concat dss) 0"
proof -
  obtain x where x: "it_SeekToFirst (wrapper_ops xops) (index_iter t) = Some x" "index.w_over x xs 0"
    using list_iterator.moves_first [OF windex assms(3)] by (rule landsE)
  show ?thesis
  proof (cases "xs = []")
    case False
    then have 0: "0 < length xs" by simp
    obtain t1 where t1: "data_move (it_SeekToFirst (wrapper_ops dops)) (InitDataBlock xops dops block_function (t\<lparr>index_iter := x\<rparr>)) = Some t1"
        "at_block t1 xs dss 0 0"
      using load_move [of xs dss t x 0 "it_SeekToFirst (wrapper_ops dops)", OF assms(1,2) x(2) 0] list_iterator.moves_first [OF wdata] by blast
    from skip_forward_lands [OF assms(1) t1(2)] show ?thesis by (simp add: tl_SeekToFirst_def x(1) t1(1))
  next
    case True
    then have e: "0 = length xs" "concat dss = []" using assms(1) by (simp_all add: parts_def)
    obtain t1 where t1: "data_move (it_SeekToFirst (wrapper_ops dops)) (InitDataBlock xops dops block_function (t\<lparr>index_iter := x\<rparr>)) = Some t1"
        "exhausted t1 xs"
      using load_end [OF assms(2) x(2) [unfolded e(1)]] by blast
    obtain t2 where "skip_forward xops dops block_function t1 = Some t2" "exhausted t2 xs" using skip_exhausted(1) [OF t1(2)] by blast
    with over_exhausted [OF assms(1), of t2] show ?thesis unfolding e(2) by (simp add: tl_SeekToFirst_def x(1) t1(1) landsI)
  qed
qed

lemma last_lands:
  assumes "parts xs dss" "loaded t xs dss" "index.w_over (index_iter t) xs i"
  shows "lands tl_over (tl_SeekToLast xops dops block_function t) (concat dss) (length (concat dss) - 1)"
proof -
  obtain x where x: "it_SeekToLast (wrapper_ops xops) (index_iter t) = Some x" "index.w_over x xs (length xs - 1)"
    using list_iterator.moves_last [OF windex assms(3)] by (rule landsE)
  have l: "length dss = length xs" using assms(1) by (simp add: parts_def)
  show ?thesis
  proof (cases "xs = []")
    case False
    then have j: "length xs - 1 < length xs" by simp
    let ?j = "length xs - 1"
    obtain t1 where t1: "data_move (it_SeekToLast (wrapper_ops dops)) (InitDataBlock xops dops block_function (t\<lparr>index_iter := x\<rparr>)) = Some t1"
        "at_block t1 xs dss ?j (length (dss ! ?j) - 1)"
      using load_move [of xs dss t x ?j "it_SeekToLast (wrapper_ops dops)", OF assms(1,2) x(2) j] list_iterator.moves_last [OF wdata] by blast
    have "Suc ?j = length dss" using j l by simp
    then have "start dss ?j + length (dss ! ?j) = length (concat dss)"
      using start_Suc [of ?j dss] start_end [of dss "Suc ?j"] by simp
    then have "(if length (dss ! ?j) - 1 < length (dss ! ?j) then start dss ?j + (length (dss ! ?j) - 1) else prev_pos (concat dss) (start dss ?j)) =
        length (concat dss) - 1"
      using prev_pos_end [of "start dss ?j" "concat dss"] by (cases "dss ! ?j") simp_all
    with skip_backward_lands [OF assms(1) t1(2)] show ?thesis by (simp add: tl_SeekToLast_def x(1) t1(1))
  next
    case True
    then have e: "length xs - 1 = length xs" "concat dss = []" using assms(1) by (simp_all add: parts_def)
    obtain t1 where t1: "data_move (it_SeekToLast (wrapper_ops dops)) (InitDataBlock xops dops block_function (t\<lparr>index_iter := x\<rparr>)) = Some t1"
        "exhausted t1 xs"
      using load_end [OF assms(2) x(2) [unfolded e(1)]] by blast
    obtain t2 where "skip_backward xops dops block_function t1 = Some t2" "exhausted t2 xs" using skip_exhausted(2) [OF t1(2)] by blast
    with over_exhausted [OF assms(1), of t2] show ?thesis unfolding e(2) by (simp add: tl_SeekToLast_def x(1) t1(1) landsI)
  qed
qed

lemma over_cases:
  assumes "tl_over t kvs i"
  obtains xs dss where "parts xs dss" "kvs = concat dss" "loaded t xs dss" "\<exists>j. index.w_over (index_iter t) xs j"
    "i < length kvs \<Longrightarrow> \<exists>j p. at_block t xs dss j p \<and> p < length (dss ! j) \<and> i = start dss j + p"
    "i = length kvs \<and> exhausted t xs \<or> i < length kvs"
proof -
  obtain xs dss where t: "parts xs dss" "kvs = concat dss"
    "(\<exists>j p. at_block t xs dss j p \<and> p < length (dss ! j) \<and> i = start dss j + p) \<or> (exhausted t xs \<and> i = length kvs)"
    using assms unfolding tl_over_def by blast
  have len: "length dss = length xs" using t(1) by (simp add: parts_def)
  from t(3) show ?thesis
  proof
    assume *: "\<exists>j p. at_block t xs dss j p \<and> p < length (dss ! j) \<and> i = start dss j + p"
    then obtain j p where jp: "at_block t xs dss j p" "p < length (dss ! j)" "i = start dss j + p" by blast
    then have "i < length kvs" using start_in [of j dss p] len t(2) by (simp add: at_block_def)
    with that [OF t(1,2)] at_loaded(1) [OF jp(1)] jp * show ?thesis by (auto simp: at_block_def)
  next
    assume "exhausted t xs \<and> i = length kvs"
    with that [OF t(1,2)] at_loaded(2) [of t xs dss] show ?thesis by (auto simp: exhausted_def)
  qed
qed

theorem two_level_contract: "list_iterator (two_level_ops xops dops block_function) c ok tl_over"
proof
  fix t kvs i
  assume over: "tl_over t kvs i"
  obtain xs dss where t: "parts xs dss" "kvs = concat dss" "loaded t xs dss" "\<exists>j. index.w_over (index_iter t) xs j"
    and at: "i < length kvs \<Longrightarrow> \<exists>j p. at_block t xs dss j p \<and> p < length (dss ! j) \<and> i = start dss j + p"
    and en: "i = length kvs \<and> exhausted t xs \<or> i < length kvs"
    using over_cases [OF over] by metis
  obtain j where x: "index.w_over (index_iter t) xs j" using t(4) by blast
  have len: "length dss = length xs" using t(1) by (simp add: parts_def)
  show "i \<le> length kvs" using en by auto
  have entry: "\<exists>j p. at_block t xs dss j p \<and> p < length (dss ! j) \<and> i = start dss j + p \<and> kvs ! i = dss ! j ! p \<and>
      data.w_over (data_iter t) (dss ! j) p" if l: "i < length kvs"
  proof -
    obtain j p where jp: "at_block t xs dss j p" "p < length (dss ! j)" "i = start dss j + p" using at [OF l] by blast
    with start_in [of j dss p] len t(2) show ?thesis by (auto simp: at_block_def)
  qed
  show "it_Valid (two_level_ops xops dops block_function) t = (i < length kvs)"
    using en entry w_over_valid(1) by (auto simp: two_level_ops_def exhausted_def idle_def)
  show "i < length kvs \<Longrightarrow> it_key (two_level_ops xops dops block_function) t = fst (kvs ! i)"
    using entry by (auto simp: two_level_ops_def data.w_over_def)
  show "i < length kvs \<Longrightarrow> it_value (two_level_ops xops dops block_function) t = snd (kvs ! i)"
    using entry list_iterator.val [OF wdata] by (auto simp: two_level_ops_def)
  show "it_status (two_level_ops xops dops block_function) t = OK"
    using list_iterator.status [OF windex x] loaded_quiet [OF t(3)] t(3) by (auto simp: two_level_ops_def tl_get_status_def loaded_def)
  show "lands tl_over (it_Next (two_level_ops xops dops block_function) t) kvs (Suc i)" if l: "i < length kvs"
  proof -
    obtain j p where jp: "at_block t xs dss j p" "p < length (dss ! j)" "i = start dss j + p" "data.w_over (data_iter t) (dss ! j) p"
      using entry [OF l] by blast
    obtain d where d: "it_Next (wrapper_ops dops) (data_iter t) = Some d" "data.w_over d (dss ! j) (Suc p)"
      using list_iterator.moves_next [OF wdata jp(4,2)] by (rule landsE)
    have "at_block (t\<lparr>data_iter := d\<rparr>) xs dss j (Suc p)" using jp(1) d(2) by (simp add: at_block_def)
    from skip_forward_lands [OF t(1) this] jp(2,3) show ?thesis by (simp add: two_level_ops_def tl_Next_def d(1) t(2))
  qed
  show "lands tl_over (it_Prev (two_level_ops xops dops block_function) t) kvs (prev_pos kvs i)" if l: "i < length kvs"
  proof -
    obtain j p where jp: "at_block t xs dss j p" "p < length (dss ! j)" "i = start dss j + p" "data.w_over (data_iter t) (dss ! j) p"
      using entry [OF l] by blast
    obtain d where d: "it_Prev (wrapper_ops dops) (data_iter t) = Some d" "data.w_over d (dss ! j) (prev_pos (dss ! j) p)"
      using list_iterator.moves_prev [OF wdata jp(4,2)] by (rule landsE)
    have "at_block (t\<lparr>data_iter := d\<rparr>) xs dss j (prev_pos (dss ! j) p)" using jp(1) d(2) by (simp add: at_block_def)
    note r = skip_backward_lands [OF t(1) this]
    have "(if prev_pos (dss ! j) p < length (dss ! j) then start dss j + prev_pos (dss ! j) p else prev_pos (concat dss) (start dss j)) =
        prev_pos kvs i" "prev_pos (dss ! j) p \<le> length (dss ! j)"
      using jp(2,3) t(2) by (cases p; simp add: prev_pos_def)+
    with r show ?thesis by (simp add: two_level_ops_def tl_Prev_def d(1) t(2))
  qed
  show "lands tl_over (it_SeekToFirst (two_level_ops xops dops block_function) t) kvs 0"
    using first_lands [OF t(1,3) x] by (simp add: two_level_ops_def t(2))
  show "lands tl_over (it_SeekToLast (two_level_ops xops dops block_function) t) kvs (length kvs - 1)"
    using last_lands [OF t(1,3) x] by (simp add: two_level_ops_def t(2))
  show "ok target \<Longrightarrow> lands tl_over (it_Seek (two_level_ops xops dops block_function) target t) kvs (lower_bound c target kvs)" for target
    using seek_lands [OF t(1,3) x] by (simp add: two_level_ops_def t(2))
qed

end

end
