(* ===== verification/Ldb_Format.thy ===== *)
theory Ldb_Format
  imports Ldb_Two_Level Ldb_Crc_Props Ldb_Logging
begin

text \<open>
  The format of tables, \<open>table/format.cc\<close> and \<open>table/format.h\<close>: block handles, the footer, and
  \<open>ReadBlock\<close>; and the options that tables depend on (\<open>include/leveldb/options.h\<close>).

  The Snappy functions of \<open>port/port_posix.h\<close> call a library that is not part of the sources;
  they are a parameter, a record of the three of them.  A random access file is the record of
  its read operation, which says whether the bytes are in the scratch buffer of the caller.
\<close>

section \<open>Handles and footer\<close>

record block_handle =
  bh_offset :: u64
  bh_size :: u64

definition BlockHandle :: block_handle where "BlockHandle = \<lparr>bh_offset = NOT 0, bh_size = NOT 0\<rparr>"

definition bh_EncodeTo :: "block_handle \<Rightarrow> byte list \<Rightarrow> byte list" where
  "bh_EncodeTo h dst = PutVarint64 (PutVarint64 dst (bh_offset h)) (bh_size h)"

text \<open>The status, the handle, and the rest of the input.\<close>

definition bh_DecodeFrom :: "slice \<Rightarrow> block_handle \<Rightarrow> status \<times> block_handle \<times> slice" where
  "bh_DecodeFrom input h = (case GetVarint64 input of
     None \<Rightarrow> (Corruption ''bad block handle'', h, input)
   | Some (ofs, i1) \<Rightarrow> (case GetVarint64 i1 of
       None \<Rightarrow> (Corruption ''bad block handle'', h\<lparr>bh_offset := ofs\<rparr>, i1)
     | Some (sz, i2) \<Rightarrow> (OK, \<lparr>bh_offset = ofs, bh_size = sz\<rparr>, i2)))"

definition kMaxEncodedLength :: nat where "kMaxEncodedLength = 10 + 10"

record footer =
  metaindex_handle :: block_handle
  index_handle :: block_handle

definition kEncodedLength :: nat where "kEncodedLength = 2 * kMaxEncodedLength + 8"
definition kTableMagicNumber :: u64 where "kTableMagicNumber = 0xdb4775248b80fb57"
definition kBlockTrailerSize :: nat where "kBlockTrailerSize = 5"

definition resize :: "nat \<Rightarrow> byte list \<Rightarrow> byte list" where
  "resize n bs = take n bs @ replicate (n - length bs) 0"

definition footer_EncodeTo :: "footer \<Rightarrow> byte list \<Rightarrow> byte list" where
  "footer_EncodeTo f dst =
     (let d2 = bh_EncodeTo (index_handle f) (bh_EncodeTo (metaindex_handle f) dst);
          d3 = resize (2 * kMaxEncodedLength) d2
      in PutFixed32 (PutFixed32 d3 (ucast (kTableMagicNumber AND 0xffffffff))) (ucast (drop_bit 32 kTableMagicNumber)))"

definition footer_DecodeFrom :: "slice \<Rightarrow> footer \<Rightarrow> status \<times> footer \<times> slice" where
  "footer_DecodeFrom input f =
     (let magic_ptr = drop (kEncodedLength - 8) input;
          magic_lo = DecodeFixed32 magic_ptr; magic_hi = DecodeFixed32 (drop 4 magic_ptr);
          magic = push_bit 32 (ucast magic_hi) OR ucast magic_lo :: u64
      in if magic \<noteq> kTableMagicNumber then (Corruption ''not an sstable (bad magic number)'', f, input)
         else case bh_DecodeFrom input (metaindex_handle f) of
           (s1, h1, i1) \<Rightarrow>
             let f1 = f\<lparr>metaindex_handle := h1\<rparr> in
             if is_ok s1 then
               (case bh_DecodeFrom i1 (index_handle f1) of
                  (s2, h2, i2) \<Rightarrow> (s2, f1\<lparr>index_handle := h2\<rparr>, if is_ok s2 then drop kEncodedLength input else i2))
             else (s1, f1, i1))"

section \<open>Options\<close>

datatype CompressionType = kNoCompression | kSnappyCompression

fun type_of_compression :: "CompressionType \<Rightarrow> byte" where
  "type_of_compression kNoCompression = 0"
| "type_of_compression kSnappyCompression = 1"

text \<open>The fields that tables use; a filter policy comes with its name.\<close>

record options =
  opt_comparator :: comparator
  paranoid_checks :: bool
  opt_block_size :: nat
  block_restart_interval :: nat
  compression :: CompressionType
  opt_filter_policy :: "(slice \<times> filter_policy) option"

record read_options =
  verify_checksums :: bool
  fill_cache :: bool

definition ReadOptions :: read_options where "ReadOptions = \<lparr>verify_checksums = False, fill_cache = True\<rparr>"

section \<open>Reading a block\<close>

record snappy =
  Snappy_Compress :: "slice \<Rightarrow> slice option"
  Snappy_GetUncompressedLength :: "slice \<Rightarrow> nat option"
  Snappy_Uncompress :: "slice \<Rightarrow> slice option"

record random_file =
  ra_Read :: "u64 \<Rightarrow> nat \<Rightarrow> status \<times> slice \<times> bool"

record block_contents =
  bc_data :: slice
  cachable :: bool
  heap_allocated :: bool

definition no_contents :: block_contents where "no_contents = \<lparr>bc_data = [], cachable = False, heap_allocated = False\<rparr>"

text \<open>Sizes are \<open>size_t\<close>.  For a size of the last five values the sum with the trailer wraps, and the
  code then reads behind the buffer; such bytes are 0 here.\<close>

definition ReadBlock :: "snappy \<Rightarrow> random_file \<Rightarrow> read_options \<Rightarrow> block_handle \<Rightarrow> status \<times> block_contents" where
  "ReadBlock sn file ro h =
     (let n = unat (bh_size h) in
      case ra_Read file (bh_offset h) (size_add n kBlockTrailerSize) of
        (s, data, in_buf) \<Rightarrow>
          if \<not> is_ok s then (s, no_contents)
          else if length data \<noteq> size_add n kBlockTrailerSize then (Corruption ''truncated block read'', no_contents)
          else if verify_checksums ro \<and>
              crc_Value 0 (take (n + 1) data) \<noteq> crc_Unmask (DecodeFixed32 (drop (n + 1) data))
          then (Corruption ''block checksum mismatch'', no_contents)
          else if byte_at data n = type_of_compression kNoCompression then
            (OK, \<lparr>bc_data = take n data, cachable = in_buf, heap_allocated = in_buf\<rparr>)
          else if byte_at data n = type_of_compression kSnappyCompression then
            (case Snappy_GetUncompressedLength sn (take n data) of
               None \<Rightarrow> (Corruption ''corrupted compressed block contents'', no_contents)
             | Some ulength \<Rightarrow>
                 (case Snappy_Uncompress sn (take n data) of
                    None \<Rightarrow> (Corruption ''corrupted compressed block contents'', no_contents)
                  | Some ubuf \<Rightarrow> (OK, \<lparr>bc_data = take ulength ubuf, cachable = True, heap_allocated = True\<rparr>)))
          else (Corruption ''bad block type'', no_contents))"

section \<open>Round trips\<close>

lemma bh_Decode_Encode: "bh_DecodeFrom (bh_EncodeTo h [] @ rest) h0 = (OK, h, rest)"
  using GetVarint64_Encode [of "bh_offset h" "EncodeVarint64 (bh_size h) @ rest"] GetVarint64_Encode [of "bh_size h" rest]
  by (simp add: bh_DecodeFrom_def bh_EncodeTo_def PutVarint64_def)

lemma bh_EncodeTo_append: "bh_EncodeTo h dst = dst @ bh_EncodeTo h []"
  by (simp add: bh_EncodeTo_def PutVarint64_def)

lemma length_EncodeVarint64: "length (EncodeVarint64 v) \<le> 10"
  using length_varint_bytes_10 [of v] by (simp add: EncodeVarint64_eq)

lemma length_bh: "length (bh_EncodeTo h []) \<le> 20"
  using length_EncodeVarint64 [of "bh_offset h"] length_EncodeVarint64 [of "bh_size h"]
  by (simp add: bh_EncodeTo_def PutVarint64_def)

lemma footer_bytes:
  "footer_EncodeTo f [] = bh_EncodeTo (metaindex_handle f) [] @ bh_EncodeTo (index_handle f) [] @
     replicate (40 - length (bh_EncodeTo (metaindex_handle f) [] @ bh_EncodeTo (index_handle f) [])) 0 @
     EncodeFixed32 0x8b80fb57 @ EncodeFixed32 0xdb477524"
proof -
  have "length (bh_EncodeTo (metaindex_handle f) [] @ bh_EncodeTo (index_handle f) []) \<le> 40"
    using length_bh [of "metaindex_handle f"] length_bh [of "index_handle f"] by simp
  moreover have "ucast (kTableMagicNumber AND 0xffffffff) = (0x8b80fb57 :: u32)" "ucast (drop_bit 32 kTableMagicNumber) = (0xdb477524 :: u32)"
    by (simp_all add: kTableMagicNumber_def)
  ultimately show ?thesis
    by (simp add: footer_EncodeTo_def bh_EncodeTo_append [of "index_handle f" "bh_EncodeTo _ _"] resize_def kMaxEncodedLength_def
        PutFixed32_def Let_def)
qed

lemma length_footer: "length (footer_EncodeTo f []) = kEncodedLength"
  using length_bh [of "metaindex_handle f"] length_bh [of "index_handle f"]
  by (simp add: footer_bytes kEncodedLength_def kMaxEncodedLength_def)

lemma footer_Decode_Encode: "footer_DecodeFrom (footer_EncodeTo f []) f0 = (OK, f, [])"
proof -
  let ?h = "bh_EncodeTo (metaindex_handle f) [] @ bh_EncodeTo (index_handle f) []"
  have "length ?h \<le> 40" using length_bh [of "metaindex_handle f"] length_bh [of "index_handle f"] by simp
  then have d: "drop 40 (footer_EncodeTo f []) = EncodeFixed32 0x8b80fb57 @ EncodeFixed32 0xdb477524"
    unfolding footer_bytes by simp
  have "kEncodedLength - 8 = 40" by (simp add: kEncodedLength_def kMaxEncodedLength_def)
  moreover have "drop 4 (EncodeFixed32 0x8b80fb57 @ EncodeFixed32 0xdb477524) = EncodeFixed32 0xdb477524" by simp
  ultimately have "footer_DecodeFrom (footer_EncodeTo f []) f0 =
    (case bh_DecodeFrom (footer_EncodeTo f []) (metaindex_handle f0) of
       (s1, h1, i1) \<Rightarrow>
         let f1 = f0\<lparr>metaindex_handle := h1\<rparr> in
         if is_ok s1 then
           (case bh_DecodeFrom i1 (index_handle f1) of
              (s2, h2, i2) \<Rightarrow> (s2, f1\<lparr>index_handle := h2\<rparr>, if is_ok s2 then drop kEncodedLength (footer_EncodeTo f []) else i2))
         else (s1, f1, i1))"
    unfolding footer_DecodeFrom_def Let_def by (simp add: d kTableMagicNumber_def)
  also have "\<dots> = (OK, f, [])"
    using length_footer [of f] unfolding footer_bytes append_assoc bh_Decode_Encode by (simp add: bh_Decode_Encode)
  finally show ?thesis .
qed

text \<open>A block as it is stored: the contents, the type and the masked checksum of both.\<close>

definition stored :: "slice \<Rightarrow> CompressionType \<Rightarrow> byte list" where
  "stored str t = str @ [type_of_compression t] @ EncodeFixed32 (crc_Mask (crc_Value 0 (str @ [type_of_compression t])))"

lemma length_stored: "length (stored str t) = length str + 5"
  by (simp add: stored_def)

definition snappy_ok :: "snappy \<Rightarrow> bool" where
  "snappy_ok sn \<longleftrightarrow> (\<forall>raw z. Snappy_Compress sn raw = Some z \<longrightarrow>
     Snappy_GetUncompressedLength sn z = Some (length raw) \<and> Snappy_Uncompress sn z = Some raw)"

text \<open>A file in memory; \<open>in_buf\<close> says whether its reads are copied.\<close>

definition memory_file :: "bool \<Rightarrow> byte list \<Rightarrow> random_file" where
  "memory_file in_buf bs = \<lparr>ra_Read = (\<lambda>ofs n. (OK, take n (drop (unat ofs) bs), in_buf))\<rparr>"

lemma ReadBlock_stored:
  assumes "drop (unat (bh_offset h)) bs = stored str t @ rest" "unat (bh_size h) = length str" "length str + 5 < 2 ^ 64"
    "t = kNoCompression \<or> Snappy_GetUncompressedLength sn str = Some (length raw) \<and> Snappy_Uncompress sn str = Some raw"
    "t = kNoCompression \<Longrightarrow> raw = str"
  shows "\<exists>b. ReadBlock sn (memory_file in_buf bs) ro h = (OK, b) \<and> bc_data b = raw"
proof -
  have sz: "size_add (unat (bh_size h)) kBlockTrailerSize = length (stored str t)"
    using assms(2,3) by (simp add: size_add_exact kBlockTrailerSize_def length_stored)
  have rd: "ra_Read (memory_file in_buf bs) (bh_offset h) (length (stored str t)) = (OK, stored str t, in_buf)"
    by (simp add: memory_file_def assms(1))
  have parts: "take (length str + 1) (stored str t) = str @ [type_of_compression t]" "take (length str) (stored str t) = str"
    "drop (length str + 1) (stored str t) = EncodeFixed32 (crc_Mask (crc_Value 0 (str @ [type_of_compression t])))"
    "byte_at (stored str t) (length str) = type_of_compression t"
    by (simp_all add: stored_def byte_at_def nth_append)
  show ?thesis
    unfolding ReadBlock_def Let_def assms(2) sz [unfolded assms(2)] rd prod.case parts using assms(4,5)
    by (cases t) (auto simp: crc_Unmask_Mask)
qed

end
