(* ===== verification/Ldb_Table.thy ===== *)
theory Ldb_Table
  imports Ldb_Format
begin

text \<open>
  Reading a table, \<open>table/table.cc\<close>.  The record \<open>table\<close> is \<open>Table::Rep\<close> without the fields that
  only serve deallocation.  The block cache is a parameter: a record of its two operations on a
  state \<open>'c\<close>; an iterator keeps its block alive by itself here, so handles are not part of the
  model.
\<close>

record table =
  tbl_options :: options
  tbl_file :: random_file
  cache_id :: u64
  tbl_filter :: "filter_reader option"
  tbl_metaindex :: block_handle
  tbl_index :: block

definition paranoid_read :: "options \<Rightarrow> read_options" where
  "paranoid_read o1 = (if paranoid_checks o1 then ReadOptions\<lparr>verify_checksums := True\<rparr> else ReadOptions)"

definition ReadFilter :: "snappy \<Rightarrow> slice \<Rightarrow> table \<Rightarrow> table" where
  "ReadFilter sn filter_handle_value t =
     (case bh_DecodeFrom filter_handle_value BlockHandle of
        (s1, handle, _) \<Rightarrow>
          if \<not> is_ok s1 then t
          else case ReadBlock sn (tbl_file t) (paranoid_read (tbl_options t)) handle of
            (s2, blk) \<Rightarrow> if \<not> is_ok s2 then t else t\<lparr>tbl_filter := Some (FilterBlockReader (bc_data blk))\<rparr>)"

definition ReadMeta :: "snappy \<Rightarrow> footer \<Rightarrow> table \<Rightarrow> table" where
  "ReadMeta sn f t = (case opt_filter_policy (tbl_options t) of
     None \<Rightarrow> t
   | Some (name, _) \<Rightarrow>
       (case ReadBlock sn (tbl_file t) (paranoid_read (tbl_options t)) (metaindex_handle f) of
          (s, bc) \<Rightarrow>
            if \<not> is_ok s then t
            else
              let ops = block_ops BytewiseComparator;
                  key = text_bytes ''filter.'' @ name;
                  iter = on_block (bi_Seek BytewiseComparator key) (block_NewIterator (Block (bc_data bc)))
              in if it_Valid ops iter \<and> it_key ops iter = key then ReadFilter sn (it_value ops iter) t else t))"

text \<open>\<open>new_id\<close> is what \<open>NewId\<close> of the block cache returns, 0 without a cache.\<close>

definition Table_Open :: "snappy \<Rightarrow> options \<Rightarrow> random_file \<Rightarrow> u64 \<Rightarrow> u64 \<Rightarrow> status \<times> table option" where
  "Table_Open sn opt file sz new_id =
     (if sz < word_of_nat kEncodedLength then (Corruption ''file is too short to be an sstable'', None)
      else case ra_Read file (sz - word_of_nat kEncodedLength) kEncodedLength of
        (s1, footer_input, _) \<Rightarrow>
          if \<not> is_ok s1 then (s1, None)
          else case footer_DecodeFrom footer_input \<lparr>metaindex_handle = BlockHandle, index_handle = BlockHandle\<rparr> of
            (s2, f, _) \<Rightarrow>
              if \<not> is_ok s2 then (s2, None)
              else case ReadBlock sn file (paranoid_read opt) (index_handle f) of
                (s3, bc) \<Rightarrow>
                  if is_ok s3 then
                    (s3, Some (ReadMeta sn f \<lparr>tbl_options = opt, tbl_file = file, cache_id = new_id, tbl_filter = None,
                       tbl_metaindex = metaindex_handle f, tbl_index = Block (bc_data bc)\<rparr>))
                  else (s3, None))"

section \<open>Blocks\<close>

record 'c cache_ops =
  cache_Lookup :: "slice \<Rightarrow> 'c \<Rightarrow> block option \<times> 'c"
  cache_Insert :: "slice \<Rightarrow> block \<Rightarrow> nat \<Rightarrow> 'c \<Rightarrow> 'c"

definition cache_key :: "table \<Rightarrow> block_handle \<Rightarrow> slice" where
  "cache_key t h = EncodeFixed64 (cache_id t) @ EncodeFixed64 (bh_offset h)"

definition read_block :: "snappy \<Rightarrow> table \<Rightarrow> read_options \<Rightarrow> block_handle \<Rightarrow> status \<times> block option \<times> bool" where
  "read_block sn t ro h = (case ReadBlock sn (tbl_file t) ro h of
     (s, bc) \<Rightarrow> (s, if is_ok s then Some (Block (bc_data bc)) else None, cachable bc))"

definition BlockReader ::
    "snappy \<Rightarrow> 'c cache_ops option \<Rightarrow> table \<Rightarrow> read_options \<Rightarrow> slice \<Rightarrow> 'c \<Rightarrow> block_iterator \<times> 'c" where
  "BlockReader sn block_cache t ro index_value ca =
     (case bh_DecodeFrom index_value BlockHandle of
        (s, handle, _) \<Rightarrow>
          let (s1, blk, ca1) =
            (if is_ok s then
               case block_cache of
                 Some ops \<Rightarrow>
                   (case cache_Lookup ops (cache_key t handle) ca of
                      (Some b, ca') \<Rightarrow> (s, Some b, ca')
                    | (None, ca') \<Rightarrow>
                        (case read_block sn t ro handle of
                           (s', Some b, may) \<Rightarrow>
                             (s', Some b, if may \<and> fill_cache ro then cache_Insert ops (cache_key t handle) b (blk_size b) ca' else ca')
                         | (s', None, may) \<Rightarrow> (s', None, ca')))
               | None \<Rightarrow> (case read_block sn t ro handle of (s', b, may) \<Rightarrow> (s', b, ca))
             else (s, None, ca))
          in (case blk of Some b \<Rightarrow> block_NewIterator b | None \<Rightarrow> EmptyIterator s1, ca1))"

text \<open>Without a block cache.\<close>

definition block_function :: "snappy \<Rightarrow> table \<Rightarrow> read_options \<Rightarrow> slice \<Rightarrow> block_iterator" where
  "block_function sn t ro v = fst (BlockReader sn (None :: unit cache_ops option) t ro v ())"

section \<open>Operations\<close>

definition tbl_comparator :: "table \<Rightarrow> comparator" where "tbl_comparator t = opt_comparator (tbl_options t)"

definition table_NewIterator :: "table \<Rightarrow> (block_iterator, block_iterator) two_level" where
  "table_NewIterator t = TwoLevelIterator (block_ops (tbl_comparator t)) (block_NewIterator (tbl_index t))"

definition table_ops :: "snappy \<Rightarrow> table \<Rightarrow> read_options \<Rightarrow> (block_iterator, block_iterator) two_level iter_ops" where
  "table_ops sn t ro =
     two_level_ops (block_ops (tbl_comparator t)) (block_ops (tbl_comparator t)) (block_function sn t ro)"

definition InternalGet ::
    "snappy \<Rightarrow> table \<Rightarrow> read_options \<Rightarrow> slice \<Rightarrow> ('a \<Rightarrow> slice \<Rightarrow> slice \<Rightarrow> 'a) \<Rightarrow> 'a \<Rightarrow> status \<times> 'a" where
  "InternalGet sn t ro k saver arg =
     (let c = tbl_comparator t; ops = block_ops c;
          iiter = on_block (bi_Seek c k) (block_NewIterator (tbl_index t));
          (s, arg') =
            (if it_Valid ops iiter then
               let skip = (case tbl_filter t of
                     None \<Rightarrow> False
                   | Some fr \<Rightarrow> (case bh_DecodeFrom (it_value ops iiter) BlockHandle of
                       (s, handle, _) \<Rightarrow> is_ok s \<and> \<not> filter_KeyMayMatch (snd (the (opt_filter_policy (tbl_options t)))) fr (bh_offset handle) k))
               in if skip then (OK, arg)
                  else
                    let block_iter = on_block (bi_Seek c k) (block_function sn t ro (it_value ops iiter))
                    in (it_status ops block_iter,
                        if it_Valid ops block_iter then saver arg (it_key ops block_iter) (it_value ops block_iter) else arg)
             else (OK, arg))
      in (if is_ok s then it_status ops iiter else s, arg'))"

definition ApproximateOffsetOf :: "table \<Rightarrow> slice \<Rightarrow> u64" where
  "ApproximateOffsetOf t key =
     (let c = tbl_comparator t; ops = block_ops c;
          index_iter = on_block (bi_Seek c key) (block_NewIterator (tbl_index t))
      in if it_Valid ops index_iter then
           (case bh_DecodeFrom (it_value ops index_iter) BlockHandle of
              (s, handle, _) \<Rightarrow> if is_ok s then bh_offset handle else bh_offset (tbl_metaindex t))
         else bh_offset (tbl_metaindex t))"

end
