(* ===== verification/Ldb_Table_Builder.thy ===== *)
theory Ldb_Table_Builder
  imports Ldb_Format Ldb_Log_Props
begin

text \<open>
  Writing a table, \<open>table/table_builder.cc\<close>.  The record \<open>table_rep\<close> is \<open>TableBuilder::Rep\<close>; the file
  is the parameter of the log (\<open>writable_ops\<close>).  \<open>compressed_output\<close> is scratch space, and the
  pointers of the block builders to their options are the options passed to their operations.
\<close>

section \<open>The builder\<close>

record 'f table_rep =
  tb_options :: options
  index_block_options :: options
  tb_file :: 'f
  tb_offset :: u64
  tb_status :: status
  data_block :: block_builder
  index_block :: block_builder
  tb_last_key :: slice
  num_entries :: nat
  tb_closed :: bool
  filter_block :: "filter_builder option"
  pending_index_entry :: bool
  pending_handle :: block_handle

definition the_policy :: "options \<Rightarrow> filter_policy" where "the_policy o1 = snd (the (opt_filter_policy o1))"

definition TableBuilder :: "options \<Rightarrow> 'f \<Rightarrow> 'f table_rep" where
  "TableBuilder opt file =
     \<lparr>tb_options = opt, index_block_options = opt\<lparr>block_restart_interval := 1\<rparr>, tb_file = file, tb_offset = 0, tb_status = OK,
      data_block = BlockBuilder, index_block = BlockBuilder, tb_last_key = [], num_entries = 0, tb_closed = False,
      filter_block = (case opt_filter_policy opt of None \<Rightarrow> None | Some (_, p) \<Rightarrow> Some (StartBlock p 0 FilterBlockBuilder)),
      pending_index_entry = False, pending_handle = BlockHandle\<rparr>"

text \<open>\<open>same_comparator\<close> is the comparison of the two pointers.\<close>

definition ChangeOptions :: "bool \<Rightarrow> options \<Rightarrow> 'f table_rep \<Rightarrow> status \<times> 'f table_rep" where
  "ChangeOptions same_comparator opt r =
     (if \<not> same_comparator then (status_msg kInvalidArgument ''changing comparator while building table'' [], r)
      else (OK, r\<lparr>tb_options := opt, index_block_options := opt\<lparr>block_restart_interval := 1\<rparr>\<rparr>))"

definition WriteRawBlock ::
    "'f writable_ops \<Rightarrow> slice \<Rightarrow> CompressionType \<Rightarrow> 'f table_rep \<Rightarrow> block_handle \<times> 'f table_rep" where
  "WriteRawBlock ops str t r =
     (let handle = \<lparr>bh_offset = tb_offset r, bh_size = word_of_nat (length str)\<rparr> in
      case Append ops (tb_file r) str of
        (s1, f1) \<Rightarrow>
          if is_ok s1 then
            let crc = Extend 0 (crc_Value 0 str) [type_of_compression t];
                trailer = [type_of_compression t] @ EncodeFixed32 (crc_Mask crc)
            in case Append ops f1 trailer of
                 (s2, f2) \<Rightarrow>
                   let r2 = r\<lparr>tb_file := f2, tb_status := s2\<rparr>
                   in (handle, if is_ok s2 then r2\<lparr>tb_offset := tb_offset r + word_of_nat (length str + kBlockTrailerSize)\<rparr> else r2)
          else (handle, r\<lparr>tb_file := f1, tb_status := s1\<rparr>))"

text \<open>What \<open>WriteBlock\<close> makes of the finished contents: compressed when that saves an eighth.\<close>

definition compressed_block :: "snappy \<Rightarrow> CompressionType \<Rightarrow> slice \<Rightarrow> slice \<times> CompressionType" where
  "compressed_block sn t raw = (case t of
     kNoCompression \<Rightarrow> (raw, kNoCompression)
   | kSnappyCompression \<Rightarrow>
       (case Snappy_Compress sn raw of
          Some z \<Rightarrow> if length z < length raw - length raw div 8 then (z, kSnappyCompression) else (raw, kNoCompression)
        | None \<Rightarrow> (raw, kNoCompression)))"

text \<open>The block builder is reset afterwards.\<close>

definition WriteBlock ::
    "snappy \<Rightarrow> 'f writable_ops \<Rightarrow> block_builder \<Rightarrow> 'f table_rep \<Rightarrow> block_handle \<times> block_builder \<times> 'f table_rep" where
  "WriteBlock sn ops block r =
     (let (raw, b1) = block_Finish block;
          (block_contents, t) = compressed_block sn (compression (tb_options r)) raw;
          (handle, r1) = WriteRawBlock ops block_contents t r
      in (handle, block_Reset b1, r1))"

definition tb_Flush :: "snappy \<Rightarrow> 'f writable_ops \<Rightarrow> 'f table_rep \<Rightarrow> 'f table_rep" where
  "tb_Flush sn ops r =
     (if \<not> is_ok (tb_status r) then r
      else if block_empty (data_block r) then r
      else
        case WriteBlock sn ops (data_block r) r of
          (handle, b, r1) \<Rightarrow>
            let r2 = r1\<lparr>data_block := b, pending_handle := handle\<rparr>;
                r3 = (if is_ok (tb_status r2) then
                        (case Flush ops (tb_file r2) of (s, f) \<Rightarrow> r2\<lparr>pending_index_entry := True, tb_file := f, tb_status := s\<rparr>)
                      else r2)
            in r3\<lparr>filter_block := map_option (StartBlock (the_policy (tb_options r3)) (tb_offset r3)) (filter_block r3)\<rparr>)"

text \<open>Adding the pending index entry under a key.\<close>

definition add_index_entry :: "slice \<Rightarrow> 'f table_rep \<Rightarrow> 'f table_rep" where
  "add_index_entry key r =
     r\<lparr>tb_last_key := key,
       index_block := block_Add (block_restart_interval (index_block_options r)) key (bh_EncodeTo (pending_handle r) []) (index_block r),
       pending_index_entry := False\<rparr>"

definition tb_Add :: "snappy \<Rightarrow> 'f writable_ops \<Rightarrow> slice \<Rightarrow> slice \<Rightarrow> 'f table_rep \<Rightarrow> 'f table_rep" where
  "tb_Add sn ops key value r =
     (if \<not> is_ok (tb_status r) then r
      else
        let r1 = (if pending_index_entry r
                  then add_index_entry (FindShortestSeparator (opt_comparator (tb_options r)) (tb_last_key r) key) r else r);
            r2 = r1\<lparr>filter_block := map_option (AddKey key) (filter_block r1)\<rparr>;
            r3 = r2\<lparr>tb_last_key := key, num_entries := num_entries r2 + 1,
                    data_block := block_Add (block_restart_interval (tb_options r2)) key value (data_block r2)\<rparr>
        in if opt_block_size (tb_options r3) \<le> CurrentSizeEstimate (data_block r3) then tb_Flush sn ops r3 else r3)"

definition filter_prefix :: slice where "filter_prefix = text_bytes ''filter.''"

definition meta_index_block :: "options \<Rightarrow> block_handle \<Rightarrow> block_builder" where
  "meta_index_block o1 filter_handle = (case opt_filter_policy o1 of
     Some (name, _) \<Rightarrow> block_Add (block_restart_interval o1) (filter_prefix @ name) (bh_EncodeTo filter_handle []) BlockBuilder
   | None \<Rightarrow> BlockBuilder)"

definition tb_Finish :: "snappy \<Rightarrow> 'f writable_ops \<Rightarrow> 'f table_rep \<Rightarrow> status \<times> 'f table_rep" where
  "tb_Finish sn ops r0 =
     (let r1 = (tb_Flush sn ops r0)\<lparr>tb_closed := True\<rparr>;
          (filter_handle, r2) = (case filter_block r1 of
             Some fb \<Rightarrow> if is_ok (tb_status r1)
               then WriteRawBlock ops (filter_Finish (the_policy (tb_options r1)) fb) kNoCompression r1 else (BlockHandle, r1)
           | None \<Rightarrow> (BlockHandle, r1));
          (metaindex_h, r3) =
             (if is_ok (tb_status r2) then
                case WriteBlock sn ops (meta_index_block (tb_options r2) filter_handle) r2 of (h, _, r) \<Rightarrow> (h, r)
              else (BlockHandle, r2));
          (index_h, r4) =
             (if is_ok (tb_status r3) then
                let r = (if pending_index_entry r3
                         then add_index_entry (FindShortSuccessor (opt_comparator (tb_options r3)) (tb_last_key r3)) r3 else r3)
                in case WriteBlock sn ops (index_block r) r of (h, b, r') \<Rightarrow> (h, r'\<lparr>index_block := b\<rparr>)
              else (BlockHandle, r3));
          r5 = (if is_ok (tb_status r4) then
                  let footer_encoding = footer_EncodeTo \<lparr>metaindex_handle = metaindex_h, index_handle = index_h\<rparr> []
                  in case Append ops (tb_file r4) footer_encoding of
                       (s, f) \<Rightarrow>
                         let r = r4\<lparr>tb_file := f, tb_status := s\<rparr>
                         in if is_ok s then r\<lparr>tb_offset := tb_offset r + word_of_nat (length footer_encoding)\<rparr> else r
                else r4)
      in (tb_status r5, r5))"

definition Abandon :: "'f table_rep \<Rightarrow> 'f table_rep" where "Abandon r = r\<lparr>tb_closed := True\<rparr>"
definition NumEntries :: "'f table_rep \<Rightarrow> u64" where "NumEntries r = word_of_nat (num_entries r)"
definition FileSize :: "'f table_rep \<Rightarrow> u64" where "FileSize r = tb_offset r"

section \<open>The image of a table\<close>

text \<open>The abstract specification: how the entries are cut into blocks, the keys and the handles of the index,
  and the bytes of the whole file.\<close>

type_synonym kvs = "(slice \<times> slice) list"

fun split_blocks :: "options \<Rightarrow> kvs \<Rightarrow> kvs \<Rightarrow> kvs list" where
  "split_blocks o1 cur [] = (if cur = [] then [] else [cur])"
| "split_blocks o1 cur (kv # kvs) =
     (let cur' = cur @ [kv] in
      if opt_block_size o1 \<le> CurrentSizeEstimate (build_block (block_restart_interval o1) cur')
      then cur' # split_blocks o1 [] kvs else split_blocks o1 cur' kvs)"

definition raw_block :: "nat \<Rightarrow> kvs \<Rightarrow> slice" where "raw_block interval kvs = fst (block_Finish (build_block interval kvs))"

definition packed_block :: "snappy \<Rightarrow> options \<Rightarrow> slice \<Rightarrow> slice" where
  "packed_block sn o1 raw = (case compressed_block sn (compression o1) raw of (z, t) \<Rightarrow> stored z t)"

definition packed_size :: "snappy \<Rightarrow> options \<Rightarrow> slice \<Rightarrow> nat" where
  "packed_size sn o1 raw = length (fst (compressed_block sn (compression o1) raw))"

definition data_blocks :: "snappy \<Rightarrow> options \<Rightarrow> kvs list \<Rightarrow> slice list" where
  "data_blocks sn o1 bs = map (\<lambda>b. packed_block sn o1 (raw_block (block_restart_interval o1) b)) bs"

definition handle_at :: "snappy \<Rightarrow> options \<Rightarrow> nat \<Rightarrow> slice \<Rightarrow> block_handle" where
  "handle_at sn o1 pos raw = \<lparr>bh_offset = word_of_nat pos, bh_size = word_of_nat (packed_size sn o1 raw)\<rparr>"

definition data_handle :: "snappy \<Rightarrow> options \<Rightarrow> kvs list \<Rightarrow> nat \<Rightarrow> block_handle" where
  "data_handle sn o1 bs i =
     handle_at sn o1 (start (data_blocks sn o1 bs) i) (raw_block (block_restart_interval o1) (bs ! i))"

fun separators :: "comparator \<Rightarrow> kvs list \<Rightarrow> slice list" where
  "separators c (b1 # b2 # bs) = FindShortestSeparator c (fst (last b1)) (fst (hd b2)) # separators c (b2 # bs)"
| "separators c _ = []"

definition index_keys :: "comparator \<Rightarrow> kvs list \<Rightarrow> slice list" where
  "index_keys c bs = separators c bs @ (if bs = [] then [] else [FindShortSuccessor c (fst (last (last bs)))])"

definition index_entries :: "snappy \<Rightarrow> options \<Rightarrow> kvs list \<Rightarrow> kvs" where
  "index_entries sn o1 bs =
     zip (index_keys (opt_comparator o1) bs) (map (\<lambda>i. bh_EncodeTo (data_handle sn o1 bs i) []) [0..<length bs])"

definition filter_groups :: "snappy \<Rightarrow> options \<Rightarrow> kvs list \<Rightarrow> (u64 \<times> slice list) list" where
  "filter_groups sn o1 bs =
     map (\<lambda>i. (word_of_nat (start (data_blocks sn o1 bs) i), if i < length bs then map fst (bs ! i) else [])) [0..<Suc (length bs)]"

definition filter_contents :: "snappy \<Rightarrow> options \<Rightarrow> kvs list \<Rightarrow> slice" where
  "filter_contents sn o1 bs = filter_Finish (the_policy o1) (build_filters (the_policy o1) (filter_groups sn o1 bs))"

definition filter_part :: "snappy \<Rightarrow> options \<Rightarrow> kvs list \<Rightarrow> slice" where
  "filter_part sn o1 bs = (if opt_filter_policy o1 = None then [] else stored (filter_contents sn o1 bs) kNoCompression)"

definition filter_handle :: "snappy \<Rightarrow> options \<Rightarrow> kvs list \<Rightarrow> block_handle" where
  "filter_handle sn o1 bs = \<lparr>bh_offset = word_of_nat (length (concat (data_blocks sn o1 bs))),
     bh_size = word_of_nat (length (filter_contents sn o1 bs))\<rparr>"

definition meta_raw :: "snappy \<Rightarrow> options \<Rightarrow> kvs list \<Rightarrow> slice" where
  "meta_raw sn o1 bs = fst (block_Finish (meta_index_block o1 (filter_handle sn o1 bs)))"

definition index_raw :: "snappy \<Rightarrow> options \<Rightarrow> kvs list \<Rightarrow> slice" where
  "index_raw sn o1 bs = raw_block 1 (index_entries sn o1 bs)"

definition meta_pos :: "snappy \<Rightarrow> options \<Rightarrow> kvs list \<Rightarrow> nat" where
  "meta_pos sn o1 bs = length (concat (data_blocks sn o1 bs) @ filter_part sn o1 bs)"

definition index_pos :: "snappy \<Rightarrow> options \<Rightarrow> kvs list \<Rightarrow> nat" where
  "index_pos sn o1 bs = meta_pos sn o1 bs + length (packed_block sn o1 (meta_raw sn o1 bs))"

definition table_footer :: "snappy \<Rightarrow> options \<Rightarrow> kvs list \<Rightarrow> footer" where
  "table_footer sn o1 bs = \<lparr>metaindex_handle = handle_at sn o1 (meta_pos sn o1 bs) (meta_raw sn o1 bs),
     index_handle = handle_at sn o1 (index_pos sn o1 bs) (index_raw sn o1 bs)\<rparr>"

definition table_image :: "snappy \<Rightarrow> options \<Rightarrow> kvs list \<Rightarrow> byte list" where
  "table_image sn o1 bs =
     concat (data_blocks sn o1 bs) @ filter_part sn o1 bs @ packed_block sn o1 (meta_raw sn o1 bs) @
     packed_block sn o1 (index_raw sn o1 bs) @ footer_EncodeTo (table_footer sn o1 bs) []"

end
