(* ===== verification/Ldb_Table_Build_Props.thy ===== *)
theory Ldb_Table_Build_Props
  imports Ldb_Table_Builder
begin

text \<open>
  The table builder writes the image of its entries (\<open>table/table_builder.cc\<close>): the states it goes
  through are those of the blocks that are done and of the entries of the current one.
\<close>

section \<open>Writing blocks\<close>

lemma crc_Extend_type: "Extend 0 (crc_Value 0 str) [b] = crc_Value 0 (str @ [b])"
  by (simp add: crc_Value_def Extend_spec crc_spec_append)

lemma WriteRaw_mem:
  "WriteRawBlock StringDest str t r = (\<lparr>bh_offset = tb_offset r, bh_size = word_of_nat (length str)\<rparr>,
     r\<lparr>tb_file := tb_file r @ stored str t, tb_status := OK, tb_offset := tb_offset r + word_of_nat (length (stored str t))\<rparr>)"
  by (simp add: WriteRawBlock_def StringDest_def crc_Extend_type stored_def kBlockTrailerSize_def Let_def)

lemma Reset_builder [simp]: "block_Reset b = BlockBuilder"
  by (simp add: block_Reset_def BlockBuilder_def)

lemma WriteBlock_mem:
  assumes "tb_options r = o1"
  shows "WriteBlock sn StringDest b r =
    (\<lparr>bh_offset = tb_offset r, bh_size = word_of_nat (packed_size sn o1 (fst (block_Finish b)))\<rparr>, BlockBuilder,
     r\<lparr>tb_file := tb_file r @ packed_block sn o1 (fst (block_Finish b)), tb_status := OK,
       tb_offset := tb_offset r + word_of_nat (length (packed_block sn o1 (fst (block_Finish b))))\<rparr>)"
  using assms
  by (simp add: WriteBlock_def WriteRaw_mem packed_size_def packed_block_def split: prod.split)

lemma build_block_snoc: "build_block n (kvs @ [(k, v)]) = block_Add n k v (build_block n kvs)"
  by (simp add: build_block_def)

lemma build_block_Nil: "build_block n [] = BlockBuilder"
  by (simp add: build_block_def)

lemma block_empty_build: "block_empty (build_block n kvs) \<longleftrightarrow> kvs = []"
proof (cases kvs rule: rev_cases)
  case (snoc ys y)
  have "EncodeVarint32 w \<noteq> []" for w using length_EncodeVarint32 [of w] by auto
  with snoc show ?thesis
    by (cases y) (simp add: build_block_snoc block_empty_def block_Add_def PutVarint32_def Let_def split: prod.split)
qed (simp add: build_block_Nil block_empty_def BlockBuilder_def)

section \<open>Separators and handles\<close>

lemma separators_snoc:
  "separators c (bs @ [b]) =
    (if bs = [] then [] else separators c bs @ [FindShortestSeparator c (fst (last (last bs))) (fst (hd b))])"
proof (induction bs)
  case (Cons b1 bs)
  then show ?case by (cases bs) simp_all
qed simp

lemma length_separators: "length (separators c bs) = length bs - 1"
  by (induction c bs rule: separators.induct) auto

lemma separators_hd: "hd b = hd b' \<Longrightarrow> separators c (bs @ [b]) = separators c (bs @ [b'])"
  by (simp add: separators_snoc)

lemma data_blocks_append: "data_blocks sn o1 (bs @ bs') = data_blocks sn o1 bs @ data_blocks sn o1 bs'"
  by (simp add: data_blocks_def)

lemma length_data_blocks [simp]: "length (data_blocks sn o1 bs) = length bs"
  by (simp add: data_blocks_def)

lemma start_append: "i \<le> length xs \<Longrightarrow> start (xs @ ys) i = start xs i"
  by (simp add: start_def)

lemma data_handle_append: "i < length bs \<Longrightarrow> data_handle sn o1 (bs @ bs') i = data_handle sn o1 bs i"
  by (simp add: data_handle_def data_blocks_append start_append nth_append)

lemma data_handle_last:
  "data_handle sn o1 (bs @ [b]) (length bs) =
    handle_at sn o1 (length (concat (data_blocks sn o1 bs))) (raw_block (block_restart_interval o1) b)"
  by (simp add: data_handle_def data_blocks_append start_append start_end)

definition handles :: "snappy \<Rightarrow> options \<Rightarrow> kvs list \<Rightarrow> slice list" where
  "handles sn o1 bs = map (\<lambda>i. bh_EncodeTo (data_handle sn o1 bs i) []) [0..<length bs]"

lemma length_handles [simp]: "length (handles sn o1 bs) = length bs"
  by (simp add: handles_def)

lemma handles_snoc: "handles sn o1 (bs @ [b]) = handles sn o1 bs @ [bh_EncodeTo (data_handle sn o1 (bs @ [b]) (length bs)) []]"
  by (simp add: handles_def data_handle_append)

section \<open>The states of the builder\<close>

definition groups :: "snappy \<Rightarrow> options \<Rightarrow> kvs list \<Rightarrow> kvs \<Rightarrow> (u64 \<times> slice list) list" where
  "groups sn o1 bs cur =
     map (\<lambda>i. (word_of_nat (start (data_blocks sn o1 bs) i), if i < length bs then map fst (bs ! i) else map fst cur)) [0..<Suc (length bs)]"

text \<open>The index entries that were added when the blocks \<open>bs\<close> are done and \<open>cur\<close> is the current one.\<close>

definition entries_so_far :: "snappy \<Rightarrow> options \<Rightarrow> kvs list \<Rightarrow> kvs \<Rightarrow> kvs" where
  "entries_so_far sn o1 bs cur =
     zip (separators (opt_comparator o1) (if cur = [] then bs else bs @ [cur])) (handles sn o1 bs)"

definition filter_state :: "snappy \<Rightarrow> options \<Rightarrow> kvs list \<Rightarrow> kvs \<Rightarrow> filter_builder option" where
  "filter_state sn o1 bs cur = map_option (\<lambda>(_, p). build_filters p (groups sn o1 bs cur)) (opt_filter_policy o1)"

definition at_blocks :: "snappy \<Rightarrow> options \<Rightarrow> kvs list \<Rightarrow> kvs \<Rightarrow> byte list table_rep \<Rightarrow> bool" where
  "at_blocks sn o1 bs cur r \<longleftrightarrow>
     tb_options r = o1 \<and> index_block_options r = o1\<lparr>block_restart_interval := 1\<rparr> \<and> tb_status r = OK \<and>
     tb_file r = concat (data_blocks sn o1 bs) \<and> tb_offset r = word_of_nat (length (tb_file r)) \<and>
     data_block r = build_block (block_restart_interval o1) cur \<and>
     index_block r = build_block 1 (entries_so_far sn o1 bs cur) \<and>
     filter_block r = filter_state sn o1 bs cur \<and>
     pending_index_entry r = (cur = [] \<and> bs \<noteq> []) \<and>
     (bs \<noteq> [] \<longrightarrow> cur = [] \<longrightarrow> pending_handle r = data_handle sn o1 bs (length bs - 1)) \<and>
     (cur \<noteq> [] \<longrightarrow> tb_last_key r = fst (last cur)) \<and> (bs \<noteq> [] \<longrightarrow> cur = [] \<longrightarrow> tb_last_key r = fst (last (last bs)))"

lemma build_filters_snoc: "build_filters p (bs @ [b]) = add_block p b (build_filters p bs)"
  by (simp add: build_filters_def)

lemma groups_snoc:
  "groups sn o1 bs cur = map (\<lambda>i. (word_of_nat (start (data_blocks sn o1 bs) i), map fst (bs ! i))) [0..<length bs] @
     [(word_of_nat (length (concat (data_blocks sn o1 bs))), map fst cur)]"
  by (simp add: groups_def start_end)

lemma filter_AddKey: "map_option (AddKey k) (filter_state sn o1 bs cur) = filter_state sn o1 bs (cur @ [(k, v)])"
  by (cases "opt_filter_policy o1") (auto simp: filter_state_def groups_snoc build_filters_snoc add_block_def)

lemma filter_StartBlock:
  "map_option (StartBlock (the_policy o1) (word_of_nat (length (concat (data_blocks sn o1 (bs @ [cur])))))) (filter_state sn o1 bs cur) =
    filter_state sn o1 (bs @ [cur]) []"
proof (cases "opt_filter_policy o1")
  case (Some np)
  obtain n p where np: "np = (n, p)" by (cases np)
  have e: "map (\<lambda>i. (word_of_nat (start (data_blocks sn o1 (bs @ [cur])) i), map fst ((bs @ [cur]) ! i))) [0..<length bs] =
      map (\<lambda>i. (word_of_nat (start (data_blocks sn o1 bs) i) :: u64, map fst (bs ! i))) [0..<length bs]"
    by (simp add: data_blocks_append start_append nth_append)
  have "groups sn o1 (bs @ [cur]) [] = groups sn o1 bs cur @ [(word_of_nat (length (concat (data_blocks sn o1 (bs @ [cur])))), [])]"
    unfolding groups_snoc using e by (simp add: data_blocks_append start_append start_end)
  with Some np show ?thesis by (simp add: filter_state_def build_filters_snoc add_block_def the_policy_def)
qed (simp add: filter_state_def)

lemma at_blocks_init: "at_blocks sn o1 [] [] (TableBuilder o1 [])"
proof (cases "opt_filter_policy o1")
  case (Some np)
  then show ?thesis
    by (cases np) (simp add: at_blocks_def TableBuilder_def data_blocks_def entries_so_far_def filter_state_def groups_def
        build_filters_def add_block_def build_block_Nil)
qed (simp add: at_blocks_def TableBuilder_def data_blocks_def entries_so_far_def filter_state_def build_block_Nil)

lemma Flush_blocks:
  assumes r: "at_blocks sn o1 bs cur r" and cur: "cur \<noteq> []"
  shows "at_blocks sn o1 (bs @ [cur]) [] (tb_Flush sn StringDest r)"
proof -
  let ?i = "block_restart_interval o1"
  let ?raw = "raw_block ?i cur"
  have p: "data_blocks sn o1 (bs @ [cur]) = data_blocks sn o1 bs @ [packed_block sn o1 ?raw]" by (simp add: data_blocks_def)
  have o: "tb_options r = o1" "tb_status r = OK" "data_block r = build_block ?i cur" "filter_block r = filter_state sn o1 bs cur"
    "tb_file r = concat (data_blocks sn o1 bs)" "tb_offset r = word_of_nat (length (concat (data_blocks sn o1 bs)))"
    "tb_last_key r = fst (last cur)" "index_block_options r = o1\<lparr>block_restart_interval := 1\<rparr>"
    "index_block r = build_block 1 (entries_so_far sn o1 bs cur)"
    using r cur by (auto simp: at_blocks_def)
  let ?h = "\<lparr>bh_offset = tb_offset r, bh_size = word_of_nat (packed_size sn o1 ?raw)\<rparr>"
  have h: "?h = data_handle sn o1 (bs @ [cur]) (length bs)" by (simp add: data_handle_last handle_at_def o)
  have off: "tb_offset r + word_of_nat (length (packed_block sn o1 ?raw)) = word_of_nat (length (concat (data_blocks sn o1 (bs @ [cur]))))"
    by (simp add: p o)
  have fl: "tb_Flush sn StringDest r = r\<lparr>tb_file := concat (data_blocks sn o1 (bs @ [cur])), tb_status := OK,
      tb_offset := word_of_nat (length (concat (data_blocks sn o1 (bs @ [cur])))), data_block := BlockBuilder,
      pending_handle := ?h, pending_index_entry := True, filter_block := filter_state sn o1 (bs @ [cur]) []\<rparr>"
    using cur off filter_StartBlock [of o1 sn bs cur]
    unfolding tb_Flush_def WriteBlock_mem [OF o(1)]
    by (simp add: o block_empty_build StringDest_def raw_block_def [symmetric] p Let_def)
  have "entries_so_far sn o1 (bs @ [cur]) [] = entries_so_far sn o1 bs cur"
    using cur by (simp add: entries_so_far_def handles_snoc length_separators zip_append2)
  with r show ?thesis by (simp add: at_blocks_def fl o h [unfolded o(6)] build_block_Nil)
qed

lemma index_entry_added:
  assumes "bs \<noteq> []"
  shows "entries_so_far sn o1 bs [kv] = entries_so_far sn o1 bs [] @
    [(FindShortestSeparator (opt_comparator o1) (fst (last (last bs))) (fst kv), bh_EncodeTo (data_handle sn o1 bs (length bs - 1)) [])]"
proof -
  obtain bs' b where bs: "bs = bs' @ [b]" using assms by (cases bs rule: rev_cases) auto
  show ?thesis
    using length_separators [of "opt_comparator o1" bs]
    by (simp add: entries_so_far_def separators_snoc [of _ bs] assms) (simp add: bs handles_snoc zip_append2)
qed

lemma Add_blocks:
  assumes r: "at_blocks sn o1 bs cur r"
  shows "if opt_block_size o1 \<le> CurrentSizeEstimate (build_block (block_restart_interval o1) (cur @ [(k, v)]))
    then at_blocks sn o1 (bs @ [cur @ [(k, v)]]) [] (tb_Add sn StringDest k v r)
    else at_blocks sn o1 bs (cur @ [(k, v)]) (tb_Add sn StringDest k v r)"
proof -
  define r1 where "r1 = (if pending_index_entry r
    then add_index_entry (FindShortestSeparator (opt_comparator (tb_options r)) (tb_last_key r) k) r else r)"
  define r3 where "r3 = (r1\<lparr>filter_block := map_option (AddKey k) (filter_block r1)\<rparr>)
    \<lparr>tb_last_key := k, num_entries := num_entries r1 + 1, data_block := block_Add (block_restart_interval (tb_options r1)) k v (data_block r1)\<rparr>"
  have "entries_so_far sn o1 bs (cur @ [(k, v)]) = entries_so_far sn o1 bs cur" if "cur \<noteq> []"
    using that separators_hd [of cur "cur @ [(k, v)]"] by (simp add: entries_so_far_def)
  moreover have "entries_so_far sn o1 [] [(k, v)] = entries_so_far sn o1 [] []" by (simp add: entries_so_far_def)
  ultimately have at: "at_blocks sn o1 bs (cur @ [(k, v)]) r3"
    using r index_entry_added [of bs sn o1 "(k, v)"] filter_AddKey [of k sn o1 bs cur v]
    by (cases "cur = []"; cases "bs = []")
      (simp_all add: at_blocks_def r1_def r3_def add_index_entry_def build_block_snoc build_block_snoc [of _ "[]", simplified])
  then have o: "tb_options r3 = o1" "data_block r3 = build_block (block_restart_interval o1) (cur @ [(k, v)])"
    by (simp_all add: at_blocks_def)
  have "is_ok (tb_status r)" using r by (simp add: at_blocks_def)
  then have "tb_Add sn StringDest k v r =
      (if opt_block_size (tb_options r3) \<le> CurrentSizeEstimate (data_block r3) then tb_Flush sn StringDest r3 else r3)"
    by (simp add: tb_Add_def r3_def r1_def Let_def)
  with at Flush_blocks [OF at] show ?thesis by (simp add: o)
qed

definition build_table :: "snappy \<Rightarrow> options \<Rightarrow> kvs \<Rightarrow> status \<times> byte list table_rep" where
  "build_table sn o1 kvs = tb_Finish sn StringDest (fold (\<lambda>(k, v). tb_Add sn StringDest k v) kvs (TableBuilder o1 []))"

lemma fold_Add_blocks:
  "at_blocks sn o1 bs cur r \<Longrightarrow>
    \<exists>bs' cur'. at_blocks sn o1 (bs @ bs') cur' (fold (\<lambda>(k, v). tb_Add sn StringDest k v) kvs r) \<and>
      split_blocks o1 cur kvs = bs' @ (if cur' = [] then [] else [cur'])"
proof (induction kvs arbitrary: bs cur r)
  case Nil
  then show ?case by (intro exI [of _ "[]"] exI [of _ cur]) simp
next
  case (Cons kv kvs)
  obtain k v where kv: "kv = (k, v)" by (cases kv)
  let ?full = "opt_block_size o1 \<le> CurrentSizeEstimate (build_block (block_restart_interval o1) (cur @ [kv]))"
  show ?case
  proof (cases ?full)
    case True
    with Add_blocks [OF Cons.prems, of k v] kv have "at_blocks sn o1 (bs @ [cur @ [kv]]) [] (tb_Add sn StringDest k v r)" by simp
    from Cons.IH [OF this] obtain bs' cur' where
      "at_blocks sn o1 ((bs @ [cur @ [kv]]) @ bs') cur' (fold (\<lambda>(k, v). tb_Add sn StringDest k v) kvs (tb_Add sn StringDest k v r))"
      "split_blocks o1 [] kvs = bs' @ (if cur' = [] then [] else [cur'])" by blast
    then show ?thesis using True kv by (intro exI [of _ "(cur @ [kv]) # bs'"] exI [of _ cur']) (simp add: Let_def)
  next
    case False
    with Add_blocks [OF Cons.prems, of k v] kv have "at_blocks sn o1 bs (cur @ [kv]) (tb_Add sn StringDest k v r)" by simp
    from Cons.IH [OF this] show ?thesis using False kv by (simp add: Let_def)
  qed
qed

lemma block_Flush_last:
  assumes "at_blocks sn o1 bs cur r"
  shows "at_blocks sn o1 (bs @ (if cur = [] then [] else [cur])) [] (tb_Flush sn StringDest r)"
proof (cases "cur = []")
  case True
  with assms have "tb_Flush sn StringDest r = r" by (simp add: tb_Flush_def at_blocks_def block_empty_build)
  with True assms show ?thesis by simp
qed (use Flush_blocks [OF assms] in simp)

section \<open>Finishing\<close>

lemma filter_groups_eq: "filter_groups sn o1 bs = groups sn o1 bs []"
  by (simp add: filter_groups_def groups_def)

lemma index_entries_eq:
  "index_entries sn o1 bs =
    (if bs = [] then [] else entries_so_far sn o1 bs [] @
       [(FindShortSuccessor (opt_comparator o1) (fst (last (last bs))), bh_EncodeTo (data_handle sn o1 bs (length bs - 1)) [])])"
proof (cases bs rule: rev_cases)
  case (snoc bs' b)
  have "index_entries sn o1 bs = zip (index_keys (opt_comparator o1) bs) (handles sn o1 bs)"
    by (simp add: index_entries_def handles_def)
  with snoc show ?thesis
    using length_separators [of "opt_comparator o1" bs]
    by (simp add: index_keys_def entries_so_far_def handles_snoc zip_append2)
qed (simp add: index_entries_def index_keys_def)

text \<open>The four parts that \<open>Finish\<close> appends.\<close>

definition index_ready :: "snappy \<Rightarrow> options \<Rightarrow> kvs list \<Rightarrow> byte list table_rep \<Rightarrow> byte list table_rep" where
  "index_ready sn o1 bs r =
     (if pending_index_entry r then add_index_entry (FindShortSuccessor (opt_comparator (tb_options r)) (tb_last_key r)) r else r)"

lemma index_ready_block:
  assumes "tb_options r = o1" "index_block_options r = o1\<lparr>block_restart_interval := 1\<rparr>"
    "index_block r = build_block 1 (entries_so_far sn o1 bs [])" "pending_index_entry r = (bs \<noteq> [])"
    "bs \<noteq> [] \<longrightarrow> pending_handle r = data_handle sn o1 bs (length bs - 1)" "bs \<noteq> [] \<longrightarrow> tb_last_key r = fst (last (last bs))"
  shows "index_block (index_ready sn o1 bs r) = build_block 1 (index_entries sn o1 bs)"
proof (cases "bs = []")
  case True
  with assms show ?thesis by (simp add: index_ready_def index_entries_eq entries_so_far_def)
next
  case False
  with assms show ?thesis by (simp add: index_ready_def index_entries_eq add_index_entry_def build_block_snoc)
qed

lemma index_ready_simps:
  "tb_options (index_ready sn o1 bs r) = tb_options r" "tb_file (index_ready sn o1 bs r) = tb_file r"
  "tb_offset (index_ready sn o1 bs r) = tb_offset r"
  by (simp_all add: index_ready_def add_index_entry_def)

definition filter_written :: "snappy \<Rightarrow> options \<Rightarrow> kvs list \<Rightarrow> byte list table_rep \<Rightarrow> byte list table_rep" where
  "filter_written sn o1 bs r = (if opt_filter_policy o1 = None then r
     else r\<lparr>tb_file := tb_file r @ filter_part sn o1 bs, tb_status := OK,
            tb_offset := tb_offset r + word_of_nat (length (filter_part sn o1 bs))\<rparr>)"

lemma Finish_image:
  assumes r: "at_blocks sn o1 bs [] (tb_Flush sn StringDest r0)"
  shows "fst (tb_Finish sn StringDest r0) = OK \<and> tb_file (snd (tb_Finish sn StringDest r0)) = table_image sn o1 bs \<and>
    FileSize (snd (tb_Finish sn StringDest r0)) = word_of_nat (length (table_image sn o1 bs))"
proof -
  define r1 where "r1 = (tb_Flush sn StringDest r0)\<lparr>tb_closed := True\<rparr>"
  have o: "tb_options r1 = o1" "index_block_options r1 = o1\<lparr>block_restart_interval := 1\<rparr>" "tb_status r1 = OK"
    "tb_file r1 = concat (data_blocks sn o1 bs)" "tb_offset r1 = word_of_nat (length (concat (data_blocks sn o1 bs)))"
    "index_block r1 = build_block 1 (entries_so_far sn o1 bs [])" "pending_index_entry r1 = (bs \<noteq> [])"
    "bs \<noteq> [] \<longrightarrow> pending_handle r1 = data_handle sn o1 bs (length bs - 1)" "bs \<noteq> [] \<longrightarrow> tb_last_key r1 = fst (last (last bs))"
    "filter_block r1 = filter_state sn o1 bs []"
    using r by (auto simp: at_blocks_def r1_def)
  define r2 where "r2 = filter_written sn o1 bs r1"
  have o2: "tb_options r2 = o1" "index_block_options r2 = o1\<lparr>block_restart_interval := 1\<rparr>" "tb_status r2 = OK"
    "tb_file r2 = concat (data_blocks sn o1 bs) @ filter_part sn o1 bs" "tb_offset r2 = word_of_nat (meta_pos sn o1 bs)"
    "index_block r2 = build_block 1 (entries_so_far sn o1 bs [])" "pending_index_entry r2 = (bs \<noteq> [])"
    "bs \<noteq> [] \<longrightarrow> pending_handle r2 = data_handle sn o1 bs (length bs - 1)" "bs \<noteq> [] \<longrightarrow> tb_last_key r2 = fst (last (last bs))"
    using o by (simp_all add: r2_def filter_written_def filter_part_def meta_pos_def)
  have f: "(case filter_block r1 of
       Some fb \<Rightarrow> if is_ok (tb_status r1) then WriteRawBlock StringDest (filter_Finish (the_policy (tb_options r1)) fb) kNoCompression r1
         else (BlockHandle, r1)
     | None \<Rightarrow> (BlockHandle, r1)) = (if opt_filter_policy o1 = None then BlockHandle else filter_handle sn o1 bs, r2)"
    using o(10) by (cases "opt_filter_policy o1")
      (auto simp: filter_state_def o WriteRaw_mem r2_def filter_written_def filter_part_def filter_contents_def filter_handle_def
        the_policy_def filter_groups_eq)
  have m: "meta_index_block o1 (if opt_filter_policy o1 = None then BlockHandle else filter_handle sn o1 bs) =
      meta_index_block o1 (filter_handle sn o1 bs)"
    by (simp add: meta_index_block_def)
  let ?mp = "packed_block sn o1 (meta_raw sn o1 bs)"
  define r3 where "r3 = r2\<lparr>tb_file := tb_file r2 @ ?mp, tb_status := OK, tb_offset := word_of_nat (index_pos sn o1 bs)\<rparr>"
  have w3: "WriteBlock sn StringDest (meta_index_block (tb_options r2) (if opt_filter_policy o1 = None then BlockHandle else filter_handle sn o1 bs)) r2 =
      (handle_at sn o1 (meta_pos sn o1 bs) (meta_raw sn o1 bs), BlockBuilder, r3)"
    unfolding WriteBlock_mem [OF o2(1)] o2(1) m by (simp add: o2 r3_def meta_raw_def handle_at_def index_pos_def)
  have o3: "tb_options r3 = o1" "tb_status r3 = OK" "tb_file r3 = tb_file r2 @ ?mp" "tb_offset r3 = word_of_nat (index_pos sn o1 bs)"
    by (simp_all add: r3_def o2)
  let ?r = "index_ready sn o1 bs r3" and ?ip = "packed_block sn o1 (index_raw sn o1 bs)"
  have ib: "index_block ?r = build_block 1 (index_entries sn o1 bs)"
    by (rule index_ready_block) (use o2 in \<open>simp_all add: r3_def\<close>)
  have w4: "WriteBlock sn StringDest (index_block ?r) ?r =
      (handle_at sn o1 (index_pos sn o1 bs) (index_raw sn o1 bs), BlockBuilder,
       ?r\<lparr>tb_file := tb_file r3 @ ?ip, tb_status := OK, tb_offset := tb_offset r3 + word_of_nat (length ?ip)\<rparr>)"
    unfolding WriteBlock_mem [of ?r o1, unfolded index_ready_simps, OF o3(1)] ib
    by (simp add: index_ready_simps o3 handle_at_def index_raw_def raw_block_def)
  let ?f = "footer_EncodeTo (table_footer sn o1 bs) []"
  have fin: "tb_Finish sn StringDest r0 = (OK, ?r\<lparr>tb_file := tb_file r3 @ ?ip @ ?f, tb_status := OK,
      tb_offset := tb_offset r3 + word_of_nat (length ?ip) + word_of_nat (length ?f), index_block := BlockBuilder\<rparr>)"
    unfolding tb_Finish_def Let_def r1_def [symmetric] f
    by (simp add: o2(3) o3(2) w3 index_ready_def [of sn o1 bs r3, symmetric] w4, simp add: StringDest_def table_footer_def)
  have "tb_file r3 @ ?ip @ ?f = table_image sn o1 bs" by (simp add: o3 o2 table_image_def)
  moreover have "tb_offset r3 + word_of_nat (length ?ip) + word_of_nat (length ?f) = word_of_nat (length (table_image sn o1 bs))"
    by (simp add: o3 table_image_def index_pos_def meta_pos_def)
  ultimately show ?thesis by (simp add: fin FileSize_def)
qed

lemma image_of_build:
  "fst (build_table sn o1 kvs) = OK \<and> tb_file (snd (build_table sn o1 kvs)) = table_image sn o1 (split_blocks o1 [] kvs) \<and>
    FileSize (snd (build_table sn o1 kvs)) = word_of_nat (length (table_image sn o1 (split_blocks o1 [] kvs)))"
proof -
  obtain bs cur where b: "at_blocks sn o1 bs cur (fold (\<lambda>(k, v). tb_Add sn StringDest k v) kvs (TableBuilder o1 []))"
      "split_blocks o1 [] kvs = bs @ (if cur = [] then [] else [cur])"
    using fold_Add_blocks [OF at_blocks_init, of sn o1 kvs] by auto
  show ?thesis unfolding build_table_def b(2) by (rule Finish_image [OF block_Flush_last [OF b(1)]])
qed

text \<open>C24: what the builder writes for any list of entries, with any options, is the image of the entries: the
  blocks that fill up, each with its type and checksum, the filter, the index of the filter, the index with
  its separators, and the footer; \<open>FileSize\<close> is its length.\<close>

theorem build_table_image:
  "fst (build_table sn o1 kvs) = OK \<and> tb_file (snd (build_table sn o1 kvs)) = table_image sn o1 (split_blocks o1 [] kvs) \<and>
    FileSize (snd (build_table sn o1 kvs)) = word_of_nat (length (table_image sn o1 (split_blocks o1 [] kvs)))"
  by (rule image_of_build)

end
