(* ===== verification/Ldb_Table_Props.thy ===== *)
theory Ldb_Table_Props
  imports Ldb_Table Ldb_Table_Build_Props
begin

text \<open>
  A table that was built is read back: opening the file that the builder wrote gives a table whose
  blocks are those of the image, so its two-level iterator goes over the entries, and lookups
  find them.
\<close>

section \<open>Reading the parts of the image\<close>

text \<open>The sizes for which the formats work: offsets in a block are 32 bits wide, those in a file 64.\<close>

definition table_fits :: "snappy \<Rightarrow> options \<Rightarrow> kvs list \<Rightarrow> bool" where
  "table_fits sn o1 bs \<longleftrightarrow> 0 < block_restart_interval o1 \<and>
     (\<forall>b\<in>set bs. length (raw_block (block_restart_interval o1) b) < 2 ^ 32) \<and>
     length (index_raw sn o1 bs) < 2 ^ 32 \<and> length (meta_raw sn o1 bs) < 2 ^ 32 \<and> length (table_image sn o1 bs) < 2 ^ 64"

lemma length_packed: "length (packed_block sn o1 raw) = packed_size sn o1 raw + 5"
  by (simp add: packed_block_def packed_size_def length_stored split: prod.split)

lemma compressed_cases:
  assumes "snappy_ok sn" "compressed_block sn ct raw = (z, t)"
  shows "t = kNoCompression \<and> z = raw \<or>
    Snappy_GetUncompressedLength sn z = Some (length raw) \<and> Snappy_Uncompress sn z = Some raw"
  using assms by (auto simp: compressed_block_def snappy_ok_def split: CompressionType.splits option.splits if_splits)

lemma ReadBlock_packed:
  assumes "snappy_ok sn" "drop (unat (bh_offset h)) bs = packed_block sn o1 raw @ rest"
    "unat (bh_size h) = packed_size sn o1 raw" "length bs < 2 ^ 64"
  shows "\<exists>b. ReadBlock sn (memory_file in_buf bs) ro h = (OK, b) \<and> bc_data b = raw"
proof -
  obtain z t where z: "compressed_block sn (compression o1) raw = (z, t)" by (cases "compressed_block sn (compression o1) raw")
  have d: "drop (unat (bh_offset h)) bs = stored z t @ rest" "unat (bh_size h) = length z"
    using assms(2,3) by (simp_all add: packed_block_def packed_size_def z)
  have "length (stored z t @ rest) \<le> length bs" by (metis d(1) diff_le_self length_drop)
  then have l: "length z + 5 < 2 ^ 64" using assms(4) by (simp add: length_stored)
  have c: "t = kNoCompression \<or> Snappy_GetUncompressedLength sn z = Some (length raw) \<and> Snappy_Uncompress sn z = Some raw"
      "t = kNoCompression \<Longrightarrow> raw = z"
    using z compressed_cases [OF assms(1) z]
    by (auto simp: compressed_block_def split: CompressionType.splits option.splits if_splits)
  show ?thesis by (rule ReadBlock_stored [OF d l c])
qed

lemma image_at_handle:
  assumes "table_image sn o1 bs = pre @ packed_block sn o1 raw @ rest" "h = handle_at sn o1 (length pre) raw"
    "snappy_ok sn" "length (table_image sn o1 bs) < 2 ^ 64"
  shows "\<exists>b. ReadBlock sn (memory_file in_buf (table_image sn o1 bs)) ro h = (OK, b) \<and> bc_data b = raw"
proof (rule ReadBlock_packed [OF assms(3)])
  have l: "length pre + packed_size sn o1 raw < 2 ^ 64" using assms(1,4) length_packed [of sn o1 raw] by simp
  then have "unat (bh_offset h) = length pre" "unat (bh_size h) = packed_size sn o1 raw"
    unfolding assms(2) handle_at_def by (simp_all add: unat_of_nat)
  then show "drop (unat (bh_offset h)) (table_image sn o1 bs) = packed_block sn o1 raw @ rest"
    "unat (bh_size h) = packed_size sn o1 raw"
    by (simp_all add: assms(1))
qed (rule assms(4))

lemma data_read:
  assumes "snappy_ok sn" "table_fits sn o1 bs" "i < length bs"
  shows "\<exists>b. ReadBlock sn (memory_file in_buf (table_image sn o1 bs)) ro (data_handle sn o1 bs i) = (OK, b) \<and>
    bc_data b = raw_block (block_restart_interval o1) (bs ! i)"
proof (rule image_at_handle)
  have "concat (data_blocks sn o1 bs) = concat (take i (data_blocks sn o1 bs)) @
      packed_block sn o1 (raw_block (block_restart_interval o1) (bs ! i)) @ concat (drop (Suc i) (data_blocks sn o1 bs))"
    using concat_split [of i "data_blocks sn o1 bs"] assms(3) by (simp add: data_blocks_def)
  then show "table_image sn o1 bs = concat (take i (data_blocks sn o1 bs)) @
      packed_block sn o1 (raw_block (block_restart_interval o1) (bs ! i)) @
      concat (drop (Suc i) (data_blocks sn o1 bs)) @ filter_part sn o1 bs @ packed_block sn o1 (meta_raw sn o1 bs) @
      packed_block sn o1 (index_raw sn o1 bs) @ footer_EncodeTo (table_footer sn o1 bs) []"
    by (simp add: table_image_def)
qed (use assms in \<open>simp_all add: data_handle_def start_def table_fits_def\<close>)

lemma meta_read:
  assumes "snappy_ok sn" "table_fits sn o1 bs"
  shows "\<exists>b. ReadBlock sn (memory_file in_buf (table_image sn o1 bs)) ro (metaindex_handle (table_footer sn o1 bs)) = (OK, b) \<and>
    bc_data b = meta_raw sn o1 bs"
  by (rule image_at_handle [where pre = "concat (data_blocks sn o1 bs) @ filter_part sn o1 bs" and
        rest = "packed_block sn o1 (index_raw sn o1 bs) @ footer_EncodeTo (table_footer sn o1 bs) []"])
    (use assms in \<open>simp_all add: table_footer_def meta_pos_def table_fits_def, simp add: table_image_def table_footer_def meta_pos_def\<close>)

lemma index_read:
  assumes "snappy_ok sn" "table_fits sn o1 bs"
  shows "\<exists>b. ReadBlock sn (memory_file in_buf (table_image sn o1 bs)) ro (index_handle (table_footer sn o1 bs)) = (OK, b) \<and>
    bc_data b = index_raw sn o1 bs"
  by (rule image_at_handle [where pre = "concat (data_blocks sn o1 bs) @ filter_part sn o1 bs @ packed_block sn o1 (meta_raw sn o1 bs)" and
        rest = "footer_EncodeTo (table_footer sn o1 bs) []"])
    (use assms in \<open>simp_all add: table_footer_def index_pos_def meta_pos_def table_fits_def add.assoc, simp add: table_image_def table_footer_def index_pos_def meta_pos_def add.assoc\<close>)

section \<open>Opening\<close>

lemma fresh_invalid: "block_NewIterator b = BlockIterator it \<Longrightarrow> \<not> bi_Valid it"
  by (auto simp: block_NewIterator_def block_Iter_def bi_Valid_def Let_def split: if_splits)

lemma raw_over:
  assumes "0 < interval" "length (raw_block interval kvs) < 2 ^ 32" "ascending_keys c (map fst kvs)"
  shows "block_over c (block_NewIterator (Block (raw_block interval kvs))) kvs (length kvs)"
proof -
  obtain it es rs where it: "block_NewIterator (Block (raw_block interval kvs)) = BlockIterator it" "reads es rs it" "map snd es = kvs"
    unfolding raw_block_def by (rule built_reads [OF assms(1) assms(2) [unfolded raw_block_def]])
  have "result es rs it (length es)" using it(2) fresh_invalid [OF it(1)] by (simp add: result_def at_end_def)
  moreover have "length es = length kvs" using it(3) by auto
  ultimately show ?thesis using it assms(3) by (auto simp: block_over_def)
qed

lemma it_Seek_block: "it_Seek (block_ops c) k it = Some (on_block (bi_Seek c k) it)"
  by (simp add: block_ops_def lift_block_def)

lemma meta_raw_block:
  "opt_filter_policy o1 = Some (name, p) \<Longrightarrow>
    meta_raw sn o1 bs = raw_block (block_restart_interval o1) [(filter_prefix @ name, bh_EncodeTo (filter_handle sn o1 bs) [])]"
  by (simp add: meta_raw_def meta_index_block_def raw_block_def build_block_def)

lemma filter_read:
  assumes "table_fits sn o1 bs" "opt_filter_policy o1 \<noteq> None"
  shows "\<exists>b. ReadBlock sn (memory_file in_buf (table_image sn o1 bs)) ro (filter_handle sn o1 bs) = (OK, b) \<and>
    bc_data b = filter_contents sn o1 bs"
proof (rule ReadBlock_stored [where t = kNoCompression])
  have l: "length (concat (data_blocks sn o1 bs)) + length (filter_contents sn o1 bs) + 5 < 2 ^ 64"
    using assms by (auto simp: table_fits_def table_image_def filter_part_def length_stored)
  then show "length (filter_contents sn o1 bs) + 5 < 2 ^ 64" by simp
  have u: "unat (bh_offset (filter_handle sn o1 bs)) = length (concat (data_blocks sn o1 bs))"
    "unat (bh_size (filter_handle sn o1 bs)) = length (filter_contents sn o1 bs)"
    using l unfolding filter_handle_def by (simp_all add: unat_of_nat)
  from u(2) show "unat (bh_size (filter_handle sn o1 bs)) = length (filter_contents sn o1 bs)" .
  show "drop (unat (bh_offset (filter_handle sn o1 bs))) (table_image sn o1 bs) =
      stored (filter_contents sn o1 bs) kNoCompression @ packed_block sn o1 (meta_raw sn o1 bs) @
      packed_block sn o1 (index_raw sn o1 bs) @ footer_EncodeTo (table_footer sn o1 bs) []"
    unfolding u table_image_def using assms(2) by (auto simp: filter_part_def)
qed simp_all

definition opened :: "snappy \<Rightarrow> options \<Rightarrow> kvs list \<Rightarrow> bool \<Rightarrow> table \<Rightarrow> bool" where
  "opened sn o1 bs in_buf t \<longleftrightarrow> tbl_options t = o1 \<and> tbl_file t = memory_file in_buf (table_image sn o1 bs) \<and>
     tbl_index t = Block (index_raw sn o1 bs) \<and> tbl_metaindex t = metaindex_handle (table_footer sn o1 bs) \<and>
     tbl_filter t = map_option (\<lambda>_. FilterBlockReader (filter_contents sn o1 bs)) (opt_filter_policy o1)"

lemma ReadFilter_opened:
  assumes "table_fits sn o1 bs" "opt_filter_policy o1 \<noteq> None" "tbl_options t = o1"
    "tbl_file t = memory_file in_buf (table_image sn o1 bs)"
  shows "ReadFilter sn (bh_EncodeTo (filter_handle sn o1 bs) []) t = t\<lparr>tbl_filter := Some (FilterBlockReader (filter_contents sn o1 bs))\<rparr>"
proof -
  obtain b where "ReadBlock sn (tbl_file t) (paranoid_read (tbl_options t)) (filter_handle sn o1 bs) = (OK, b)"
      "bc_data b = filter_contents sn o1 bs"
    using filter_read [OF assms(1,2)] assms(4) by metis
  then show ?thesis using bh_Decode_Encode [of "filter_handle sn o1 bs" "[]"] by (simp add: ReadFilter_def)
qed

lemma ReadMeta_opened:
  assumes "snappy_ok sn" "table_fits sn o1 bs" "tbl_options t = o1" "tbl_filter t = None"
    "tbl_file t = memory_file in_buf (table_image sn o1 bs)"
  shows "ReadMeta sn (table_footer sn o1 bs) t =
    t\<lparr>tbl_filter := map_option (\<lambda>_. FilterBlockReader (filter_contents sn o1 bs)) (opt_filter_policy o1)\<rparr>"
proof (cases "opt_filter_policy o1")
  case None
  then show ?thesis using assms(3,4) by (simp add: ReadMeta_def)
next
  case (Some np)
  obtain name p where np: "np = (name, p)" by (cases np)
  obtain b where b: "ReadBlock sn (tbl_file t) (paranoid_read o1) (metaindex_handle (table_footer sn o1 bs)) = (OK, b)"
      "bc_data b = meta_raw sn o1 bs"
    using meta_read [OF assms(1,2)] assms(5) by metis
  let ?key = "filter_prefix @ name" and ?v = "bh_EncodeTo (filter_handle sn o1 bs) []"
  let ?it = "block_NewIterator (Block (meta_raw sn o1 bs))" and ?ops = "block_ops BytewiseComparator"
  have "block_over BytewiseComparator ?it [(?key, ?v)] 1"
    using raw_over [of "block_restart_interval o1" "[(?key, ?v)]" BytewiseComparator] assms(2) Some np
    by (simp add: table_fits_def meta_raw_block ascending_keys_def)
  from bytewise_blocks.moves_seek [OF this, of ?key]
  have over: "block_over BytewiseComparator (on_block (bi_Seek BytewiseComparator ?key) ?it) [(?key, ?v)] 0"
    by (simp add: it_Seek_block lands_def lower_bound_def bytewise.compare_refl)
  have "it_Valid ?ops (on_block (bi_Seek BytewiseComparator ?key) ?it)"
    "it_key ?ops (on_block (bi_Seek BytewiseComparator ?key) ?it) = ?key"
    "it_value ?ops (on_block (bi_Seek BytewiseComparator ?key) ?it) = ?v"
    using bytewise_blocks.valid [OF over] bytewise_blocks.key [OF over] bytewise_blocks.val [OF over] by simp_all
  then show ?thesis
    using ReadFilter_opened [OF assms(2) _ assms(3,5)] b Some np assms(3)
    by (simp add: ReadMeta_def Let_def filter_prefix_def)
qed

lemma image_footer:
  assumes "table_fits sn o1 bs"
  shows "kEncodedLength \<le> length (table_image sn o1 bs)"
    "drop (unat (word_of_nat (length (table_image sn o1 bs)) - word_of_nat kEncodedLength :: u64)) (table_image sn o1 bs) =
      footer_EncodeTo (table_footer sn o1 bs) []"
proof -
  let ?im = "table_image sn o1 bs"
  show le: "kEncodedLength \<le> length ?im" by (simp add: table_image_def length_footer)
  then have "word_of_nat (length ?im) - word_of_nat kEncodedLength = (word_of_nat (length ?im - kEncodedLength) :: u64)"
    by (simp add: of_nat_diff)
  moreover have "unat (word_of_nat (length ?im - kEncodedLength) :: u64) = length ?im - kEncodedLength"
    using assms le unfolding unat_of_nat by (simp add: table_fits_def less_imp_diff_less)
  moreover have "length ?im - kEncodedLength = length (concat (data_blocks sn o1 bs) @ filter_part sn o1 bs @
      packed_block sn o1 (meta_raw sn o1 bs) @ packed_block sn o1 (index_raw sn o1 bs))"
    by (simp add: table_image_def length_footer)
  ultimately show "drop (unat (word_of_nat (length ?im) - word_of_nat kEncodedLength :: u64)) ?im =
      footer_EncodeTo (table_footer sn o1 bs) []"
    by (simp add: table_image_def)
qed

lemma table_opens:
  assumes "snappy_ok sn" "table_fits sn o1 bs"
  shows "\<exists>t. Table_Open sn o1 (memory_file in_buf (table_image sn o1 bs)) (word_of_nat (length (table_image sn o1 bs))) new_id = (OK, Some t) \<and>
    opened sn o1 bs in_buf t"
proof -
  let ?im = "table_image sn o1 bs" and ?f = "table_footer sn o1 bs"
  let ?file = "memory_file in_buf ?im"
  let ?t = "\<lparr>tbl_options = o1, tbl_file = ?file, cache_id = new_id, tbl_filter = None,
     tbl_metaindex = metaindex_handle ?f, tbl_index = Block (index_raw sn o1 bs)\<rparr>"
  obtain b where b: "ReadBlock sn ?file (paranoid_read o1) (index_handle ?f) = (OK, b)" "bc_data b = index_raw sn o1 bs"
    using index_read [OF assms] by blast
  have n: "\<not> word_of_nat (length ?im) < (word_of_nat kEncodedLength :: u64)"
    using image_footer(1) [OF assms(2)] assms(2)
    by (simp add: table_fits_def word_less_nat_alt unat_of_nat kEncodedLength_def kMaxEncodedLength_def)
  have r: "ra_Read ?file (word_of_nat (length ?im) - word_of_nat kEncodedLength) kEncodedLength = (OK, footer_EncodeTo ?f [], in_buf)"
    unfolding memory_file_def by (simp add: image_footer(2) [OF assms(2)] length_footer)
  have "Table_Open sn o1 ?file (word_of_nat (length ?im)) new_id = (OK, Some (ReadMeta sn ?f ?t))"
    unfolding Table_Open_def r using n b by (simp add: footer_Decode_Encode)
  also have "ReadMeta sn ?f ?t = ?t\<lparr>tbl_filter := map_option (\<lambda>_. FilterBlockReader (filter_contents sn o1 bs)) (opt_filter_policy o1)\<rparr>"
    by (rule ReadMeta_opened [OF assms]) simp_all
  finally show ?thesis by (simp add: opened_def)
qed

section \<open>The order of the index\<close>

text \<open>The blocks are not empty, the keys are legal and ascending.\<close>

definition blocks_ok :: "comparator \<Rightarrow> (slice \<Rightarrow> bool) \<Rightarrow> kvs list \<Rightarrow> bool" where
  "blocks_ok c ok bs \<longleftrightarrow> (\<forall>b\<in>set bs. b \<noteq> []) \<and> (\<forall>kv\<in>set (concat bs). ok (fst kv)) \<and> ascending_keys c (map fst (concat bs))"

lemma ascending_append: "ascending_keys c (ks @ ls) \<longleftrightarrow> ascending_keys c ks \<and> ascending_keys c ls \<and>
    (\<forall>k\<in>set ks. \<forall>l\<in>set ls. Compare c k l < 0)"
  by (simp add: ascending_keys_def sorted_wrt_append)

lemma blocks_ok_Cons: "blocks_ok c ok (b # bs) \<longleftrightarrow> b \<noteq> [] \<and> (\<forall>kv\<in>set b. ok (fst kv)) \<and> ascending_keys c (map fst b) \<and>
    (\<forall>k\<in>set b. \<forall>l\<in>set (concat bs). Compare c (fst k) (fst l) < 0) \<and> blocks_ok c ok bs"
  by (auto simp: blocks_ok_def ascending_append)

lemma length_index_keys [simp]: "length (index_keys c bs) = length bs"
  by (cases bs) (simp_all add: index_keys_def length_separators)

lemma index_keys_simps: "index_keys c [] = []" "index_keys c [b] = [FindShortSuccessor c (fst (last b))]"
  "index_keys c (b # b' # bs) = FindShortestSeparator c (fst (last b)) (fst (hd b')) # index_keys c (b' # bs)"
  by (simp_all add: index_keys_def)

context comparator_contract
begin

lemma le_less_trans: "dom x \<Longrightarrow> dom y \<Longrightarrow> Compare c x y \<le> 0 \<Longrightarrow> Compare c y z < 0 \<Longrightarrow> Compare c x z < 0"
  using compare_eq [of x y] compare_trans [of x y z] by (cases "Compare c x y = 0") auto

lemma less_le_trans: "dom y \<Longrightarrow> dom z \<Longrightarrow> Compare c x y < 0 \<Longrightarrow> Compare c y z \<le> 0 \<Longrightarrow> Compare c x z < 0"
  using compare_eq [of y z] compare_trans [of x y z] by (cases "Compare c y z = 0") auto

lemma last_le: "ascending_keys c (map fst b) \<Longrightarrow> b \<noteq> [] \<Longrightarrow> \<forall>kv\<in>set b. dom (fst kv) \<Longrightarrow> kv \<in> set b \<Longrightarrow>
    Compare c (fst kv) (fst (last b)) \<le> 0"
  by (cases b rule: rev_cases) (auto simp: ascending_append)

lemma hd_le: "ascending_keys c (map fst b) \<Longrightarrow> b \<noteq> [] \<Longrightarrow> \<forall>kv\<in>set b. dom (fst kv) \<Longrightarrow> kv \<in> set b \<Longrightarrow>
    Compare c (fst (hd b)) (fst kv) \<le> 0"
  by (cases b) (auto simp: ascending_keys_def)

text \<open>Every index key lies between its block and the blocks behind it.\<close>

lemma index_keys_between:
  "blocks_ok c dom bs \<Longrightarrow> (\<forall>k\<in>set (index_keys c bs). dom k) \<and>
    (\<forall>j<length bs. \<forall>kv\<in>set (bs ! j). Compare c (fst kv) (index_keys c bs ! j) \<le> 0) \<and>
    (\<forall>j<length bs. \<forall>i<j. \<forall>kv\<in>set (bs ! j). Compare c (index_keys c bs ! i) (fst kv) < 0)"
proof (induction bs)
  case (Cons b bs)
  note ok = Cons.prems [unfolded blocks_ok_Cons]
  have b: "dom (fst (last b))" "\<And>kv. kv \<in> set b \<Longrightarrow> dom (fst kv)" "\<And>kv. kv \<in> set b \<Longrightarrow> Compare c (fst kv) (fst (last b)) \<le> 0"
    using ok last_le [of b] by auto
  show ?case
  proof (cases bs)
    case Nil
    then show ?thesis
      using b successor_dom [OF b(1)] compare_le_trans [OF b(2) b(1) successor_dom [OF b(1)] b(3) successor_ge [OF b(1)]]
      by (auto simp: index_keys_simps)
  next
    case (Cons b' bs')
    let ?s = "FindShortestSeparator c (fst (last b)) (fst (hd b'))"
    have hd: "dom (fst (hd b'))" "Compare c (fst (last b)) (fst (hd b')) < 0" using ok Cons by (auto simp: blocks_ok_Cons)
    note s = separator_dom [OF b(1) hd(1)] separator_ge [OF b(1) hd] separator_less [OF b(1) hd]
    have low: "Compare c (fst kv) ?s \<le> 0" if "kv \<in> set b" for kv
      by (rule compare_le_trans [OF b(2) [OF that] b(1) s(1) b(3) [OF that] s(2)])
    have high: "Compare c ?s (fst kv) < 0" if j: "j < length bs" "kv \<in> set (bs ! j)" for kv j
    proof -
      have kv: "kv \<in> set (concat bs)" using j nth_mem by auto
      have d: "dom (fst kv)" using ok kv by (auto simp: blocks_ok_def)
      have "Compare c (fst (hd b')) (fst kv) \<le> 0"
      proof (cases "kv \<in> set b'")
        case True
        then show ?thesis using hd_le [of b' kv] ok Cons by (auto simp: blocks_ok_Cons)
      next
        case False
        then have "kv \<in> set (concat bs')" using kv Cons by simp
        moreover have "hd b' \<in> set b'" using ok Cons by (auto simp: blocks_ok_Cons)
        moreover have "\<forall>k\<in>set b'. \<forall>l\<in>set (concat bs'). Compare c (fst k) (fst l) < 0"
          using ok Cons by (simp add: blocks_ok_Cons del: set_concat)
        ultimately show ?thesis by (meson less_imp_le)
      qed
      with less_le_trans [OF hd(1) d s(3)] show ?thesis .
    qed
    have e: "index_keys c (b # bs) = ?s # index_keys c bs" by (simp add: Cons index_keys_simps)
    have IH: "(\<forall>k\<in>set (index_keys c bs). dom k) \<and>
        (\<forall>j<length bs. \<forall>kv\<in>set (bs ! j). Compare c (fst kv) (index_keys c bs ! j) \<le> 0) \<and>
        (\<forall>j<length bs. \<forall>i<j. \<forall>kv\<in>set (bs ! j). Compare c (index_keys c bs ! i) (fst kv) < 0)"
      using Cons.IH ok by blast
    show ?thesis unfolding e using IH s(1) low high by (auto simp: nth_Cons split: nat.split)
  qed
qed (simp add: index_keys_simps)

lemma index_keys_ascending:
  assumes "blocks_ok c dom bs"
  shows "ascending_keys c (index_keys c bs)"
  unfolding ascending_keys_def sorted_wrt_iff_nth_less
proof (intro allI impI)
  fix i j
  assume ij: "i < j" "j < length (index_keys c bs)"
  then have "bs ! j \<in> set bs" by simp
  then obtain kv where kv: "kv \<in> set (bs ! j)" using assms unfolding blocks_ok_def by (meson last_in_set)
  then have "dom (fst kv)" using assms \<open>bs ! j \<in> set bs\<close> by (auto simp: blocks_ok_def)
  moreover have "Compare c (index_keys c bs ! i) (fst kv) < 0" "Compare c (fst kv) (index_keys c bs ! j) \<le> 0"
    "dom (index_keys c bs ! j)"
    using index_keys_between [OF assms] ij kv by auto
  ultimately show "Compare c (index_keys c bs ! i) (index_keys c bs ! j) < 0" using less_le_trans by blast
qed

end

section \<open>The iterator\<close>

lemma start_less: "i < j \<Longrightarrow> j \<le> length dss \<Longrightarrow> \<forall>d\<in>set dss. d \<noteq> [] \<Longrightarrow> start dss i < start dss j"
proof (induction j)
  case (Suc j)
  have "dss ! j \<noteq> []" using Suc.prems by simp
  then have "start dss j < start dss (Suc j)" using Suc.prems by (simp add: start_Suc)
  then show ?case using Suc.IH Suc.prems by (cases "i = j") auto
qed simp

lemma start_bound: "start dss i \<le> length (concat dss)"
  unfolding start_def by (metis append_take_drop_id concat_append le_add1 length_append)

lemma handle_offset:
  assumes "table_fits sn o1 bs" "i < length bs"
  shows "unat (bh_offset (data_handle sn o1 bs i)) = start (data_blocks sn o1 bs) i"
proof -
  have "start (data_blocks sn o1 bs) i < 2 ^ 64"
    using start_bound [of "data_blocks sn o1 bs" i] assms(1) by (simp add: table_fits_def table_image_def)
  then show ?thesis by (simp add: data_handle_def handle_at_def unat_of_nat)
qed

lemma handles_distinct:
  assumes "table_fits sn o1 bs"
  shows "distinct (handles sn o1 bs)"
proof -
  have "bh_EncodeTo (data_handle sn o1 bs i) [] \<noteq> bh_EncodeTo (data_handle sn o1 bs j) []"
    if "i < j" "j < length bs" for i j
  proof
    assume "bh_EncodeTo (data_handle sn o1 bs i) [] = bh_EncodeTo (data_handle sn o1 bs j) []"
    then have "data_handle sn o1 bs i = data_handle sn o1 bs j"
      using bh_Decode_Encode [of "data_handle sn o1 bs i" "[]" BlockHandle] bh_Decode_Encode [of "data_handle sn o1 bs j" "[]" BlockHandle] by simp
    moreover have "start (data_blocks sn o1 bs) i < start (data_blocks sn o1 bs) j"
      by (rule start_less [OF that(1)])
        (use that(2) length_packed in \<open>auto simp: data_blocks_def simp flip: length_greater_0_conv\<close>)
    ultimately show False using handle_offset [OF assms, of i] handle_offset [OF assms, of j] that by simp
  qed
  then show ?thesis unfolding handles_def distinct_conv_nth by (auto simp: nat_neq_iff) metis+
qed

lemma index_entries_zip: "index_entries sn o1 bs = zip (index_keys (opt_comparator o1) bs) (handles sn o1 bs)"
  by (simp add: index_entries_def handles_def)

lemma length_index_entries [simp]: "length (index_entries sn o1 bs) = length bs"
  by (simp add: index_entries_zip)

lemma block_function_handle:
  assumes "snappy_ok sn" "table_fits sn o1 bs" "opened sn o1 bs in_buf t" "i < length bs"
  shows "block_function sn t ro (snd (index_entries sn o1 bs ! i)) =
    block_NewIterator (Block (raw_block (block_restart_interval o1) (bs ! i)))"
proof -
  have v: "snd (index_entries sn o1 bs ! i) = bh_EncodeTo (data_handle sn o1 bs i) []"
    using assms(4) by (simp add: index_entries_zip handles_def)
  obtain b where "ReadBlock sn (tbl_file t) ro (data_handle sn o1 bs i) = (OK, b)"
      "bc_data b = raw_block (block_restart_interval o1) (bs ! i)"
    using data_read [OF assms(1,2,4)] assms(3) unfolding opened_def by metis
  then show ?thesis
    using bh_Decode_Encode [of "data_handle sn o1 bs i" "[]"] unfolding v
    by (simp add: block_function_def BlockReader_def read_block_def Let_def)
qed

lemma block_over_data:
  assumes "snappy_ok sn" "table_fits sn o1 bs" "opened sn o1 bs in_buf t" "blocks_ok c ok bs" "i < length bs"
  shows "block_over c (block_function sn t ro (snd (index_entries sn o1 bs ! i))) (bs ! i) (length (bs ! i))"
proof -
  have "ascending_keys c (map fst (concat (take i bs)) @ map fst (bs ! i) @ map fst (concat (drop (Suc i) bs)))"
    using assms(4) concat_split [OF assms(5)] by (simp add: blocks_ok_def)
  then have "ascending_keys c (map fst (bs ! i))" by (simp add: ascending_append)
  then show ?thesis
    unfolding block_function_handle [OF assms(1,2,3,5)] using assms(2,5) by (intro raw_over) (simp_all add: table_fits_def)
qed

lemma block_over_index:
  assumes "table_fits sn o1 bs" "opened sn o1 bs in_buf t" "comparator_contract (opt_comparator o1) ok" "blocks_ok (opt_comparator o1) ok bs"
  shows "block_over (opt_comparator o1) (block_NewIterator (tbl_index t)) (index_entries sn o1 bs) (length bs)"
proof -
  have "map fst (index_entries sn o1 bs) = index_keys (opt_comparator o1) bs" by (simp add: index_entries_zip)
  then have "ascending_keys (opt_comparator o1) (map fst (index_entries sn o1 bs))"
    using comparator_contract.index_keys_ascending [OF assms(3,4)] by simp
  with raw_over [of 1 "index_entries sn o1 bs"] assms(1,2) show ?thesis
    by (simp add: opened_def index_raw_def table_fits_def)
qed

lemma block_contract_of: "comparator_contract c ok \<Longrightarrow> list_iterator (block_ops c) c ok (block_over c)"
  by (rule block_contract) (rule comparator_contract.compare_trans)

lemma table_two_level: "comparator_contract c ok \<Longrightarrow> two_level c ok (block_ops c) (block_over c) (block_ops c) (block_over c)"
  by (simp add: two_level_def block_contract_of)

interpretation bytewise_tables: two_level BytewiseComparator "\<lambda>_. True" "block_ops BytewiseComparator" "block_over BytewiseComparator"
    "block_ops BytewiseComparator" "block_over BytewiseComparator" "block_function sn t ro" for sn t ro
  by (rule table_two_level) (rule bytewise.comparator_contract_axioms)

abbreviation table_over :: "snappy \<Rightarrow> comparator \<Rightarrow> (slice \<Rightarrow> bool) \<Rightarrow> table \<Rightarrow> read_options \<Rightarrow> (block_iterator, block_iterator) two_level \<Rightarrow> kvs \<Rightarrow> nat \<Rightarrow> bool" where
  "table_over sn c ok t ro \<equiv> two_level.tl_over c ok (block_over c) (block_over c) (block_function sn t ro)"

abbreviation table_parts :: "snappy \<Rightarrow> comparator \<Rightarrow> (slice \<Rightarrow> bool) \<Rightarrow> table \<Rightarrow> read_options \<Rightarrow> kvs \<Rightarrow> kvs list \<Rightarrow> bool" where
  "table_parts sn c ok t ro \<equiv> two_level.parts c ok (block_over c) (block_function sn t ro)"

lemma table_parts:
  assumes "snappy_ok sn" "table_fits sn o1 bs" "opened sn o1 bs in_buf t"
    "comparator_contract (opt_comparator o1) ok" "blocks_ok (opt_comparator o1) ok bs"
  shows "table_parts sn (opt_comparator o1) ok t ro (index_entries sn o1 bs) bs"
proof -
  note two = table_two_level [OF assms(4)]
  note keys = comparator_contract.index_keys_between [OF assms(4,5)]
  have snds: "map snd (index_entries sn o1 bs) = handles sn o1 bs" by (simp add: index_entries_zip)
  have key: "fst (index_entries sn o1 bs ! j) = index_keys (opt_comparator o1) bs ! j" if "j < length bs" for j
    using that by (simp add: index_entries_zip)
  have "\<forall>kv\<in>set (index_entries sn o1 bs). ok (fst kv)"
    using keys by (auto simp: index_entries_zip dest: set_zip_leftD)
  moreover have "\<forall>kv\<in>set (concat bs). ok (fst kv)" using assms(5) by (simp add: blocks_ok_def)
  ultimately have "\<forall>kv\<in>set (index_entries sn o1 bs) \<union> set (concat bs). ok (fst kv)" by blast
  moreover have "\<forall>j<length bs. \<exists>p. block_over (opt_comparator o1) (block_function sn t ro (snd (index_entries sn o1 bs ! j))) (bs ! j) p"
    using block_over_data [OF assms(1,2,3,5)] by blast
  ultimately show ?thesis
    unfolding two_level.parts_def [OF two] using keys key handles_distinct [OF assms(2)] snds by simp
qed

lemma table_iterator:
  assumes "snappy_ok sn" "table_fits sn o1 bs" "opened sn o1 bs in_buf t"
    "comparator_contract (opt_comparator o1) ok" "blocks_ok (opt_comparator o1) ok bs"
  shows "list_iterator (table_ops sn t ro) (opt_comparator o1) ok (table_over sn (opt_comparator o1) ok t ro)"
    "table_over sn (opt_comparator o1) ok t ro (table_NewIterator t) (concat bs) (length (concat bs))"
proof -
  let ?c = "opt_comparator o1"
  note two = table_two_level [OF assms(4)]
  have c: "tbl_comparator t = ?c" using assms(3) by (simp add: tbl_comparator_def opened_def)
  show "list_iterator (table_ops sn t ro) ?c ok (table_over sn ?c ok t ro)"
    unfolding table_ops_def c by (rule two_level.two_level_contract [OF two])
  have "list_iterator.w_over (block_over ?c) (w_Set (block_ops ?c) (Some (block_NewIterator (tbl_index t))) IteratorWrapper)
      (index_entries sn o1 bs) (length (index_entries sn o1 bs))"
    using list_iterator.w_Set_over [OF block_contract_of [OF assms(4)] block_over_index [OF assms(2,3,4,5)]] by simp
  then have "two_level.exhausted (block_over ?c) (table_NewIterator t) (index_entries sn o1 bs)"
    unfolding two_level.exhausted_def [OF two] two_level.idle_def [OF two]
    by (simp add: table_NewIterator_def TwoLevelIterator_def c w_Set_def IteratorWrapper_def Let_def)
  from two_level.over_exhausted [OF two table_parts [OF assms] this]
  show "table_over sn ?c ok t ro (table_NewIterator t) (concat bs) (length (concat bs))" .
qed

section \<open>Lookups\<close>

lemma split_blocks_concat: "concat (split_blocks o1 cur kvs) = cur @ kvs"
  by (induction kvs arbitrary: cur) (simp_all add: Let_def)

lemma split_blocks_nonempty: "b \<in> set (split_blocks o1 cur kvs) \<Longrightarrow> b \<noteq> []"
  by (induction kvs arbitrary: cur) (auto simp: Let_def split: if_splits)

lemma split_blocks_ok:
  "\<forall>kv\<in>set kvs. ok (fst kv) \<Longrightarrow> ascending_keys c (map fst kvs) \<Longrightarrow> blocks_ok c ok (split_blocks o1 [] kvs)"
  unfolding blocks_ok_def split_blocks_concat using split_blocks_nonempty by simp

text \<open>Whether the filter of the table lets a key pass to a block.\<close>

definition filter_passes :: "table \<Rightarrow> block_handle \<Rightarrow> slice \<Rightarrow> bool" where
  "filter_passes t h k \<longleftrightarrow> (case tbl_filter t of None \<Rightarrow> True
     | Some fr \<Rightarrow> filter_KeyMayMatch (the_policy (tbl_options t)) fr (bh_offset h) k)"

text \<open>The entry that a lookup in a table finds: the first one at or behind the key in the block of the index.\<close>

definition get_entry :: "snappy \<Rightarrow> options \<Rightarrow> kvs list \<Rightarrow> table \<Rightarrow> slice \<Rightarrow> (slice \<times> slice) option" where
  "get_entry sn o1 bs t k =
     (let j = lower_bound (opt_comparator o1) k (index_entries sn o1 bs); p = lower_bound (opt_comparator o1) k (bs ! j) in
      if j < length bs \<and> filter_passes t (data_handle sn o1 bs j) k \<and> p < length (bs ! j) then Some (bs ! j ! p) else None)"

lemma InternalGet_opened:
  assumes "snappy_ok sn" "table_fits sn o1 bs" "opened sn o1 bs in_buf t"
    "comparator_contract (opt_comparator o1) ok" "blocks_ok (opt_comparator o1) ok bs" "ok k"
  shows "InternalGet sn t ro k saver arg =
    (OK, case get_entry sn o1 bs t k of None \<Rightarrow> arg | Some kv \<Rightarrow> saver arg (fst kv) (snd kv))"
proof -
  let ?c = "opt_comparator o1" and ?xs = "index_entries sn o1 bs"
  let ?i = "on_block (bi_Seek ?c k) (block_NewIterator (tbl_index t))"
  let ?j = "lower_bound ?c k ?xs"
  note L = block_contract_of [OF assms(4)]
  have c: "tbl_comparator t = ?c" using assms(3) by (simp add: tbl_comparator_def opened_def)
  have over: "block_over ?c ?i ?xs ?j"
    using list_iterator.moves_seek [OF L block_over_index [OF assms(2,3,4,5)] assms(6)] by (simp add: it_Seek_block lands_def)
  have st: "it_status (block_ops ?c) ?i = OK" by (rule list_iterator.status [OF L over])
  have v: "it_Valid (block_ops ?c) ?i \<longleftrightarrow> ?j < length bs" using list_iterator.valid [OF L over] by simp
  show ?thesis
  proof (cases "?j < length bs")
    case False
    then show ?thesis by (simp add: InternalGet_def Let_def c v st get_entry_def)
  next
    case True
    let ?b = "block_function sn t ro (snd (?xs ! ?j))" and ?p = "lower_bound ?c k (bs ! ?j)"
    have val: "it_value (block_ops ?c) ?i = snd (?xs ! ?j)" using list_iterator.val [OF L over] True by simp
    have h: "bh_DecodeFrom (snd (?xs ! ?j)) BlockHandle = (OK, data_handle sn o1 bs ?j, [])"
      using bh_Decode_Encode [of "data_handle sn o1 bs ?j" "[]"] True by (simp add: index_entries_zip handles_def)
    have bo: "block_over ?c (on_block (bi_Seek ?c k) ?b) (bs ! ?j) ?p"
      using list_iterator.moves_seek [OF L block_over_data [OF assms(1,2,3,5) True] assms(6)] by (simp add: it_Seek_block lands_def)
    have b: "it_status (block_ops ?c) (on_block (bi_Seek ?c k) ?b) = OK"
      "it_Valid (block_ops ?c) (on_block (bi_Seek ?c k) ?b) \<longleftrightarrow> ?p < length (bs ! ?j)"
      "?p < length (bs ! ?j) \<Longrightarrow> it_key (block_ops ?c) (on_block (bi_Seek ?c k) ?b) = fst (bs ! ?j ! ?p)"
      "?p < length (bs ! ?j) \<Longrightarrow> it_value (block_ops ?c) (on_block (bi_Seek ?c k) ?b) = snd (bs ! ?j ! ?p)"
      using list_iterator.status [OF L bo] list_iterator.valid [OF L bo] list_iterator.key [OF L bo] list_iterator.val [OF L bo] by simp_all
    show ?thesis
      unfolding InternalGet_def Let_def c val h prod.case v st get_entry_def filter_passes_def the_policy_def
      using True b by (cases "tbl_filter t") simp_all
  qed
qed

text \<open>Where that entry is.\<close>

lemma get_entry_position:
  assumes "snappy_ok sn" "table_fits sn o1 bs" "opened sn o1 bs in_buf t"
    "comparator_contract (opt_comparator o1) ok" "blocks_ok (opt_comparator o1) ok bs" "ok k"
  defines "j \<equiv> lower_bound (opt_comparator o1) k (index_entries sn o1 bs)"
  shows "j < length bs \<Longrightarrow> lower_bound (opt_comparator o1) k (concat bs) = start bs j + lower_bound (opt_comparator o1) k (bs ! j)"
    "j = length bs \<Longrightarrow> lower_bound (opt_comparator o1) k (concat bs) = length (concat bs)"
  using two_level.seek_position [OF table_two_level [OF assms(4)] table_parts [OF assms(1-5)] assms(6) refl]
  by (simp_all add: j_def)

lemma get_entry_lower:
  assumes "snappy_ok sn" "table_fits sn o1 bs" "opened sn o1 bs in_buf t"
    "comparator_contract (opt_comparator o1) ok" "blocks_ok (opt_comparator o1) ok bs" "ok k"
    "get_entry sn o1 bs t k = Some kv"
  shows "lower_bound (opt_comparator o1) k (concat bs) < length (concat bs) \<and>
    kv = concat bs ! lower_bound (opt_comparator o1) k (concat bs)"
  using assms(7) get_entry_position(1) [OF assms(1-6)] start_in [of _ bs]
  by (auto simp: get_entry_def Let_def split: if_splits)

text \<open>In a table of internal keys a lookup misses only when there is no entry of its user key behind it: a
  separator never comes between a lookup key and the entries of the same user key.\<close>

context user_order
begin

lemma separator_gap:
  assumes "internal_compare c a b < 0" "\<not> internal_compare c (internal_separator c a b) k < 0" "internal_compare c a k < 0"
  shows "Compare c (ExtractUserKey k) (ExtractUserKey b) < 0"
proof -
  let ?u = ExtractUserKey
  let ?s = "FindShortestSeparator c (?u a) (?u b)"
  have short: "internal_separator c a b = PutFixed64 ?s (PackSequenceAndType kMaxSequenceNumber kValueTypeForSeek)"
      and between: "Compare c (?u a) ?s < 0"
    using assms(2,3) by (auto simp: internal_separator_def Let_def split: if_splits)
  have "Compare c (?u a) (?u b) < 0"
    using no_separator [OF TrueI TrueI, of "?u a" "?u b"] between user_zero [of "?u a" "?u a"] by (metis less_irrefl)
  then have "Compare c ?s (?u b) < 0" by (rule separator_less [OF TrueI TrueI])
  moreover have "\<not> Compare c ?s (?u k) < 0"
    using assms(2) shortened_less [of "PutFixed64 ?s n" "?u k" n for n] unfolding short by (auto simp: internal_less)
  ultimately show ?thesis using user_trichotomy [of ?s "?u k"] compare_trans [of "?u k" ?s "?u b"] by auto
qed

lemma index_keys_nth:
  "Suc j < length bs \<Longrightarrow> index_keys d bs ! j = FindShortestSeparator d (fst (last (bs ! j))) (fst (hd (bs ! Suc j)))"
proof (induction bs arbitrary: j)
  case (Cons b bs)
  then show ?case by (cases bs; cases j) (simp_all add: index_keys_simps)
qed simp

lemma get_entry_misses:
  assumes "snappy_ok sn" "table_fits sn o1 bs" "opened sn o1 bs in_buf t" "opt_comparator o1 = InternalKeyComparator c"
    "blocks_ok (InternalKeyComparator c) (\<lambda>k. 8 \<le> length k) bs" "8 \<le> length k" "get_entry sn o1 bs t k = None"
    and passes: "\<And>j kv. j < length bs \<Longrightarrow> kv \<in> set (bs ! j) \<Longrightarrow> ExtractUserKey (fst kv) = ExtractUserKey k \<Longrightarrow>
      filter_passes t (data_handle sn o1 bs j) k"
    and lb: "lower_bound (InternalKeyComparator c) k (concat bs) < length (concat bs)"
  shows "ExtractUserKey (fst (concat bs ! lower_bound (InternalKeyComparator c) k (concat bs))) \<noteq> ExtractUserKey k"
proof -
  let ?c = "InternalKeyComparator c"
  let ?j = "lower_bound ?c k (index_entries sn o1 bs)"
  let ?p = "lower_bound ?c k (bs ! ?j)"
  note ctr = internal.comparator_contract_axioms
  have pos: "?j < length bs \<Longrightarrow> lower_bound ?c k (concat bs) = start bs ?j + ?p"
    "?j = length bs \<Longrightarrow> lower_bound ?c k (concat bs) = length (concat bs)"
    using get_entry_position [OF assms(1,2,3), of "\<lambda>k. 8 \<le> length k" k] assms(4,5,6) ctr by simp_all
  have j: "?j < length bs" using pos(2) lb lower_bound_le [of ?c k "index_entries sn o1 bs"] by (auto simp: le_less)
  show ?thesis
  proof (cases "?p < length (bs ! ?j)")
    case True
    then have "\<not> filter_passes t (data_handle sn o1 bs ?j) k" using assms(7) j by (simp add: get_entry_def assms(4) Let_def split: if_splits)
    moreover have "concat bs ! lower_bound ?c k (concat bs) = bs ! ?j ! ?p" using start_in [OF j True] pos(1) [OF j] by simp
    moreover have "bs ! ?j ! ?p \<in> set (bs ! ?j)" using True by simp
    ultimately show ?thesis using passes [OF j] by metis
  next
    case False
    then have p: "?p = length (bs ! ?j)" using lower_bound_le [of ?c k "bs ! ?j"] by linarith
    then have at: "lower_bound ?c k (concat bs) = start bs (Suc ?j)" using pos(1) [OF j] j by (simp add: start_Suc)
    with lb have sj: "Suc ?j < length bs" using start_end [of bs "Suc ?j"] by (cases "Suc ?j < length bs") simp_all
    have ne: "bs ! ?j \<noteq> []" "bs ! Suc ?j \<noteq> []" using assms(5) sj by (simp_all add: blocks_ok_def)
    then have e: "concat bs ! lower_bound ?c k (concat bs) = hd (bs ! Suc ?j)"
      using start_in [OF sj, of 0] by (simp add: at hd_conv_nth)
    let ?l = "fst (last (bs ! ?j))" and ?h = "fst (hd (bs ! Suc ?j))"
    have "last (bs ! ?j) = bs ! ?j ! (length (bs ! ?j) - 1)" "length (bs ! ?j) - 1 < ?p" using ne(1) p by (simp_all add: last_conv_nth)
    then have l: "internal_compare c ?l k < 0" using lower_bound_before [of "length (bs ! ?j) - 1" ?c k "bs ! ?j"] by simp
    have "fst (index_entries sn o1 bs ! ?j) = internal_separator c ?l ?h"
      using sj j by (simp add: index_entries_zip index_keys_nth assms(4))
    then have s: "\<not> internal_compare c (internal_separator c ?l ?h) k < 0"
      using lower_bound_at [of ?c k "index_entries sn o1 bs"] j by simp
    have "ascending_keys ?c (map fst (concat (take (Suc ?j) bs)) @ map fst (bs ! Suc ?j) @ map fst (concat (drop (Suc (Suc ?j)) bs)))"
      using assms(5) concat_split [OF sj] by (simp add: blocks_ok_def)
    moreover have "?l \<in> set (map fst (concat (take (Suc ?j) bs)))" "?h \<in> set (map fst (bs ! Suc ?j))"
      using ne j by (auto simp: take_Suc_conv_app_nth)
    ultimately have "Compare ?c ?l ?h < 0" unfolding ascending_append set_append by blast
    then have "Compare c (ExtractUserKey k) (ExtractUserKey ?h) < 0" using separator_gap s l by simp
    then show ?thesis unfolding e using user_zero [of "ExtractUserKey k" "ExtractUserKey k"] by auto
  qed
qed

end

text \<open>The Bloom filter lets every key pass whose user key is in the block.\<close>

definition filter_fits :: "snappy \<Rightarrow> options \<Rightarrow> kvs list \<Rightarrow> nat \<Rightarrow> bool" where
  "filter_fits sn o1 bs b \<longleftrightarrow> length (concat bs) \<le> bloom_bound b \<and> length (filter_contents sn o1 bs) < 2 ^ 32"

lemma filter_lets_pass:
  assumes "table_fits sn o1 bs" "opened sn o1 bs in_buf t" "filter_fits sn o1 bs b"
    "opt_filter_policy o1 = None \<or> opt_filter_policy o1 = Some (name, InternalFilterPolicy (NewBloomFilterPolicy b))"
    "j < length bs" "kv \<in> set (bs ! j)" "ExtractUserKey (fst kv) = ExtractUserKey k"
  shows "filter_passes t (data_handle sn o1 bs j) k"
proof (cases "opt_filter_policy o1")
  case None
  then show ?thesis using assms(2) by (simp add: filter_passes_def opened_def)
next
  case (Some np)
  let ?p = "InternalFilterPolicy (NewBloomFilterPolicy b)"
  let ?gs = "filter_groups sn o1 bs" and ?st = "\<lambda>i. start (data_blocks sn o1 bs) i"
  have p: "the_policy o1 = ?p" using assms(4) Some by (simp add: the_policy_def)
  have lt: "?st i < 2 ^ 64" for i
    using start_bound [of "data_blocks sn o1 bs" i] assms(1) by (simp add: table_fits_def table_image_def)
  have idx: "map filter_index ?gs = map (\<lambda>i. ?st i div 2048) [0..<Suc (length bs)]"
    using lt by (simp add: filter_groups_def filter_index_def unat_of_nat o_def)
  have mono: "?st i \<le> ?st i'" if "i \<le> i'" for i i'
  proof -
    have "take i' ds = take i ds @ take (i' - i) (drop i ds)" for ds :: "slice list"
      using that take_add [of i "i' - i" ds] by simp
    from this [of "data_blocks sn o1 bs"] show ?thesis by (simp add: start_def)
  qed
  have srt: "sorted (map filter_index ?gs)"
    unfolding idx sorted_wrt_map by (rule sorted_wrt_mono_rel [OF _ sorted_upt]) (simp add: div_le_mono mono)
  have "concat (map snd ?gs) = map fst (concat bs)"
  proof -
    have "map snd ?gs = map (\<lambda>i. map fst (bs ! i)) [0..<length bs] @ [[]]" by (simp add: filter_groups_def o_def)
    also have "map (\<lambda>i. map fst (bs ! i)) [0..<length bs] = map (map fst) bs" by (rule nth_equalityI) simp_all
    finally show ?thesis by (simp add: map_concat)
  qed
  then have len: "length (concat (map snd ?gs)) \<le> bloom_bound b" using assms(3) by (simp add: filter_fits_def)
  have fc: "length (filter_Finish ?p (build_filters ?p ?gs)) < 2 ^ 32"
    using assms(3) by (simp add: filter_fits_def filter_contents_def p)
  have mem: "(word_of_nat (?st j), map fst (bs ! j)) \<in> set ?gs"
    using assms(5) by (auto simp: filter_groups_def simp del: upt_Suc intro!: image_eqI [where x = j])
  have "filter_KeyMayMatch ?p (FilterBlockReader (filter_Finish ?p (build_filters ?p ?gs))) (word_of_nat (?st j)) (fst kv)"
    using internal_bloom.block_no_false_negative [OF srt len fc mem] assms(6) by simp
  moreover have "filter_KeyMayMatch ?p r ofs (fst kv) = filter_KeyMayMatch ?p r ofs k" for r ofs
    using assms(7) by (simp add: filter_KeyMayMatch_def InternalFilterPolicy_def Let_def)
  ultimately show ?thesis
    using assms(2) Some p by (simp add: filter_passes_def opened_def data_handle_def handle_at_def filter_contents_def)
qed

section \<open>Properties\<close>

text \<open>C2: a table gives back what it was built from.  For every comparator that keeps its contract, every list of
  legal keys in order, every block size, restart interval, filter policy and compression whose library
  inverts itself: when the image fits the widths of the format, opening the written file succeeds, and the
  iterator of the table goes over the entries from \<open>SeekToFirst\<close> with \<open>Next\<close>, over the reverse from \<open>SeekToLast\<close> with
  \<open>Prev\<close>, and from \<open>Seek\<close> over the entries that are not before the target; every move returns.\<close>

theorem table_roundtrip:
  assumes "comparator_contract (opt_comparator o1) ok" "snappy_ok sn" "table_fits sn o1 (split_blocks o1 [] kvs)"
    "\<forall>kv\<in>set kvs. ok (fst kv)" "ascending_keys (opt_comparator o1) (map fst kvs)" "length kvs \<le> n"
  shows "\<exists>t. Table_Open sn o1 (memory_file in_buf (tb_file (snd (build_table sn o1 kvs)))) (FileSize (snd (build_table sn o1 kvs))) new_id =
      (OK, Some t) \<and>
    (let ops = table_ops sn t ro; it = table_NewIterator t in
      Option.bind (it_SeekToFirst ops it) (it_walk ops n) = Some kvs \<and>
      Option.bind (it_SeekToLast ops it) (it_walk_back ops n) = Some (rev kvs) \<and>
      (\<forall>k. ok k \<longrightarrow> Option.bind (it_Seek ops k it) (it_walk ops n) =
        Some (dropWhile (\<lambda>kv. Compare (opt_comparator o1) (fst kv) k < 0) kvs)))"
proof -
  let ?bs = "split_blocks o1 [] kvs" and ?c = "opt_comparator o1"
  have im: "tb_file (snd (build_table sn o1 kvs)) = table_image sn o1 ?bs"
    "FileSize (snd (build_table sn o1 kvs)) = word_of_nat (length (table_image sn o1 ?bs))"
    using image_of_build [of sn o1 kvs] by simp_all
  obtain t where t: "Table_Open sn o1 (memory_file in_buf (table_image sn o1 ?bs)) (word_of_nat (length (table_image sn o1 ?bs))) new_id =
      (OK, Some t)" "opened sn o1 ?bs in_buf t"
    using table_opens [OF assms(2,3)] by blast
  have bs: "blocks_ok ?c ok ?bs" by (rule split_blocks_ok [OF assms(4,5)])
  let ?ops = "table_ops sn t ro" and ?over = "table_over sn ?c ok t ro" and ?it = "table_NewIterator t"
  have L: "list_iterator ?ops ?c ok ?over" and start: "?over ?it kvs (length kvs)"
    using table_iterator [OF assms(2,3) t(2) assms(1) bs, of ro] by (simp_all add: split_blocks_concat)
  show ?thesis using list_iterator.walks [OF L start assms(6)] t(1) unfolding im Let_def by blast
qed

text \<open>The build without Snappy (\<open>port/port_posix.h\<close>), and a table of two blocks.\<close>

definition no_snappy :: snappy where
  "no_snappy = \<lparr>Snappy_Compress = (\<lambda>_. None), Snappy_GetUncompressedLength = (\<lambda>_. None), Snappy_Uncompress = (\<lambda>_. None)\<rparr>"

lemma no_snappy_ok: "snappy_ok no_snappy"
  by (simp add: no_snappy_def snappy_ok_def)

definition example_options :: options where
  "example_options = \<lparr>opt_comparator = BytewiseComparator, paranoid_checks = True, opt_block_size = 1, block_restart_interval = 2,
     compression = kNoCompression, opt_filter_policy = None\<rparr>"

definition example_entries :: kvs where "example_entries = [([1, 1], [10]), ([1, 3], [30, 31])]"

lemma example_options_simps [simp]:
  "opt_comparator example_options = BytewiseComparator" "opt_block_size example_options = 1"
  "block_restart_interval example_options = 2" "compression example_options = kNoCompression" "opt_filter_policy example_options = None"
  by (simp_all add: example_options_def)

lemma example_split: "split_blocks example_options [] example_entries = [[([1, 1], [10])], [([1, 3], [30, 31])]]"
  by (simp add: example_entries_def CurrentSizeEstimate_def)

lemmas raw_eval = raw_block_def build_block_def block_Add_def BlockBuilder_def block_Finish_def PutVarint32_def PutFixed32_def
  EncodeVarint32_def Let_def

lemma example_raw: "length (raw_block 2 [([1, 1], [10])]) = 14" "length (raw_block 2 [([1, 3], [30, 31])]) = 15"
  "length (raw_block 1 [([1, 2], [0, 14]), ([2], [19, 15])]) = 25" "length (raw_block 2 []) = 8"
  by (simp_all add: raw_eval)

lemma example_packed: "packed_size no_snappy example_options r = length r"
  by (simp add: packed_size_def compressed_block_def)

lemma example_index: "index_entries no_snappy example_options [[([1, 1], [10])], [([1, 3], [30, 31])]] = [([1, 2], [0, 14]), ([2], [19, 15])]"
proof -
  have "index_keys BytewiseComparator [[([1, 1], [10])], [([1, 3], [30, 31])]] = [[1, 2], [2]]"
    by (simp add: index_keys_simps BytewiseComparator_def bytewise_separator_def bytewise_successor_def diff_index.simps Let_def)
  moreover have "start (data_blocks no_snappy example_options [[([1, 1], [10])], [([1, 3], [30, 31])]]) (Suc 0) = 19"
    using example_raw by (simp add: start_def data_blocks_def length_packed example_packed)
  ultimately show ?thesis using example_raw
    by (simp add: index_entries_def data_handle_def handle_at_def example_packed bh_EncodeTo_def PutVarint64_def EncodeVarint64.simps)
qed

lemma example_fits: "table_fits no_snappy example_options (split_blocks example_options [] example_entries)"
  using example_raw by (simp add: table_fits_def example_split index_raw_def meta_raw_def meta_index_block_def table_image_def
      length_packed example_packed example_index data_blocks_def filter_part_def length_footer raw_block_def build_block_def
      kEncodedLength_def kMaxEncodedLength_def)

theorem table_roundtrip_witness:
  "\<exists>t. fst (Table_Open no_snappy example_options (memory_file False (tb_file (snd (build_table no_snappy example_options example_entries))))
      (FileSize (snd (build_table no_snappy example_options example_entries))) 0) = OK \<and>
    Option.bind (it_SeekToLast (table_ops no_snappy t ReadOptions) (table_NewIterator t)) (it_walk_back (table_ops no_snappy t ReadOptions) 2) =
      Some [([1, 3], [30, 31]), ([1, 1], [10])]"
  using table_roundtrip [of example_options "\<lambda>_. True" no_snappy example_entries 2 False 0 ReadOptions]
    no_snappy_ok example_fits bytewise.comparator_contract_axioms
  by (auto simp: example_entries_def ascending_keys_def Compare_bytewise Let_def)

end
