(* ===== verification/Ldb_Merger.thy ===== *)
theory Ldb_Merger
  imports Ldb_Two_Level "HOL-Library.Multiset"
begin

text \<open>
  The merging iterator, \<open>table/merger.cc\<close>: an iterator over the union of several others.  The
  children are wrappers of iterators of one type; virtual dispatch is part of the operations of
  that type.  \<open>current_\<close> is the index of a child or NULL, and \<open>direction_\<close> a Boolean.

  The iterator keeps the contract of iterators over the merge of its children when no key
  occurs twice: this is what internal keys with their sequence numbers give.
\<close>

section \<open>The iterator\<close>

datatype direction = kForward | kReverse

record 'i merging =
  children :: "'i wrapper list"
  mi_current :: "nat option"
  mi_direction :: direction

definition MergingIterator :: "'i iter_ops \<Rightarrow> 'i list \<Rightarrow> 'i merging" where
  "MergingIterator ops its =
     \<lparr>children = map (\<lambda>it. w_Set ops (Some it) IteratorWrapper) its, mi_current = None, mi_direction = kForward\<rparr>"

definition FindSmallest :: "comparator \<Rightarrow> 'i merging \<Rightarrow> 'i merging" where
  "FindSmallest c m =
     m\<lparr>mi_current := fold (\<lambda>i smallest.
        let child = children m ! i in
        if w_valid child then
          (case smallest of
             None \<Rightarrow> Some i
           | Some s \<Rightarrow> if Compare c (w_key child) (w_key (children m ! s)) < 0 then Some i else smallest)
        else smallest) [0..<length (children m)] None\<rparr>"

definition FindLargest :: "comparator \<Rightarrow> 'i merging \<Rightarrow> 'i merging" where
  "FindLargest c m =
     m\<lparr>mi_current := fold (\<lambda>i largest.
        let child = children m ! i in
        if w_valid child then
          (case largest of
             None \<Rightarrow> Some i
           | Some s \<Rightarrow> if 0 < Compare c (w_key child) (w_key (children m ! s)) then Some i else largest)
        else largest) (rev [0..<length (children m)]) None\<rparr>"

text \<open>The loops over the children: an operation on each of them in order, \<open>None\<close> when one does not return.\<close>

fun each :: "(nat \<Rightarrow> 'w \<Rightarrow> 'w option) \<Rightarrow> nat \<Rightarrow> 'w list \<Rightarrow> 'w list option" where
  "each f i [] = Some []"
| "each f i (w # ws) = do { w' \<leftarrow> f i w; ws' \<leftarrow> each f (Suc i) ws; Some (w' # ws') }"

definition on_children :: "(nat \<Rightarrow> 'i wrapper \<Rightarrow> 'i wrapper option) \<Rightarrow> 'i merging \<Rightarrow> 'i merging option" where
  "on_children f m = do { ws \<leftarrow> each f 0 (children m); Some (m\<lparr>children := ws\<rparr>) }"

definition mi_SeekToFirst :: "'i iter_ops \<Rightarrow> comparator \<Rightarrow> 'i merging \<Rightarrow> 'i merging option" where
  "mi_SeekToFirst ops c m =
     do { m1 \<leftarrow> on_children (\<lambda>_. it_SeekToFirst (wrapper_ops ops)) m; Some ((FindSmallest c m1)\<lparr>mi_direction := kForward\<rparr>) }"

definition mi_SeekToLast :: "'i iter_ops \<Rightarrow> comparator \<Rightarrow> 'i merging \<Rightarrow> 'i merging option" where
  "mi_SeekToLast ops c m =
     do { m1 \<leftarrow> on_children (\<lambda>_. it_SeekToLast (wrapper_ops ops)) m; Some ((FindLargest c m1)\<lparr>mi_direction := kReverse\<rparr>) }"

definition mi_Seek :: "'i iter_ops \<Rightarrow> comparator \<Rightarrow> slice \<Rightarrow> 'i merging \<Rightarrow> 'i merging option" where
  "mi_Seek ops c target m =
     do { m1 \<leftarrow> on_children (\<lambda>_. it_Seek (wrapper_ops ops) target) m; Some ((FindSmallest c m1)\<lparr>mi_direction := kForward\<rparr>) }"

text \<open>The operations below need a current child.\<close>

definition the_child :: "'i merging \<Rightarrow> 'i wrapper" where "the_child m = children m ! the (mi_current m)"

definition move_current :: "('i wrapper \<Rightarrow> 'i wrapper option) \<Rightarrow> 'i merging \<Rightarrow> 'i merging option" where
  "move_current f m = do { w \<leftarrow> f (the_child m); Some (m\<lparr>children := (children m)[the (mi_current m) := w]\<rparr>) }"

definition turn_forward :: "'i iter_ops \<Rightarrow> comparator \<Rightarrow> slice \<Rightarrow> 'i wrapper \<Rightarrow> 'i wrapper option" where
  "turn_forward ops c key child = do {
     w \<leftarrow> it_Seek (wrapper_ops ops) key child;
     if w_valid w \<and> Compare c key (w_key w) = 0 then it_Next (wrapper_ops ops) w else Some w }"

definition turn_back :: "'i iter_ops \<Rightarrow> slice \<Rightarrow> 'i wrapper \<Rightarrow> 'i wrapper option" where
  "turn_back ops key child = do {
     w \<leftarrow> it_Seek (wrapper_ops ops) key child;
     if w_valid w then it_Prev (wrapper_ops ops) w else it_SeekToLast (wrapper_ops ops) w }"

definition turn :: "(slice \<Rightarrow> 'i wrapper \<Rightarrow> 'i wrapper option) \<Rightarrow> direction \<Rightarrow> 'i merging \<Rightarrow> 'i merging option" where
  "turn f d m =
     (if mi_direction m \<noteq> d then
        do { m1 \<leftarrow> on_children (\<lambda>i child. if Some i \<noteq> mi_current m then f (w_key (the_child m)) child else Some child) m;
             Some (m1\<lparr>mi_direction := d\<rparr>) }
      else Some m)"

definition mi_Next :: "'i iter_ops \<Rightarrow> comparator \<Rightarrow> 'i merging \<Rightarrow> 'i merging option" where
  "mi_Next ops c m = do {
     m1 \<leftarrow> turn (turn_forward ops c) kForward m;
     m2 \<leftarrow> move_current (it_Next (wrapper_ops ops)) m1;
     Some (FindSmallest c m2) }"

definition mi_Prev :: "'i iter_ops \<Rightarrow> comparator \<Rightarrow> 'i merging \<Rightarrow> 'i merging option" where
  "mi_Prev ops c m = do {
     m1 \<leftarrow> turn (turn_back ops) kReverse m;
     m2 \<leftarrow> move_current (it_Prev (wrapper_ops ops)) m1;
     Some (FindLargest c m2) }"

fun first_error :: "status list \<Rightarrow> status" where
  "first_error [] = OK"
| "first_error (s # ss) = (if is_ok s then first_error ss else s)"

definition merging_ops :: "'i iter_ops \<Rightarrow> comparator \<Rightarrow> 'i merging iter_ops" where
  "merging_ops ops c =
     \<lparr>it_Valid = (\<lambda>m. mi_current m \<noteq> None), it_key = (\<lambda>m. w_key (the_child m)),
      it_value = (\<lambda>m. it_value (wrapper_ops ops) (the_child m)),
      it_status = (\<lambda>m. first_error (map (it_status (wrapper_ops ops)) (children m))),
      it_Seek = mi_Seek ops c, it_SeekToFirst = mi_SeekToFirst ops c, it_SeekToLast = mi_SeekToLast ops c,
      it_Next = mi_Next ops c, it_Prev = mi_Prev ops c\<rparr>"

text \<open>\<open>NewMergingIterator\<close> gives one of three kinds of iterators.\<close>

datatype 'i merged = NoChild | OneChild 'i | Merging "'i merging"

definition NewMergingIterator :: "'i iter_ops \<Rightarrow> 'i list \<Rightarrow> 'i merged" where
  "NewMergingIterator ops its = (case its of [] \<Rightarrow> NoChild | [it] \<Rightarrow> OneChild it | _ \<Rightarrow> Merging (MergingIterator ops its))"

fun on_merged :: "('i \<Rightarrow> 'i option) \<Rightarrow> ('i merging \<Rightarrow> 'i merging option) \<Rightarrow> 'i merged \<Rightarrow> 'i merged option" where
  "on_merged f g NoChild = Some NoChild"
| "on_merged f g (OneChild i) = map_option OneChild (f i)"
| "on_merged f g (Merging m) = map_option Merging (g m)"

definition merged_ops :: "'i iter_ops \<Rightarrow> comparator \<Rightarrow> 'i merged iter_ops" where
  "merged_ops ops c = (let mo = merging_ops ops c in
     \<lparr>it_Valid = case_merged False (it_Valid ops) (it_Valid mo), it_key = case_merged [] (it_key ops) (it_key mo),
      it_value = case_merged [] (it_value ops) (it_value mo), it_status = case_merged OK (it_status ops) (it_status mo),
      it_Seek = (\<lambda>k. on_merged (it_Seek ops k) (it_Seek mo k)), it_SeekToFirst = on_merged (it_SeekToFirst ops) (it_SeekToFirst mo),
      it_SeekToLast = on_merged (it_SeekToLast ops) (it_SeekToLast mo), it_Next = on_merged (it_Next ops) (it_Next mo),
      it_Prev = on_merged (it_Prev ops) (it_Prev mo)\<rparr>)"

section \<open>The smallest and the largest child\<close>

lemma argmin_fold:
  assumes "\<And>i. i \<in> set is \<Longrightarrow> valid i \<Longrightarrow> i \<noteq> j \<Longrightarrow> better j i \<and> \<not> better i j"
    "j \<in> set is \<and> (b = None \<or> (\<exists>i. b = Some i \<and> better j i)) \<or> b = Some j" "valid j"
  shows "fold (\<lambda>i b. if valid i then (case b of None \<Rightarrow> Some i | Some s \<Rightarrow> if better i s then Some i else b) else b) is b = Some j"
  using assms(1,2)
proof (induction "is" arbitrary: b)
  case (Cons i "is")
  let ?b = "if valid i then (case b of None \<Rightarrow> Some i | Some s \<Rightarrow> if better i s then Some i else b) else b"
  have "j \<in> set is \<and> (?b = None \<or> (\<exists>i. ?b = Some i \<and> better j i)) \<or> ?b = Some j"
  proof (cases "i = j")
    case True
    then show ?thesis using Cons.prems assms(3) by (cases b) (auto split: if_splits)
  next
    case False
    then show ?thesis using Cons.prems(2) Cons.prems(1) [of i] by (cases b) auto
  qed
  with Cons.IH Cons.prems(1) show ?case by simp
qed auto

lemma none_fold:
  "\<forall>i\<in>set is. \<not> valid i \<Longrightarrow> fold (\<lambda>i b. if valid i then f i b else b) is b = b"
  by (induction "is" arbitrary: b) simp_all

lemma FindSmallest_at:
  assumes "j < length (children m)" "w_valid (children m ! j)"
    "\<And>i. i < length (children m) \<Longrightarrow> w_valid (children m ! i) \<Longrightarrow> i \<noteq> j \<Longrightarrow>
      Compare c (w_key (children m ! j)) (w_key (children m ! i)) < 0 \<and> \<not> Compare c (w_key (children m ! i)) (w_key (children m ! j)) < 0"
  shows "FindSmallest c m = m\<lparr>mi_current := Some j\<rparr>"
  unfolding FindSmallest_def Let_def
  using argmin_fold [of "[0..<length (children m)]" "\<lambda>i. w_valid (children m ! i)" j
      "\<lambda>a b. Compare c (w_key (children m ! a)) (w_key (children m ! b)) < 0" None] assms
  by simp

lemma FindLargest_at:
  assumes "j < length (children m)" "w_valid (children m ! j)"
    "\<And>i. i < length (children m) \<Longrightarrow> w_valid (children m ! i) \<Longrightarrow> i \<noteq> j \<Longrightarrow>
      0 < Compare c (w_key (children m ! j)) (w_key (children m ! i)) \<and> \<not> 0 < Compare c (w_key (children m ! i)) (w_key (children m ! j))"
  shows "FindLargest c m = m\<lparr>mi_current := Some j\<rparr>"
  unfolding FindLargest_def Let_def
  using argmin_fold [of "rev [0..<length (children m)]" "\<lambda>i. w_valid (children m ! i)" j
      "\<lambda>a b. 0 < Compare c (w_key (children m ! a)) (w_key (children m ! b))" None] assms
  by simp

lemma Find_none:
  assumes "\<forall>i<length (children m). \<not> w_valid (children m ! i)"
  shows "FindSmallest c m = m\<lparr>mi_current := None\<rparr>" "FindLargest c m = m\<lparr>mi_current := None\<rparr>"
  unfolding FindSmallest_def FindLargest_def Let_def using assms
  by (subst none_fold [of _ "\<lambda>i. w_valid (children m ! i)"]; simp)+

section \<open>Merged lists\<close>

lemma sorted_wrt_unique:
  "mset xs = mset ys \<Longrightarrow> sorted_wrt R xs \<Longrightarrow> sorted_wrt R ys \<Longrightarrow> (\<And>a b. R a b \<Longrightarrow> \<not> R b a) \<Longrightarrow> xs = ys"
proof (induction xs arbitrary: ys)
  case (Cons x xs)
  then obtain y ys' where ys: "ys = y # ys'" by (cases ys) auto
  have s: "set (x # xs) = set (y # ys')" using Cons.prems(1) ys by (metis mset_eq_setD)
  have "x = y"
  proof (rule ccontr)
    assume "x \<noteq> y"
    with s have "y \<in> set xs" "x \<in> set ys'" by (auto simp: set_eq_iff)
    then have "R x y" "R y x" using Cons.prems(2,3) ys by auto
    with Cons.prems(4) show False by blast
  qed
  with Cons ys show ?case by simp
qed simp


text \<open>\<open>kvs\<close> is the merge of the lists \<open>xss\<close>; no key occurs twice.\<close>

definition merges :: "comparator \<Rightarrow> (slice \<Rightarrow> bool) \<Rightarrow> (slice \<times> slice) list list \<Rightarrow> (slice \<times> slice) list \<Rightarrow> bool" where
  "merges c ok xss kvs \<longleftrightarrow> mset kvs = mset (concat xss) \<and> ascending_keys c (map fst kvs) \<and>
     (\<forall>xs\<in>set xss. ascending_keys c (map fst xs)) \<and> (\<forall>kv\<in>set kvs. ok (fst kv))"

text \<open>How many entries of a child are among the first \<open>i\<close> of the merge.\<close>

definition below :: "(slice \<times> slice) list \<Rightarrow> nat \<Rightarrow> (slice \<times> slice) list \<Rightarrow> nat" where
  "below kvs i xs = length (filter (\<lambda>kv. kv \<in> set (take i kvs)) xs)"

context comparator_contract
begin

lemma compare_irrefl: "\<not> Compare c a a < 0"
  using compare_flip [of a a] by linarith

lemma compare_asym: "Compare c a b < 0 \<Longrightarrow> \<not> Compare c b a < 0"
  using compare_flip [of a b] by linarith

lemma ascending_index:
  assumes "ascending_keys c (map fst kvs)" "i < length kvs" "j < length kvs"
  shows "Compare c (fst (kvs ! i)) (fst (kvs ! j)) < 0 \<longleftrightarrow> i < j"
proof -
  have lt: "Compare c (fst (kvs ! a)) (fst (kvs ! b)) < 0" if "a < b" "b < length kvs" for a b
    using assms(1) that by (simp add: ascending_keys_def sorted_wrt_iff_nth_less)
  from lt [of i j] lt [of j i] assms(2,3) show ?thesis
    using compare_asym [of "fst (kvs ! j)" "fst (kvs ! i)"] compare_irrefl by (metis nat_neq_iff)
qed

lemma ascending_distinct: "ascending_keys c (map fst kvs) \<Longrightarrow> distinct kvs"
  unfolding distinct_conv_nth using ascending_index compare_irrefl by (metis nat_neq_iff)

lemma mem_take:
  assumes "ascending_keys c (map fst kvs)" "x < length kvs"
  shows "kvs ! x \<in> set (take i kvs) \<longleftrightarrow> x < i"
proof
  assume "kvs ! x \<in> set (take i kvs)"
  then obtain y where "y < i" "y < length kvs" "kvs ! y = kvs ! x" by (auto simp: in_set_conv_nth)
  then show "x < i" using ascending_distinct [OF assms(1)] assms(2) by (simp add: nth_eq_iff_index_eq)
next
  assume "x < i"
  then show "kvs ! x \<in> set (take i kvs)" using assms(2) by (auto simp: in_set_conv_nth intro!: exI [of _ x])
qed

lemma merges_index:
  assumes "merges c dom xss kvs" "xs \<in> set xss" "p < length xs"
  obtains x where "x < length kvs" "xs ! p = kvs ! x"
proof -
  have "set kvs = set (concat xss)" using assms(1) by (metis merges_def mset_eq_setD)
  moreover have "xs ! p \<in> set (concat xss)" using assms(2) nth_mem [OF assms(3)] by (auto simp del: nth_mem)
  ultimately have "xs ! p \<in> set kvs" by simp
  then show ?thesis using that by (auto simp: in_set_conv_nth)
qed

text \<open>The entries of a child that are among the first of the merge are the first of the child.\<close>

lemma below_iff:
  assumes "merges c dom xss kvs" "xs \<in> set xss" "p < length xs" "x < length kvs" "xs ! p = kvs ! x"
  shows "p < below kvs i xs \<longleftrightarrow> x < i"
proof -
  let ?P = "\<lambda>kv. kv \<in> set (take i kvs)"
  have kvs: "ascending_keys c (map fst kvs)" and xs: "ascending_keys c (map fst xs)" using assms(1,2) by (auto simp: merges_def)
  have srt: "sorted_wrt (\<lambda>a b. ?P b \<longrightarrow> ?P a) xs"
    unfolding sorted_wrt_iff_nth_less
  proof (intro allI impI)
    fix a b assume ab: "a < b" "b < length xs" "?P (xs ! b)"
    obtain y where y: "y < length kvs" "xs ! a = kvs ! y" using merges_index [OF assms(1,2), of a] ab by auto
    obtain z where z: "z < length kvs" "xs ! b = kvs ! z" using merges_index [OF assms(1,2), of b] ab by auto
    have "y < z" using ascending_index [OF xs, of a b] ascending_index [OF kvs, of y z] ab y z by simp
    then show "?P (xs ! a)" using ab(3) mem_take [OF kvs] y z by simp
  qed
  then have "filter ?P xs = takeWhile ?P xs"
    by (induction xs) (auto simp: filter_empty_conv)
  then have b: "below kvs i xs = length (takeWhile ?P xs)" by (simp add: below_def)
  have P: "?P (xs ! p) \<longleftrightarrow> x < i" unfolding assms(5) by (rule mem_take [OF kvs assms(4)])
  have tw: "p < length (takeWhile ?P xs) \<longleftrightarrow> ?P (xs ! p)"
  proof
    assume "p < length (takeWhile ?P xs)"
    then show "?P (xs ! p)" by (metis nth_mem set_takeWhileD takeWhile_nth)
  next
    assume pp: "?P (xs ! p)"
    show "p < length (takeWhile ?P xs)"
    proof (rule ccontr)
      assume "\<not> ?thesis"
      then have le: "length (takeWhile ?P xs) \<le> p" by simp
      then have "\<not> ?P (xs ! length (takeWhile ?P xs))" using assms(3) by (intro nth_length_takeWhile) simp
      moreover have "?P (xs ! length (takeWhile ?P xs))"
      proof (cases "length (takeWhile ?P xs) = p")
        case False
        then have "length (takeWhile ?P xs) < p" using le by simp
        from sorted_wrt_nth_less [OF srt this assms(3)] pp show ?thesis by blast
      qed (use pp in simp)
      ultimately show False by contradiction
    qed
  qed
  show ?thesis unfolding b tw P ..
qed

lemma below_le: "below kvs i xs \<le> length xs"
  by (simp add: below_def)

lemma below_end:
  assumes "merges c dom xss kvs" "xs \<in> set xss"
  shows "below kvs 0 xs = 0" "below kvs (length kvs) xs = length xs"
proof -
  have "set kvs = set (concat xss)" using assms(1) by (metis merges_def mset_eq_setD)
  then show "below kvs (length kvs) xs = length xs" using assms(2) unfolding below_def by (subst filter_True) auto
qed (simp add: below_def)

text \<open>One child has the entry \<open>i\<close> of the merge, at the position of its next entry.\<close>

lemma merges_child:
  assumes "merges c dom xss kvs" "i < length kvs"
  obtains j where "j < length xss" "below kvs i (xss ! j) < length (xss ! j)" "xss ! j ! below kvs i (xss ! j) = kvs ! i"
    "\<And>l. l < length xss \<Longrightarrow> below kvs (Suc i) (xss ! l) = (if l = j then Suc (below kvs i (xss ! j)) else below kvs i (xss ! l))"
proof -
  have kvs: "ascending_keys c (map fst kvs)" using assms(1) by (simp add: merges_def)
  have "mset (concat xss) = mset kvs" using assms(1) by (simp add: merges_def)
  then have dist: "distinct (concat xss)" and set: "set (concat xss) = set kvs"
    using ascending_distinct [OF kvs] by (metis mset_eq_imp_distinct_iff, metis mset_eq_setD)
  have "kvs ! i \<in> set (concat xss)" using assms(2) set by simp
  then obtain j p where j: "j < length xss" "p < length (xss ! j)" "xss ! j ! p = kvs ! i"
    by (auto simp: in_set_conv_nth)
  note iff = below_iff [OF assms(1) nth_mem [OF j(1)]]
  have pb: "p = below kvs i (xss ! j)"
  proof -
    have "\<not> p < below kvs i (xss ! j)" using iff [OF j(2) assms(2) j(3)] by simp
    moreover have "\<not> below kvs i (xss ! j) < p"
    proof
      assume lt: "below kvs i (xss ! j) < p"
      then have l: "below kvs i (xss ! j) < length (xss ! j)" using j(2) by simp
      obtain y where y: "y < length kvs" "xss ! j ! below kvs i (xss ! j) = kvs ! y" using merges_index [OF assms(1) nth_mem [OF j(1)] l] by blast
      have "\<not> y < i" using iff [OF l y] by auto
      moreover have "y < i" using ascending_index [of "xss ! j" "below kvs i (xss ! j)" p] ascending_index [OF kvs y(1) assms(2)]
          assms(1) j lt l y by (auto simp: merges_def)
      ultimately show False by contradiction
    qed
    ultimately show ?thesis by simp
  qed
  have mono: "below kvs (Suc i) xs = below kvs i xs" if xs: "xs \<in> set xss" "kvs ! i \<notin> set xs" for xs
  proof -
    have "set (take (Suc i) kvs) = insert (kvs ! i) (set (take i kvs))" using assms(2) by (simp add: take_Suc_conv_app_nth)
    then have "filter (\<lambda>kv. kv \<in> set (take (Suc i) kvs)) xs = filter (\<lambda>kv. kv \<in> set (take i kvs)) xs"
      using xs(2) by (intro filter_cong) auto
    then show ?thesis by (simp add: below_def)
  qed
  have here: "below kvs (Suc i) (xss ! j) = Suc (below kvs i (xss ! j))"
  proof -
    have "p < below kvs (Suc i) (xss ! j)" using iff [OF j(2) assms(2) j(3), of "Suc i"] by simp
    moreover have "\<not> Suc p < below kvs (Suc i) (xss ! j)"
    proof
      assume lt: "Suc p < below kvs (Suc i) (xss ! j)"
      then have l: "Suc p < length (xss ! j)" using below_le [of kvs "Suc i" "xss ! j"] by simp
      obtain y where y: "y < length kvs" "xss ! j ! Suc p = kvs ! y" using merges_index [OF assms(1) nth_mem [OF j(1)] l] by blast
      have "y < Suc i" using iff [OF l y] lt by blast
      moreover have "i < y" using ascending_index [of "xss ! j" p "Suc p"] ascending_index [OF kvs assms(2) y(1)]
          assms(1) j l y by (auto simp: merges_def)
      ultimately show False by simp
    qed
    ultimately show ?thesis using pb by simp
  qed
  have other: "kvs ! i \<notin> set (xss ! l)" if l: "l < length xss" "l \<noteq> j" for l
  proof
    assume "kvs ! i \<in> set (xss ! l)"
    then obtain q where q: "q < length (xss ! l)" "xss ! l ! q = kvs ! i" by (auto simp: in_set_conv_nth)
    have "concat xss ! (start xss l + q) = concat xss ! (start xss j + p)" "start xss l + q < length (concat xss)" "start xss j + p < length (concat xss)"
      using start_in [OF l(1) q(1)] start_in [OF j(1,2)] q(2) j(3) by auto
    then have e: "start xss l + q = start xss j + p" using dist by (simp add: nth_eq_iff_index_eq)
    have order: "start xss a + length (xss ! a) \<le> start xss b" if "a < b" "b \<le> length xss" for a b
      using that
    proof (induction b)
      case (Suc b)
      then show ?case by (cases "a = b") (auto simp: start_Suc)
    qed simp
    show False using order [of l j] order [of j l] e l j q(1) by (cases "l < j") auto
  qed
  have "below kvs (Suc i) (xss ! l) = (if l = j then Suc (below kvs i (xss ! j)) else below kvs i (xss ! l))" if "l < length xss" for l
    using here mono [OF nth_mem [OF that] other [OF that]] by auto
  with j pb that show ?thesis by blast
qed

end

section \<open>The contract is kept\<close>

lemma each_lands:
  "(\<And>l. l < length ws \<Longrightarrow> \<exists>w. f (i + l) (ws ! l) = Some w) \<Longrightarrow>
    \<exists>ws'. each f i ws = Some ws' \<and> length ws' = length ws \<and> (\<forall>l<length ws. f (i + l) (ws ! l) = Some (ws' ! l))"
proof (induction ws arbitrary: i)
  case (Cons w ws)
  obtain w' where w': "f i w = Some w'" using Cons.prems [of 0] by auto
  have "\<exists>v. f (Suc i + l) (ws ! l) = Some v" if "l < length ws" for l using Cons.prems [of "Suc l"] that by simp
  from Cons.IH [of "Suc i", OF this] obtain ws' where ws': "each f (Suc i) ws = Some ws'" "length ws' = length ws"
      "\<forall>l<length ws. f (Suc i + l) (ws ! l) = Some (ws' ! l)" by blast
  have "each f i (w # ws) = Some (w' # ws')" using w' ws' by simp
  moreover have "\<forall>l<length (w # ws). f (i + l) ((w # ws) ! l) = Some ((w' # ws') ! l)"
  proof (intro allI impI)
    fix l assume "l < length (w # ws)"
    then show "f (i + l) ((w # ws) ! l) = Some ((w' # ws') ! l)" using w' ws'(3) by (cases l) simp_all
  qed
  ultimately show ?case using ws'(2) by auto
qed simp

locale merging_children = comparator_contract c ok + child: list_iterator ops c ok over
  for c :: comparator and ok :: "slice \<Rightarrow> bool" and ops :: "'i iter_ops" and over :: "'i \<Rightarrow> (slice \<times> slice) list \<Rightarrow> nat \<Rightarrow> bool"
begin

text \<open>Child \<open>l\<close> stands on entry \<open>f l\<close> of its list.\<close>

definition placed :: "'i merging \<Rightarrow> (slice \<times> slice) list list \<Rightarrow> (nat \<Rightarrow> nat) \<Rightarrow> bool" where
  "placed m xss f \<longleftrightarrow> length (children m) = length xss \<and> (\<forall>l<length xss. child.w_over (children m ! l) (xss ! l) (f l))"

definition ahead :: "(slice \<times> slice) list list \<Rightarrow> (slice \<times> slice) list \<Rightarrow> nat \<Rightarrow> nat \<Rightarrow> nat" where
  "ahead xss kvs i l = below kvs i (xss ! l)"

definition behind_of :: "(slice \<times> slice) list list \<Rightarrow> (slice \<times> slice) list \<Rightarrow> nat \<Rightarrow> nat \<Rightarrow> nat" where
  "behind_of xss kvs i l = prev_pos (xss ! l) (below kvs i (xss ! l))"

definition at_child :: "'i merging \<Rightarrow> (slice \<times> slice) list list \<Rightarrow> (slice \<times> slice) list \<Rightarrow> nat \<Rightarrow> nat \<Rightarrow> bool" where
  "at_child m xss kvs i j \<longleftrightarrow> i < length kvs \<and> j < length xss \<and> mi_current m = Some j \<and>
     below kvs i (xss ! j) < length (xss ! j) \<and> xss ! j ! below kvs i (xss ! j) = kvs ! i \<and>
     (\<forall>l<length xss. below kvs (Suc i) (xss ! l) = (if l = j then Suc (below kvs i (xss ! j)) else below kvs i (xss ! l))) \<and>
     placed m xss (case mi_direction m of kForward \<Rightarrow> ahead xss kvs i | kReverse \<Rightarrow> behind_of xss kvs (Suc i))"

definition m_over :: "'i merging \<Rightarrow> (slice \<times> slice) list \<Rightarrow> nat \<Rightarrow> bool" where
  "m_over m kvs i \<longleftrightarrow> (\<exists>xss. merges c ok xss kvs \<and>
     ((\<exists>j. at_child m xss kvs i j) \<or> i = length kvs \<and> mi_current m = None \<and> (\<exists>f. placed m xss f)))"

lemma wchild: "list_iterator (wrapper_ops ops) c ok child.w_over" by (rule child.wrapper_contract)

lemma w_over_props: "child.w_over w xs p \<Longrightarrow> w_valid w \<longleftrightarrow> p < length xs" "child.w_over w xs p \<Longrightarrow> p < length xs \<Longrightarrow> w_key w = fst (xs ! p)"
  by (simp_all add: child.w_over_def)

lemma on_children_placed:
  assumes "placed m xss g" "\<And>l w. l < length xss \<Longrightarrow> w = children m ! l \<Longrightarrow> child.w_over w (xss ! l) (g l) \<Longrightarrow> lands child.w_over (f l w) (xss ! l) (h l)"
  shows "\<exists>m'. on_children f m = Some m' \<and> placed m' xss h \<and> mi_current m' = mi_current m \<and> mi_direction m' = mi_direction m"
proof -
  have l: "length (children m) = length xss" using assms(1) by (simp add: placed_def)
  have "\<exists>w. f (0 + l) (children m ! l) = Some w" if k: "l < length (children m)" for l
  proof -
    have "child.w_over (children m ! l) (xss ! l) (g l)" using assms(1) k l by (simp add: placed_def)
    then have "lands child.w_over (f l (children m ! l)) (xss ! l) (h l)" using assms(2) k l by simp
    then show ?thesis by (auto simp: lands_def)
  qed
  from each_lands [of "children m" f 0, OF this] obtain ws where ws: "each f 0 (children m) = Some ws" "length ws = length (children m)"
      "\<forall>k<length (children m). f k (children m ! k) = Some (ws ! k)" by auto
  have "child.w_over (ws ! k) (xss ! k) (h k)" if "k < length xss" for k
    using assms that ws(3) l by (auto simp: placed_def lands_def)
  with ws l show ?thesis by (auto simp: on_children_def placed_def)
qed

text \<open>Where the children stand, the smallest and the largest one.\<close>

lemma Smallest_at:
  assumes "merges c ok xss kvs" "placed m xss (ahead xss kvs i)" "i \<le> length kvs" "mi_direction m = kForward"
  shows "m_over (FindSmallest c m) kvs i"
proof -
  note w = w_over_props [where p = "ahead xss kvs i l" and xs = "xss ! l" and w = "children m ! l" for l]
  have pl: "length (children m) = length xss" "\<And>l. l < length xss \<Longrightarrow> child.w_over (children m ! l) (xss ! l) (ahead xss kvs i l)"
    using assms(2) by (simp_all add: placed_def)
  have kvs: "ascending_keys c (map fst kvs)" using assms(1) by (simp add: merges_def)
  show ?thesis
  proof (cases "i < length kvs")
    case True
    obtain j where j: "j < length xss" "below kvs i (xss ! j) < length (xss ! j)" "xss ! j ! below kvs i (xss ! j) = kvs ! i"
        "\<And>l. l < length xss \<Longrightarrow> below kvs (Suc i) (xss ! l) = (if l = j then Suc (below kvs i (xss ! j)) else below kvs i (xss ! l))"
      using merges_child [OF assms(1) True] by metis
    have jw: "w_valid (children m ! j)" "w_key (children m ! j) = fst (kvs ! i)" using w [OF pl(2) [OF j(1)]] j(2,3) by (simp_all add: ahead_def)
    have "Compare c (fst (kvs ! i)) (w_key (children m ! l)) < 0"
      if l: "l < length xss" "w_valid (children m ! l)" "l \<noteq> j" for l
    proof -
      have p: "below kvs i (xss ! l) < length (xss ! l)" using l w(1) [OF pl(2) [OF l(1)]] by (simp add: ahead_def)
      then have key: "w_key (children m ! l) = fst (xss ! l ! below kvs i (xss ! l))" using w(2) [OF pl(2) [OF l(1)]] by (simp add: ahead_def)
      obtain y where y: "y < length kvs" "xss ! l ! below kvs i (xss ! l) = kvs ! y" using merges_index [OF assms(1) nth_mem [OF l(1)] p] by blast
      have "\<not> y < Suc i" using below_iff [OF assms(1) nth_mem [OF l(1)] p y, of "Suc i"] j(4) [OF l(1)] l(3) by simp
      then show ?thesis using ascending_index [OF kvs True y(1)] by (simp add: key y(2))
    qed
    then have "FindSmallest c m = m\<lparr>mi_current := Some j\<rparr>"
      using jw compare_asym pl(1) j(1) by (intro FindSmallest_at) auto
    then have "at_child (FindSmallest c m) xss kvs i j" using True j assms(2,4) by (simp add: at_child_def placed_def)
    with assms(1) show ?thesis by (auto simp: m_over_def)
  next
    case False
    then have i: "i = length kvs" using assms(3) by simp
    then have "\<forall>l<length (children m). \<not> w_valid (children m ! l)"
      using w(1) [OF pl(2)] pl(1) below_end(2) [OF assms(1)] by (auto simp: ahead_def)
    then have "FindSmallest c m = m\<lparr>mi_current := None\<rparr>" by (rule Find_none)
    moreover have "placed (m\<lparr>mi_current := None\<rparr>) xss (ahead xss kvs i)" using assms(2) by (simp add: placed_def)
    ultimately show ?thesis using assms(1) i by (auto simp: m_over_def)
  qed
qed

lemma behind_valid: "behind_of xss kvs i l < length (xss ! l) \<longleftrightarrow> below kvs i (xss ! l) \<noteq> 0"
  using below_le [of kvs i "xss ! l"] by (auto simp: behind_of_def prev_pos_def)

lemma Largest_at:
  assumes "merges c ok xss kvs" "placed m xss (behind_of xss kvs i)" "i \<le> length kvs" "mi_direction m = kReverse"
  shows "m_over (FindLargest c m) kvs (prev_pos kvs i)"
proof -
  note w = w_over_props [where p = "behind_of xss kvs i l" and xs = "xss ! l" and w = "children m ! l" for l]
  have pl: "length (children m) = length xss" "\<And>l. l < length xss \<Longrightarrow> child.w_over (children m ! l) (xss ! l) (behind_of xss kvs i l)"
    using assms(2) by (simp_all add: placed_def)
  have kvs: "ascending_keys c (map fst kvs)" using assms(1) by (simp add: merges_def)
  show ?thesis
  proof (cases i)
    case (Suc k)
    then have k: "k < length kvs" using assms(3) by simp
    obtain j where j: "j < length xss" "below kvs k (xss ! j) < length (xss ! j)" "xss ! j ! below kvs k (xss ! j) = kvs ! k"
        "\<And>l. l < length xss \<Longrightarrow> below kvs (Suc k) (xss ! l) = (if l = j then Suc (below kvs k (xss ! j)) else below kvs k (xss ! l))"
      using merges_child [OF assms(1) k] by metis
    have bj: "behind_of xss kvs i j = below kvs k (xss ! j)" using j(4) [OF j(1)] by (simp add: Suc behind_of_def prev_pos_def)
    have jw: "w_valid (children m ! j)" "w_key (children m ! j) = fst (kvs ! k)" using w [OF pl(2) [OF j(1)]] j(2,3) by (simp_all add: bj)
    have "Compare c (w_key (children m ! l)) (fst (kvs ! k)) < 0"
      if l: "l < length xss" "w_valid (children m ! l)" "l \<noteq> j" for l
    proof -
      let ?p = "behind_of xss kvs i l"
      have p: "?p < length (xss ! l)" using l w(1) [OF pl(2) [OF l(1)]] by simp
      then have key: "w_key (children m ! l) = fst (xss ! l ! ?p)" using w(2) [OF pl(2) [OF l(1)]] by simp
      have lt: "?p < below kvs k (xss ! l)" using p j(4) [OF l(1)] l(3) unfolding behind_valid by (simp add: Suc behind_of_def prev_pos_def)
      obtain y where y: "y < length kvs" "xss ! l ! ?p = kvs ! y" using merges_index [OF assms(1) nth_mem [OF l(1)] p] by blast
      have "y < k" using below_iff [OF assms(1) nth_mem [OF l(1)] p y, of k] lt by simp
      then show ?thesis using ascending_index [OF kvs y(1) k] by (simp add: key y(2))
    qed
    then have "FindLargest c m = m\<lparr>mi_current := Some j\<rparr>"
      using jw compare_flip compare_asym pl(1) j(1) by (intro FindLargest_at) auto
    then have "at_child (FindLargest c m) xss kvs k j" using k j assms(2,4) by (simp add: at_child_def placed_def Suc)
    with assms(1) show ?thesis by (auto simp: m_over_def prev_pos_def Suc)
  next
    case 0
    then have "\<forall>l<length (children m). \<not> w_valid (children m ! l)"
      using w(1) [OF pl(2)] pl(1) below_end(1) [OF assms(1)] behind_valid by auto
    then have "FindLargest c m = m\<lparr>mi_current := None\<rparr>" by (rule Find_none)
    moreover have "placed (m\<lparr>mi_current := None\<rparr>) xss (behind_of xss kvs i)" using assms(2) by (simp add: placed_def)
    ultimately show ?thesis using assms(1) 0 by (auto simp: m_over_def prev_pos_def)
  qed
qed

lemma over_placed:
  assumes "m_over m kvs i"
  obtains xss f where "merges c ok xss kvs" "placed m xss f"
  using assms by (auto simp: m_over_def at_child_def)

lemma placed_dir [simp]: "placed (m\<lparr>mi_direction := d\<rparr>) xss f = placed m xss f"
  by (simp add: placed_def)

lemma children_dir: "children (m\<lparr>mi_direction := d\<rparr>) = children m"
  by simp

lemma Find_dir: "(FindSmallest c m)\<lparr>mi_direction := d\<rparr> = FindSmallest c (m\<lparr>mi_direction := d\<rparr>)"
  "(FindLargest c m)\<lparr>mi_direction := d\<rparr> = FindLargest c (m\<lparr>mi_direction := d\<rparr>)"
  unfolding FindSmallest_def FindLargest_def children_dir by simp_all

lemma first_moves:
  assumes "m_over m kvs i"
  shows "lands m_over (mi_SeekToFirst ops c m) kvs 0"
proof -
  obtain xss f where m: "merges c ok xss kvs" "placed m xss f" using over_placed [OF assms] .
  have "lands child.w_over (it_SeekToFirst (wrapper_ops ops) w) (xss ! l) (ahead xss kvs 0 l)"
    if "l < length xss" "child.w_over w (xss ! l) (f l)" for l w
    using list_iterator.moves_first [OF wchild that(2)] below_end(1) [OF m(1) nth_mem [OF that(1)]] by (simp add: ahead_def)
  then obtain m' where m': "on_children (\<lambda>_. it_SeekToFirst (wrapper_ops ops)) m = Some m'" "placed m' xss (ahead xss kvs 0)"
    using on_children_placed [OF m(2), of "\<lambda>_. it_SeekToFirst (wrapper_ops ops)" "ahead xss kvs 0"] by blast
  then show ?thesis
    using Smallest_at [OF m(1), of "m'\<lparr>mi_direction := kForward\<rparr>" 0] by (simp add: mi_SeekToFirst_def Find_dir landsI)
qed

lemma lower_below:
  assumes m: "merges c ok xss kvs" and xs: "xs \<in> set xss"
  shows "lower_bound c k xs = below kvs (lower_bound c k kvs) xs"
proof -
  have p: "p < lower_bound c k xs \<longleftrightarrow> p < below kvs (lower_bound c k kvs) xs" if pl: "p < length xs" for p
  proof -
    obtain y where y: "y < length kvs" "xs ! p = kvs ! y" using merges_index [OF m xs pl] by blast
    have asc: "ascending_keys c (map fst xs)" "ascending_keys c (map fst kvs)" using m xs by (auto simp: merges_def)
    have "q < lower_bound c k ys \<longleftrightarrow> Compare c (fst (ys ! q)) k < 0" if "q < length ys" "ascending_keys c (map fst ys)" for q ys
    proof
      assume l: "Compare c (fst (ys ! q)) k < 0"
      show "q < lower_bound c k ys"
      proof (rule ccontr)
        assume n: "\<not> q < lower_bound c k ys"
        then have at: "\<not> Compare c (fst (ys ! lower_bound c k ys)) k < 0" using lower_bound_at [of c k ys] that(1) by simp
        then have "lower_bound c k ys < q" using n l by (metis linorder_neqE_nat)
        then have "Compare c (fst (ys ! lower_bound c k ys)) (fst (ys ! q)) < 0" using ascending_index [OF that(2), of "lower_bound c k ys" q] that(1) by simp
        from compare_trans [OF this l] at show False by contradiction
      qed
    qed (rule lower_bound_before)
    from this [OF pl asc(1)] this [OF y(1) asc(2)] below_iff [OF m xs pl y, of "lower_bound c k kvs"] show ?thesis by (simp add: y(2))
  qed
  have "lower_bound c k xs \<le> length xs" "below kvs (lower_bound c k kvs) xs \<le> length xs" by (simp_all add: below_le)
  with p [of "lower_bound c k xs"] p [of "below kvs (lower_bound c k kvs) xs"] show ?thesis by linarith
qed

lemma seek_moves:
  assumes "m_over m kvs i" "ok k"
  shows "lands m_over (mi_Seek ops c k m) kvs (lower_bound c k kvs)"
proof -
  obtain xss f where m: "merges c ok xss kvs" "placed m xss f" using over_placed [OF assms(1)] .
  note lb = lower_below [OF m(1)]
  have "lands child.w_over (it_Seek (wrapper_ops ops) k w) (xss ! l) (ahead xss kvs (lower_bound c k kvs) l)"
    if "l < length xss" "child.w_over w (xss ! l) (f l)" for l w
    using list_iterator.moves_seek [OF wchild that(2) assms(2)] lb [OF nth_mem [OF that(1)]] by (simp add: ahead_def)
  then obtain m' where m': "on_children (\<lambda>_. it_Seek (wrapper_ops ops) k) m = Some m'" "placed m' xss (ahead xss kvs (lower_bound c k kvs))"
    using on_children_placed [OF m(2), of "\<lambda>_. it_Seek (wrapper_ops ops) k" "ahead xss kvs (lower_bound c k kvs)"] by blast
  then show ?thesis
    using Smallest_at [OF m(1), of "m'\<lparr>mi_direction := kForward\<rparr>" "lower_bound c k kvs"] by (simp add: mi_Seek_def Find_dir landsI)
qed

lemma last_moves:
  assumes "m_over m kvs i"
  shows "lands m_over (mi_SeekToLast ops c m) kvs (length kvs - 1)"
proof -
  obtain xss f where m: "merges c ok xss kvs" "placed m xss f" using over_placed [OF assms] .
  have "lands child.w_over (it_SeekToLast (wrapper_ops ops) w) (xss ! l) (behind_of xss kvs (length kvs) l)"
    if "l < length xss" "child.w_over w (xss ! l) (f l)" for l w
    using list_iterator.moves_last [OF wchild that(2)] below_end(2) [OF m(1) nth_mem [OF that(1)]]
    by (simp add: behind_of_def prev_pos_end)
  then obtain m' where m': "on_children (\<lambda>_. it_SeekToLast (wrapper_ops ops)) m = Some m'" "placed m' xss (behind_of xss kvs (length kvs))"
    using on_children_placed [OF m(2), of "\<lambda>_. it_SeekToLast (wrapper_ops ops)" "behind_of xss kvs (length kvs)"] by blast
  then show ?thesis
    using Largest_at [OF m(1), of "m'\<lparr>mi_direction := kReverse\<rparr>" "length kvs"]
    by (simp add: mi_SeekToLast_def Find_dir landsI prev_pos_end)
qed

text \<open>The current child stands on the current entry, whatever the direction.\<close>

lemma current_child:
  assumes "at_child m xss kvs i j"
  shows "child.w_over (the_child m) (xss ! j) (below kvs i (xss ! j))" "w_key (the_child m) = fst (kvs ! i)"
proof -
  have "behind_of xss kvs (Suc i) j = below kvs i (xss ! j)" using assms by (simp add: at_child_def behind_of_def prev_pos_def)
  then show o: "child.w_over (the_child m) (xss ! j) (below kvs i (xss ! j))"
    using assms by (auto simp: at_child_def placed_def the_child_def ahead_def split: direction.splits)
  show "w_key (the_child m) = fst (kvs ! i)" using w_over_props(2) [OF o] assms by (simp add: at_child_def)
qed

lemma seek_current:
  assumes "merges c ok xss kvs" "at_child m xss kvs i j" "l < length xss" "child.w_over w (xss ! l) p"
  shows "lands child.w_over (it_Seek (wrapper_ops ops) (fst (kvs ! i)) w) (xss ! l) (below kvs i (xss ! l))"
proof -
  have i: "i < length kvs" and asc: "ascending_keys c (map fst kvs)" and k: "ok (fst (kvs ! i))"
    using assms(1,2) by (auto simp: at_child_def merges_def)
  have "lower_bound c (fst (kvs ! i)) kvs = i"
  proof -
    have "kvs = take i kvs @ drop i kvs" by simp
    moreover have "lower_bound c (fst (kvs ! i)) (take i kvs @ drop i kvs) = length (take i kvs)"
    proof (rule lower_bound_eqI)
      have "Compare c (fst (kvs ! x)) (fst (kvs ! i)) < 0" if "x < i" for x
        using ascending_index [OF asc, of x i] that i by simp
      then show "\<forall>kv\<in>set (take i kvs). Compare c (fst kv) (fst (kvs ! i)) < 0" by (auto simp: in_set_conv_nth) (metis fst_conv)
    qed (use i compare_irrefl in \<open>simp add: hd_drop_conv_nth\<close>)
    ultimately show ?thesis using i by simp
  qed
  with list_iterator.moves_seek [OF wchild assms(4) k] lower_below [OF assms(1) nth_mem [OF assms(3)], of "fst (kvs ! i)"]
  show ?thesis by simp
qed

lemma other_child:
  assumes "merges c ok xss kvs" "at_child m xss kvs i j" "l < length xss" "l \<noteq> j" "below kvs i (xss ! l) < length (xss ! l)"
  shows "Compare c (fst (kvs ! i)) (fst (xss ! l ! below kvs i (xss ! l))) \<noteq> 0"
proof
  assume z: "Compare c (fst (kvs ! i)) (fst (xss ! l ! below kvs i (xss ! l))) = 0"
  obtain y where y: "y < length kvs" "xss ! l ! below kvs i (xss ! l) = kvs ! y" using merges_index [OF assms(1) nth_mem [OF assms(3)] assms(5)] by blast
  have i: "i < length kvs" and asc: "ascending_keys c (map fst kvs)" using assms(1,2) by (auto simp: at_child_def merges_def)
  have "\<not> y < Suc i"
    using below_iff [OF assms(1) nth_mem [OF assms(3)] assms(5) y, of "Suc i"] assms(2,3,4) by (auto simp: at_child_def)
  then show False using ascending_index [OF asc i y(1)] z y(2) by simp
qed

lemma turns:
  assumes "placed m xss (case mi_direction m of kForward \<Rightarrow> ahead xss kvs i | kReverse \<Rightarrow> behind_of xss kvs (Suc i))" "mi_current m = Some j"
    "w_key (the_child m) = k"
    "mi_direction m \<noteq> d \<Longrightarrow> (case mi_direction m of kForward \<Rightarrow> ahead xss kvs i | kReverse \<Rightarrow> behind_of xss kvs (Suc i)) j = g j"
    "mi_direction m = d \<Longrightarrow> (case mi_direction m of kForward \<Rightarrow> ahead xss kvs i | kReverse \<Rightarrow> behind_of xss kvs (Suc i)) = g"
    "\<And>l w p. l < length xss \<Longrightarrow> l \<noteq> j \<Longrightarrow> child.w_over w (xss ! l) p \<Longrightarrow> lands child.w_over (f k w) (xss ! l) (g l)"
  shows "\<exists>m1. turn f d m = Some m1 \<and> placed m1 xss g \<and> mi_current m1 = Some j \<and> mi_direction m1 = d"
proof (cases "mi_direction m = d")
  case True
  then show ?thesis using assms by (simp add: turn_def)
next
  case False
  let ?f = "\<lambda>i child. if Some i \<noteq> mi_current m then f (w_key (the_child m)) child else Some child"
  have "lands child.w_over (?f l w) (xss ! l) (g l)"
    if "l < length xss" "child.w_over w (xss ! l) ((case mi_direction m of kForward \<Rightarrow> ahead xss kvs i | kReverse \<Rightarrow> behind_of xss kvs (Suc i)) l)" for l w
    using assms(2,3,4,6) that False by (cases "l = j") (auto simp: lands_def)
  then obtain m' where "on_children ?f m = Some m'" "placed m' xss g" "mi_current m' = mi_current m"
    using on_children_placed [OF assms(1), of ?f g] by blast
  with False assms(2) show ?thesis by (simp add: turn_def)
qed

lemma current_moves:
  assumes "placed m xss g" "mi_current m = Some j" "j < length xss" "lands child.w_over (f (the_child m)) (xss ! j) (h j)"
    "\<And>l. l < length xss \<Longrightarrow> l \<noteq> j \<Longrightarrow> h l = g l"
  shows "\<exists>m1. move_current f m = Some m1 \<and> placed m1 xss h \<and> mi_direction m1 = mi_direction m"
  using assms by (auto simp: move_current_def lands_def placed_def nth_list_update)

lemma next_moves:
  assumes "m_over m kvs i" "i < length kvs"
  shows "lands m_over (mi_Next ops c m) kvs (Suc i)"
proof -
  obtain xss j where m: "merges c ok xss kvs" "at_child m xss kvs i j" using assms by (auto simp: m_over_def)
  note a = m(2) [unfolded at_child_def]
  have b: "behind_of xss kvs (Suc i) j = ahead xss kvs i j" using a by (simp add: behind_of_def prev_pos_def ahead_def)
  have "\<exists>m1. turn (turn_forward ops c) kForward m = Some m1 \<and> placed m1 xss (ahead xss kvs i) \<and> mi_current m1 = Some j \<and> mi_direction m1 = kForward"
  proof (rule turns)
    show "lands child.w_over (turn_forward ops c (fst (kvs ! i)) w) (xss ! l) (ahead xss kvs i l)"
      if l: "l < length xss" "l \<noteq> j" "child.w_over w (xss ! l) p" for l w p
    proof -
      obtain w' where w': "it_Seek (wrapper_ops ops) (fst (kvs ! i)) w = Some w'" "child.w_over w' (xss ! l) (below kvs i (xss ! l))"
        using seek_current [OF m l(1,3)] by (rule landsE)
      have "\<not> (w_valid w' \<and> Compare c (fst (kvs ! i)) (w_key w') = 0)"
        using w_over_props [OF w'(2)] other_child [OF m l(1,2)] by auto
      with w' show ?thesis by (auto simp: turn_forward_def landsI ahead_def)
    qed
  qed (use a b current_child(2) [OF m(2)] in \<open>auto split: direction.splits\<close>)
  then obtain m1 where m1: "turn (turn_forward ops c) kForward m = Some m1" "placed m1 xss (ahead xss kvs i)" "mi_current m1 = Some j" "mi_direction m1 = kForward"
    by blast
  have "child.w_over (the_child m1) (xss ! j) (below kvs i (xss ! j))" using m1(2,3) a by (simp add: placed_def the_child_def ahead_def)
  then have "lands child.w_over (it_Next (wrapper_ops ops) (the_child m1)) (xss ! j) (ahead xss kvs (Suc i) j)"
    using list_iterator.moves_next [OF wchild] a by (simp add: ahead_def)
  then obtain m2 where m2: "move_current (it_Next (wrapper_ops ops)) m1 = Some m2" "placed m2 xss (ahead xss kvs (Suc i))" "mi_direction m2 = kForward"
    using current_moves [OF m1(2,3), of "it_Next (wrapper_ops ops)" "ahead xss kvs (Suc i)"] a m1(4) by (auto simp: ahead_def)
  show ?thesis using Smallest_at [OF m(1) m2(2) _ m2(3)] assms(2) by (simp add: mi_Next_def m1(1) m2(1) landsI)
qed

lemma prev_moves:
  assumes "m_over m kvs i" "i < length kvs"
  shows "lands m_over (mi_Prev ops c m) kvs (prev_pos kvs i)"
proof -
  obtain xss j where m: "merges c ok xss kvs" "at_child m xss kvs i j" using assms by (auto simp: m_over_def)
  note a = m(2) [unfolded at_child_def]
  have b: "ahead xss kvs i j = behind_of xss kvs (Suc i) j" using a by (simp add: behind_of_def prev_pos_def ahead_def)
  have "\<exists>m1. turn (turn_back ops) kReverse m = Some m1 \<and> placed m1 xss (behind_of xss kvs (Suc i)) \<and> mi_current m1 = Some j \<and> mi_direction m1 = kReverse"
  proof (rule turns)
    show "lands child.w_over (turn_back ops (fst (kvs ! i)) w) (xss ! l) (behind_of xss kvs (Suc i) l)"
      if l: "l < length xss" "l \<noteq> j" "child.w_over w (xss ! l) p" for l w p
    proof -
      obtain w' where w': "it_Seek (wrapper_ops ops) (fst (kvs ! i)) w = Some w'" "child.w_over w' (xss ! l) (below kvs i (xss ! l))"
        using seek_current [OF m l(1,3)] by (rule landsE)
      have e: "behind_of xss kvs (Suc i) l = prev_pos (xss ! l) (below kvs i (xss ! l))" using a l by (simp add: behind_of_def)
      show ?thesis
      proof (cases "below kvs i (xss ! l) < length (xss ! l)")
        case True
        then show ?thesis using list_iterator.moves_prev [OF wchild w'(2)] w_over_props(1) [OF w'(2)] w'(1) e by (simp add: turn_back_def)
      next
        case False
        then have "below kvs i (xss ! l) = length (xss ! l)" using below_le [of kvs i "xss ! l"] by simp
        then show ?thesis using list_iterator.moves_last [OF wchild w'(2)] w_over_props(1) [OF w'(2)] w'(1) e
          by (simp add: turn_back_def prev_pos_end)
      qed
    qed
  qed (use a b current_child(2) [OF m(2)] in \<open>auto split: direction.splits\<close>)
  then obtain m1 where m1: "turn (turn_back ops) kReverse m = Some m1" "placed m1 xss (behind_of xss kvs (Suc i))" "mi_current m1 = Some j" "mi_direction m1 = kReverse"
    by blast
  have "child.w_over (the_child m1) (xss ! j) (below kvs i (xss ! j))" using m1(2,3) a b by (simp add: placed_def the_child_def ahead_def)
  then have "lands child.w_over (it_Prev (wrapper_ops ops) (the_child m1)) (xss ! j) (behind_of xss kvs i j)"
    using list_iterator.moves_prev [OF wchild] a by (simp add: behind_of_def)
  then obtain m2 where m2: "move_current (it_Prev (wrapper_ops ops)) m1 = Some m2" "placed m2 xss (behind_of xss kvs i)" "mi_direction m2 = kReverse"
    using current_moves [OF m1(2,3), of "it_Prev (wrapper_ops ops)" "behind_of xss kvs i"] a m1(4) by (auto simp: behind_of_def)
  show ?thesis using Largest_at [OF m(1) m2(2) _ m2(3)] assms(2) by (simp add: mi_Prev_def m1(1) m2(1) landsI)
qed

lemma no_error: "(\<forall>s\<in>set ss. s = OK) \<Longrightarrow> first_error ss = OK"
  by (induction ss) simp_all

theorem merging_contract: "list_iterator (merging_ops ops c) c ok m_over"
proof
  fix m kvs i
  assume o: "m_over m kvs i"
  obtain xss f where m: "merges c ok xss kvs" "placed m xss f" using over_placed [OF o] .
  have at: "\<exists>xss j. merges c ok xss kvs \<and> at_child m xss kvs i j" if "i < length kvs" using o that by (auto simp: m_over_def)
  show "i \<le> length kvs" using o by (auto simp: m_over_def at_child_def)
  show "it_Valid (merging_ops ops c) m = (i < length kvs)" using o by (auto simp: m_over_def at_child_def merging_ops_def)
  show "i < length kvs \<Longrightarrow> it_key (merging_ops ops c) m = fst (kvs ! i)"
    using at current_child(2) by (auto simp: merging_ops_def)
  show "it_value (merging_ops ops c) m = snd (kvs ! i)" if l: "i < length kvs"
  proof -
    obtain xss j where a: "at_child m xss kvs i j" using at [OF l] by blast
    then have "below kvs i (xss ! j) < length (xss ! j)" "xss ! j ! below kvs i (xss ! j) = kvs ! i" by (simp_all add: at_child_def)
    with list_iterator.val [OF wchild current_child(1) [OF a]] show ?thesis by (simp add: merging_ops_def)
  qed
  show "it_status (merging_ops ops c) m = OK"
  proof -
    have "it_status (wrapper_ops ops) (children m ! l) = OK" if "l < length (children m)" for l
      using m(2) list_iterator.status [OF wchild, of "children m ! l" "xss ! l" "f l"] that by (simp add: placed_def)
    then show ?thesis by (auto simp: merging_ops_def in_set_conv_nth intro!: no_error)
  qed
  show "i < length kvs \<Longrightarrow> lands m_over (it_Next (merging_ops ops c) m) kvs (Suc i)" using next_moves [OF o] by (simp add: merging_ops_def)
  show "i < length kvs \<Longrightarrow> lands m_over (it_Prev (merging_ops ops c) m) kvs (prev_pos kvs i)" using prev_moves [OF o] by (simp add: merging_ops_def)
  show "lands m_over (it_SeekToFirst (merging_ops ops c) m) kvs 0" using first_moves [OF o] by (simp add: merging_ops_def)
  show "lands m_over (it_SeekToLast (merging_ops ops c) m) kvs (length kvs - 1)" using last_moves [OF o] by (simp add: merging_ops_def)
  show "ok k \<Longrightarrow> lands m_over (it_Seek (merging_ops ops c) k m) kvs (lower_bound c k kvs)" for k using seek_moves [OF o] by (simp add: merging_ops_def)
qed

text \<open>The iterators that \<open>NewMergingIterator\<close> makes.\<close>

definition merged_over :: "'i merged \<Rightarrow> (slice \<times> slice) list \<Rightarrow> nat \<Rightarrow> bool" where
  "merged_over it kvs i = (case it of NoChild \<Rightarrow> kvs = [] \<and> i = 0 | OneChild ch \<Rightarrow> over ch kvs i | Merging m \<Rightarrow> m_over m kvs i)"

lemma lands_map: "lands P r xs i \<Longrightarrow> (\<And>it. P it xs i \<Longrightarrow> Q (g it) xs i) \<Longrightarrow> lands Q (map_option g r) xs i"
  by (auto simp: lands_def)

lemma merged_contract: "list_iterator (merged_ops ops c) c ok merged_over"
proof
  fix it kvs i
  assume o: "merged_over it kvs i"
  note m = list_iterator.over_pos [OF merging_contract] list_iterator.valid [OF merging_contract] list_iterator.key [OF merging_contract]
    list_iterator.val [OF merging_contract] list_iterator.status [OF merging_contract]
  note ch = child.over_pos child.valid child.key child.val child.status
  have L: "(\<And>x. over x kvs i \<Longrightarrow> lands over (f x) kvs j) \<Longrightarrow> (\<And>x. m_over x kvs i \<Longrightarrow> lands m_over (g x) kvs j) \<Longrightarrow>
      (kvs = [] \<Longrightarrow> j = 0) \<Longrightarrow> lands merged_over (on_merged f g it) kvs j" for f g j
    using o by (cases it) (fastforce simp: merged_over_def lands_def)+
  show "i \<le> length kvs" using o ch(1) m(1) by (cases it) (auto simp: merged_over_def)
  show "it_Valid (merged_ops ops c) it = (i < length kvs)"
    using o ch(2) m(2) by (cases it) (auto simp: merged_over_def merged_ops_def Let_def)
  show "i < length kvs \<Longrightarrow> it_key (merged_ops ops c) it = fst (kvs ! i)"
    using o ch(3) m(3) by (cases it) (auto simp: merged_over_def merged_ops_def Let_def)
  show "i < length kvs \<Longrightarrow> it_value (merged_ops ops c) it = snd (kvs ! i)"
    using o ch(4) m(4) by (cases it) (auto simp: merged_over_def merged_ops_def Let_def)
  show "it_status (merged_ops ops c) it = OK"
    using o ch(5) m(5) by (cases it) (auto simp: merged_over_def merged_ops_def Let_def)
  show "i < length kvs \<Longrightarrow> lands merged_over (it_Next (merged_ops ops c) it) kvs (Suc i)"
    unfolding merged_ops_def Let_def iter_ops.simps by (rule L [OF child.moves_next list_iterator.moves_next [OF merging_contract]]) auto
  show "i < length kvs \<Longrightarrow> lands merged_over (it_Prev (merged_ops ops c) it) kvs (prev_pos kvs i)"
    unfolding merged_ops_def Let_def iter_ops.simps by (rule L [OF child.moves_prev list_iterator.moves_prev [OF merging_contract]]) auto
  show "lands merged_over (it_SeekToFirst (merged_ops ops c) it) kvs 0"
    unfolding merged_ops_def Let_def iter_ops.simps by (rule L [OF child.moves_first list_iterator.moves_first [OF merging_contract]]) auto
  show "lands merged_over (it_SeekToLast (merged_ops ops c) it) kvs (length kvs - 1)"
    unfolding merged_ops_def Let_def iter_ops.simps by (rule L [OF child.moves_last list_iterator.moves_last [OF merging_contract]]) auto
  show "ok k \<Longrightarrow> lands merged_over (it_Seek (merged_ops ops c) k it) kvs (lower_bound c k kvs)" for k
    unfolding merged_ops_def Let_def iter_ops.simps
    by (rule L [OF child.moves_seek list_iterator.moves_seek [OF merging_contract]]) (auto simp: lower_bound_def)
qed

lemma NewMerging_over:
  assumes "list_all2 (\<lambda>it xs. over it xs (length xs)) its xss" "merges c ok xss kvs"
  shows "merged_over (NewMergingIterator ops its) kvs (length kvs)"
proof -
  note l = list_all2_lengthD [OF assms(1)]
  have set: "mset kvs = mset (concat xss)" using assms(2) by (simp add: merges_def)
  show ?thesis
  proof (cases its)
    case Nil
    then show ?thesis using l set by (simp add: NewMergingIterator_def merged_over_def)
  next
    case (Cons it its')
    show ?thesis
    proof (cases its')
      case Nil
      then obtain xs where xs: "xss = [xs]" "over it xs (length xs)" using assms(1) Cons by (cases xss) auto
      have "kvs = xs"
      proof (rule sorted_wrt_unique)
        show "mset kvs = mset xs" using set xs by simp
        show "sorted_wrt (\<lambda>a b. Compare c (fst a) (fst b) < 0) kvs" "sorted_wrt (\<lambda>a b. Compare c (fst a) (fst b) < 0) xs"
          using assms(2) xs by (simp_all add: merges_def ascending_keys_def sorted_wrt_map)
      qed (use compare_asym in blast)
      then show ?thesis using Cons Nil xs by (simp add: NewMergingIterator_def merged_over_def)
    next
      case (Cons it' its'')
      have "child.w_over (w_Set ops (Some (its ! k)) IteratorWrapper) (xss ! k) (length (xss ! k))" if "k < length its" for k
        using child.w_Set_over assms(1) that by (simp add: list_all2_conv_all_nth)
      then have "placed (MergingIterator ops its) xss (\<lambda>k. length (xss ! k))"
        using l by (simp add: placed_def MergingIterator_def)
      moreover have "NewMergingIterator ops its = Merging (MergingIterator ops its)" using Cons \<open>its = it # its'\<close> by (simp add: NewMergingIterator_def)
      moreover have "mi_current (MergingIterator ops its) = None" by (simp add: MergingIterator_def)
      ultimately show ?thesis using assms(2) by (auto simp: merged_over_def m_over_def)
    qed
  qed
qed

end

text \<open>Iterators that carry the object they belong to, as virtual dispatch does.\<close>

definition family_ops :: "('e \<Rightarrow> 'i iter_ops) \<Rightarrow> ('e \<times> 'i) iter_ops" where
  "family_ops f = \<lparr>it_Valid = (\<lambda>(e, i). it_Valid (f e) i), it_key = (\<lambda>(e, i). it_key (f e) i), it_value = (\<lambda>(e, i). it_value (f e) i),
     it_status = (\<lambda>(e, i). it_status (f e) i), it_Seek = (\<lambda>k (e, i). map_option (Pair e) (it_Seek (f e) k i)),
     it_SeekToFirst = (\<lambda>(e, i). map_option (Pair e) (it_SeekToFirst (f e) i)),
     it_SeekToLast = (\<lambda>(e, i). map_option (Pair e) (it_SeekToLast (f e) i)),
     it_Next = (\<lambda>(e, i). map_option (Pair e) (it_Next (f e) i)), it_Prev = (\<lambda>(e, i). map_option (Pair e) (it_Prev (f e) i))\<rparr>"

definition family_over :: "('e \<Rightarrow> bool) \<Rightarrow> ('e \<Rightarrow> 'i \<Rightarrow> (slice \<times> slice) list \<Rightarrow> nat \<Rightarrow> bool) \<Rightarrow> 'e \<times> 'i \<Rightarrow> (slice \<times> slice) list \<Rightarrow> nat \<Rightarrow> bool" where
  "family_over P over x xs i \<longleftrightarrow> P (fst x) \<and> over (fst x) (snd x) xs i"

lemma family_contract:
  assumes "\<And>e. P e \<Longrightarrow> list_iterator (f e) c ok (over e)"
  shows "list_iterator (family_ops f) c ok (family_over P over)"
proof
  fix x xs i
  assume "family_over P over x xs i"
  then obtain e it where x: "x = (e, it)" "P e" "over e it xs i" by (cases x) (auto simp: family_over_def)
  note L = assms [OF x(2)]
  have land: "lands (over e) r xs j \<Longrightarrow> lands (family_over P over) (map_option (Pair e) r) xs j" for r j
    using x(2) by (auto simp: lands_def family_over_def)
  show "i \<le> length xs" by (rule list_iterator.over_pos [OF L x(3)])
  show "it_Valid (family_ops f) x = (i < length xs)" using list_iterator.valid [OF L x(3)] by (simp add: family_ops_def x)
  show "i < length xs \<Longrightarrow> it_key (family_ops f) x = fst (xs ! i)" using list_iterator.key [OF L x(3)] by (simp add: family_ops_def x)
  show "i < length xs \<Longrightarrow> it_value (family_ops f) x = snd (xs ! i)" using list_iterator.val [OF L x(3)] by (simp add: family_ops_def x)
  show "it_status (family_ops f) x = OK" using list_iterator.status [OF L x(3)] by (simp add: family_ops_def x)
  show "i < length xs \<Longrightarrow> lands (family_over P over) (it_Next (family_ops f) x) xs (Suc i)"
    using land list_iterator.moves_next [OF L x(3)] by (simp add: family_ops_def x)
  show "i < length xs \<Longrightarrow> lands (family_over P over) (it_Prev (family_ops f) x) xs (prev_pos xs i)"
    using land list_iterator.moves_prev [OF L x(3)] by (simp add: family_ops_def x)
  show "lands (family_over P over) (it_SeekToFirst (family_ops f) x) xs 0"
    using land list_iterator.moves_first [OF L x(3)] by (simp add: family_ops_def x)
  show "lands (family_over P over) (it_SeekToLast (family_ops f) x) xs (length xs - 1)"
    using land list_iterator.moves_last [OF L x(3)] by (simp add: family_ops_def x)
  show "ok k \<Longrightarrow> lands (family_over P over) (it_Seek (family_ops f) k x) xs (lower_bound c k xs)" for k
    using land list_iterator.moves_seek [OF L x(3)] by (simp add: family_ops_def x)
qed

end
