(* ===== verification/Ldb_Merger_Props.thy ===== *)
theory Ldb_Merger_Props
  imports Ldb_Merger Ldb_Table_Props
begin

text \<open>
  Merging the iterators of tables: the iterator that a read of several tables goes over.  Every child
  carries its table, as a pointer to an iterator carries its class.
\<close>

definition merge_tables_ops :: "snappy \<Rightarrow> read_options \<Rightarrow> comparator \<Rightarrow> (table \<times> (block_iterator, block_iterator) two_level) merged iter_ops" where
  "merge_tables_ops sn ro c = merged_ops (family_ops (\<lambda>t. table_ops sn t ro)) c"

definition merge_tables :: "snappy \<Rightarrow> read_options \<Rightarrow> table list \<Rightarrow> (table \<times> (block_iterator, block_iterator) two_level) merged" where
  "merge_tables sn ro ts = NewMergingIterator (family_ops (\<lambda>t. table_ops sn t ro)) (map (\<lambda>t. (t, table_NewIterator t)) ts)"

definition tables_over :: "snappy \<Rightarrow> read_options \<Rightarrow> comparator \<Rightarrow> (slice \<Rightarrow> bool) \<Rightarrow> table \<times> (block_iterator, block_iterator) two_level \<Rightarrow> kvs \<Rightarrow> nat \<Rightarrow> bool" where
  "tables_over sn ro c ok = family_over (\<lambda>t. tbl_comparator t = c) (\<lambda>t. table_over sn c ok t ro)"

lemma tables_contract:
  assumes "comparator_contract c ok"
  shows "list_iterator (family_ops (\<lambda>t. table_ops sn t ro)) c ok (tables_over sn ro c ok)"
  unfolding tables_over_def
proof (rule family_contract)
  fix t assume t: "tbl_comparator t = c"
  show "list_iterator (table_ops sn t ro) c ok (table_over sn c ok t ro)"
    unfolding table_ops_def t by (rule two_level.two_level_contract [OF table_two_level [OF assms]])
qed

lemma tables_merging: "comparator_contract c ok \<Longrightarrow> merging_children c ok (family_ops (\<lambda>t. table_ops sn t ro)) (tables_over sn ro c ok)"
  by (simp add: merging_children_def tables_contract)

interpretation internal_tables: merging_children "InternalKeyComparator BytewiseComparator" "\<lambda>k. 8 \<le> length k"
    "family_ops (\<lambda>t. table_ops sn t ro)" "tables_over sn ro (InternalKeyComparator BytewiseComparator) (\<lambda>k. 8 \<le> length k)" for sn ro
  by (rule tables_merging) (rule bytewise_user.internal.comparator_contract_axioms)

text \<open>What it takes for tables to be those of lists of entries that have no key in common.\<close>

definition tables_of :: "snappy \<Rightarrow> options \<Rightarrow> kvs list list \<Rightarrow> table list \<Rightarrow> bool" where
  "tables_of sn o1 bss ts \<longleftrightarrow> list_all2 (\<lambda>bs t. table_fits sn o1 bs \<and> (\<exists>in_buf. opened sn o1 bs in_buf t)) bss ts"

lemma merges_blocks:
  assumes "merges c ok (map concat bss) kvs" "bs \<in> set bss" "\<forall>b\<in>set bs. b \<noteq> []"
  shows "blocks_ok c ok bs"
proof -
  have "set (concat bs) \<subseteq> set (concat (map concat bss))" using assms(2) by auto
  also have "set (concat (map concat bss)) = set kvs" using assms(1) by (metis merges_def mset_eq_setD)
  finally have "\<forall>kv\<in>set (concat bs). ok (fst kv)" using assms(1) unfolding merges_def by blast
  moreover have "ascending_keys c (map fst (concat bs))" using assms(1,2) by (simp add: merges_def)
  ultimately show ?thesis using assms(3) unfolding blocks_ok_def by blast
qed

lemma merge_tables_over:
  assumes "comparator_contract (opt_comparator o1) ok" "snappy_ok sn" "tables_of sn o1 bss ts" "\<forall>bs\<in>set bss. \<forall>b\<in>set bs. b \<noteq> []"
    "merges (opt_comparator o1) ok (map concat bss) kvs"
  shows "list_iterator (merge_tables_ops sn ro (opt_comparator o1)) (opt_comparator o1) ok
      (merging_children.merged_over (opt_comparator o1) ok (tables_over sn ro (opt_comparator o1) ok))"
    "merging_children.merged_over (opt_comparator o1) ok (tables_over sn ro (opt_comparator o1) ok) (merge_tables sn ro ts) kvs (length kvs)"
proof -
  let ?c = "opt_comparator o1"
  note M = tables_merging [OF assms(1)]
  show "list_iterator (merge_tables_ops sn ro ?c) ?c ok (merging_children.merged_over ?c ok (tables_over sn ro ?c ok))"
    unfolding merge_tables_ops_def by (rule merging_children.merged_contract [OF M])
  have l: "length ts = length bss" using assms(3) by (auto simp: tables_of_def dest: list_all2_lengthD)
  have "tables_over sn ro ?c ok (ts ! i, table_NewIterator (ts ! i)) (concat (bss ! i)) (length (concat (bss ! i)))" if i: "i < length bss" for i
  proof -
    obtain in_buf where o: "table_fits sn o1 (bss ! i)" "opened sn o1 (bss ! i) in_buf (ts ! i)"
      using assms(3) i by (auto simp: tables_of_def list_all2_conv_all_nth)
    have "\<forall>b\<in>set (bss ! i). b \<noteq> []" using assms(4) nth_mem [OF i] by blast
    with merges_blocks [OF assms(5)] i have b: "blocks_ok ?c ok (bss ! i)" by simp
    have "tbl_comparator (ts ! i) = ?c" using o(2) by (simp add: tbl_comparator_def opened_def)
    with table_iterator(2) [OF assms(2) o assms(1) b] show ?thesis by (simp add: tables_over_def family_over_def)
  qed
  then have "list_all2 (\<lambda>it xs. tables_over sn ro ?c ok it xs (length xs)) (map (\<lambda>t. (t, table_NewIterator t)) ts) (map concat bss)"
    using l by (simp add: list_all2_conv_all_nth)
  from merging_children.NewMerging_over [OF M this assms(5)]
  show "merging_children.merged_over ?c ok (tables_over sn ro ?c ok) (merge_tables sn ro ts) kvs (length kvs)"
    by (simp add: merge_tables_def)
qed

end
