(* ===== verification/Ldb_Db_Iter.thy ===== *)
theory Ldb_Db_Iter
  imports Ldb_Merger Ldb_Memtable
begin

text \<open>
  The iterator of the database, \<open>db/db_iter.cc\<close>: it shows the newest version of every user key that
  the snapshot includes, over an iterator of internal keys.  \<open>DBImpl::RecordReadSample\<close> is a
  parameter, an operation \<open>sample\<close> on a state \<open>'d\<close>.  The capacity of \<open>saved_value_\<close> is not part of the
  model, and \<open>bytes_counter_\<close> is an integer without bound.

  The loops run over an abstract iterator, or until a random number is positive; a move returns
  \<open>None\<close> when one of them does not end.
\<close>

section \<open>The state\<close>

record ('i, 'd) db_iter =
  dbi_db :: 'd
  dbi_iter :: 'i
  dbi_sequence :: u64
  dbi_status :: status
  saved_key :: slice
  saved_value :: slice
  dbi_direction :: direction
  dbi_valid :: bool
  dbi_rnd :: u32
  bytes_counter :: int

definition kReadBytesPeriod :: nat where "kReadBytesPeriod = 1048576"

definition Uniform :: "nat \<Rightarrow> u32 \<Rightarrow> nat \<times> u32" where
  "Uniform n r = (let r' = Random_Next r in (unat r' mod n, r'))"

definition RandomPeriod :: "u32 \<Rightarrow> nat \<times> u32" where "RandomPeriod = Uniform (2 * kReadBytesPeriod)"

definition DBIter :: "'d \<Rightarrow> 'i \<Rightarrow> u64 \<Rightarrow> u32 \<Rightarrow> ('i, 'd) db_iter" where
  "DBIter db iter s seed =
     (let (period, r) = RandomPeriod (Random seed) in
      \<lparr>dbi_db = db, dbi_iter = iter, dbi_sequence = s, dbi_status = OK, saved_key = [], saved_value = [],
       dbi_direction = kForward, dbi_valid = False, dbi_rnd = r, bytes_counter = int period\<rparr>)"

section \<open>Reading the current entry\<close>

partial_function (option) sample_loop ::
    "(slice \<Rightarrow> 'd \<Rightarrow> 'd) \<Rightarrow> slice \<Rightarrow> ('i, 'd) db_iter \<Rightarrow> ('i, 'd) db_iter option" where
  "sample_loop sample k t =
     (if bytes_counter t < 0 then
        (case RandomPeriod (dbi_rnd t) of (period, r) \<Rightarrow>
           sample_loop sample k
             (t\<lparr>bytes_counter := bytes_counter t + int period, dbi_rnd := r, dbi_db := sample k (dbi_db t)\<rparr>))
      else Some t)"

definition ParseKey ::
    "'i iter_ops \<Rightarrow> (slice \<Rightarrow> 'd \<Rightarrow> 'd) \<Rightarrow> ('i, 'd) db_iter \<Rightarrow> (ParsedInternalKey option \<times> ('i, 'd) db_iter) option" where
  "ParseKey ops sample t =
     (let k = it_key ops (dbi_iter t); n = length k + length (it_value ops (dbi_iter t)) in
      do { t1 \<leftarrow> sample_loop sample k (t\<lparr>bytes_counter := bytes_counter t - int n\<rparr>);
           Some (case ParseInternalKey k of
             None \<Rightarrow> (None, t1\<lparr>dbi_status := Corruption ''corrupted internal key in DBIter''\<rparr>)
           | Some ik \<Rightarrow> (Some ik, t1)) })"

definition ClearSavedValue :: "('i, 'd) db_iter \<Rightarrow> ('i, 'd) db_iter" where
  "ClearSavedValue t = t\<lparr>saved_value := []\<rparr>"

section \<open>Moving forwards\<close>

text \<open>One entry: whether it is the one to show, and whether entries are skipped from now on.  The argument
  \<open>skip\<close> of the code is always \<open>saved_key_\<close>.\<close>

definition next_entry ::
    "comparator \<Rightarrow> ParsedInternalKey option \<Rightarrow> bool \<Rightarrow> ('i, 'd) db_iter \<Rightarrow> bool \<times> bool \<times> ('i, 'd) db_iter" where
  "next_entry c ikey skipping t = (case ikey of
     None \<Rightarrow> (False, skipping, t)
   | Some k \<Rightarrow>
       if key_sequence k \<le> dbi_sequence t then
         (case key_type k of
            kTypeDeletion \<Rightarrow> (False, True, t\<lparr>saved_key := key_user k\<rparr>)
          | kTypeValue \<Rightarrow>
              if skipping \<and> Compare c (key_user k) (saved_key t) \<le> 0 then (False, skipping, t)
              else (True, skipping, t\<lparr>dbi_valid := True, saved_key := []\<rparr>))
       else (False, skipping, t))"

partial_function (option) FindNextUserEntry ::
    "'i iter_ops \<Rightarrow> (slice \<Rightarrow> 'd \<Rightarrow> 'd) \<Rightarrow> comparator \<Rightarrow> bool \<Rightarrow> ('i, 'd) db_iter \<Rightarrow> ('i, 'd) db_iter option" where
  "FindNextUserEntry ops sample c skipping t =
     do { (ikey, t1) \<leftarrow> ParseKey ops sample t;
          (let (found, skipping', t2) = next_entry c ikey skipping t1 in
           if found then Some t2
           else do { it \<leftarrow> it_Next ops (dbi_iter t2);
                     (if it_Valid ops it then FindNextUserEntry ops sample c skipping' (t2\<lparr>dbi_iter := it\<rparr>)
                      else Some (t2\<lparr>dbi_iter := it, saved_key := [], dbi_valid := False\<rparr>)) }) }"

definition dbi_Next ::
    "'i iter_ops \<Rightarrow> (slice \<Rightarrow> 'd \<Rightarrow> 'd) \<Rightarrow> comparator \<Rightarrow> ('i, 'd) db_iter \<Rightarrow> ('i, 'd) db_iter option" where
  "dbi_Next ops sample c t =
     (if dbi_direction t = kReverse then
        do { it \<leftarrow> (if \<not> it_Valid ops (dbi_iter t) then it_SeekToFirst ops (dbi_iter t) else it_Next ops (dbi_iter t));
             (let t1 = t\<lparr>dbi_direction := kForward, dbi_iter := it\<rparr> in
              if \<not> it_Valid ops it then Some (t1\<lparr>dbi_valid := False, saved_key := []\<rparr>)
              else FindNextUserEntry ops sample c True t1) }
      else FindNextUserEntry ops sample c True (t\<lparr>saved_key := ExtractUserKey (it_key ops (dbi_iter t))\<rparr>))"

section \<open>Moving backwards\<close>

text \<open>One entry: \<open>None\<close> when the loop is left, and otherwise the type of the entry that is saved.\<close>

definition prev_entry ::
    "'i iter_ops \<Rightarrow> comparator \<Rightarrow> ParsedInternalKey option \<Rightarrow> ValueType \<Rightarrow> ('i, 'd) db_iter \<Rightarrow> (ValueType \<times> ('i, 'd) db_iter) option" where
  "prev_entry ops c ikey value_type t = (case ikey of
     None \<Rightarrow> Some (value_type, t)
   | Some k \<Rightarrow>
       if key_sequence k \<le> dbi_sequence t then
         if value_type \<noteq> kTypeDeletion \<and> Compare c (key_user k) (saved_key t) < 0 then None
         else (case key_type k of
                 kTypeDeletion \<Rightarrow> Some (kTypeDeletion, ClearSavedValue (t\<lparr>saved_key := []\<rparr>))
               | kTypeValue \<Rightarrow> Some (kTypeValue, t\<lparr>saved_key := ExtractUserKey (it_key ops (dbi_iter t)),
                   saved_value := it_value ops (dbi_iter t)\<rparr>))
       else Some (value_type, t))"

partial_function (option) prev_loop ::
    "'i iter_ops \<Rightarrow> (slice \<Rightarrow> 'd \<Rightarrow> 'd) \<Rightarrow> comparator \<Rightarrow> ValueType \<Rightarrow> ('i, 'd) db_iter \<Rightarrow> (ValueType \<times> ('i, 'd) db_iter) option" where
  "prev_loop ops sample c value_type t =
     do { (ikey, t1) \<leftarrow> ParseKey ops sample t;
          (case prev_entry ops c ikey value_type t1 of
             None \<Rightarrow> Some (value_type, t1)
           | Some (vt, t2) \<Rightarrow>
               do { it \<leftarrow> it_Prev ops (dbi_iter t2);
                    (if it_Valid ops it then prev_loop ops sample c vt (t2\<lparr>dbi_iter := it\<rparr>)
                     else Some (vt, t2\<lparr>dbi_iter := it\<rparr>)) }) }"

definition FindPrevUserEntry ::
    "'i iter_ops \<Rightarrow> (slice \<Rightarrow> 'd \<Rightarrow> 'd) \<Rightarrow> comparator \<Rightarrow> ('i, 'd) db_iter \<Rightarrow> ('i, 'd) db_iter option" where
  "FindPrevUserEntry ops sample c t =
     do { (vt, t1) \<leftarrow> (if it_Valid ops (dbi_iter t) then prev_loop ops sample c kTypeDeletion t else Some (kTypeDeletion, t));
          Some (if vt = kTypeDeletion
                then (ClearSavedValue (t1\<lparr>dbi_valid := False, saved_key := []\<rparr>))\<lparr>dbi_direction := kForward\<rparr>
                else t1\<lparr>dbi_valid := True\<rparr>) }"

text \<open>The scan to the entries before the current user key; false when there are none.\<close>

partial_function (option) scan_back :: "'i iter_ops \<Rightarrow> comparator \<Rightarrow> slice \<Rightarrow> 'i \<Rightarrow> (bool \<times> 'i) option" where
  "scan_back ops c k it =
     do { it' \<leftarrow> it_Prev ops it;
          (if \<not> it_Valid ops it' then Some (False, it')
           else if Compare c (ExtractUserKey (it_key ops it')) k < 0 then Some (True, it')
           else scan_back ops c k it') }"

definition dbi_Prev ::
    "'i iter_ops \<Rightarrow> (slice \<Rightarrow> 'd \<Rightarrow> 'd) \<Rightarrow> comparator \<Rightarrow> ('i, 'd) db_iter \<Rightarrow> ('i, 'd) db_iter option" where
  "dbi_Prev ops sample c t =
     (if dbi_direction t = kForward then
        (let t1 = t\<lparr>saved_key := ExtractUserKey (it_key ops (dbi_iter t))\<rparr> in
         do { (more, it) \<leftarrow> scan_back ops c (saved_key t1) (dbi_iter t1);
              (if more then FindPrevUserEntry ops sample c (t1\<lparr>dbi_iter := it, dbi_direction := kReverse\<rparr>)
               else Some (ClearSavedValue (t1\<lparr>dbi_iter := it, dbi_valid := False, saved_key := []\<rparr>))) })
      else FindPrevUserEntry ops sample c t)"

section \<open>Seeking\<close>

definition dbi_Seek ::
    "'i iter_ops \<Rightarrow> (slice \<Rightarrow> 'd \<Rightarrow> 'd) \<Rightarrow> comparator \<Rightarrow> slice \<Rightarrow> ('i, 'd) db_iter \<Rightarrow> ('i, 'd) db_iter option" where
  "dbi_Seek ops sample c target t =
     (let t1 = (ClearSavedValue (t\<lparr>dbi_direction := kForward\<rparr>))
            \<lparr>saved_key := AppendInternalKey [] \<lparr>key_user = target, key_sequence = dbi_sequence t, key_type = kValueTypeForSeek\<rparr>\<rparr> in
      do { it \<leftarrow> it_Seek ops (saved_key t1) (dbi_iter t1);
           (let t2 = t1\<lparr>dbi_iter := it\<rparr> in
            if it_Valid ops it then FindNextUserEntry ops sample c False t2 else Some (t2\<lparr>dbi_valid := False\<rparr>)) })"

definition dbi_SeekToFirst ::
    "'i iter_ops \<Rightarrow> (slice \<Rightarrow> 'd \<Rightarrow> 'd) \<Rightarrow> comparator \<Rightarrow> ('i, 'd) db_iter \<Rightarrow> ('i, 'd) db_iter option" where
  "dbi_SeekToFirst ops sample c t =
     (let t1 = ClearSavedValue (t\<lparr>dbi_direction := kForward\<rparr>) in
      do { it \<leftarrow> it_SeekToFirst ops (dbi_iter t1);
           (let t2 = t1\<lparr>dbi_iter := it\<rparr> in
            if it_Valid ops it then FindNextUserEntry ops sample c False t2 else Some (t2\<lparr>dbi_valid := False\<rparr>)) })"

definition dbi_SeekToLast ::
    "'i iter_ops \<Rightarrow> (slice \<Rightarrow> 'd \<Rightarrow> 'd) \<Rightarrow> comparator \<Rightarrow> ('i, 'd) db_iter \<Rightarrow> ('i, 'd) db_iter option" where
  "dbi_SeekToLast ops sample c t =
     (let t1 = ClearSavedValue (t\<lparr>dbi_direction := kReverse\<rparr>) in
      do { it \<leftarrow> it_SeekToLast ops (dbi_iter t1); FindPrevUserEntry ops sample c (t1\<lparr>dbi_iter := it\<rparr>) })"

definition db_iter_ops :: "'i iter_ops \<Rightarrow> (slice \<Rightarrow> 'd \<Rightarrow> 'd) \<Rightarrow> comparator \<Rightarrow> ('i, 'd) db_iter iter_ops" where
  "db_iter_ops ops sample c =
     \<lparr>it_Valid = dbi_valid,
      it_key = (\<lambda>t. if dbi_direction t = kForward then ExtractUserKey (it_key ops (dbi_iter t)) else saved_key t),
      it_value = (\<lambda>t. if dbi_direction t = kForward then it_value ops (dbi_iter t) else saved_value t),
      it_status = (\<lambda>t. if is_ok (dbi_status t) then it_status ops (dbi_iter t) else dbi_status t),
      it_Seek = dbi_Seek ops sample c, it_SeekToFirst = dbi_SeekToFirst ops sample c,
      it_SeekToLast = dbi_SeekToLast ops sample c, it_Next = dbi_Next ops sample c, it_Prev = dbi_Prev ops sample c\<rparr>"

end
