(* ===== verification/Ldb_Db_Iter_Props.thy ===== *)
theory Ldb_Db_Iter_Props
  imports Ldb_Db_Iter Ldb_Memtable_Props
begin

text \<open>
  The iterator of the database goes over the newest visible version of every user key: it keeps the
  contract of iterators over \<open>user_view\<close> whenever the iterator below it keeps the contract over the
  internal keys.  All its loops end; for the loop over random periods this rests on the generator,
  which never gives two numbers in a row whose low bits are zero.
\<close>

section \<open>The random generator\<close>

definition good_seed :: "u32 \<Rightarrow> bool" where "good_seed r \<longleftrightarrow> 0 < unat r \<and> unat r < 2147483647"

lemma generator_nonzero:
  assumes "0 < x" "x < 2147483647"
  shows "16807 * x mod 2147483647 \<noteq> (0 :: nat)"
proof
  assume "16807 * x mod 2147483647 = 0"
  then have "2147483647 dvd 16807 * x" by (simp add: mod_eq_0_iff_dvd)
  moreover have "coprime (2147483647 :: nat) 16807" by (simp add: coprime_iff_gcd_eq_1 gcd_non_0_nat)
  ultimately have "2147483647 dvd x" using coprime_dvd_mult_right_iff by blast
  with assms show False using nat_dvd_not_less by blast
qed

lemma Random_Next_mod:
  assumes "good_seed r"
  shows "unat (Random_Next r) = 16807 * unat r mod 2147483647"
proof -
  let ?p = "16807 * unat r"
  define w where "w = ucast r * (16807 :: u64)"
  have r: "0 < unat r" "unat r < 2147483647" using assms by (simp_all add: good_seed_def)
  have w: "unat w = ?p" using r(2) by (simp add: w_def unat_word_ariths unsigned_ucast_eq take_bit_eq_mod)
  have m: "(2147483647 :: u64) = mask 31" by (simp add: mask_eq_exp_minus_1)
  have hi: "unat (drop_bit 31 w) = ?p div 2 ^ 31" by (simp only: unat_drop_bit w)
  have lo: "unat (w AND 2147483647) = ?p mod 2 ^ 31"
    unfolding m take_bit_eq_mask [symmetric] unsigned_take_bit_eq w by (rule take_bit_eq_mod)
  have b: "?p div 2 ^ 31 < 16807" "?p mod 2 ^ 31 < 2 ^ 31" using r(2) by simp_all
  let ?s = "?p div 2 ^ 31 + ?p mod 2 ^ 31"
  have "unat (drop_bit 31 w + (w AND 2147483647)) = ?s"
    using b by (simp add: unat_word_ariths hi lo)
  then have s: "unat (ucast (drop_bit 31 w + (w AND 2147483647)) :: u32) = ?s"
    using b by (simp add: unsigned_ucast_eq take_bit_eq_mod)
  have "?p = 2147483647 * (?p div 2 ^ 31) + ?s" using div_mult_mod_eq [of ?p "2 ^ 31"] by simp
  then have mo: "?p mod 2147483647 = ?s mod 2147483647" by (metis mod_mult_self4)
  then have ne: "?s \<noteq> 2147483647" using generator_nonzero [OF r] by auto
  define v where "v = (ucast (drop_bit 31 w + (w AND 2147483647)) :: u32)"
  have v: "unat v = ?s" using s by (simp add: v_def)
  have n: "Random_Next r = (if 2147483647 < v then v - 2147483647 else v)"
    by (simp add: Random_Next_def Let_def w_def v_def)
  show ?thesis
  proof (cases "?s < 2147483647")
    case True
    then have "\<not> 2147483647 < v" using v by (simp add: word_less_nat_alt)
    then have "Random_Next r = v" using n by simp
    moreover have "?s mod 2147483647 = ?s" using True by (rule mod_less)
    ultimately show ?thesis unfolding mo v [symmetric] by simp
  next
    case False
    then have lt: "2147483647 < ?s" using ne by simp
    then have g: "2147483647 < v" using v by (simp add: word_less_nat_alt)
    then have "unat (v - 2147483647) = ?s - 2147483647" using v by (simp add: unat_sub word_le_nat_alt word_less_nat_alt)
    moreover have "?s mod 2147483647 = ?s - 2147483647" 
    proof -
      have "?s - 2147483647 < 2147483647" using b by simp
      moreover have "?s mod 2147483647 = (?s - 2147483647) mod 2147483647" using lt by (metis le_mod_geq less_imp_le)
      ultimately show ?thesis by (metis mod_less)
    qed
    moreover have "Random_Next r = v - 2147483647" using n g by simp
    ultimately show ?thesis unfolding mo by simp
  qed
qed

lemma Random_Next_good: "good_seed r \<Longrightarrow> good_seed (Random_Next r)"
  using generator_nonzero [of "unat r"] by (simp add: good_seed_def [of "Random_Next r"] Random_Next_mod) (simp add: good_seed_def)

lemma Random_good: "good_seed (Random s)"
proof -
  let ?x = "s AND 0x7fffffff"
  have "?x \<le> 0x7fffffff" by (rule word_and_le1)
  then have le: "unat ?x \<le> 2147483647" by (simp add: word_le_nat_alt)
  show ?thesis
  proof (cases "?x = 0 \<or> ?x = 2147483647")
    case True
    then have "Random s = 1" unfolding Random_def Let_def by simp
    then show ?thesis by (simp add: good_seed_def)
  next
    case False
    then have "unat ?x \<noteq> unat (0 :: u32)" "unat ?x \<noteq> unat (2147483647 :: u32)" by (metis word_unat_eq_iff)+
    then have "0 < unat ?x" "unat ?x < 2147483647" using le by simp_all
    moreover have "Random s = ?x" using False unfolding Random_def Let_def by simp
    ultimately show ?thesis by (simp add: good_seed_def)
  qed
qed

text \<open>Of two numbers in a row one has low bits.\<close>

lemma low_bits:
  fixes x :: nat
  assumes "0 < x" "x < 2147483647" "x mod 2097152 = 0" "16807 * x mod 2147483647 mod 2097152 = 0"
  shows False
proof -
  let ?q = "16807 * x div 2147483647" and ?r = "16807 * x mod 2147483647"
  have e: "16807 * x = ?q * 2147483647 + ?r" by simp
  have "2097152 dvd 16807 * x" using assms(3) by (simp add: mod_eq_0_iff_dvd)
  moreover have "2097152 dvd ?r" using assms(4) by (simp add: mod_eq_0_iff_dvd)
  ultimately have "2097152 dvd ?q * 2147483647" using e by (metis dvd_add_left_iff)
  moreover have "coprime (2097152 :: nat) 2147483647" by (simp add: coprime_iff_gcd_eq_1 gcd_non_0_nat)
  ultimately have "2097152 dvd ?q" using coprime_dvd_mult_left_iff by blast
  moreover have "?q < 2097152" using assms(2) by simp
  ultimately have "?q = 0" using nat_dvd_not_less by blast
  then have "16807 * x < 2147483647" by simp
  moreover have "2097152 \<le> x" using assms(1,3) by (metis mod_less not_le not_less_zero)
  ultimately show False by simp
qed

section \<open>Reading the current entry\<close>

text \<open>What a step of the sampling leaves alone.\<close>

definition steady :: "('i, 'd) db_iter \<Rightarrow> ('i, 'd) db_iter \<Rightarrow> bool" where
  "steady t t' \<longleftrightarrow> dbi_iter t' = dbi_iter t \<and> dbi_sequence t' = dbi_sequence t \<and> dbi_status t' = dbi_status t \<and>
     saved_key t' = saved_key t \<and> saved_value t' = saved_value t \<and> dbi_direction t' = dbi_direction t \<and> dbi_valid t' = dbi_valid t"

definition sampled :: "(slice \<Rightarrow> 'd \<Rightarrow> 'd) \<Rightarrow> slice \<Rightarrow> ('i, 'd) db_iter \<Rightarrow> ('i, 'd) db_iter" where
  "sampled sample k t = t\<lparr>bytes_counter := bytes_counter t + int (fst (RandomPeriod (dbi_rnd t))),
     dbi_rnd := snd (RandomPeriod (dbi_rnd t)), dbi_db := sample k (dbi_db t)\<rparr>"

lemma sample_loop_step:
  "sample_loop sample k t = (if bytes_counter t < 0 then sample_loop sample k (sampled sample k t) else Some t)"
  by (subst sample_loop.simps) (simp add: sampled_def split: prod.split)

lemma sampled_props:
  assumes "good_seed (dbi_rnd t)"
  shows "steady t (sampled sample k t)" "good_seed (dbi_rnd (sampled sample k t))"
    "bytes_counter (sampled sample k t) = bytes_counter t + int (unat (Random_Next (dbi_rnd t)) mod 2097152)"
    "dbi_rnd (sampled sample k t) = Random_Next (dbi_rnd t)"
  using assms Random_Next_good
  by (simp_all add: steady_def sampled_def RandomPeriod_def Uniform_def kReadBytesPeriod_def Let_def)

lemma steady_trans: "steady t t' \<Longrightarrow> steady t' t'' \<Longrightarrow> steady t t''"
  by (simp add: steady_def)

lemma sample_loop_returns:
  assumes "good_seed (dbi_rnd t)"
  shows "\<exists>t'. sample_loop sample k t = Some t' \<and> steady t t' \<and> good_seed (dbi_rnd t') \<and> 0 \<le> bytes_counter t'"
  using assms
proof (induction "nat (- bytes_counter t)" arbitrary: t rule: less_induct)
  case less
  show ?case
  proof (cases "bytes_counter t < 0")
    case False
    then show ?thesis using less.prems by (subst sample_loop_step) (simp add: steady_def)
  next
    case neg: True
    let ?t1 = "sampled sample k t"
    let ?t2 = "sampled sample k ?t1"
    note p1 = sampled_props [OF less.prems, of sample k]
    note p2 = sampled_props [OF p1(2), of sample k]
    have s1: "sample_loop sample k t = sample_loop sample k ?t1" using neg by (subst sample_loop_step) simp
    show ?thesis
    proof (cases "nat (- bytes_counter ?t1) < nat (- bytes_counter t)")
      case True
      from less.hyps [OF this p1(2)] show ?thesis using s1 p1(1) steady_trans by metis
    next
      case False
      then have z: "unat (Random_Next (dbi_rnd t)) mod 2097152 = 0" using p1(3) neg by linarith
      then have b1: "bytes_counter ?t1 = bytes_counter t" using p1(3) by simp
      have g: "good_seed (Random_Next (dbi_rnd t))" by (rule Random_Next_good [OF less.prems])
      then have "unat (Random_Next (dbi_rnd ?t1)) mod 2097152 \<noteq> 0"
        using low_bits [of "unat (Random_Next (dbi_rnd t))"] z Random_Next_mod [OF g] by (auto simp: p1(4) good_seed_def)
      then have lt: "nat (- bytes_counter ?t2) < nat (- bytes_counter t)" using p2(3) b1 neg by linarith
      have "sample_loop sample k ?t1 = sample_loop sample k ?t2" using neg b1 by (subst sample_loop_step) simp
      with less.hyps [OF lt p2(2)] s1 p1(1) p2(1) show ?thesis using steady_trans by metis
    qed
  qed
qed

section \<open>What a user sees\<close>

definition in_snapshot :: "u64 \<Rightarrow> entry \<Rightarrow> bool" where "in_snapshot s e \<longleftrightarrow> key_sequence (fst e) \<le> s"

abbreviation user_of :: "entry \<Rightarrow> slice" where "user_of e \<equiv> key_user (fst e)"

text \<open>An entry is shown when it is a value, and the first entry of its user key that the snapshot includes.\<close>

definition shown :: "u64 \<Rightarrow> entry list \<Rightarrow> nat \<Rightarrow> bool" where
  "shown s es r \<longleftrightarrow> in_snapshot s (es ! r) \<and> key_type (fst (es ! r)) = kTypeValue \<and>
     list_all (\<lambda>e. in_snapshot s e \<longrightarrow> user_of e \<noteq> user_of (es ! r)) (take r es)"

definition user_view :: "u64 \<Rightarrow> entry list \<Rightarrow> (slice \<times> slice) list" where
  "user_view s es = map (\<lambda>r. (user_of (es ! r), snd (es ! r))) (filter (shown s es) [0..<length es])"

definition rank :: "u64 \<Rightarrow> entry list \<Rightarrow> nat \<Rightarrow> nat" where
  "rank s es r = length (filter (shown s es) [0..<r])"

lemma shown_iff:
  "r < length es \<Longrightarrow> shown s es r \<longleftrightarrow> in_snapshot s (es ! r) \<and> key_type (fst (es ! r)) = kTypeValue \<and>
     (\<forall>k<r. in_snapshot s (es ! k) \<longrightarrow> user_of (es ! k) \<noteq> user_of (es ! r))"
  by (auto simp: shown_def list_all_length)

lemma rank_0 [simp]: "rank s es 0 = 0" by (simp add: rank_def)
lemma rank_Suc: "rank s es (Suc r) = (if shown s es r then Suc (rank s es r) else rank s es r)" by (simp add: rank_def)
lemma rank_end: "rank s es (length es) = length (user_view s es)" by (simp add: rank_def user_view_def)

lemma rank_skip: "p \<le> r \<Longrightarrow> (\<And>l. p \<le> l \<Longrightarrow> l < r \<Longrightarrow> \<not> shown s es l) \<Longrightarrow> rank s es r = rank s es p"
proof (induction r)
  case (Suc r)
  then show ?case by (cases "p = Suc r") (auto simp: rank_Suc)
qed simp

lemma view_split:
  assumes "p \<le> length es"
  shows "user_view s es = map (\<lambda>r. (user_of (es ! r), snd (es ! r))) (filter (shown s es) [0..<p]) @
    map (\<lambda>r. (user_of (es ! r), snd (es ! r))) (filter (shown s es) [p..<length es])"
  using upt_add_eq_append [of 0 p "length es - p"] assms by (simp add: user_view_def)

lemma view_nth:
  assumes "r < length es" "shown s es r"
  shows "rank s es r < length (user_view s es)" "user_view s es ! rank s es r = (user_of (es ! r), snd (es ! r))"
proof -
  have "[r..<length es] = r # [Suc r..<length es]" using assms(1) by (rule upt_conv_Cons)
  then have v: "user_view s es = map (\<lambda>r. (user_of (es ! r), snd (es ! r))) (filter (shown s es) [0..<r]) @
      (user_of (es ! r), snd (es ! r)) # map (\<lambda>r. (user_of (es ! r), snd (es ! r))) (filter (shown s es) [Suc r..<length es])"
    using view_split [of r es s] assms by simp
  show "rank s es r < length (user_view s es)" "user_view s es ! rank s es r = (user_of (es ! r), snd (es ! r))"
    unfolding v rank_def by (simp_all add: nth_append)
qed

definition raw_entries :: "entry list \<Rightarrow> (slice \<times> slice) list" where
  "raw_entries es = map (\<lambda>e. (ikey e, snd e)) es"

lemma length_raw [simp]: "length (raw_entries es) = length es" by (simp add: raw_entries_def)
lemma raw_nth [simp]: "r < length es \<Longrightarrow> raw_entries es ! r = (ikey (es ! r), snd (es ! r))" by (simp add: raw_entries_def)

section \<open>The contract\<close>

locale db_view = user_order c + inner: list_iterator ops "InternalKeyComparator c" "\<lambda>k. 8 \<le> length k" over
  for c :: comparator and ops :: "'i iter_ops" and over :: "'i \<Rightarrow> (slice \<times> slice) list \<Rightarrow> nat \<Rightarrow> bool" +
  fixes sample :: "slice \<Rightarrow> 'd \<Rightarrow> 'd"
begin

definition source :: "entry list \<Rightarrow> bool" where
  "source es \<longleftrightarrow> (\<forall>e\<in>set es. key_sequence (fst e) \<le> kMaxSequenceNumber) \<and>
     ascending_keys (InternalKeyComparator c) (map ikey es)"

definition base :: "('i, 'd) db_iter \<Rightarrow> entry list \<Rightarrow> nat \<Rightarrow> bool" where
  "base t es p \<longleftrightarrow> source es \<and> over (dbi_iter t) (raw_entries es) p \<and> dbi_status t = OK \<and> good_seed (dbi_rnd t) \<and>
     dbi_sequence t \<le> kMaxSequenceNumber"

definition at_entry :: "('i, 'd) db_iter \<Rightarrow> entry list \<Rightarrow> nat \<Rightarrow> bool" where
  "at_entry t es r \<longleftrightarrow> base t es r \<and> r < length es \<and> shown (dbi_sequence t) es r \<and> dbi_valid t \<and> dbi_direction t = kForward"

text \<open>The iterator below is behind the first \<open>m\<close> entries, and what is shown is saved.\<close>

definition saved_entry :: "('i, 'd) db_iter \<Rightarrow> entry list \<Rightarrow> nat \<Rightarrow> nat \<Rightarrow> bool" where
  "saved_entry t es m r \<longleftrightarrow> m \<le> r \<and> r < length es \<and> (\<forall>k. m \<le> k \<longrightarrow> k < r \<longrightarrow> \<not> in_snapshot (dbi_sequence t) (es ! k)) \<and>
     saved_key t = user_of (es ! r) \<and> saved_value t = snd (es ! r)"

definition at_before :: "('i, 'd) db_iter \<Rightarrow> entry list \<Rightarrow> nat \<Rightarrow> nat \<Rightarrow> bool" where
  "at_before t es m r \<longleftrightarrow> base t es (prev_pos (raw_entries es) m) \<and> shown (dbi_sequence t) es r \<and> saved_entry t es m r \<and>
     (\<forall>k<m. Compare c (user_of (es ! k)) (user_of (es ! r)) < 0) \<and> dbi_valid t \<and> dbi_direction t = kReverse"

definition off :: "('i, 'd) db_iter \<Rightarrow> entry list \<Rightarrow> bool" where
  "off t es \<longleftrightarrow> (\<exists>p. base t es p) \<and> \<not> dbi_valid t \<and> dbi_direction t = kForward"

definition d_over :: "('i, 'd) db_iter \<Rightarrow> (slice \<times> slice) list \<Rightarrow> nat \<Rightarrow> bool" where
  "d_over t uvs i \<longleftrightarrow> (\<exists>es. uvs = user_view (dbi_sequence t) es \<and>
     ((\<exists>r. at_entry t es r \<and> i = rank (dbi_sequence t) es r) \<or>
      (\<exists>m r. at_before t es m r \<and> i = rank (dbi_sequence t) es r) \<or> off t es \<and> i = length uvs))"

lemma steady_base: "steady t t' \<Longrightarrow> good_seed (dbi_rnd t') \<Longrightarrow> base t es p \<Longrightarrow> base t' es p"
  by (simp add: steady_def base_def)

lemma base_pos: "base t es p \<Longrightarrow> p \<le> length es"
  using inner.over_pos [of "dbi_iter t" "raw_entries es" p] by (simp add: base_def)

lemma base_valid: "base t es p \<Longrightarrow> it_Valid ops (dbi_iter t) \<longleftrightarrow> p < length es"
  using inner.valid [of "dbi_iter t" "raw_entries es" p] by (simp add: base_def)

lemma base_entry:
  assumes "base t es p" "p < length es"
  shows "it_key ops (dbi_iter t) = ikey (es ! p)" "it_value ops (dbi_iter t) = snd (es ! p)"
  using inner.key [of "dbi_iter t" "raw_entries es" p] inner.val [of "dbi_iter t" "raw_entries es" p] assms by (simp_all add: base_def)

lemma base_move:
  assumes "base t es p" "lands over r (raw_entries es) q"
  obtains it where "r = Some it" "base (t\<lparr>dbi_iter := it\<rparr>) es q" "it_Valid ops it \<longleftrightarrow> q < length es"
  using assms inner.valid [of _ "raw_entries es" q] by (auto simp: lands_def base_def)

lemma base_fields [simp]:
  "base (t\<lparr>saved_key := x\<rparr>) es p = base t es p" "base (t\<lparr>saved_value := y\<rparr>) es p = base t es p"
  "base (t\<lparr>dbi_valid := b\<rparr>) es p = base t es p" "base (t\<lparr>dbi_direction := d\<rparr>) es p = base t es p"
  by (simp_all add: base_def)

lemma ParseKey_at:
  assumes "base t es p" "p < length es"
  obtains t' where "ParseKey ops sample t = Some (Some (fst (es ! p)), t')" "steady t t'" "base t' es p"
proof -
  have s: "key_sequence (fst (es ! p)) \<le> kMaxSequenceNumber" using assms by (simp add: base_def source_def)
  let ?n = "length (it_key ops (dbi_iter t)) + length (it_value ops (dbi_iter t))"
  let ?t = "t\<lparr>bytes_counter := bytes_counter t - int ?n\<rparr>"
  have "good_seed (dbi_rnd ?t)" using assms by (simp add: base_def)
  then obtain t' where t': "sample_loop sample (it_key ops (dbi_iter t)) ?t = Some t'" "steady ?t t'" "good_seed (dbi_rnd t')"
    using sample_loop_returns by blast
  have st: "steady t t'" using t'(2) by (simp add: steady_def)
  have "ParseKey ops sample t = Some (Some (fst (es ! p)), t')"
    using t'(1) Append_Parse [OF s] by (simp add: ParseKey_def Let_def base_entry(1) [OF assms] ikey_def)
  then show ?thesis using that st steady_base [OF st t'(3) assms(1)] by blast
qed

text \<open>The order of the entries.\<close>

lemma source_less:
  assumes "source es" "i < j" "j < length es"
  shows "internal_compare c (ikey (es ! i)) (ikey (es ! j)) < 0"
  using assms by (simp add: source_def ascending_keys_def sorted_wrt_iff_nth_less)

lemma user_mono:
  assumes "source es" "i \<le> j" "j < length es"
  shows "Compare c (user_of (es ! i)) (user_of (es ! j)) < 0 \<or> user_of (es ! i) = user_of (es ! j)"
  using source_less [OF assms(1), of i j] assms(2,3) by (cases "i = j") (auto simp: internal_less)

lemma user_irrefl: "\<not> Compare c a a < 0"
  using user_zero [of a a] by simp

lemma user_asym: "Compare c a b < 0 \<Longrightarrow> \<not> Compare c b a < 0"
  using compare_flip [where a = a and b = b] compare_flip [where a = b and b = a] by linarith

lemma user_greater: "0 < Compare c a b \<longleftrightarrow> Compare c b a < 0"
  using compare_flip [where a = a and b = b] compare_flip [where a = b and b = a] by simp

lemma user_le_less: "Compare c a b < 0 \<or> a = b \<Longrightarrow> Compare c b d < 0 \<Longrightarrow> Compare c a d < 0"
  using compare_trans by blast

lemma user_less_le: "Compare c a b < 0 \<Longrightarrow> Compare c b d < 0 \<or> b = d \<Longrightarrow> Compare c a d < 0"
  using compare_trans by blast

lemma shown_after:
  assumes "source es" "shown s es r" "shown s es l" "r < l" "l < length es"
  shows "Compare c (user_of (es ! r)) (user_of (es ! l)) < 0"
proof -
  have "in_snapshot s (es ! r)" using assms(2,4,5) by (simp add: shown_iff)
  then have "user_of (es ! r) \<noteq> user_of (es ! l)" using assms(3,4,5) by (auto simp: shown_iff)
  with user_mono [OF assms(1), of r l] assms(4,5) show ?thesis by auto
qed

section \<open>Moving forwards\<close>

text \<open>The scan stands on entry \<open>p\<close>, and looks for the first shown entry from \<open>b\<close> on.\<close>

definition ahead :: "u64 \<Rightarrow> slice \<Rightarrow> entry list \<Rightarrow> bool \<Rightarrow> nat \<Rightarrow> nat \<Rightarrow> bool" where
  "ahead s k es skipping p b \<longleftrightarrow> p \<le> b \<and> b \<le> length es \<and>
     (\<forall>j. p \<le> j \<longrightarrow> j < length es \<longrightarrow> in_snapshot s (es ! j) \<longrightarrow>
        (skipping \<longrightarrow> \<not> Compare c (user_of (es ! j)) k < 0) \<and>
        ((skipping \<longrightarrow> Compare c k (user_of (es ! j)) < 0) \<longrightarrow> (\<forall>i<p. in_snapshot s (es ! i) \<longrightarrow> user_of (es ! i) \<noteq> user_of (es ! j)))) \<and>
     (\<forall>l. p \<le> l \<longrightarrow> l < length es \<longrightarrow> shown s es l \<longrightarrow> ((skipping \<longrightarrow> Compare c k (user_of (es ! l)) < 0) \<longleftrightarrow> b \<le> l))"

lemma ahead_bounds: "ahead s k es sk p b \<Longrightarrow> p \<le> b \<and> b \<le> length es"
  by (simp add: ahead_def)

lemma ahead_unshown:
  assumes "ahead s k es sk p b" "p < length es" "p < b \<or> \<not> shown s es p"
    and "in_snapshot s (es ! p) \<Longrightarrow> sk \<and> \<not> Compare c k (user_of (es ! p)) < 0"
  shows "ahead s k es sk (Suc p) (max b (Suc p)) \<and> rank s es (max b (Suc p)) = rank s es b"
proof
  have "user_of (es ! p) \<noteq> user_of (es ! j)"
    if "in_snapshot s (es ! p)" "sk \<longrightarrow> Compare c k (user_of (es ! j)) < 0" for j using assms(4) [OF that(1)] that(2) by auto
  then show "ahead s k es sk (Suc p) (max b (Suc p))" using assms(1,2) by (auto simp: ahead_def less_Suc_eq)
  show "rank s es (max b (Suc p)) = rank s es b"
  proof (cases "b = p")
    case True
    then show ?thesis using assms(3) by (simp add: rank_Suc)
  next
    case False
    then have "max b (Suc p) = b" using ahead_bounds [OF assms(1)] by simp
    then show ?thesis by simp
  qed
qed

lemma ahead_found:
  assumes "ahead s k es sk p b" "p < length es" "in_snapshot s (es ! p)" "key_type (fst (es ! p)) = kTypeValue"
    "sk \<longrightarrow> Compare c k (user_of (es ! p)) < 0"
  shows "shown s es p \<and> b = p"
proof -
  have "shown s es p" using assms by (auto simp: shown_iff [OF assms(2)] ahead_def)
  with assms show ?thesis by (auto simp: ahead_def)
qed

lemma ahead_delete:
  assumes "source es" "ahead s k es sk p b" "p < length es" "in_snapshot s (es ! p)" "key_type (fst (es ! p)) = kTypeDeletion"
  shows "ahead s (user_of (es ! p)) es True (Suc p) (Suc p) \<and> rank s es (Suc p) = rank s es b"
proof
  let ?u = "\<lambda>j. user_of (es ! j)"
  have K: "sk \<longrightarrow> Compare c k (?u p) < 0 \<or> k = ?u p"
    using assms(2,3,4) user_trichotomy [of k "?u p"] by (auto simp: ahead_def)
  have fresh: "Compare c (?u p) (?u l) < 0" if "shown s es l" "p < l" "l < length es" for l
    using user_mono [OF assms(1), of p l] that assms(4) shown_iff [OF that(3), of s] by auto
  have J: "?u i \<noteq> ?u j" if "Suc p \<le> j" "j < length es" "in_snapshot s (es ! j)" "Compare c (?u p) (?u j) < 0" "i < Suc p" "in_snapshot s (es ! i)" for i j
  proof (cases "i = p")
    case True
    then show ?thesis using that(4) user_irrefl by auto
  next
    case False
    have "sk \<longrightarrow> Compare c k (?u j) < 0" using K user_le_less [OF _ that(4)] by blast
    with False that assms(2) show ?thesis by (auto simp: ahead_def)
  qed
  have M: "\<not> Compare c (?u j) (?u p) < 0" if "Suc p \<le> j" "j < length es" for j
    using user_mono [OF assms(1), of p j] that user_asym user_irrefl by fastforce
  show "ahead s (?u p) es True (Suc p) (Suc p)"
    unfolding ahead_def using assms(3) J M fresh by auto
  have np: "\<not> shown s es p" using assms(5) by (simp add: shown_iff [OF assms(3)])
  show "rank s es (Suc p) = rank s es b"
  proof (cases "b = p")
    case True
    then show ?thesis using np by (simp add: rank_Suc)
  next
    case False
    have "\<not> shown s es l" if l: "Suc p \<le> l" "l < b" for l
    proof
      assume sh: "shown s es l"
      have ln: "l < length es" using l ahead_bounds [OF assms(2)] by simp
      have "sk \<longrightarrow> Compare c k (?u l) < 0" using K user_le_less [OF _ fresh [OF sh _ ln]] l by auto
      then show False using assms(2) sh ln l by (auto simp: ahead_def)
    qed
    then show ?thesis using rank_skip [of "Suc p" b s es] False ahead_bounds [OF assms(2)] by simp
  qed
qed

lemma FindNext_lands:
  assumes "base t es p" "p < length es" "dbi_direction t = kForward" "ahead (dbi_sequence t) (saved_key t) es sk p b"
  shows "lands d_over (FindNextUserEntry ops sample c sk t) (user_view (dbi_sequence t) es) (rank (dbi_sequence t) es b)"
  using assms
proof (induction "length es - p" arbitrary: p t sk b)
  case 0
  then show ?case by simp
next
  case (Suc n)
  note B = Suc.prems(1) and p = Suc.prems(2) and A = Suc.prems(4)
  let ?s = "dbi_sequence t" and ?u = "user_of (es ! p)" and ?e = "fst (es ! p)"
  obtain t1 where t1: "ParseKey ops sample t = Some (Some ?e, t1)" "steady t t1" "base t1 es p"
    using ParseKey_at [OF B p] by blast
  have f1: "dbi_sequence t1 = ?s" "saved_key t1 = saved_key t" "dbi_direction t1 = kForward"
    using t1(2) Suc.prems(3) by (simp_all add: steady_def)
  have src: "source es" using B by (simp add: base_def)
  have go: "lands d_over (do { it \<leftarrow> it_Next ops (dbi_iter t2);
        (if it_Valid ops it then FindNextUserEntry ops sample c sk' (t2\<lparr>dbi_iter := it\<rparr>)
         else Some (t2\<lparr>dbi_iter := it, saved_key := [], dbi_valid := False\<rparr>)) }) (user_view ?s es) (rank ?s es b)"
    if b2: "base t2 es p" and d2: "dbi_direction t2 = kForward" and s2: "dbi_sequence t2 = ?s"
      and a: "ahead ?s (saved_key t2) es sk' (Suc p) b' \<and> rank ?s es b' = rank ?s es b" for t2 sk' b'
  proof -
    have "lands over (it_Next ops (dbi_iter t2)) (raw_entries es) (Suc p)"
      using inner.moves_next [of "dbi_iter t2" "raw_entries es" p] b2 p by (simp add: base_def)
    with b2 obtain it where it: "it_Next ops (dbi_iter t2) = Some it" "base (t2\<lparr>dbi_iter := it\<rparr>) es (Suc p)"
        "it_Valid ops it \<longleftrightarrow> Suc p < length es"
      using base_move by blast
    show ?thesis
    proof (cases "Suc p < length es")
      case True
      with Suc.hyps(1) [of "Suc p" "t2\<lparr>dbi_iter := it\<rparr>" sk' b'] Suc.hyps(2) it a d2 s2 show ?thesis by simp
    next
      case False
      then have "b' = length es" using a ahead_bounds [of ?s "saved_key t2" es sk' "Suc p" b'] by simp
      then have "rank ?s es b = length (user_view ?s es)" using a rank_end by metis
      moreover have "off (t2\<lparr>dbi_iter := it, saved_key := [], dbi_valid := False\<rparr>) es"
        using it(2) d2 by (auto simp: off_def base_def)
      ultimately show ?thesis using False it s2 by (auto simp: lands_def d_over_def)
    qed
  qed
  have eq: "FindNextUserEntry ops sample c sk t = (let (found, sk', t2) = next_entry c (Some ?e) sk t1 in
      if found then Some t2
      else do { it \<leftarrow> it_Next ops (dbi_iter t2);
        (if it_Valid ops it then FindNextUserEntry ops sample c sk' (t2\<lparr>dbi_iter := it\<rparr>)
         else Some (t2\<lparr>dbi_iter := it, saved_key := [], dbi_valid := False\<rparr>)) })"
    by (subst FindNextUserEntry.simps) (simp add: t1(1))
  show ?case
  proof (cases "in_snapshot ?s (es ! p)")
    case False
    then have "next_entry c (Some ?e) sk t1 = (False, sk, t1)" by (simp add: next_entry_def in_snapshot_def f1)
    moreover have "\<not> shown ?s es p" using False by (simp add: shown_iff [OF p])
    ultimately show ?thesis unfolding eq using go [OF t1(3)] f1 ahead_unshown [OF A p] False by simp
  next
    case vis: True
    show ?thesis
    proof (cases "key_type ?e")
      case kTypeDeletion
      then have "next_entry c (Some ?e) sk t1 = (False, True, t1\<lparr>saved_key := ?u\<rparr>)"
        using vis by (simp add: next_entry_def in_snapshot_def f1)
      then show ?thesis unfolding eq using go [of "t1\<lparr>saved_key := ?u\<rparr>"] t1(3) f1 ahead_delete [OF src A p vis kTypeDeletion] by simp
    next
      case kTypeValue
      show ?thesis
      proof (cases "sk \<longrightarrow> Compare c (saved_key t) ?u < 0")
        case True
        then have n: "next_entry c (Some ?e) sk t1 = (True, sk, t1\<lparr>dbi_valid := True, saved_key := []\<rparr>)"
          using vis kTypeValue user_greater [of ?u "saved_key t"] by (auto simp: next_entry_def in_snapshot_def f1)
        from ahead_found [OF A p vis kTypeValue True] have "shown ?s es p" "b = p" by simp_all
        moreover from this have "at_entry (t1\<lparr>dbi_valid := True, saved_key := []\<rparr>) es p"
          using t1(3) p f1 by (simp add: at_entry_def)
        ultimately show ?thesis unfolding eq n using f1 by (auto simp: lands_def d_over_def)
      next
        case False
        then have n: "next_entry c (Some ?e) sk t1 = (False, sk, t1)"
          using vis kTypeValue user_greater [of ?u "saved_key t"] by (simp add: next_entry_def in_snapshot_def f1 not_less)
        have "p < b \<or> \<not> shown ?s es p" using A False p ahead_bounds [OF A] by (auto simp: ahead_def)
        then show ?thesis unfolding eq n using go [OF t1(3)] f1 ahead_unshown [OF A p] False by simp
      qed
    qed
  qed
qed

section \<open>The operations that end in a scan forwards\<close>

lemma ahead_start: "ahead s k es False 0 0"
  by (simp add: ahead_def)

lemma visible_mono:
  assumes "source es" "m \<le> r" "r < length es" "\<forall>k. m \<le> k \<longrightarrow> k < r \<longrightarrow> \<not> in_snapshot s (es ! k)"
    "m \<le> j" "j < length es" "in_snapshot s (es ! j)"
  shows "r \<le> j \<and> \<not> Compare c (user_of (es ! j)) (user_of (es ! r)) < 0"
proof -
  have "r \<le> j" using assms(4,5,7) by (meson not_le)
  then show ?thesis using user_mono [OF assms(1) _ assms(6), of r] user_asym user_irrefl by fastforce
qed

lemma ahead_of:
  assumes "source es" "m \<le> r" "r < length es" "shown s es r" "\<forall>k. m \<le> k \<longrightarrow> k < r \<longrightarrow> \<not> in_snapshot s (es ! k)"
    "\<forall>k<m. Compare c (user_of (es ! k)) (user_of (es ! r)) < 0 \<or> user_of (es ! k) = user_of (es ! r)"
  shows "ahead s (user_of (es ! r)) es True m (Suc r)"
proof -
  note vm = visible_mono [OF assms(1,2,3,5)]
  have J: "user_of (es ! i) \<noteq> user_of (es ! j)"
    if "i < m" "Compare c (user_of (es ! r)) (user_of (es ! j)) < 0" for i j
    using assms(6) that user_le_less user_irrefl by metis
  have E: "Compare c (user_of (es ! r)) (user_of (es ! l)) < 0 \<longleftrightarrow> Suc r \<le> l" if l: "m \<le> l" "l < length es" "shown s es l" for l
  proof -
    have "in_snapshot s (es ! l)" using l by (simp add: shown_iff)
    then have "r \<le> l" using vm l by simp
    then show ?thesis using shown_after [OF assms(1,4) l(3) _ l(2)] user_irrefl by (cases "r = l") auto
  qed
  show ?thesis unfolding ahead_def using assms(2,3) vm J E by auto
qed

lemma Next_forward:
  assumes "at_entry t es r"
  shows "lands d_over (dbi_Next ops sample c t) (user_view (dbi_sequence t) es) (Suc (rank (dbi_sequence t) es r))"
proof -
  let ?t = "t\<lparr>saved_key := user_of (es ! r)\<rparr>"
  have a: "base t es r" "r < length es" "shown (dbi_sequence t) es r" "dbi_direction t = kForward" "source es"
    using assms by (simp_all add: at_entry_def base_def)
  have "ahead (dbi_sequence t) (user_of (es ! r)) es True r (Suc r)"
    using ahead_of [OF a(5) order_refl a(2,3)] user_mono [OF a(5) _ a(2)] by simp
  with FindNext_lands [of ?t es r True "Suc r"] a
  show ?thesis by (simp add: dbi_Next_def base_entry [OF a(1,2)] rank_Suc)
qed

lemma Next_reverse:
  assumes "at_before t es m r"
  shows "lands d_over (dbi_Next ops sample c t) (user_view (dbi_sequence t) es) (Suc (rank (dbi_sequence t) es r))"
proof -
  let ?p = "prev_pos (raw_entries es) m"
  have B: "base t es ?p" "shown (dbi_sequence t) es r" "m \<le> r" "r < length es" "dbi_direction t = kReverse" "saved_key t = user_of (es ! r)"
    and k: "\<forall>k. m \<le> k \<longrightarrow> k < r \<longrightarrow> \<not> in_snapshot (dbi_sequence t) (es ! k)"
    "\<forall>k<m. Compare c (user_of (es ! k)) (user_of (es ! r)) < 0"
    using assms by (simp_all add: at_before_def saved_entry_def)
  have src: "source es" using B(1) by (simp add: base_def)
  let ?m = "if \<not> it_Valid ops (dbi_iter t) then it_SeekToFirst ops (dbi_iter t) else it_Next ops (dbi_iter t)"
  have "lands over ?m (raw_entries es) m"
  proof (cases m)
    case 0
    then have "\<not> it_Valid ops (dbi_iter t)" using base_valid [OF B(1)] by (simp add: prev_pos_def)
    then show ?thesis using inner.moves_first [of "dbi_iter t" "raw_entries es" ?p] B(1) 0 by (simp add: base_def)
  next
    case (Suc m')
    then have "?p = m'" "m' < length es" using B by (simp_all add: prev_pos_def)
    then show ?thesis using base_valid [OF B(1)] inner.moves_next [of "dbi_iter t" "raw_entries es" ?p] B(1) Suc by (simp add: base_def)
  qed
  with B(1) obtain it where it: "?m = Some it" "base (t\<lparr>dbi_iter := it\<rparr>) es m" "it_Valid ops it \<longleftrightarrow> m < length es"
    using base_move by blast
  let ?t = "t\<lparr>dbi_direction := kForward, dbi_iter := it\<rparr>"
  have b: "base ?t es m" using it(2) by (simp add: base_def)
  have "ahead (dbi_sequence t) (user_of (es ! r)) es True m (Suc r)"
    using ahead_of [OF src B(3,4,2) k(1)] k(2) by simp
  with FindNext_lands [OF b, of True "Suc r"] B
  have "lands d_over (FindNextUserEntry ops sample c True ?t) (user_view (dbi_sequence t) es) (Suc (rank (dbi_sequence t) es r))"
    by (simp add: rank_Suc)
  moreover have "dbi_Next ops sample c t = FindNextUserEntry ops sample c True ?t"
    using B(3,4,5) it(1,3) by (simp add: dbi_Next_def)
  ultimately show ?thesis by simp
qed

lemma scan_from:
  assumes "base t es p" "dbi_direction t = kForward" "lands over r (raw_entries es) q"
    "ahead (dbi_sequence t) (saved_key t) es False q b"
  shows "lands d_over (do { it \<leftarrow> r; (let t2 = t\<lparr>dbi_iter := it\<rparr> in
      if it_Valid ops it then FindNextUserEntry ops sample c False t2 else Some (t2\<lparr>dbi_valid := False\<rparr>)) })
    (user_view (dbi_sequence t) es) (rank (dbi_sequence t) es b)"
proof -
  obtain it where it: "r = Some it" "base (t\<lparr>dbi_iter := it\<rparr>) es q" "it_Valid ops it \<longleftrightarrow> q < length es"
    using base_move [OF assms(1,3)] by blast
  show ?thesis
  proof (cases "q < length es")
    case True
    with FindNext_lands [OF it(2) True, of False b] assms(2,4) it show ?thesis by (simp add: Let_def)
  next
    case False
    then have "b = length es" using ahead_bounds [OF assms(4)] by simp
    moreover have "off (t\<lparr>dbi_iter := it, dbi_valid := False\<rparr>) es" using it(2) assms(2) by (auto simp: off_def base_def)
    ultimately show ?thesis using False it by (auto simp: lands_def d_over_def rank_end Let_def)
  qed
qed

lemma SeekToFirst_lands:
  assumes "base t es p"
  shows "lands d_over (dbi_SeekToFirst ops sample c t) (user_view (dbi_sequence t) es) 0"
proof -
  let ?t = "ClearSavedValue (t\<lparr>dbi_direction := kForward\<rparr>)"
  have b: "base ?t es p" using assms by (simp add: ClearSavedValue_def)
  have m: "lands over (it_SeekToFirst ops (dbi_iter ?t)) (raw_entries es) 0"
    using inner.moves_first [of "dbi_iter ?t" "raw_entries es" p] b by (simp add: base_def)
  show ?thesis using scan_from [OF b _ m ahead_start] by (simp add: dbi_SeekToFirst_def ClearSavedValue_def Let_def)
qed

text \<open>Where a seek for the newest version of \<open>target\<close> lands.\<close>

abbreviation seek_key :: "slice \<Rightarrow> u64 \<Rightarrow> slice" where
  "seek_key target s \<equiv> AppendInternalKey [] \<lparr>key_user = target, key_sequence = s, key_type = kValueTypeForSeek\<rparr>"

lemma seek_key_less:
  assumes "key_sequence (fst e) \<le> kMaxSequenceNumber" "s \<le> kMaxSequenceNumber"
  shows "internal_compare c (ikey e) (seek_key target s) < 0 \<longleftrightarrow>
    Compare c (user_of e) target < 0 \<or> user_of e = target \<and> \<not> in_snapshot s e"
  using pack_le(1) [OF assms, of "key_type (fst e)"]
  unfolding internal_less ikey_parts AppendInternalKey_def kValueTypeForSeek_def in_snapshot_def
  by (auto simp: not_le [symmetric])

lemma Seek_split:
  fixes target :: slice
  assumes "source es" "s \<le> kMaxSequenceNumber"
  defines "q \<equiv> lower_bound (InternalKeyComparator c) (seek_key target s) (raw_entries es)"
  shows "q \<le> length es"
    "\<And>j. j < q \<Longrightarrow> Compare c (user_of (es ! j)) target < 0 \<or> user_of (es ! j) = target \<and> \<not> in_snapshot s (es ! j)"
    "\<And>j. q \<le> j \<Longrightarrow> j < length es \<Longrightarrow> \<not> Compare c (user_of (es ! j)) target < 0"
proof -
  have s: "key_sequence (fst (es ! j)) \<le> kMaxSequenceNumber" if "j < length es" for j using assms(1) that by (simp add: source_def)
  show q: "q \<le> length es" unfolding q_def using lower_bound_le [of _ _ "raw_entries es"] by simp
  show "Compare c (user_of (es ! j)) target < 0 \<or> user_of (es ! j) = target \<and> \<not> in_snapshot s (es ! j)" if "j < q" for j
    using lower_bound_before [of j "InternalKeyComparator c" "seek_key target s" "raw_entries es"] that q
      seek_key_less [OF s assms(2)] by (simp add: q_def [symmetric])
  show "\<not> Compare c (user_of (es ! j)) target < 0" if j: "q \<le> j" "j < length es" for j
  proof
    assume l: "Compare c (user_of (es ! j)) target < 0"
    have qn: "q < length es" using j by simp
    then have "\<not> internal_compare c (ikey (es ! q)) (seek_key target s) < 0"
      using lower_bound_at [of "InternalKeyComparator c" "seek_key target s" "raw_entries es"] by (simp add: q_def)
    then have "\<not> Compare c (user_of (es ! q)) target < 0" using seek_key_less [OF s [OF qn] assms(2)] by blast
    then show False using user_mono [OF assms(1) j] user_le_less [OF _ l] by blast
  qed
qed

lemma ahead_seek:
  fixes target :: slice
  assumes "source es" "s \<le> kMaxSequenceNumber"
  defines "q \<equiv> lower_bound (InternalKeyComparator c) (seek_key target s) (raw_entries es)"
  shows "ahead s k es False q q"
proof -
  note sp = Seek_split [OF assms(1,2), where target = target, folded q_def]
  have "user_of (es ! i) \<noteq> user_of (es ! j)" if "q \<le> j" "j < length es" "i < q" "in_snapshot s (es ! i)" for i j
    using sp(2) [OF that(3)] sp(3) [OF that(1,2)] that(4) by auto
  then show ?thesis using sp(1) by (auto simp: ahead_def)
qed

lemma rank_seek:
  fixes target :: slice
  assumes "source es" "s \<le> kMaxSequenceNumber"
  defines "q \<equiv> lower_bound (InternalKeyComparator c) (seek_key target s) (raw_entries es)"
  shows "rank s es q = lower_bound c target (user_view s es)"
proof -
  note sp = Seek_split [OF assms(1,2), where target = target, folded q_def]
  let ?f = "\<lambda>r. (user_of (es ! r), snd (es ! r))"
  have "lower_bound c target (user_view s es) = length (map ?f (filter (shown s es) [0..<q]))"
    unfolding view_split [OF sp(1)]
  proof (rule lower_bound_eqI)
    show "\<forall>kv\<in>set (map ?f (filter (shown s es) [0..<q])). Compare c (fst kv) target < 0"
    proof
      fix kv assume kv: "kv \<in> set (map ?f (filter (shown s es) [0..<q]))"
      obtain r where r: "r < q" "shown s es r" "kv = ?f r" using kv by auto
      then have "in_snapshot s (es ! r)" using sp(1) by (simp add: shown_iff)
      then show "Compare c (fst kv) target < 0" using sp(2) [OF r(1)] r(3) by simp
    qed
    assume ne: "map ?f (filter (shown s es) [q..<length es]) \<noteq> []"
    then have "hd (map ?f (filter (shown s es) [q..<length es])) \<in> ?f ` {q..<length es}" using hd_in_set [OF ne] by auto
    then show "\<not> Compare c (fst (hd (map ?f (filter (shown s es) [q..<length es])))) target < 0"
      using sp(3) by auto
  qed
  then show ?thesis by (simp add: rank_def)
qed

lemma Seek_lands:
  assumes "base t es p"
  shows "lands d_over (dbi_Seek ops sample c target t) (user_view (dbi_sequence t) es) (lower_bound c target (user_view (dbi_sequence t) es))"
proof -
  let ?k = "seek_key target (dbi_sequence t)"
  let ?t = "(ClearSavedValue (t\<lparr>dbi_direction := kForward\<rparr>))\<lparr>saved_key := ?k\<rparr>"
  have src: "source es" "dbi_sequence t \<le> kMaxSequenceNumber" using assms by (simp_all add: base_def)
  have b: "base ?t es p" using assms by (simp add: ClearSavedValue_def)
  have "8 \<le> length ?k" by (simp add: AppendInternalKey_def)
  then have m: "lands over (it_Seek ops ?k (dbi_iter ?t)) (raw_entries es) (lower_bound (InternalKeyComparator c) ?k (raw_entries es))"
    using inner.moves_seek [of "dbi_iter ?t" "raw_entries es" p ?k] b by (simp add: base_def)
  have "ahead (dbi_sequence ?t) (saved_key ?t) es False (lower_bound (InternalKeyComparator c) ?k (raw_entries es))
      (lower_bound (InternalKeyComparator c) ?k (raw_entries es))"
    using ahead_seek [OF src] by (simp add: ClearSavedValue_def)
  from scan_from [OF b _ m this] show ?thesis
    by (simp add: dbi_Seek_def ClearSavedValue_def Let_def rank_seek [OF src])
qed

section \<open>Moving backwards\<close>

text \<open>The scan has seen the entries from \<open>m\<close> on, and looks for the last shown entry before \<open>M\<close>; what
  it has saved is entry \<open>r\<close>.\<close>

definition candidate :: "u64 \<Rightarrow> slice \<Rightarrow> slice \<Rightarrow> entry list \<Rightarrow> nat \<Rightarrow> nat \<Rightarrow> nat \<Rightarrow> bool" where
  "candidate s k v es m M r \<longleftrightarrow> m \<le> r \<and> r < M \<and> in_snapshot s (es ! r) \<and> key_type (fst (es ! r)) = kTypeValue \<and>
     k = user_of (es ! r) \<and> v = snd (es ! r) \<and> (\<forall>j. m \<le> j \<longrightarrow> j < r \<longrightarrow> \<not> in_snapshot s (es ! j)) \<and>
     (\<forall>l. r < l \<longrightarrow> l < M \<longrightarrow> \<not> shown s es l)"

definition behind :: "u64 \<Rightarrow> slice \<Rightarrow> slice \<Rightarrow> entry list \<Rightarrow> nat \<Rightarrow> nat \<Rightarrow> ValueType \<Rightarrow> bool" where
  "behind s k v es m M vt \<longleftrightarrow> M \<le> length es \<and>
     (case vt of kTypeDeletion \<Rightarrow> \<forall>l. m \<le> l \<longrightarrow> l < M \<longrightarrow> \<not> shown s es l | kTypeValue \<Rightarrow> \<exists>r. candidate s k v es m M r)"

text \<open>No entry before the candidate has its user key.\<close>

definition found_last :: "u64 \<Rightarrow> entry list \<Rightarrow> nat \<Rightarrow> nat \<Rightarrow> nat \<Rightarrow> bool" where
  "found_last s es m M r \<longleftrightarrow> shown s es r \<and> rank s es M = Suc (rank s es r) \<and>
     (\<forall>k<m. Compare c (user_of (es ! k)) (user_of (es ! r)) < 0)"

lemma candidate_found:
  assumes "M \<le> length es" "candidate s k v es m M r" "\<forall>i<m. Compare c (user_of (es ! i)) (user_of (es ! r)) < 0"
  shows "found_last s es m M r"
proof -
  have r: "r < M" "r < length es" using assms(1,2) by (simp_all add: candidate_def)
  have "user_of (es ! i) \<noteq> user_of (es ! r)" if "i < r" "in_snapshot s (es ! i)" for i
    using assms(2,3) that user_irrefl by (cases "i < m") (auto simp: candidate_def)
  then have sh: "shown s es r" using assms(2) by (auto simp: shown_iff [OF r(2)] candidate_def)
  have "rank s es M = rank s es (Suc r)" using rank_skip [of "Suc r" M s es] assms(2) r by (simp add: candidate_def)
  then show ?thesis using sh assms(3) by (simp add: found_last_def rank_Suc)
qed

lemma behind_start: "M \<le> length es \<Longrightarrow> behind s k v es M M kTypeDeletion"
  by (simp add: behind_def)

lemma behind_unseen:
  assumes "behind s k v es (Suc p) M vt" "p < length es" "\<not> in_snapshot s (es ! p)"
  shows "behind s k v es p M vt"
proof -
  have "\<not> shown s es p" using assms(3) by (simp add: shown_iff [OF assms(2)])
  moreover have "candidate s k v es p M r" if "candidate s k v es (Suc p) M r" for r
  proof -
    have "\<not> in_snapshot s (es ! j)" if j: "p \<le> j" "j < r" for j
      using \<open>candidate s k v es (Suc p) M r\<close> assms(3) j by (cases "p = j") (simp_all add: candidate_def)
    then show ?thesis using that by (simp add: candidate_def)
  qed
  ultimately show ?thesis using assms(1) unfolding behind_def
    by (cases vt) (auto, metis Suc_leI le_neq_implies_less)
qed

lemma behind_before:
  assumes "source es" "behind s k v es (Suc p) M kTypeValue" "Compare c (user_of (es ! p)) k < 0"
  obtains r where "candidate s k v es (Suc p) M r" "found_last s es (Suc p) M r"
proof -
  obtain r where r: "candidate s k v es (Suc p) M r" and M: "M \<le> length es" using assms(2) by (auto simp: behind_def)
  have "Compare c (user_of (es ! i)) (user_of (es ! r)) < 0" if "i < Suc p" for i
  proof -
    have "k = user_of (es ! r)" "p < length es" using r M by (auto simp: candidate_def)
    then show ?thesis using user_mono [OF assms(1), of i p] user_le_less [OF _ assms(3)] that by simp
  qed
  then show ?thesis using that r candidate_found [OF M r] by blast
qed

text \<open>A visible entry that does not end the scan hides everything that was saved.\<close>

lemma behind_hides:
  assumes "source es" "behind s k v es (Suc p) M vt" "in_snapshot s (es ! p)"
    "\<not> (vt \<noteq> kTypeDeletion \<and> Compare c (user_of (es ! p)) k < 0)" "p < l" "l < M"
  shows "\<not> shown s es l"
proof (cases vt)
  case kTypeDeletion
  then show ?thesis using assms(2,5,6) by (simp add: behind_def)
next
  case kTypeValue
  then obtain r where r: "candidate s k v es (Suc p) M r" and M: "M \<le> length es" using assms(2) by (auto simp: behind_def)
  have l: "l < length es" using assms(6) M by simp
  have "r < length es" "p \<le> r" using r M by (auto simp: candidate_def)
  moreover have "k = user_of (es ! r)" using r by (simp add: candidate_def)
  ultimately have u: "user_of (es ! p) = user_of (es ! r)" using user_mono [OF assms(1), of p r] assms(4) kTypeValue by auto
  consider "l < r" | "l = r" | "r < l" by linarith
  then show ?thesis
  proof cases
    case 1
    then show ?thesis using r assms(5) by (auto simp: candidate_def shown_iff [OF l])
  next
    case 2
    have "\<not> shown s es l" unfolding shown_iff [OF l] using 2 u assms(3,5) by metis
    then show ?thesis .
  next
    case 3
    then show ?thesis using r assms(6) by (simp add: candidate_def)
  qed
qed

lemma behind_seen:
  assumes "source es" "behind s k v es (Suc p) M vt" "p < M" "in_snapshot s (es ! p)"
    "\<not> (vt \<noteq> kTypeDeletion \<and> Compare c (user_of (es ! p)) k < 0)"
  shows "key_type (fst (es ! p)) = kTypeDeletion \<Longrightarrow> behind s k' v' es p M kTypeDeletion"
    "key_type (fst (es ! p)) = kTypeValue \<Longrightarrow> behind s (user_of (es ! p)) (snd (es ! p)) es p M kTypeValue"
proof -
  note h = behind_hides [OF assms(1,2,4,5)]
  have M: "M \<le> length es" using assms(2) by (simp add: behind_def)
  show "behind s (user_of (es ! p)) (snd (es ! p)) es p M kTypeValue" if "key_type (fst (es ! p)) = kTypeValue"
  proof -
    have "candidate s (user_of (es ! p)) (snd (es ! p)) es p M p"
      unfolding candidate_def using that h assms(3,4) by simp
    then show ?thesis using M by (auto simp: behind_def)
  qed
  show "behind s k' v' es p M kTypeDeletion" if d: "key_type (fst (es ! p)) = kTypeDeletion"
  proof -
    have "\<not> shown s es p" using d M assms(3) by (simp add: shown_iff)
    then have "\<not> shown s es l" if "p \<le> l" "l < M" for l using h that by (cases "p = l") auto
    then show ?thesis using M by (simp add: behind_def)
  qed
qed

text \<open>How the loop ends.\<close>

definition prev_done :: "('i, 'd) db_iter \<Rightarrow> entry list \<Rightarrow> nat \<Rightarrow> ValueType \<Rightarrow> bool" where
  "prev_done t es M vt \<longleftrightarrow> (case vt of
     kTypeDeletion \<Rightarrow> (\<exists>p. base t es p) \<and> rank (dbi_sequence t) es M = 0
   | kTypeValue \<Rightarrow> \<exists>m r. base t es (prev_pos (raw_entries es) m) \<and> saved_entry t es m r \<and> found_last (dbi_sequence t) es m M r)"

lemma candidate_saved:
  "M \<le> length es \<Longrightarrow> candidate (dbi_sequence t) (saved_key t) (saved_value t) es m M r \<Longrightarrow> saved_entry t es m r"
  by (auto simp: candidate_def saved_entry_def)

lemma behind_end:
  assumes "base t es (length es)" "behind (dbi_sequence t) (saved_key t) (saved_value t) es 0 M vt"
  shows "prev_done t es M vt"
proof (cases vt)
  case kTypeDeletion
  then have "rank (dbi_sequence t) es M = 0" using rank_skip [of 0 M "dbi_sequence t" es] assms(2) by (simp add: behind_def)
  then show ?thesis using assms(1) kTypeDeletion by (auto simp: prev_done_def)
next
  case kTypeValue
  then obtain r where r: "candidate (dbi_sequence t) (saved_key t) (saved_value t) es 0 M r" and M: "M \<le> length es"
    using assms(2) by (auto simp: behind_def)
  have "prev_pos (raw_entries es) 0 = length es" by (simp add: prev_pos_def)
  then show ?thesis using candidate_saved [OF M r] candidate_found [OF M r] assms(1) kTypeValue
    by (auto simp: prev_done_def intro: exI [of _ 0])
qed

lemma prev_loop_done:
  assumes "base t es p" "p < M" "behind (dbi_sequence t) (saved_key t) (saved_value t) es (Suc p) M vt"
  shows "\<exists>vt' t'. prev_loop ops sample c vt t = Some (vt', t') \<and> prev_done t' es M vt' \<and>
    dbi_sequence t' = dbi_sequence t \<and> dbi_direction t' = dbi_direction t"
  using assms
proof (induction p arbitrary: t vt rule: less_induct)
  case (less p)
  note B = less.prems(1) and A = less.prems(3)
  let ?s = "dbi_sequence t" and ?u = "user_of (es ! p)" and ?e = "fst (es ! p)"
  have M: "M \<le> length es" using A by (simp add: behind_def)
  then have p: "p < length es" using less.prems(2) by simp
  have src: "source es" using B by (simp add: base_def)
  obtain t1 where t1: "ParseKey ops sample t = Some (Some ?e, t1)" "steady t t1" "base t1 es p"
    using ParseKey_at [OF B p] by blast
  have f1: "dbi_sequence t1 = ?s" "saved_key t1 = saved_key t" "saved_value t1 = saved_value t" "dbi_direction t1 = dbi_direction t"
    using t1(2) by (simp_all add: steady_def)
  have eq: "prev_loop ops sample c vt t = (case prev_entry ops c (Some ?e) vt t1 of
       None \<Rightarrow> Some (vt, t1)
     | Some (vt, t2) \<Rightarrow> do { it \<leftarrow> it_Prev ops (dbi_iter t2);
         (if it_Valid ops it then prev_loop ops sample c vt (t2\<lparr>dbi_iter := it\<rparr>) else Some (vt, t2\<lparr>dbi_iter := it\<rparr>)) })"
    by (subst prev_loop.simps) (simp add: t1(1))
  have go: ?case
    if e: "prev_entry ops c (Some ?e) vt t1 = Some (vt2, t2)" and b2: "base t2 es p" and f2: "dbi_sequence t2 = ?s" "dbi_direction t2 = dbi_direction t"
      and a: "behind ?s (saved_key t2) (saved_value t2) es p M vt2" for t2 vt2
  proof -
    have "lands over (it_Prev ops (dbi_iter t2)) (raw_entries es) (prev_pos (raw_entries es) p)"
      using inner.moves_prev [of "dbi_iter t2" "raw_entries es" p] b2 p by (simp add: base_def)
    with b2 obtain it where it: "it_Prev ops (dbi_iter t2) = Some it" "base (t2\<lparr>dbi_iter := it\<rparr>) es (prev_pos (raw_entries es) p)"
        "it_Valid ops it \<longleftrightarrow> prev_pos (raw_entries es) p < length es"
      using base_move by blast
    show ?thesis
    proof (cases p)
      case 0
      with it have "base (t2\<lparr>dbi_iter := it\<rparr>) es (length es)" "\<not> it_Valid ops it" by (simp_all add: prev_pos_def)
      with behind_end [OF this(1), of M vt2] a f2 0 e it(1) show ?thesis unfolding eq by simp
    next
      case (Suc q)
      then have q: "base (t2\<lparr>dbi_iter := it\<rparr>) es q" "it_Valid ops it" "q < p" using it p by (simp_all add: prev_pos_def)
      from less.IH [OF q(3,1), of vt2] a f2 Suc less.prems(2) e it(1) q(2) show ?thesis unfolding eq by simp
    qed
  qed
  show ?case
  proof (cases "in_snapshot ?s (es ! p)")
    case False
    then have "prev_entry ops c (Some ?e) vt t1 = Some (vt, t1)" by (simp add: prev_entry_def in_snapshot_def f1)
    from go [OF this t1(3)] f1 behind_unseen [OF A p False] show ?thesis by simp
  next
    case vis: True
    show ?thesis
    proof (cases "vt \<noteq> kTypeDeletion \<and> Compare c ?u (saved_key t) < 0")
      case True
      then have v: "vt = kTypeValue" by (cases vt) auto
      have e: "prev_entry ops c (Some ?e) vt t1 = None" using True vis by (simp add: prev_entry_def in_snapshot_def f1)
      obtain r where r: "candidate ?s (saved_key t) (saved_value t) es (Suc p) M r" "found_last ?s es (Suc p) M r"
        using behind_before [OF src] A True v by blast
      have "saved_entry t1 es (Suc p) r" using candidate_saved [OF M, of t1 "Suc p" r] r(1) f1 by simp
      moreover have "base t1 es (prev_pos (raw_entries es) (Suc p))" using t1(3) by (simp add: prev_pos_def)
      ultimately have "prev_done t1 es M kTypeValue" using r(2) f1 by (auto simp: prev_done_def)
      then show ?thesis unfolding eq e using f1 v by simp
    next
      case False
      note bs = behind_seen [OF src A less.prems(2) vis False]
      show ?thesis
      proof (cases "key_type ?e")
        case kTypeDeletion
        then have e: "prev_entry ops c (Some ?e) vt t1 = Some (kTypeDeletion, ClearSavedValue (t1\<lparr>saved_key := []\<rparr>))"
          using False vis by (simp add: prev_entry_def in_snapshot_def f1)
        show ?thesis by (rule go [OF e]) (use t1(3) f1 bs(1) [OF kTypeDeletion] in \<open>simp_all add: ClearSavedValue_def\<close>)
      next
        case kTypeValue
        then have e: "prev_entry ops c (Some ?e) vt t1 = Some (kTypeValue, t1\<lparr>saved_key := ?u, saved_value := snd (es ! p)\<rparr>)"
          using False vis by (simp add: prev_entry_def in_snapshot_def f1 base_entry [OF t1(3) p])
        show ?thesis by (rule go [OF e]) (use t1(3) f1 bs(2) [OF kTypeValue] in simp_all)
      qed
    qed
  qed
qed

lemma FindPrev_lands:
  assumes "base t es (prev_pos (raw_entries es) M)" "M \<le> length es" "dbi_direction t = kReverse"
  shows "lands d_over (FindPrevUserEntry ops sample c t) (user_view (dbi_sequence t) es)
    (prev_pos (user_view (dbi_sequence t) es) (rank (dbi_sequence t) es M))"
proof -
  let ?s = "dbi_sequence t" and ?v = "user_view (dbi_sequence t) es"
  let ?r = "if it_Valid ops (dbi_iter t) then prev_loop ops sample c kTypeDeletion t else Some (kTypeDeletion, t)"
  have "\<exists>vt t'. ?r = Some (vt, t') \<and> prev_done t' es M vt \<and> dbi_sequence t' = ?s \<and> dbi_direction t' = kReverse"
  proof (cases M)
    case 0
    then have b: "base t es (length es)" using assms(1) by (simp add: prev_pos_def)
    then have "prev_done t es M kTypeDeletion" using 0 by (auto simp: prev_done_def)
    then show ?thesis using base_valid [OF b] assms(3) by simp
  next
    case (Suc p)
    then have b: "base t es p" "p < length es" using assms(1,2) by (simp_all add: prev_pos_def)
    have "behind ?s (saved_key t) (saved_value t) es (Suc p) M kTypeDeletion" using behind_start [OF assms(2)] Suc by simp
    from prev_loop_done [OF b(1) _ this] Suc show ?thesis using base_valid [OF b(1)] b(2) assms(3) by simp
  qed
  then obtain vt t' where t': "?r = Some (vt, t')" "prev_done t' es M vt" "dbi_sequence t' = ?s" "dbi_direction t' = kReverse" by blast
  show ?thesis
  proof (cases vt)
    case kTypeDeletion
    let ?t = "(ClearSavedValue (t'\<lparr>dbi_valid := False, saved_key := []\<rparr>))\<lparr>dbi_direction := kForward\<rparr>"
    have "FindPrevUserEntry ops sample c t = Some ?t" unfolding FindPrevUserEntry_def t'(1) using kTypeDeletion by simp
    moreover have "off ?t es" using t'(2) kTypeDeletion by (simp add: off_def prev_done_def ClearSavedValue_def)
    moreover have "rank ?s es M = 0" using t'(2,3) kTypeDeletion by (simp add: prev_done_def)
    moreover have "dbi_sequence ?t = ?s" using t'(3) by (simp add: ClearSavedValue_def)
    ultimately show ?thesis unfolding lands_def d_over_def by (auto simp: prev_pos_def)
  next
    case kTypeValue
    let ?t = "t'\<lparr>dbi_valid := True\<rparr>"
    obtain m r where m: "base t' es (prev_pos (raw_entries es) m)" "saved_entry t' es m r" "found_last ?s es m M r"
      using t'(2,3) kTypeValue by (auto simp: prev_done_def)
    then have "at_before ?t es m r" using t'(3,4) by (simp add: at_before_def saved_entry_def found_last_def)
    moreover have "FindPrevUserEntry ops sample c t = Some ?t" unfolding FindPrevUserEntry_def t'(1) using kTypeValue by simp
    moreover have "prev_pos ?v (rank ?s es M) = rank ?s es r" using m(3) by (simp add: found_last_def prev_pos_def)
    ultimately show ?thesis unfolding lands_def d_over_def using t'(3) by fastforce
  qed
qed

lemma scan_back_done:
  assumes "over it (raw_entries es) p" "p \<le> r" "r < length es" "\<forall>k. p \<le> k \<longrightarrow> k < r \<longrightarrow> \<not> Compare c (user_of (es ! k)) u < 0"
  shows "\<exists>it' M. scan_back ops c u it = Some (M \<noteq> 0, it') \<and> over it' (raw_entries es) (prev_pos (raw_entries es) M) \<and>
    M \<le> p \<and> (\<forall>k. M \<le> k \<longrightarrow> k < r \<longrightarrow> \<not> Compare c (user_of (es ! k)) u < 0)"
  using assms
proof (induction p arbitrary: it rule: less_induct)
  case (less p)
  have pn: "p < length (raw_entries es)" using less.prems(2,3) by simp
  obtain it' where it': "it_Prev ops it = Some it'" "over it' (raw_entries es) (prev_pos (raw_entries es) p)"
    using inner.moves_prev [OF less.prems(1) pn] by (rule landsE)
  have v: "it_Valid ops it' \<longleftrightarrow> prev_pos (raw_entries es) p < length es" using inner.valid [OF it'(2)] by simp
  have eq: "scan_back ops c u it = (if \<not> it_Valid ops it' then Some (False, it')
      else if Compare c (ExtractUserKey (it_key ops it')) u < 0 then Some (True, it') else scan_back ops c u it')"
    by (subst scan_back.simps) (simp add: it'(1))
  show ?case
  proof (cases p)
    case 0
    then have "scan_back ops c u it = Some (False, it')" unfolding eq using v by (simp add: prev_pos_def)
    then show ?thesis using it'(2) less.prems(4) 0 by fastforce
  next
    case (Suc q)
    then have q: "over it' (raw_entries es) q" "q < length es" "it_Valid ops it'"
      using it'(2) v pn by (simp_all add: prev_pos_def)
    have k: "it_key ops it' = ikey (es ! q)" using inner.key [OF q(1)] q(2) by simp
    show ?thesis
    proof (cases "Compare c (user_of (es ! q)) u < 0")
      case True
      then have "scan_back ops c u it = Some (True, it')" unfolding eq using q(3) k by simp
      then show ?thesis using it'(2) less.prems(4) Suc by (intro exI [of _ it'] exI [of _ p]) simp
    next
      case False
      then have sb: "scan_back ops c u it = scan_back ops c u it'" unfolding eq using q(3) k by simp
      have lt: "q < p" "q \<le> r" using Suc less.prems(2) by simp_all
      have "\<forall>k. q \<le> k \<longrightarrow> k < r \<longrightarrow> \<not> Compare c (user_of (es ! k)) u < 0"
        using less.prems(4) False Suc by (metis Suc_leI le_neq_implies_less)
      from less.IH [OF lt(1) q(1) lt(2) less.prems(3) this] lt(1) show ?thesis
        unfolding sb by (meson le_trans less_imp_le)
    qed
  qed
qed

lemma Prev_forward:
  assumes "at_entry t es r"
  shows "lands d_over (dbi_Prev ops sample c t) (user_view (dbi_sequence t) es)
    (prev_pos (user_view (dbi_sequence t) es) (rank (dbi_sequence t) es r))"
proof -
  let ?s = "dbi_sequence t" and ?u = "user_of (es ! r)"
  have a: "base t es r" "r < length es" "shown ?s es r" "dbi_direction t = kForward" "source es"
    using assms by (simp_all add: at_entry_def base_def)
  have "over (dbi_iter t) (raw_entries es) r" using a(1) by (simp add: base_def)
  from scan_back_done [OF this order_refl a(2), of ?u] obtain it M where
      sb: "scan_back ops c ?u (dbi_iter t) = Some (M \<noteq> 0, it)" "over it (raw_entries es) (prev_pos (raw_entries es) M)" "M \<le> r"
      "\<forall>k. M \<le> k \<longrightarrow> k < r \<longrightarrow> \<not> Compare c (user_of (es ! k)) ?u < 0" by auto
  have "\<not> shown ?s es l" if l: "M \<le> l" "l < r" for l
  proof
    assume sh: "shown ?s es l"
    have "user_of (es ! l) = ?u" using sb(4) l user_mono [OF a(5), of l r] a(2) by auto
    moreover have "in_snapshot ?s (es ! l)" using sh l a(2) by (simp add: shown_iff)
    ultimately show False using a(3) l by (auto simp: shown_iff [OF a(2)])
  qed
  then have rk: "rank ?s es r = rank ?s es M" using rank_skip [OF sb(3)] by blast
  let ?t = "t\<lparr>saved_key := ?u, dbi_iter := it\<rparr>"
  have b: "base ?t es (prev_pos (raw_entries es) M)" using a(1) sb(2) by (simp add: base_def)
  show ?thesis
  proof (cases "M = 0")
    case False
    then have "dbi_Prev ops sample c t = FindPrevUserEntry ops sample c (?t\<lparr>dbi_direction := kReverse\<rparr>)"
      using a(4) sb(1) by (simp add: dbi_Prev_def Let_def base_entry [OF a(1,2)])
    with FindPrev_lands [of "?t\<lparr>dbi_direction := kReverse\<rparr>" es M] b sb(3) a(2) rk show ?thesis by simp
  next
    case True
    then have p: "dbi_Prev ops sample c t = Some (ClearSavedValue (?t\<lparr>dbi_valid := False, saved_key := []\<rparr>))"
      using a(4) sb(1) by (simp add: dbi_Prev_def Let_def base_entry [OF a(1,2)])
    have "off (ClearSavedValue (?t\<lparr>dbi_valid := False, saved_key := []\<rparr>)) es"
      using b a(4) by (auto simp: off_def ClearSavedValue_def base_def)
    moreover have "dbi_sequence (ClearSavedValue (?t\<lparr>dbi_valid := False, saved_key := []\<rparr>)) = ?s" by (simp add: ClearSavedValue_def)
    ultimately show ?thesis unfolding p using True rk by (auto simp: lands_def d_over_def prev_pos_def)
  qed
qed

lemma Prev_reverse:
  assumes "at_before t es m r"
  shows "lands d_over (dbi_Prev ops sample c t) (user_view (dbi_sequence t) es)
    (prev_pos (user_view (dbi_sequence t) es) (rank (dbi_sequence t) es r))"
proof -
  have B: "base t es (prev_pos (raw_entries es) m)" "m \<le> r" "r < length es" "dbi_direction t = kReverse"
    and k: "\<forall>k. m \<le> k \<longrightarrow> k < r \<longrightarrow> \<not> in_snapshot (dbi_sequence t) (es ! k)"
    using assms by (simp_all add: at_before_def saved_entry_def)
  have "rank (dbi_sequence t) es r = rank (dbi_sequence t) es m"
    using rank_skip [OF B(2)] k B(3) by (simp add: shown_iff)
  with FindPrev_lands [OF B(1) _ B(4)] B show ?thesis by (simp add: dbi_Prev_def)
qed

lemma SeekToLast_lands:
  assumes "base t es p"
  shows "lands d_over (dbi_SeekToLast ops sample c t) (user_view (dbi_sequence t) es) (length (user_view (dbi_sequence t) es) - 1)"
proof -
  let ?t = "ClearSavedValue (t\<lparr>dbi_direction := kReverse\<rparr>)"
  have b: "base ?t es p" using assms by (simp add: ClearSavedValue_def)
  have "lands over (it_SeekToLast ops (dbi_iter ?t)) (raw_entries es) (length (raw_entries es) - 1)"
    using inner.moves_last [of "dbi_iter ?t" "raw_entries es" p] b by (simp add: base_def)
  then have "lands over (it_SeekToLast ops (dbi_iter ?t)) (raw_entries es) (prev_pos (raw_entries es) (length es))"
    by (cases "es = []") (simp_all add: prev_pos_def)
  then obtain it where it: "it_SeekToLast ops (dbi_iter ?t) = Some it" "base (?t\<lparr>dbi_iter := it\<rparr>) es (prev_pos (raw_entries es) (length es))"
    using base_move [OF b] by blast
  have d: "dbi_direction (?t\<lparr>dbi_iter := it\<rparr>) = kReverse" "dbi_sequence (?t\<lparr>dbi_iter := it\<rparr>) = dbi_sequence t"
    by (simp_all add: ClearSavedValue_def)
  from FindPrev_lands [OF it(2) order_refl d(1)]
  show ?thesis unfolding dbi_SeekToLast_def Let_def it(1) d(2) by (simp add: prev_pos_end rank_end)
qed

section \<open>The contract is kept\<close>

lemma d_over_cases:
  assumes "d_over t uvs i"
  obtains (entry) es r where "uvs = user_view (dbi_sequence t) es" "at_entry t es r" "i = rank (dbi_sequence t) es r"
    | (saved) es m r where "uvs = user_view (dbi_sequence t) es" "at_before t es m r" "i = rank (dbi_sequence t) es r"
    | (off) es where "uvs = user_view (dbi_sequence t) es" "off t es" "i = length uvs"
  using assms unfolding d_over_def by blast

lemma d_over_base:
  assumes "d_over t uvs i"
  obtains es p where "uvs = user_view (dbi_sequence t) es" "base t es p"
  using assms by (rule d_over_cases) (use that in \<open>auto simp: at_entry_def at_before_def off_def\<close>)

lemma db_iter_contract: "list_iterator (db_iter_ops ops sample c) c (\<lambda>_. True) d_over"
proof
  fix t uvs i
  assume o: "d_over t uvs i"
  obtain es p where uvs: "uvs = user_view (dbi_sequence t) es" and b: "base t es p" using d_over_base [OF o] by blast
  from o have F: "i \<le> length uvs \<and> (dbi_valid t \<longleftrightarrow> i < length uvs) \<and>
      (i < length uvs \<longrightarrow> it_key (db_iter_ops ops sample c) t = fst (uvs ! i) \<and> it_value (db_iter_ops ops sample c) t = snd (uvs ! i))"
  proof (cases rule: d_over_cases)
    case (entry es r)
    then have a: "base t es r" "r < length es" "shown (dbi_sequence t) es r" "dbi_valid t" "dbi_direction t = kForward"
      by (simp_all add: at_entry_def)
    show ?thesis using view_nth [OF a(2,3)] entry a(4,5) base_entry [OF a(1,2)] by (simp add: db_iter_ops_def)
  next
    case (saved es m r)
    then have a: "r < length es" "shown (dbi_sequence t) es r" "dbi_valid t" "dbi_direction t = kReverse"
        "saved_key t = user_of (es ! r)" "saved_value t = snd (es ! r)"
      by (simp_all add: at_before_def saved_entry_def)
    show ?thesis using view_nth [OF a(1,2)] saved a(3-) by (simp add: db_iter_ops_def)
  qed (simp add: off_def)
  show "i \<le> length uvs" "it_Valid (db_iter_ops ops sample c) t = (i < length uvs)" using F by (simp_all add: db_iter_ops_def)
  show "i < length uvs \<Longrightarrow> it_key (db_iter_ops ops sample c) t = fst (uvs ! i)" using F by blast
  show "i < length uvs \<Longrightarrow> it_value (db_iter_ops ops sample c) t = snd (uvs ! i)" using F by blast
  have "it_status ops (dbi_iter t) = OK" "dbi_status t = OK"
    using b inner.status [of "dbi_iter t" "raw_entries es" p] by (simp_all add: base_def)
  then show "it_status (db_iter_ops ops sample c) t = OK" by (simp add: db_iter_ops_def)
  show "lands d_over (it_SeekToFirst (db_iter_ops ops sample c) t) uvs 0"
    using SeekToFirst_lands [OF b] uvs by (simp add: db_iter_ops_def)
  show "lands d_over (it_SeekToLast (db_iter_ops ops sample c) t) uvs (length uvs - 1)"
    using SeekToLast_lands [OF b] uvs by (simp add: db_iter_ops_def)
  show "lands d_over (it_Seek (db_iter_ops ops sample c) k t) uvs (lower_bound c k uvs)" for k
    using Seek_lands [OF b] uvs by (simp add: db_iter_ops_def)
  show "lands d_over (it_Next (db_iter_ops ops sample c) t) uvs (Suc i)" if "i < length uvs"
    using o
  proof (cases rule: d_over_cases)
    case (entry es r)
    then show ?thesis using Next_forward by (simp add: db_iter_ops_def)
  next
    case (saved es m r)
    then show ?thesis using Next_reverse by (simp add: db_iter_ops_def)
  qed (use that in simp)
  show "lands d_over (it_Prev (db_iter_ops ops sample c) t) uvs (prev_pos uvs i)" if "i < length uvs"
    using o
  proof (cases rule: d_over_cases)
    case (entry es r)
    then show ?thesis using Prev_forward by (simp add: db_iter_ops_def)
  next
    case (saved es m r)
    then show ?thesis using Prev_reverse by (simp add: db_iter_ops_def)
  qed (use that in simp)
qed

lemma DBIter_over:
  assumes "source es" "over it (raw_entries es) p" "s \<le> kMaxSequenceNumber"
  shows "d_over (DBIter db it s seed) (user_view s es) (length (user_view s es))"
proof -
  have "good_seed (snd (RandomPeriod (Random seed)))"
    using Random_Next_good [OF Random_good] by (simp add: RandomPeriod_def Uniform_def Let_def)
  then have "off (DBIter db it s seed) es" using assms
    by (auto simp: off_def base_def DBIter_def split: prod.split)
  then show ?thesis by (auto simp: d_over_def DBIter_def split: prod.split)
qed

end

end
