(* ===== verification/Ldb_Db_Reads.thy ===== *)
theory Ldb_Db_Reads
  imports Ldb_Db_Iter_Props Ldb_Merger_Props
begin

text \<open>
  Reads of several tables: the iterator of the database over the merged iterators of tables.  It goes
  over what a memtable with the same entries gives for every user key.
\<close>

context user_order
begin

lemma internal_contract: "comparator_contract (InternalKeyComparator c) (\<lambda>k. 8 \<le> length k)"
  by (rule internal.comparator_contract_axioms)

end

section \<open>The iterator over merged tables\<close>

interpretation table_reads: db_view BytewiseComparator "merge_tables_ops sn ro (InternalKeyComparator BytewiseComparator)"
    "merging_children.merged_over (InternalKeyComparator BytewiseComparator) (\<lambda>k. 8 \<le> length k)
       (tables_over sn ro (InternalKeyComparator BytewiseComparator) (\<lambda>k. 8 \<le> length k))" sample for sn ro sample
  unfolding db_view_def merge_tables_ops_def
  using bytewise_user.user_order_axioms internal_tables.merged_contract by blast

text \<open>What a client sees that reads tables through the iterator of the database.\<close>

definition db_reads :: "snappy \<Rightarrow> read_options \<Rightarrow> comparator \<Rightarrow> (slice \<Rightarrow> 'd \<Rightarrow> 'd) \<Rightarrow>
    ((table \<times> (block_iterator, block_iterator) two_level) merged, 'd) db_iter iter_ops" where
  "db_reads sn ro c sample = db_iter_ops (merge_tables_ops sn ro (InternalKeyComparator c)) sample c"

definition db_over_tables :: "snappy \<Rightarrow> read_options \<Rightarrow> table list \<Rightarrow> 'd \<Rightarrow> u64 \<Rightarrow> u32 \<Rightarrow>
    ((table \<times> (block_iterator, block_iterator) two_level) merged, 'd) db_iter" where
  "db_over_tables sn ro ts db s seed = DBIter db (merge_tables sn ro ts) s seed"

text \<open>The tables hold the entries, every one once, none of them empty.\<close>

definition tables_hold :: "snappy \<Rightarrow> options \<Rightarrow> kvs list list \<Rightarrow> table list \<Rightarrow> entry list \<Rightarrow> bool" where
  "tables_hold sn o1 bss ts es \<longleftrightarrow> tables_of sn o1 bss ts \<and> (\<forall>bs\<in>set bss. \<forall>b\<in>set bs. b \<noteq> []) \<and>
     mset (raw_entries es) = mset (concat (map concat bss)) \<and> (\<forall>bs\<in>set bss. ascending_keys (opt_comparator o1) (map fst (concat bs))) \<and>
     ascending_keys (opt_comparator o1) (map ikey es) \<and> (\<forall>e\<in>set es. key_sequence (fst e) \<le> kMaxSequenceNumber)"

lemma raw_keys: "map fst (raw_entries es) = map ikey es"
  by (simp add: raw_entries_def)

lemma tables_hold_merges:
  assumes "tables_hold sn o1 bss ts es"
  shows "merges (opt_comparator o1) (\<lambda>k. 8 \<le> length k) (map concat bss) (raw_entries es)"
  using assms by (auto simp: merges_def tables_hold_def raw_keys) (auto simp: raw_entries_def)

lemma db_reads_over:
  assumes "user_order c" "snappy_ok sn" "opt_comparator o1 = InternalKeyComparator c" "tables_hold sn o1 bss ts es" "s \<le> kMaxSequenceNumber"
  obtains d_over where "list_iterator (db_reads sn ro c sample) c (\<lambda>_. True) d_over"
    "d_over (db_over_tables sn ro ts db s seed) (user_view s es) (length (user_view s es))"
proof -
  let ?c = "InternalKeyComparator c" and ?ok = "\<lambda>k. 8 \<le> length (k :: slice)"
  have C: "comparator_contract (opt_comparator o1) ?ok"
    unfolding assms(3) by (rule user_order.internal_contract [OF assms(1)])
  note h = assms(4) [unfolded tables_hold_def]
  let ?over = "merging_children.merged_over ?c ?ok (tables_over sn ro ?c ?ok)"
  from merge_tables_over [OF C assms(2) _ _ tables_hold_merges [OF assms(4)], where ro = ro and ts = ts] h
  have L: "list_iterator (merge_tables_ops sn ro ?c) ?c ?ok ?over" and st: "?over (merge_tables sn ro ts) (raw_entries es) (length es)"
    unfolding assms(3) by simp_all
  have V: "db_view c (merge_tables_ops sn ro ?c) ?over" using assms(1) L by (simp add: db_view_def)
  have "db_view.source c es" unfolding db_view.source_def [OF V] using h by (simp add: assms(3))
  note run = db_view.db_iter_contract [OF V] db_view.DBIter_over [OF V this st assms(5)]
  show ?thesis unfolding db_reads_def db_over_tables_def by (rule that) (unfold db_reads_def db_over_tables_def, rule run, rule run)
qed

section \<open>The view and the newest versions\<close>

context user_order
begin

lemma user_view_ascending:
  assumes "ascending_keys (InternalKeyComparator c) (map ikey es)"
  shows "ascending_keys c (map fst (user_view s es))"
proof -
  have "Compare c (user_of (es ! i)) (user_of (es ! j)) < 0" if "i < j" "j < length es" "shown s es i" "shown s es j" for i j
  proof -
    have "internal_compare c (ikey (es ! i)) (ikey (es ! j)) < 0"
      using assms that(1,2) by (simp add: ascending_keys_def sorted_wrt_iff_nth_less)
    moreover have "user_of (es ! i) \<noteq> user_of (es ! j)" using that by (auto simp: shown_iff)
    ultimately show ?thesis by (simp add: internal_less)
  qed
  moreover have "sorted_wrt (<) (filter (shown s es) [0..<length es])" by (rule sorted_wrt_filter) simp
  ultimately show ?thesis
    unfolding ascending_keys_def user_view_def map_map sorted_wrt_map
    by (auto elim!: sorted_wrt_mono_rel [rotated] simp: o_def)
qed

text \<open>An entry that is shown is the newest visible one of its user key.\<close>

lemma shown_newest:
  assumes "ascending_keys (InternalKeyComparator c) (map ikey es)" "\<forall>e\<in>set es. key_sequence (fst e) \<le> kMaxSequenceNumber"
    "mset es0 = mset es" "in_order es0"
  shows "(u, v) \<in> set (user_view s es) \<longleftrightarrow> newest (visible es0 u s) = Present v"
proof -
  have st: "set es0 = set es" using assms(3) by (rule mset_eq_setD)
  let ?P = "\<lambda>j. user_of (es ! j) = u \<and> in_snapshot s (es ! j)"
  have vis: "e \<in> set (visible es0 u s) \<longleftrightarrow> (\<exists>j<length es. e = es ! j \<and> ?P j)" for e
    by (auto simp: visible_def in_snapshot_def st in_set_conv_nth)
  have seq: "key_sequence (fst (es ! j)) \<le> key_sequence (fst (es ! i))"
    if "i < j" "j < length es" "user_of (es ! i) = user_of (es ! j)" for i j
  proof -
    have "internal_compare c (ikey (es ! i)) (ikey (es ! j)) < 0"
      using assms(1) that by (simp add: ascending_keys_def sorted_wrt_iff_nth_less)
    then have "PackSequenceAndType (key_sequence (fst (es ! j))) (key_type (fst (es ! j))) \<le>
        PackSequenceAndType (key_sequence (fst (es ! i))) (key_type (fst (es ! i)))"
      using that(3) user_zero by (auto simp: internal_less)
    then show ?thesis using pack_le(2) assms(2) that by simp
  qed
  show ?thesis
  proof (cases "visible es0 u s = []")
    case True
    then have "\<not> ?P j" if "j < length es" for j using vis [of "es ! j"] that by auto
    then have "(u, v) \<notin> set (user_view s es)" by (auto simp: user_view_def shown_iff)
    then show ?thesis using True by (simp add: newest_def)
  next
    case False
    define r where "r = (LEAST j. j < length es \<and> ?P j)"
    obtain j0 where "j0 < length es \<and> ?P j0" using vis [of "last (visible es0 u s)"] False by auto
    then have "r < length es \<and> ?P r" unfolding r_def by (rule LeastI)
    then have r: "r < length es" "?P r" by simp_all
    have min: "\<not> ?P k" if "k < r" for k
      using not_less_Least [of k "\<lambda>j. j < length es \<and> ?P j"] that r(1) by (simp add: r_def [symmetric])
    have last: "last (visible es0 u s) = es ! r"
    proof -
      let ?l = "last (visible es0 u s)"
      obtain j where j: "j < length es" "?l = es ! j" "?P j" using vis [of ?l] False by auto
      have "r \<le> j" using min [of j] j(3) not_le by blast
      then have le: "key_sequence (fst ?l) \<le> key_sequence (fst (es ! r))"
        using seq [of r j] j r(2) by (cases "r = j") auto
      have "in_order (visible es0 u s)" using in_order_filter assms(4) by (simp add: visible_def)
      moreover have "es ! r \<in> set (visible es0 u s)" using vis r by blast
      ultimately show ?thesis using in_order_last le by (metis leD)
    qed
    have "(u, v) \<in> set (user_view s es) \<longleftrightarrow> shown s es r \<and> v = snd (es ! r)"
    proof
      assume "(u, v) \<in> set (user_view s es)"
      then obtain j where j: "j < length es" "shown s es j" "u = user_of (es ! j)" "v = snd (es ! j)" by (auto simp: user_view_def)
      then have p: "?P j" by (simp add: shown_iff)
      then have "r \<le> j" using min [of j] not_le by blast
      moreover have "\<not> r < j" using j r(2) by (auto simp: shown_iff)
      ultimately show "shown s es r \<and> v = snd (es ! r)" using j by simp
    qed (use r in \<open>force simp: user_view_def\<close>)
    moreover have "shown s es r \<longleftrightarrow> key_type (fst (es ! r)) = kTypeValue"
      using r min by (auto simp: shown_iff [OF r(1)])
    ultimately show ?thesis using False last by (auto simp: newest_def says_def split: ValueType.splits)
  qed
qed

end

section \<open>An example\<close>

text \<open>Two tables: the newer one deletes a key of the older one.\<close>

definition internal_options :: options where
  "internal_options = \<lparr>opt_comparator = InternalKeyComparator BytewiseComparator, paranoid_checks = True, opt_block_size = 4096,
     block_restart_interval = 16, compression = kNoCompression, opt_filter_policy = None\<rparr>"

definition version :: "slice \<Rightarrow> u64 \<Rightarrow> ValueType \<Rightarrow> slice \<Rightarrow> entry" where
  "version u s t v = (\<lparr>key_user = u, key_sequence = s, key_type = t\<rparr>, v)"

definition example_versions :: "entry list" where
  "example_versions = [version [1] 5 kTypeDeletion [], version [1] 3 kTypeValue [10], version [2] 4 kTypeValue [20]]"

definition example_tables :: "kvs list list" where
  "example_tables = [[[([1, 0, 5, 0, 0, 0, 0, 0, 0], [])]], [[([1, 1, 3, 0, 0, 0, 0, 0, 0], [10]), ([2, 1, 4, 0, 0, 0, 0, 0, 0], [20])]]]"

lemma internal_options_simps [simp]:
  "opt_comparator internal_options = InternalKeyComparator BytewiseComparator" "opt_block_size internal_options = 4096"
  "block_restart_interval internal_options = 16" "compression internal_options = kNoCompression" "opt_filter_policy internal_options = None"
  by (simp_all add: internal_options_def)

lemma example_ikeys: "map ikey example_versions = [[1, 0, 5, 0, 0, 0, 0, 0, 0], [1, 1, 3, 0, 0, 0, 0, 0, 0], [2, 1, 4, 0, 0, 0, 0, 0, 0]]"
  by (simp add: example_versions_def version_def ikey_def AppendInternalKey_def PutFixed64_def PackSequenceAndType_def EncodeFixed64_def
      le_bytes_def upt_rec)

lemma example_raws:
  "length (raw_block 16 [([1, 0, 5, 0, 0, 0, 0, 0, 0], [])]) = 20"
  "length (raw_block 16 [([1, 1, 3, 0, 0, 0, 0, 0, 0], [10]), ([2, 1, 4, 0, 0, 0, 0, 0, 0], [20])]) = 34"
  "length (raw_block 16 []) = 8"
  by (simp_all add: raw_eval)

lemma internal_packed: "packed_size no_snappy internal_options r = length r"
  by (simp add: packed_size_def compressed_block_def)

lemma internal_index:
  "index_entries no_snappy internal_options [[([1, 0, 5, 0, 0, 0, 0, 0, 0], [])]] = [([1, 0, 5, 0, 0, 0, 0, 0, 0], [0, 20])]"
  "index_entries no_snappy internal_options [[([1, 1, 3, 0, 0, 0, 0, 0, 0], [10]), ([2, 1, 4, 0, 0, 0, 0, 0, 0], [20])]] =
    [([2, 1, 4, 0, 0, 0, 0, 0, 0], [0, 34])]"
proof -
  have i: "index_keys (InternalKeyComparator BytewiseComparator) [[([1, 0, 5, 0, 0, 0, 0, 0, 0], [])]] = [[1, 0, 5, 0, 0, 0, 0, 0, 0]]"
    "index_keys (InternalKeyComparator BytewiseComparator) [[([1, 1, 3, 0, 0, 0, 0, 0, 0], [10]), ([2, 1, 4, 0, 0, 0, 0, 0, 0], [20])]] =
      [[2, 1, 4, 0, 0, 0, 0, 0, 0]]"
    by (simp_all add: index_keys_simps internal_successor_def ExtractUserKey_def BytewiseComparator_def bytewise_successor_def Let_def)
  show "index_entries no_snappy internal_options [[([1, 0, 5, 0, 0, 0, 0, 0, 0], [])]] = [([1, 0, 5, 0, 0, 0, 0, 0, 0], [0, 20])]"
    "index_entries no_snappy internal_options [[([1, 1, 3, 0, 0, 0, 0, 0, 0], [10]), ([2, 1, 4, 0, 0, 0, 0, 0, 0], [20])]] =
      [([2, 1, 4, 0, 0, 0, 0, 0, 0], [0, 34])]"
    using example_raws i
    by (simp_all add: index_entries_def data_handle_def handle_at_def internal_packed start_def data_blocks_def bh_EncodeTo_def
        PutVarint64_def EncodeVarint64.simps)
qed

lemma internal_index_raws:
  "length (raw_block 1 [([1, 0, 5, 0, 0, 0, 0, 0, 0], [0, 20])]) = 22"
  "length (raw_block 1 [([2, 1, 4, 0, 0, 0, 0, 0, 0], [0, 34])]) = 22"
  by (simp_all add: raw_eval)

lemma internal_fits: "bs \<in> set example_tables \<Longrightarrow> table_fits no_snappy internal_options bs"
  using example_raws internal_index_raws
  by (auto simp: example_tables_def table_fits_def index_raw_def meta_raw_def meta_index_block_def table_image_def
      length_packed internal_packed internal_index data_blocks_def filter_part_def length_footer raw_block_def build_block_def
      kEncodedLength_def kMaxEncodedLength_def)

lemma example_hold:
  obtains ts where "tables_hold no_snappy internal_options example_tables ts example_versions"
proof -
  have "\<exists>t in_buf. opened no_snappy internal_options bs in_buf t" if "bs \<in> set example_tables" for bs
    using table_opens [OF no_snappy_ok internal_fits [OF that]] by blast
  then obtain f where f: "\<And>bs. bs \<in> set example_tables \<Longrightarrow> \<exists>in_buf. opened no_snappy internal_options bs in_buf (f bs)" by metis
  have "tables_of no_snappy internal_options example_tables (map f example_tables)"
    using f internal_fits by (auto simp: tables_of_def list_all2_conv_all_nth)
  moreover have "ascending_keys (InternalKeyComparator BytewiseComparator) (map ikey example_versions)"
    unfolding example_ikeys by (simp add: ascending_keys_def bytewise_user.internal_less ExtractUserKey_def key_num_def
        DecodeFixed64_def DecodeFixed32_def byte_at_def Let_def Compare_bytewise)
  moreover have "map fst (raw_entries example_versions) = map fst (concat (map concat example_tables))"
      "map snd (raw_entries example_versions) = map snd (concat (map concat example_tables))"
    unfolding raw_keys example_ikeys by (simp_all add: example_tables_def raw_entries_def example_versions_def version_def)
  then have "raw_entries example_versions = concat (map concat example_tables)" by (metis zip_map_fst_snd)
  moreover have "\<forall>bs\<in>set example_tables. ascending_keys (InternalKeyComparator BytewiseComparator) (map fst (concat bs))"
    by (simp add: example_tables_def ascending_keys_def bytewise_user.internal_less ExtractUserKey_def Compare_bytewise)
  moreover have "\<forall>bs\<in>set example_tables. \<forall>b\<in>set bs. b \<noteq> []" by (simp add: example_tables_def)
  moreover have "\<forall>e\<in>set example_versions. key_sequence (fst e) \<le> kMaxSequenceNumber"
    by (simp add: example_versions_def version_def kMaxSequenceNumber_def)
  ultimately have "tables_hold no_snappy internal_options example_tables (map f example_tables) example_versions"
    unfolding tables_hold_def by simp
  then show ?thesis by (rule that)
qed

lemma example_views:
  "user_view 4 example_versions = [([1], [10]), ([2], [20])]" "user_view 5 example_versions = [([2], [20])]"
  by (simp_all add: user_view_def shown_def in_snapshot_def example_versions_def version_def upt_rec)

section \<open>Properties\<close>

text \<open>C4: the iterator of the database over tables.  For every comparator that keeps its contract, tables that
  together hold the entries, a snapshot and a seed: whatever the sampling does, the iterator goes over the newest
  visible versions from \<open>SeekToFirst\<close> with \<open>Next\<close>, over the reverse from \<open>SeekToLast\<close> with \<open>Prev\<close>, and from \<open>Seek\<close> over
  those that are not before the target; every move returns.\<close>

theorem db_iterator_walks:
  assumes "user_order c" "snappy_ok sn" "opt_comparator o1 = InternalKeyComparator c" "tables_hold sn o1 bss ts es" "s \<le> kMaxSequenceNumber"
    "length (user_view s es) \<le> n"
  shows "let ops = db_reads sn ro c sample; t = db_over_tables sn ro ts db s seed in
      Option.bind (it_SeekToFirst ops t) (it_walk ops n) = Some (user_view s es) \<and>
      Option.bind (it_SeekToLast ops t) (it_walk_back ops n) = Some (rev (user_view s es)) \<and>
      (\<forall>k. Option.bind (it_Seek ops k t) (it_walk ops n) = Some (dropWhile (\<lambda>kv. Compare c (fst kv) k < 0) (user_view s es)))"
proof -
  obtain d_over where "list_iterator (db_reads sn ro c sample) c (\<lambda>_. True) d_over"
      "d_over (db_over_tables sn ro ts db s seed) (user_view s es) (length (user_view s es))"
    using db_reads_over [OF assms(1-5)] .
  from list_iterator.walks [OF this assms(6)] show ?thesis unfolding Let_def by blast
qed

theorem db_iterator_walks_witness:
  "\<exists>ts. Option.bind (it_SeekToLast (db_reads no_snappy ReadOptions BytewiseComparator (\<lambda>_ n. Suc n))
        (db_over_tables no_snappy ReadOptions ts 0 4 301))
      (it_walk_back (db_reads no_snappy ReadOptions BytewiseComparator (\<lambda>_ n. Suc n)) 2) = Some [([2], [20]), ([1], [10])]"
proof -
  obtain ts where ts: "tables_hold no_snappy internal_options example_tables ts example_versions" by (rule example_hold)
  show ?thesis
    using db_iterator_walks [OF bytewise_user.user_order_axioms no_snappy_ok internal_options_simps(1) ts, of 4 2 ReadOptions "\<lambda>_ n. Suc n" 0 301]
    by (auto simp: example_views kMaxSequenceNumber_def Let_def)
qed

text \<open>C3: iterators and \<open>MemTable::Get\<close> agree.  When a memtable gets the entries in the order of their sequence
  numbers, and tables hold the same entries, then a pair of a key and a value is among those that the iterator
  of the database gives exactly when \<open>Get\<close> finds that value for the key at the same snapshot; the iterator gives
  every key once, in order.\<close>

theorem db_iterator_agrees_with_get:
  assumes "user_order c" "snappy_ok sn" "opt_comparator o1 = InternalKeyComparator c" "tables_hold sn o1 bss ts es" "s \<le> kMaxSequenceNumber"
    "mset es0 = mset es" "in_order es0" "\<forall>e\<in>set es0. valid_entry e" "length es \<le> n"
  shows "\<exists>m kvs. add_all es0 (MemTable c junk) = Some m \<and>
      Option.bind (it_SeekToFirst (db_reads sn ro c sample) (db_over_tables sn ro ts db s seed)) (it_walk (db_reads sn ro c sample) n) = Some kvs \<and>
      ascending_keys c (map fst kvs) \<and>
      (\<forall>u v. length u + 8 < 2 ^ 32 \<longrightarrow> ((u, v) \<in> set kvs \<longleftrightarrow> mem_Get m (LookupKey u s) = Some (Present v)))"
proof -
  have h: "ascending_keys (InternalKeyComparator c) (map ikey es)" "\<forall>e\<in>set es. key_sequence (fst e) \<le> kMaxSequenceNumber"
    using assms(3,4) by (simp_all add: tables_hold_def)
  obtain m where m: "add_all es0 (MemTable c junk) = Some m" "holds_entries c m es0"
    using user_order.add_all_holds [OF assms(1) empty_holds, of es0 junk] assms(7,8) by auto
  have g: "mem_Get m (LookupKey u s) = Some (newest (visible es0 u s))" if "length u + 8 < 2 ^ 32" for u
    using user_order.get_after_adds [OF assms(1,8,7,5) that, of junk] m(1) by simp
  obtain d_over where d: "list_iterator (db_reads sn ro c sample) c (\<lambda>_. True) d_over"
      "d_over (db_over_tables sn ro ts db s seed) (user_view s es) (length (user_view s es))"
    using db_reads_over [OF assms(1-5)] .
  have "length (user_view s es) \<le> n" using assms(9) by (simp add: user_view_def) (metis diff_zero le_trans length_filter_le length_upt)
  note w = list_iterator.walks(1) [OF d this]
  show ?thesis
    using m(1) w user_order.user_view_ascending [OF assms(1) h(1)] user_order.shown_newest [OF assms(1) h assms(6,7)] g by fastforce
qed

theorem db_iterator_agrees_with_get_witness:
  "\<exists>ts m kvs. add_all [version [1] 3 kTypeValue [10], version [2] 4 kTypeValue [20], version [1] 5 kTypeDeletion []]
        (MemTable BytewiseComparator (\<lambda>_ _. None)) = Some m \<and>
      Option.bind (it_SeekToFirst (db_reads no_snappy ReadOptions BytewiseComparator (\<lambda>_ n. Suc n))
        (db_over_tables no_snappy ReadOptions ts 0 5 301))
      (it_walk (db_reads no_snappy ReadOptions BytewiseComparator (\<lambda>_ n. Suc n)) 3) = Some kvs \<and>
    (([1], [10]) \<in> set kvs \<longleftrightarrow> mem_Get m (LookupKey [1] 5) = Some (Present [10]))"
proof -
  obtain ts where ts: "tables_hold no_snappy internal_options example_tables ts example_versions" by (rule example_hold)
  let ?es0 = "[version [1] 3 kTypeValue [10], version [2] 4 kTypeValue [20], version [1] 5 kTypeDeletion []]"
  have h: "5 \<le> kMaxSequenceNumber" "mset ?es0 = mset example_versions" "in_order ?es0" "\<forall>e\<in>set ?es0. valid_entry e"
      "length example_versions \<le> 3" "length [1 :: byte] + 8 < 2 ^ 32"
    by (simp_all add: kMaxSequenceNumber_def example_versions_def in_order_def valid_entry_def version_def)
  show ?thesis
    using db_iterator_agrees_with_get [OF bytewise_user.user_order_axioms no_snappy_ok internal_options_simps(1) ts h(1-5),
        of "\<lambda>_ _. None" ReadOptions "\<lambda>_ n. Suc n" 0 301] h(6) by blast
qed

text \<open>C37: the sampling of reads ends.  From every seed that the generator can reach, the loop of \<open>ParseKey\<close>
  that draws periods until the counter is not negative returns, and it changes nothing but the counter, the
  generator and what the sampling itself changes; the seeds of the constructor and of the generator are such.\<close>

theorem sampling_ends:
  "(good_seed (dbi_rnd t) \<longrightarrow>
      (\<exists>t'. sample_loop sample k t = Some t' \<and> 0 \<le> bytes_counter t' \<and> good_seed (dbi_rnd t') \<and> steady t t')) \<and>
    good_seed (dbi_rnd (DBIter db it s seed))"
proof -
  have "good_seed (dbi_rnd (DBIter db it s seed))"
    using Random_Next_good [OF Random_good] by (simp add: DBIter_def RandomPeriod_def Uniform_def Let_def)
  then show ?thesis using sample_loop_returns by blast
qed

theorem sampling_ends_witness:
  "\<exists>t'. sample_loop (\<lambda>_ n. Suc n) [] ((DBIter 0 () 5 301)\<lparr>bytes_counter := -9\<rparr>) = Some t' \<and> 0 \<le> bytes_counter t'"
  using sampling_ends [of "DBIter 0 () 5 301" "\<lambda>_ n. Suc n" "[]" 0 "()" 5 301]
    sampling_ends [of "(DBIter 0 () 5 301)\<lparr>bytes_counter := -9\<rparr>" "\<lambda>_ n. Suc n" "[]" 0 "()" 5 301] by auto

end
