(* ===== verification/Ldb_Cache.thy ===== *)
theory Ldb_Cache
  imports Ldb_Filter
begin

text \<open>
  The cache of \<open>util/cache.cc\<close>: entries on a heap, a hash table with chains, a list from the least to
  the most recently used entry, and sixteen shards.

  A handle is an address.  The circular list \<open>lru_\<close> is the list of its addresses, the oldest first, and the chain of
  a bucket is the list of its addresses; \<open>FindPointer\<close> gives the slot as a bucket and a position.  The calls of
  the deleter are recorded.  Charges and their sum are natural numbers, and there are fewer than \<open>2 ^ 31\<close> entries.
\<close>

section \<open>Entries\<close>

record 'v lru_handle =
  lh_value :: 'v
  lh_charge :: nat
  lh_refs :: nat
  lh_hash :: u32
  lh_key :: slice

type_synonym 'v lru_heap = "nat \<Rightarrow> 'v lru_handle option"

section \<open>The hash table\<close>

record handle_table =
  ht_length :: nat
  ht_elems :: nat
  ht_list :: "nat list list"

definition bucket_of :: "nat \<Rightarrow> u32 \<Rightarrow> nat" where
  "bucket_of n hash = unat (hash AND (word_of_nat n - 1))"

definition is_entry :: "'v lru_heap \<Rightarrow> slice \<Rightarrow> u32 \<Rightarrow> nat \<Rightarrow> bool" where
  "is_entry hp key hash a \<longleftrightarrow> lh_hash (the (hp a)) = hash \<and> key = lh_key (the (hp a))"

definition FindPointer :: "'v lru_heap \<Rightarrow> slice \<Rightarrow> u32 \<Rightarrow> handle_table \<Rightarrow> nat \<times> nat" where
  "FindPointer hp key hash t =
     (let b = bucket_of (ht_length t) hash in (b, length (takeWhile (\<lambda>a. \<not> is_entry hp key hash a) (ht_list t ! b))))"

definition at_slot :: "handle_table \<Rightarrow> nat \<times> nat \<Rightarrow> nat option" where
  "at_slot t ptr = (let chain = ht_list t ! fst ptr in if snd ptr < length chain then Some (chain ! snd ptr) else None)"

definition ht_Lookup :: "'v lru_heap \<Rightarrow> slice \<Rightarrow> u32 \<Rightarrow> handle_table \<Rightarrow> nat option" where
  "ht_Lookup hp key hash t = at_slot t (FindPointer hp key hash t)"

function double_length :: "nat \<Rightarrow> nat \<Rightarrow> nat" where
  "double_length elems new_length =
     (if new_length < elems \<and> 0 < new_length then double_length elems (new_length * 2) else new_length)"
  by pat_completeness auto
termination by (relation "measure (\<lambda>(e, n). e - n)") auto

text \<open>Moving one entry to the front of its new chain.\<close>

definition move_entry :: "'v lru_heap \<Rightarrow> nat \<Rightarrow> nat list list \<Rightarrow> nat \<Rightarrow> nat list list" where
  "move_entry hp new_length new_list h =
     (let b = bucket_of new_length (lh_hash (the (hp h))) in new_list[b := h # new_list ! b])"

definition Resize :: "'v lru_heap \<Rightarrow> handle_table \<Rightarrow> handle_table" where
  "Resize hp t =
     (let new_length = double_length (ht_elems t) 4 in
      t\<lparr>ht_list := foldl (move_entry hp new_length) (replicate new_length []) (concat (ht_list t)), ht_length := new_length\<rparr>)"

definition HandleTable :: handle_table where
  "HandleTable = Resize (Map.empty :: unit lru_heap) \<lparr>ht_length = 0, ht_elems = 0, ht_list = []\<rparr>"

definition ht_Insert :: "'v lru_heap \<Rightarrow> nat \<Rightarrow> handle_table \<Rightarrow> nat option \<times> handle_table" where
  "ht_Insert hp h t =
     (let ptr = FindPointer hp (lh_key (the (hp h))) (lh_hash (the (hp h))) t;
          old = at_slot t ptr; b = fst ptr; chain = ht_list t ! b;
          t1 = t\<lparr>ht_list := (ht_list t)[b := take (snd ptr) chain @ h # drop (Suc (snd ptr)) chain]\<rparr>
      in if old = None then
           let t2 = t1\<lparr>ht_elems := ht_elems t1 + 1\<rparr>
           in (old, if ht_length t2 < ht_elems t2 then Resize hp t2 else t2)
         else (old, t1))"

definition ht_Remove :: "'v lru_heap \<Rightarrow> slice \<Rightarrow> u32 \<Rightarrow> handle_table \<Rightarrow> nat option \<times> handle_table" where
  "ht_Remove hp key hash t =
     (let ptr = FindPointer hp key hash t; result = at_slot t ptr; b = fst ptr; chain = ht_list t ! b
      in (result, if result \<noteq> None
                  then t\<lparr>ht_list := (ht_list t)[b := take (snd ptr) chain @ drop (Suc (snd ptr)) chain], ht_elems := ht_elems t - 1\<rparr>
                  else t))"

section \<open>One shard\<close>

record 'v lru_cache =
  lru_capacity :: nat
  lru_usage :: nat
  lru_list :: "nat list"
  lru_table :: handle_table
  lru_entries :: "'v lru_heap"
  lru_fresh :: nat
  lru_deleted :: "(slice \<times> 'v) list"

definition LRUCache :: "nat \<Rightarrow> 'v lru_cache" where
  "LRUCache cap = \<lparr>lru_capacity = cap, lru_usage = 0, lru_list = [], lru_table = HandleTable, lru_entries = Map.empty,
     lru_fresh = 0, lru_deleted = []\<rparr>"

definition entry_at :: "'v lru_cache \<Rightarrow> nat \<Rightarrow> 'v lru_handle" where "entry_at c a = the (lru_entries c a)"

definition Unref_handle :: "nat \<Rightarrow> 'v lru_cache \<Rightarrow> 'v lru_cache" where
  "Unref_handle a c =
     (let e = (entry_at c a)\<lparr>lh_refs := lh_refs (entry_at c a) - 1\<rparr> in
      if lh_refs e \<le> 0 then
        c\<lparr>lru_usage := lru_usage c - lh_charge e, lru_deleted := lru_deleted c @ [(lh_key e, lh_value e)],
          lru_entries := (lru_entries c)(a := None)\<rparr>
      else c\<lparr>lru_entries := (lru_entries c)(a \<mapsto> e)\<rparr>)"

definition LRU_Remove :: "nat \<Rightarrow> 'v lru_cache \<Rightarrow> 'v lru_cache" where
  "LRU_Remove a c = c\<lparr>lru_list := remove1 a (lru_list c)\<rparr>"

definition LRU_Append :: "nat \<Rightarrow> 'v lru_cache \<Rightarrow> 'v lru_cache" where
  "LRU_Append a c = c\<lparr>lru_list := lru_list c @ [a]\<rparr>"

definition lru_Lookup :: "slice \<Rightarrow> u32 \<Rightarrow> 'v lru_cache \<Rightarrow> nat option \<times> 'v lru_cache" where
  "lru_Lookup key hash c = (case ht_Lookup (lru_entries c) key hash (lru_table c) of
     None \<Rightarrow> (None, c)
   | Some a \<Rightarrow> (Some a, LRU_Append a (LRU_Remove a
        (c\<lparr>lru_entries := (lru_entries c)(a \<mapsto> (entry_at c a)\<lparr>lh_refs := lh_refs (entry_at c a) + 1\<rparr>)\<rparr>))))"

definition lru_Release :: "nat \<Rightarrow> 'v lru_cache \<Rightarrow> 'v lru_cache" where "lru_Release a c = Unref_handle a c"

text \<open>Dropping the oldest entry, and the loop that does so until the usage fits.\<close>

definition evict_oldest :: "'v lru_cache \<Rightarrow> 'v lru_cache" where
  "evict_oldest c =
     (let old = hd (lru_list c); c1 = LRU_Remove old c;
          c2 = c1\<lparr>lru_table := snd (ht_Remove (lru_entries c1) (lh_key (entry_at c1 old)) (lh_hash (entry_at c1 old)) (lru_table c1))\<rparr>
      in Unref_handle old c2)"

lemma evict_oldest_list: "lru_list (evict_oldest c) = remove1 (hd (lru_list c)) (lru_list c)"
  by (simp add: evict_oldest_def Unref_handle_def LRU_Remove_def Let_def)

function evict :: "'v lru_cache \<Rightarrow> 'v lru_cache" where
  "evict c = (if lru_capacity c < lru_usage c \<and> lru_list c \<noteq> [] then evict (evict_oldest c) else c)"
  by pat_completeness auto
termination
proof (relation "measure (\<lambda>c. length (lru_list c))")
  show "lru_capacity c < lru_usage c \<and> lru_list c \<noteq> [] \<Longrightarrow> (evict_oldest c, c) \<in> measure (\<lambda>c. length (lru_list c))"
    for c :: "'v lru_cache"
    by (cases "lru_list c") (simp_all add: evict_oldest_list)
qed simp

declare evict.simps [simp del] double_length.simps [simp del]

text \<open>Making the entry, and dropping the one it replaces.\<close>

definition new_entry :: "slice \<Rightarrow> u32 \<Rightarrow> 'v \<Rightarrow> nat \<Rightarrow> 'v lru_cache \<Rightarrow> 'v lru_cache" where
  "new_entry key hash value chrg c =
     (let a = lru_fresh c; e = \<lparr>lh_value = value, lh_charge = chrg, lh_refs = 2, lh_hash = hash, lh_key = key\<rparr>
      in (LRU_Append a (c\<lparr>lru_entries := (lru_entries c)(a \<mapsto> e), lru_fresh := a + 1\<rparr>))\<lparr>lru_usage := lru_usage c + chrg\<rparr>)"

definition drop_old :: "nat option \<Rightarrow> 'v lru_cache \<Rightarrow> 'v lru_cache" where
  "drop_old old c = (case old of None \<Rightarrow> c | Some b \<Rightarrow> Unref_handle b (LRU_Remove b c))"

definition lru_Insert :: "slice \<Rightarrow> u32 \<Rightarrow> 'v \<Rightarrow> nat \<Rightarrow> 'v lru_cache \<Rightarrow> nat \<times> 'v lru_cache" where
  "lru_Insert key hash value chrg c =
     (let a = lru_fresh c; c1 = new_entry key hash value chrg c; (old, t) = ht_Insert (lru_entries c1) a (lru_table c1)
      in (a, evict (drop_old old (c1\<lparr>lru_table := t\<rparr>))))"

definition lru_Erase :: "slice \<Rightarrow> u32 \<Rightarrow> 'v lru_cache \<Rightarrow> 'v lru_cache" where
  "lru_Erase key hash c = (case ht_Remove (lru_entries c) key hash (lru_table c) of
     (None, t) \<Rightarrow> c\<lparr>lru_table := t\<rparr>
   | (Some a, t) \<Rightarrow> Unref_handle a (LRU_Remove a (c\<lparr>lru_table := t\<rparr>)))"

section \<open>The sharded cache\<close>

text \<open>A handle of the sharded cache is the shard of its hash with its address.\<close>

record 'v sharded_cache =
  shards :: "'v lru_cache list"
  last_id :: u64

definition kNumShardBits :: nat where "kNumShardBits = 4"
definition kNumShards :: nat where "kNumShards = 2 ^ kNumShardBits"

definition HashSlice :: "slice \<Rightarrow> u32" where "HashSlice s = Hash s 0"
definition Shard :: "u32 \<Rightarrow> nat" where "Shard hash = unat (drop_bit (32 - kNumShardBits) hash)"

definition NewLRUCache :: "nat \<Rightarrow> 'v sharded_cache" where
  "NewLRUCache cap =
     \<lparr>shards = replicate kNumShards (LRUCache ((cap + (kNumShards - 1)) div kNumShards)), last_id = 0\<rparr>"

definition sharded_Insert :: "slice \<Rightarrow> 'v \<Rightarrow> nat \<Rightarrow> 'v sharded_cache \<Rightarrow> (nat \<times> nat) \<times> 'v sharded_cache" where
  "sharded_Insert key value chrg c =
     (let hash = HashSlice key; i = Shard hash; (a, s) = lru_Insert key hash value chrg (shards c ! i)
      in ((i, a), c\<lparr>shards := (shards c)[i := s]\<rparr>))"

definition sharded_Lookup :: "slice \<Rightarrow> 'v sharded_cache \<Rightarrow> (nat \<times> nat) option \<times> 'v sharded_cache" where
  "sharded_Lookup key c =
     (let hash = HashSlice key; i = Shard hash; (h, s) = lru_Lookup key hash (shards c ! i)
      in (map_option (Pair i) h, c\<lparr>shards := (shards c)[i := s]\<rparr>))"

definition sharded_Release :: "nat \<times> nat \<Rightarrow> 'v sharded_cache \<Rightarrow> 'v sharded_cache" where
  "sharded_Release h c = c\<lparr>shards := (shards c)[fst h := lru_Release (snd h) (shards c ! fst h)]\<rparr>"

definition sharded_Erase :: "slice \<Rightarrow> 'v sharded_cache \<Rightarrow> 'v sharded_cache" where
  "sharded_Erase key c =
     (let hash = HashSlice key; i = Shard hash in c\<lparr>shards := (shards c)[i := lru_Erase key hash (shards c ! i)]\<rparr>)"

definition sharded_Value :: "'v sharded_cache \<Rightarrow> nat \<times> nat \<Rightarrow> 'v" where
  "sharded_Value c h = lh_value (entry_at (shards c ! fst h) (snd h))"

definition NewId :: "'v sharded_cache \<Rightarrow> u64 \<times> 'v sharded_cache" where
  "NewId c = (last_id c + 1, c\<lparr>last_id := last_id c + 1\<rparr>)"

end
