(* ===== verification/Ldb_Cache_Props.thy ===== *)
theory Ldb_Cache_Props
  imports Ldb_Cache "HOL-Library.Multiset"
begin

text \<open>
  The cache keeps what clients hold: the hash table finds exactly the entries of the list, the reference
  counts are those of the list and of the handles that clients have not released, and entries are dropped from
  the oldest on until the usage fits.
\<close>

section \<open>The hash table\<close>

lemma bucket_of_mod: "bucket_of (2 ^ k) hash = unat hash mod 2 ^ k"
proof (cases "k < 32")
  case True
  have "word_of_nat (2 ^ k) - 1 = (mask k :: u32)" by (simp add: mask_eq_decr_exp)
  then have "bucket_of (2 ^ k) hash = unat (take_bit k hash)" by (simp only: bucket_of_def take_bit_eq_mask)
  also have "\<dots> = take_bit k (unat hash)" by (rule unsigned_take_bit_eq)
  finally show ?thesis by (simp only: take_bit_eq_mod)
next
  case False
  then have w: "(word_of_nat (2 ^ k) :: u32) = 0" by (simp add: exp_eq_zero_iff)
  have "unat hash < 2 ^ 32" using unsigned_less [of hash] by simp
  also have "(2 ^ 32 :: nat) \<le> 2 ^ k" using False by (intro power_increasing) simp_all
  finally show ?thesis unfolding bucket_of_def w by simp
qed

lemma bucket_of_less: "bucket_of (2 ^ k) hash < 2 ^ k"
  by (simp add: bucket_of_mod)

definition ht_entries :: "handle_table \<Rightarrow> nat list" where "ht_entries t = concat (ht_list t)"

definition in_bucket :: "'v lru_heap \<Rightarrow> nat \<Rightarrow> nat list list \<Rightarrow> bool" where
  "in_bucket hp n cs \<longleftrightarrow> length cs = n \<and> (\<forall>b<n. \<forall>a\<in>set (cs ! b). bucket_of n (lh_hash (the (hp a))) = b)"

definition name_of :: "'v lru_heap \<Rightarrow> nat \<Rightarrow> slice \<times> u32" where "name_of hp a = (lh_key (the (hp a)), lh_hash (the (hp a)))"

lemma is_entry_name: "is_entry hp key hash a \<longleftrightarrow> name_of hp a = (key, hash)"
  by (auto simp: is_entry_def name_of_def)

definition table_ok :: "'v lru_heap \<Rightarrow> handle_table \<Rightarrow> bool" where
  "table_ok hp t \<longleftrightarrow> (\<exists>k. ht_length t = 2 ^ k) \<and> in_bucket hp (ht_length t) (ht_list t) \<and>
     distinct (map (name_of hp) (ht_entries t)) \<and> ht_elems t = length (ht_entries t)"

lemma table_bucket: "table_ok hp t \<Longrightarrow> bucket_of (ht_length t) hash < length (ht_list t)"
  using bucket_of_less by (auto simp: table_ok_def in_bucket_def)

lemma chain_entry:
  assumes "table_ok hp t" "a \<in> set (ht_entries t)" "is_entry hp key hash a"
  shows "a \<in> set (ht_list t ! bucket_of (ht_length t) hash)"
proof -
  obtain cs where "cs \<in> set (ht_list t)" "a \<in> set cs" using assms(2) by (auto simp: ht_entries_def)
  then obtain b where "b < length (ht_list t)" "a \<in> set (ht_list t ! b)" by (metis in_set_conv_nth)
  then show ?thesis using assms(1,3) by (auto simp: table_ok_def in_bucket_def is_entry_def)
qed

lemma chain_subset: "b < length (ht_list t) \<Longrightarrow> set (ht_list t ! b) \<subseteq> set (ht_entries t)"
  using nth_mem by (auto simp: ht_entries_def)

text \<open>The slot splits its chain.\<close>

lemma slot_found:
  assumes "at_slot t (FindPointer hp key hash t) = Some a"
  defines "b \<equiv> bucket_of (ht_length t) hash" and "i \<equiv> snd (FindPointer hp key hash t)"
  shows "i < length (ht_list t ! b)" "a = ht_list t ! b ! i" "is_entry hp key hash a"
    "ht_list t ! b = take i (ht_list t ! b) @ a # drop (Suc i) (ht_list t ! b)"
proof -
  let ?P = "\<lambda>a. \<not> is_entry hp key hash a"
  have i: "i = length (takeWhile ?P (ht_list t ! b))" "fst (FindPointer hp key hash t) = b"
    by (simp_all add: i_def b_def FindPointer_def Let_def)
  show l: "i < length (ht_list t ! b)" and a: "a = ht_list t ! b ! i"
    using assms(1) by (auto simp: at_slot_def Let_def i(2) i_def [symmetric] split: if_splits)
  have "\<not> ?P (ht_list t ! b ! i)" unfolding i(1) by (rule nth_length_takeWhile) (use l i in simp)
  then show "is_entry hp key hash a" using a by simp
  show "ht_list t ! b = take i (ht_list t ! b) @ a # drop (Suc i) (ht_list t ! b)" using id_take_nth_drop [OF l] a by simp
qed

lemma slot_none:
  assumes "table_ok hp t" "at_slot t (FindPointer hp key hash t) = None"
  shows "\<forall>a\<in>set (ht_entries t). \<not> is_entry hp key hash a"
    "snd (FindPointer hp key hash t) = length (ht_list t ! bucket_of (ht_length t) hash)"
proof -
  let ?P = "\<lambda>a. \<not> is_entry hp key hash a" and ?c = "ht_list t ! bucket_of (ht_length t) hash"
  have "\<not> length (takeWhile ?P ?c) < length ?c"
    using assms(2) by (auto simp: at_slot_def FindPointer_def Let_def split: if_splits)
  then have "length (takeWhile ?P ?c) = length ?c" using length_takeWhile_le [of ?P ?c] by simp
  then have l: "takeWhile ?P ?c = ?c" by (metis takeWhile_eq_take take_all order_refl)
  show "snd (FindPointer hp key hash t) = length ?c" by (simp add: FindPointer_def Let_def l)
  have "\<forall>a\<in>set ?c. ?P a" using l by (metis set_takeWhileD)
  then show "\<forall>a\<in>set (ht_entries t). \<not> is_entry hp key hash a" using chain_entry [OF assms(1)] by blast
qed

lemma ht_Lookup_iff:
  assumes "table_ok hp t"
  shows "ht_Lookup hp key hash t = Some a \<longleftrightarrow> a \<in> set (ht_entries t) \<and> is_entry hp key hash a"
proof
  assume l: "ht_Lookup hp key hash t = Some a"
  note s = slot_found [OF l [unfolded ht_Lookup_def]]
  show "a \<in> set (ht_entries t) \<and> is_entry hp key hash a"
    using s(1,2,3) chain_subset [OF table_bucket [OF assms, of hash]] nth_mem by blast
next
  assume a: "a \<in> set (ht_entries t) \<and> is_entry hp key hash a"
  then obtain x where x: "ht_Lookup hp key hash t = Some x" using slot_none(1) [OF assms, of key hash] by (auto simp: ht_Lookup_def)
  note s = slot_found [OF x [unfolded ht_Lookup_def]]
  have "x \<in> set (ht_entries t)" using s(1,2) chain_subset [OF table_bucket [OF assms, of hash]] nth_mem by blast
  moreover have "name_of hp x = name_of hp a" using s(3) a by (simp add: is_entry_name)
  moreover have "inj_on (name_of hp) (set (ht_entries t))" using assms by (simp add: table_ok_def distinct_map)
  ultimately have "x = a" using a by (auto dest: inj_onD)
  with x show "ht_Lookup hp key hash t = Some a" by simp
qed

lemma mset_concat_nth: "b < length xs \<Longrightarrow> mset (xs ! b) \<subseteq># mset (concat xs)"
proof (induction xs arbitrary: b)
  case (Cons x xs)
  show ?case
  proof (cases b)
    case (Suc b')
    then have "mset (xs ! b') \<subseteq># mset (concat xs)" using Cons by simp
    then show ?thesis using Suc by (simp add: subset_mset.add_increasing)
  qed simp
qed simp

lemma mset_concat_update:
  "b < length xs \<Longrightarrow> mset (concat (xs[b := ys])) = mset (concat xs) - mset (xs ! b) + mset ys"
proof (induction xs arbitrary: b)
  case (Cons x xs)
  show ?case
  proof (cases b)
    case (Suc b')
    then have b: "b' < length xs" using Cons.prems by simp
    then obtain R where R: "mset (concat xs) = mset (xs ! b') + R" using mset_concat_nth by (metis subset_mset.le_iff_add)
    have "mset (concat (xs[b' := ys])) = R + mset ys" using Cons.IH [OF b] R by simp
    then show ?thesis using Suc R by simp
  qed simp
qed simp

text \<open>Replacing a chain, and moving all entries to a longer table.\<close>

lemma in_bucket_update:
  assumes "in_bucket hp n cs" "b < n" "\<forall>a\<in>set ys. bucket_of n (lh_hash (the (hp a))) = b"
  shows "in_bucket hp n (cs[b := ys])"
  using assms by (auto simp: in_bucket_def nth_list_update)

lemma move_entries:
  assumes "in_bucket hp (2 ^ k) cs"
  shows "in_bucket hp (2 ^ k) (foldl (move_entry hp (2 ^ k)) cs hs) \<and>
    mset (concat (foldl (move_entry hp (2 ^ k)) cs hs)) = mset (concat cs) + mset hs"
  using assms
proof (induction hs arbitrary: cs)
  case (Cons h hs)
  let ?b = "bucket_of (2 ^ k) (lh_hash (the (hp h)))"
  have b: "?b < length cs" using Cons.prems bucket_of_less by (simp add: in_bucket_def)
  have m: "move_entry hp (2 ^ k) cs h = cs[?b := h # cs ! ?b]" by (simp add: move_entry_def Let_def)
  have "in_bucket hp (2 ^ k) (move_entry hp (2 ^ k) cs h)"
    unfolding m by (rule in_bucket_update) (use Cons.prems b in \<open>auto simp: in_bucket_def\<close>)
  moreover have "mset (concat (move_entry hp (2 ^ k) cs h)) = mset (concat cs) + {#h#}"
    unfolding m using mset_concat_update [OF b, of "h # cs ! ?b"] mset_concat_nth [OF b] by simp
  ultimately show ?case using Cons.IH [of "move_entry hp (2 ^ k) cs h"] by simp
qed simp

lemma double_length_power: "\<exists>k. double_length n (2 ^ j) = 2 ^ k"
proof (induction n "2 ^ j :: nat" arbitrary: j rule: double_length.induct)
  case (1 n)
  show ?case
  proof (cases "2 ^ j < n")
    case True
    have e: "2 ^ j * 2 = (2 ^ Suc j :: nat)" by simp
    have "\<exists>k. double_length n (2 ^ j * 2) = 2 ^ k" using "1.hyps" [OF _ e] True unfolding e by simp
    moreover have "double_length n (2 ^ j) = double_length n (2 ^ j * 2)" using True by (subst double_length.simps) simp
    ultimately show ?thesis by simp
  next
    case False
    then show ?thesis by (subst double_length.simps) auto
  qed
qed

lemma Resize_ok:
  assumes "distinct (map (name_of hp) (ht_entries t))" "ht_elems t = length (ht_entries t)"
  shows "table_ok hp (Resize hp t) \<and> mset (ht_entries (Resize hp t)) = mset (ht_entries t)"
proof -
  obtain k where k: "double_length (ht_elems t) 4 = 2 ^ k" using double_length_power [of "ht_elems t" 2] by auto
  have "in_bucket hp (2 ^ k) (replicate (2 ^ k) [])" by (simp add: in_bucket_def)
  note me = move_entries [OF this, of "concat (ht_list t)"]
  have r: "ht_list (Resize hp t) = foldl (move_entry hp (2 ^ k)) (replicate (2 ^ k) []) (concat (ht_list t))"
    "ht_length (Resize hp t) = 2 ^ k" "ht_elems (Resize hp t) = ht_elems t"
    by (simp_all add: Resize_def Let_def k)
  have e: "mset (ht_entries (Resize hp t)) = mset (ht_entries t)" using me by (simp add: ht_entries_def r)
  then have "mset (map (name_of hp) (ht_entries (Resize hp t))) = mset (map (name_of hp) (ht_entries t))" by simp
  then have "distinct (map (name_of hp) (ht_entries (Resize hp t)))" using assms(1) by (metis mset_eq_imp_distinct_iff)
  then show ?thesis using me e assms(2) by (auto simp: table_ok_def r mset_eq_length [OF e])
qed

lemma HandleTable_ok: "table_ok hp HandleTable" "ht_entries HandleTable = []"
proof -
  let ?t = "\<lparr>ht_length = 0, ht_elems = 0, ht_list = []\<rparr>"
  have "Resize (Map.empty :: unit lru_heap) ?t = Resize hp ?t" by (simp add: Resize_def)
  then show "table_ok hp HandleTable" "ht_entries HandleTable = []"
    using Resize_ok [of hp ?t] by (simp_all add: HandleTable_def ht_entries_def)
qed

text \<open>Insertion and removal.\<close>

lemma table_ok_update:
  assumes "table_ok hp t" "b < ht_length t" "mset (ht_list t ! b) + N = mset ys + R" "R \<subseteq># mset (ht_list t ! b)"
    "\<forall>a\<in>set ys. bucket_of (ht_length t) (lh_hash (the (hp a))) = b"
  shows "in_bucket hp (ht_length t) ((ht_list t)[b := ys])" "mset (concat ((ht_list t)[b := ys])) = mset (ht_entries t) - R + N"
proof -
  have b: "b < length (ht_list t)" and ib: "in_bucket hp (ht_length t) (ht_list t)" using assms(1,2) by (auto simp: table_ok_def in_bucket_def)
  show "in_bucket hp (ht_length t) ((ht_list t)[b := ys])" by (rule in_bucket_update [OF ib assms(2,5)])
  have "mset (ht_list t ! b) \<subseteq># mset (ht_entries t)" using mset_concat_nth [OF b] by (simp add: ht_entries_def)
  then obtain E where E: "mset (ht_entries t) = mset (ht_list t ! b) + E" by (metis subset_mset.le_iff_add)
  obtain K where K: "mset (ht_list t ! b) = R + K" using assms(4) by (metis subset_mset.le_iff_add)
  have "mset ys = K + N" using assms(3) K by (simp add: union_assoc union_commute)
  then show "mset (concat ((ht_list t)[b := ys])) = mset (ht_entries t) - R + N"
    using mset_concat_update [OF b, of ys] E K by (simp add: ht_entries_def)
qed

abbreviation old_entries :: "nat option \<Rightarrow> nat multiset" where
  "old_entries r \<equiv> (case r of None \<Rightarrow> {#} | Some a \<Rightarrow> {#a#})"

lemma distinct_sub:
  assumes "mset ys \<subseteq># mset xs" "distinct (map f xs)"
  shows "distinct (map f ys)"
proof -
  obtain zs where "mset xs = mset (ys @ zs)" using assms(1) by (metis ex_mset mset_append subset_mset.le_iff_add)
  then have "mset (map f xs) = mset (map f (ys @ zs))" by simp
  with assms(2) have "distinct (map f (ys @ zs))" by (metis mset_eq_imp_distinct_iff)
  then show ?thesis by simp
qed

text \<open>The chain of the key of an insertion or a removal, without the entry that is found.\<close>

lemma slot_chain:
  fixes key :: slice and hash :: u32
  assumes "table_ok hp t"
  defines "b \<equiv> bucket_of (ht_length t) hash" and "i \<equiv> snd (FindPointer hp key hash t)"
  shows "mset (ht_list t ! b) = mset (take i (ht_list t ! b) @ drop (Suc i) (ht_list t ! b)) + old_entries (ht_Lookup hp key hash t)"
proof (cases "ht_Lookup hp key hash t")
  case None
  then have "i = length (ht_list t ! b)" using slot_none(2) [OF assms(1)] by (simp add: i_def b_def ht_Lookup_def)
  then show ?thesis using None by simp
next
  case (Some a)
  have "ht_list t ! b = take i (ht_list t ! b) @ a # drop (Suc i) (ht_list t ! b)"
    using slot_found(4) [OF Some [unfolded ht_Lookup_def]] by (simp add: i_def b_def)
  then have "mset (ht_list t ! b) = mset (take i (ht_list t ! b) @ a # drop (Suc i) (ht_list t ! b))" by simp
  then show ?thesis using Some by simp
qed

lemma chain_buckets:
  assumes "table_ok hp t" "a \<in> set (ht_list t ! bucket_of (ht_length t) hash)"
  shows "bucket_of (ht_length t) (lh_hash (the (hp a))) = bucket_of (ht_length t) hash"
  using assms table_bucket [OF assms(1)] by (auto simp: table_ok_def in_bucket_def)

lemma ht_update_ok:
  fixes key :: slice and hash :: u32
  assumes b: "b = bucket_of (ht_length t) hash" and i: "i = snd (FindPointer hp key hash t)"
    and t: "table_ok hp t" and N: "\<forall>a\<in>set_mset N. bucket_of (ht_length t) (lh_hash (the (hp a))) = bucket_of (ht_length t) hash"
    and ys: "mset ys = mset (take i (ht_list t ! b) @ drop (Suc i) (ht_list t ! b)) + N"
  shows "in_bucket hp (ht_length t) ((ht_list t)[b := ys])"
    "mset (concat ((ht_list t)[b := ys])) = mset (ht_entries t) - old_entries (ht_Lookup hp key hash t) + N"
proof -
  note ch = slot_chain [OF t, of hash key, folded b i]
  have bl: "b < ht_length t" using table_bucket [OF t, of hash] t by (simp add: b table_ok_def in_bucket_def)
  have sy: "set ys \<subseteq> set (ht_list t ! b) \<union> set_mset N"
  proof
    fix a assume "a \<in> set ys"
    then have "a \<in># mset ys" by simp
    then have "a \<in> set (take i (ht_list t ! b)) \<or> a \<in> set (drop (Suc i) (ht_list t ! b)) \<or> a \<in># N"
      unfolding ys by auto
    then show "a \<in> set (ht_list t ! b) \<union> set_mset N" by (auto dest: in_set_takeD in_set_dropD)
  qed
  have bs: "\<forall>a\<in>set ys. bucket_of (ht_length t) (lh_hash (the (hp a))) = b"
    using sy chain_buckets [OF t, of _ hash] N by (auto simp: b)
  have m: "mset (ht_list t ! b) + N = mset ys + old_entries (ht_Lookup hp key hash t)"
    unfolding ch using ys by simp
  have sub: "old_entries (ht_Lookup hp key hash t) \<subseteq># mset (ht_list t ! b)" by (subst ch) simp
  show "in_bucket hp (ht_length t) ((ht_list t)[b := ys])"
    "mset (concat ((ht_list t)[b := ys])) = mset (ht_entries t) - old_entries (ht_Lookup hp key hash t) + N"
    using table_ok_update [OF t bl m sub bs] by simp_all
qed

lemma ht_Remove_ok:
  assumes "table_ok hp t"
  shows "fst (ht_Remove hp key hash t) = ht_Lookup hp key hash t" "table_ok hp (snd (ht_Remove hp key hash t))"
    "mset (ht_entries (snd (ht_Remove hp key hash t))) = mset (ht_entries t) - old_entries (ht_Lookup hp key hash t)"
proof -
  let ?b = "bucket_of (ht_length t) hash" and ?i = "snd (FindPointer hp key hash t)"
  let ?ys = "take ?i (ht_list t ! ?b) @ drop (Suc ?i) (ht_list t ! ?b)"
  have p: "fst (FindPointer hp key hash t) = ?b" by (simp add: FindPointer_def Let_def)
  show f: "fst (ht_Remove hp key hash t) = ht_Lookup hp key hash t" by (simp add: ht_Remove_def ht_Lookup_def Let_def)
  note u = ht_update_ok [OF refl refl assms, of "{#}" hash ?ys key]
  have "table_ok hp (snd (ht_Remove hp key hash t)) \<and>
    mset (ht_entries (snd (ht_Remove hp key hash t))) = mset (ht_entries t) - old_entries (ht_Lookup hp key hash t)"
  proof (cases "ht_Lookup hp key hash t")
    case None
    then show ?thesis using assms by (simp add: ht_Remove_def ht_Lookup_def Let_def)
  next
    case (Some a)
    have a: "a \<in># mset (ht_entries t)" using Some ht_Lookup_iff [OF assms] by simp
    have r: "snd (ht_Remove hp key hash t) = t\<lparr>ht_list := (ht_list t)[?b := ?ys], ht_elems := ht_elems t - 1\<rparr>"
      using Some by (simp add: ht_Remove_def ht_Lookup_def Let_def p)
    have e: "mset (ht_entries (snd (ht_Remove hp key hash t))) = mset (ht_entries t) - {#a#}"
      using u(2) Some by (simp add: r ht_entries_def)
    then have "mset (ht_entries (snd (ht_Remove hp key hash t))) \<subseteq># mset (ht_entries t)" by simp
    then have "distinct (map (name_of hp) (ht_entries (snd (ht_Remove hp key hash t))))"
      using distinct_sub assms by (auto simp: table_ok_def)
    moreover have "length (ht_entries (snd (ht_Remove hp key hash t))) = ht_elems t - 1"
      using e a assms by (metis One_nat_def size_Diff_singleton size_mset table_ok_def)
    ultimately show ?thesis using e u(1) assms Some by (simp add: table_ok_def r)
  qed
  then show "table_ok hp (snd (ht_Remove hp key hash t))"
    "mset (ht_entries (snd (ht_Remove hp key hash t))) = mset (ht_entries t) - old_entries (ht_Lookup hp key hash t)" by simp_all
qed

lemma ht_Insert_ok:
  assumes "table_ok hp t" "h \<notin> set (ht_entries t)"
  defines "r \<equiv> ht_Lookup hp (lh_key (the (hp h))) (lh_hash (the (hp h))) t"
  shows "fst (ht_Insert hp h t) = r" "table_ok hp (snd (ht_Insert hp h t))"
    "mset (ht_entries (snd (ht_Insert hp h t))) = mset (ht_entries t) - old_entries r + {#h#}"
proof -
  let ?key = "lh_key (the (hp h))" and ?hash = "lh_hash (the (hp h))"
  let ?b = "bucket_of (ht_length t) ?hash" and ?i = "snd (FindPointer hp ?key ?hash t)"
  let ?ys = "take ?i (ht_list t ! ?b) @ h # drop (Suc ?i) (ht_list t ! ?b)"
  have p: "fst (FindPointer hp ?key ?hash t) = ?b" by (simp add: FindPointer_def Let_def)
  show f: "fst (ht_Insert hp h t) = r" by (simp add: ht_Insert_def ht_Lookup_def Let_def r_def)
  note u = ht_update_ok [OF refl refl assms(1), of "{#h#}" ?hash ?ys ?key, folded r_def]
  let ?t1 = "t\<lparr>ht_list := (ht_list t)[?b := ?ys]\<rparr>"
  have e1: "mset (ht_entries ?t1) = mset (ht_entries t) - old_entries r + {#h#}" using u(2) by (simp add: ht_entries_def)
  have sub: "old_entries r \<subseteq># mset (ht_entries t)"
    using ht_Lookup_iff [OF assms(1)] by (auto simp: r_def split: option.splits)
  obtain ks where ks: "mset ks = mset (ht_entries t) - old_entries r" by (metis ex_mset)
  have other: "\<forall>a\<in>set ks. \<not> is_entry hp ?key ?hash a"
  proof
    fix a assume "a \<in> set ks"
    then have a: "a \<in># mset (ht_entries t) - old_entries r" using ks by (metis set_mset_mset)
    then have ae: "a \<in> set (ht_entries t)" by (metis in_diffD set_mset_mset)
    show "\<not> is_entry hp ?key ?hash a"
    proof
      assume "is_entry hp ?key ?hash a"
      then have "r = Some a" using ht_Lookup_iff [OF assms(1)] ae by (simp add: r_def)
      moreover have "count (mset (ht_entries t)) a = 1"
        using assms(1) ae unfolding table_ok_def distinct_map by (metis distinct_count_atmost_1)
      ultimately have "count (mset (ht_entries t) - old_entries r) a = 0" by simp
      then show False using a by (metis count_eq_zero_iff)
    qed
  qed
  have "distinct (map (name_of hp) ks)" using distinct_sub [of ks "ht_entries t" "name_of hp"] assms(1) ks by (simp add: table_ok_def)
  moreover have "name_of hp h \<notin> name_of hp ` set ks" using other by (auto simp: is_entry_name name_of_def)
  ultimately have "distinct (map (name_of hp) (h # ks))" by simp
  then have d: "distinct (map (name_of hp) (ht_entries ?t1))"
    using distinct_sub [of "ht_entries ?t1" "h # ks"] e1 ks by simp
  have len: "length (ht_entries ?t1) = length (ht_entries t) - size (old_entries r) + 1"
    using arg_cong [OF e1, of size] size_Diff_submset [OF sub] by simp
  have "table_ok hp (snd (ht_Insert hp h t)) \<and> mset (ht_entries (snd (ht_Insert hp h t))) = mset (ht_entries t) - old_entries r + {#h#}"
  proof (cases r)
    case None
    let ?t2 = "?t1\<lparr>ht_elems := ht_elems ?t1 + 1\<rparr>"
    have n: "snd (ht_Insert hp h t) = (if ht_length ?t2 < ht_elems ?t2 then Resize hp ?t2 else ?t2)"
      using None by (simp add: r_def ht_Lookup_def ht_Insert_def Let_def p)
    have el: "ht_elems ?t2 = length (ht_entries ?t2)" using len None assms(1) by (simp add: ht_entries_def table_ok_def)
    have d2: "distinct (map (name_of hp) (ht_entries ?t2))" "mset (ht_entries ?t2) = mset (ht_entries t) - old_entries r + {#h#}"
      using d e1 by (simp_all add: ht_entries_def)
    have "table_ok hp ?t2" using assms(1) u(1) d2 el by (simp add: table_ok_def)
    then show ?thesis unfolding n using Resize_ok [OF d2(1) el] d2(2) by simp
  next
    case (Some a)
    have n: "snd (ht_Insert hp h t) = ?t1" using Some by (simp add: r_def ht_Lookup_def ht_Insert_def Let_def p)
    have "a \<in> set (ht_entries t)" using sub Some by (simp add: set_mset_mset [symmetric] del: set_mset_mset)
    then have "0 < length (ht_entries t)" by (cases "ht_entries t") auto
    then have "ht_elems ?t1 = length (ht_entries ?t1)" using len Some assms(1) by (simp add: table_ok_def)
    then show ?thesis unfolding n using assms(1) u(1) d e1 by (simp add: table_ok_def)
  qed
  then show "table_ok hp (snd (ht_Insert hp h t))"
    "mset (ht_entries (snd (ht_Insert hp h t))) = mset (ht_entries t) - old_entries r + {#h#}" by simp_all
qed

lemma table_ok_cong:
  assumes "\<And>a. a \<in> set (ht_entries t) \<Longrightarrow> name_of hp' a = name_of hp a" "table_ok hp t"
  shows "table_ok hp' t"
proof -
  have n: "map (name_of hp') (ht_entries t) = map (name_of hp) (ht_entries t)" using assms(1) by simp
  have "lh_hash (the (hp' a)) = lh_hash (the (hp a))" if "b < length (ht_list t)" "a \<in> set (ht_list t ! b)" for a b
    using assms(1) [of a] chain_subset [OF that(1)] that(2) by (auto simp: name_of_def)
  then show ?thesis using assms(2) unfolding table_ok_def n in_bucket_def by auto
qed

section \<open>A shard and its clients\<close>

text \<open>\<open>held\<close> is the multiset of the handles that clients have and must still release.\<close>

definition shard_ok :: "'v lru_cache \<Rightarrow> nat multiset \<Rightarrow> bool" where
  "shard_ok c held \<longleftrightarrow> table_ok (lru_entries c) (lru_table c) \<and>
     mset (ht_entries (lru_table c)) = mset (lru_list c) \<and> distinct (lru_list c) \<and>
     finite (dom (lru_entries c)) \<and> (\<forall>a\<in>dom (lru_entries c). a < lru_fresh c) \<and>
     dom (lru_entries c) = set (lru_list c) \<union> set_mset held \<and>
     (\<forall>a\<in>dom (lru_entries c). lh_refs (entry_at c a) = count (mset (lru_list c) + held) a) \<and>
     lru_usage c = (\<Sum>a\<in>dom (lru_entries c). lh_charge (entry_at c a))"

lemma shard_okI:
  assumes "table_ok (lru_entries c) (lru_table c)" "mset (ht_entries (lru_table c)) = mset (lru_list c)" "distinct (lru_list c)"
    "finite (dom (lru_entries c))" "\<And>a. a \<in> dom (lru_entries c) \<Longrightarrow> a < lru_fresh c"
    "dom (lru_entries c) = set (lru_list c) \<union> set_mset held"
    "\<And>a. a \<in> dom (lru_entries c) \<Longrightarrow> lh_refs (entry_at c a) = count (mset (lru_list c) + held) a"
    "lru_usage c = (\<Sum>a\<in>dom (lru_entries c). lh_charge (entry_at c a))"
  shows "shard_ok c held"
  using assms unfolding shard_ok_def by blast

lemma empty_shard: "shard_ok (LRUCache cap) {#}"
  by (simp add: shard_ok_def LRUCache_def HandleTable_ok)

text \<open>Giving up one of the references of an entry, the one of the list or one of a client.\<close>

definition pre_unref :: "'v lru_cache \<Rightarrow> nat multiset \<Rightarrow> nat \<Rightarrow> bool" where
  "pre_unref c held a \<longleftrightarrow> table_ok (lru_entries c) (lru_table c) \<and>
     mset (ht_entries (lru_table c)) = mset (lru_list c) \<and> distinct (lru_list c) \<and>
     finite (dom (lru_entries c)) \<and> (\<forall>x\<in>dom (lru_entries c). x < lru_fresh c) \<and>
     dom (lru_entries c) = insert a (set (lru_list c) \<union> set_mset held) \<and>
     (\<forall>x\<in>dom (lru_entries c). lh_refs (entry_at c x) = count (mset (lru_list c) + held + {#a#}) x) \<and>
     lru_usage c = (\<Sum>x\<in>dom (lru_entries c). lh_charge (entry_at c x))"

lemma pre_unrefI:
  assumes "table_ok (lru_entries c) (lru_table c)" "mset (ht_entries (lru_table c)) = mset (lru_list c)" "distinct (lru_list c)"
    "finite (dom (lru_entries c))" "\<And>x. x \<in> dom (lru_entries c) \<Longrightarrow> x < lru_fresh c"
    "dom (lru_entries c) = insert a (set (lru_list c) \<union> set_mset held)"
    "\<And>x. x \<in> dom (lru_entries c) \<Longrightarrow> lh_refs (entry_at c x) = count (mset (lru_list c) + held + {#a#}) x"
    "lru_usage c = (\<Sum>x\<in>dom (lru_entries c). lh_charge (entry_at c x))"
  shows "pre_unref c held a"
  using assms unfolding pre_unref_def by blast

lemma Unref_ok:
  assumes "pre_unref c held a"
  shows "shard_ok (Unref_handle a c) held"
proof -
  let ?e = "(entry_at c a)\<lparr>lh_refs := lh_refs (entry_at c a) - 1\<rparr>"
  note P = assms [unfolded pre_unref_def]
  have a: "a \<in> dom (lru_entries c)" "lh_refs (entry_at c a) = count (mset (lru_list c) + held) a + 1" using P by auto
  have others: "lh_refs (entry_at c x) = count (mset (lru_list c) + held) x" if "x \<in> dom (lru_entries c)" "x \<noteq> a" for x
    using P that by simp
  show ?thesis
  proof (cases "lh_refs ?e \<le> 0")
    case True
    let ?hp = "(lru_entries c)(a := None)"
    have z: "count (mset (lru_list c) + held) a = 0" using a(2) True by simp
    then have na: "a \<notin> set (lru_list c)" "a \<notin># held" by (simp_all add: count_mset_0_iff not_in_iff [symmetric])
    have u: "Unref_handle a c = c\<lparr>lru_usage := lru_usage c - lh_charge (entry_at c a),
        lru_deleted := lru_deleted c @ [(lh_key (entry_at c a), lh_value (entry_at c a))], lru_entries := ?hp\<rparr>"
      using True by (simp add: Unref_handle_def Let_def)
    have "set (ht_entries (lru_table c)) = set (lru_list c)" using P mset_eq_setD by blast
    then have "name_of ?hp x = name_of (lru_entries c) x" if "x \<in> set (ht_entries (lru_table c))" for x
      using that na(1) by (auto simp: name_of_def)
    then have t: "table_ok ?hp (lru_table c)" using table_ok_cong P by blast
    have d: "dom ?hp = set (lru_list c) \<union> set_mset held" using P na by auto
    have e: "entry_at (Unref_handle a c) x = entry_at c x" if "x \<noteq> a" for x using that by (simp add: u entry_at_def)
    have us0: "lru_usage c = (\<Sum>x\<in>dom (lru_entries c). lh_charge (entry_at c x))" using P by blast
    have "lru_usage c - lh_charge (entry_at c a) = (\<Sum>x\<in>dom (lru_entries c) - {a}. lh_charge (entry_at c x))"
      by (simp only: us0 sum_diff1_nat a(1) if_True)
    also have "\<dots> = (\<Sum>x\<in>dom ?hp. lh_charge (entry_at (Unref_handle a c) x))"
    proof (rule sum.cong)
      show "dom (lru_entries c) - {a} = dom ?hp" by auto
      show "lh_charge (entry_at c x) = lh_charge (entry_at (Unref_handle a c) x)" if "x \<in> dom ?hp" for x
        using that e [of x] by (cases "x = a") auto
    qed
    finally have us: "lru_usage (Unref_handle a c) = (\<Sum>x\<in>dom ?hp. lh_charge (entry_at (Unref_handle a c) x))" by (simp add: u)
    have "lh_refs (entry_at (Unref_handle a c) x) = count (mset (lru_list c) + held) x" if "x \<in> dom ?hp" for x
      using that others [of x] e [of x] by (cases "x = a") auto
    then show ?thesis using P t d us unfolding shard_ok_def by (auto simp: u)
  next
    case False
    define hp where "hp = (lru_entries c)(a \<mapsto> ?e)"
    have u: "Unref_handle a c = c\<lparr>lru_entries := hp\<rparr>" using False by (simp add: Unref_handle_def Let_def hp_def)
    have "0 < count (mset (lru_list c) + held) a" using False a(2) by simp
    then have ain: "a \<in> set (lru_list c) \<union> set_mset held" by (metis count_greater_zero_iff set_mset_mset set_mset_union)
    have t: "table_ok hp (lru_table c)"
      using table_ok_cong [of "lru_table c" hp "lru_entries c"] P by (auto simp: name_of_def entry_at_def hp_def)
    have d: "dom hp = set (lru_list c) \<union> set_mset held" "dom hp = dom (lru_entries c)" using P ain by (auto simp: hp_def)
    have e: "entry_at (c\<lparr>lru_entries := hp\<rparr>) x = (if x = a then ?e else entry_at c x)" for x by (simp add: entry_at_def hp_def)
    have ch: "lh_charge (entry_at (c\<lparr>lru_entries := hp\<rparr>) x) = lh_charge (entry_at c x)" for x unfolding e by simp
    have "(\<Sum>x\<in>dom hp. lh_charge (entry_at (c\<lparr>lru_entries := hp\<rparr>) x)) = (\<Sum>x\<in>dom (lru_entries c). lh_charge (entry_at c x))"
      unfolding d(2) by (rule sum.cong [OF refl]) (rule ch)
    then have us: "lru_usage c = (\<Sum>x\<in>dom hp. lh_charge (entry_at (c\<lparr>lru_entries := hp\<rparr>) x))" using P by simp
    have rf: "lh_refs (entry_at (c\<lparr>lru_entries := hp\<rparr>) x) = count (mset (lru_list c) + held) x" if "x \<in> dom hp" for x
      using that others [of x] a(2) d(2) unfolding e by auto
    show ?thesis unfolding u
      by (rule shard_okI) (use P t d us rf in simp_all)
  qed
qed

lemma LRU_Remove_table: "LRU_Remove a (c\<lparr>lru_table := t\<rparr>) = (LRU_Remove a c)\<lparr>lru_table := t\<rparr>"
  by (cases c) (simp add: LRU_Remove_def)

lemma unlink_ok:
  assumes "shard_ok c held" "a \<in> set (lru_list c)" "t = snd (ht_Remove (lru_entries c) (lh_key (entry_at c a)) (lh_hash (entry_at c a)) (lru_table c))"
  shows "pre_unref ((LRU_Remove a c)\<lparr>lru_table := t\<rparr>) held a"
proof -
  note S = assms(1) [unfolded shard_ok_def]
  have T: "table_ok (lru_entries c) (lru_table c)" and M: "mset (ht_entries (lru_table c)) = mset (lru_list c)" using S by simp_all
  have "a \<in> set (ht_entries (lru_table c))" using M assms(2) by (metis mset_eq_setD)
  then have l: "ht_Lookup (lru_entries c) (lh_key (entry_at c a)) (lh_hash (entry_at c a)) (lru_table c) = Some a"
    using ht_Lookup_iff [OF T] by (simp add: is_entry_def entry_at_def)
  have "table_ok (lru_entries c) t" "mset (ht_entries t) = mset (remove1 a (lru_list c))"
    using ht_Remove_ok [OF T, of "lh_key (entry_at c a)" "lh_hash (entry_at c a)"] l M by (simp_all add: assms(3))
  moreover have "set (remove1 a (lru_list c)) = set (lru_list c) - {a}" using S by simp
  moreover have "mset (remove1 a (lru_list c)) + {#a#} = mset (lru_list c)" using assms(2) by simp
  moreover have "count (mset (remove1 a (lru_list c)) + held + {#a#}) x = count (mset (lru_list c) + held) x" for x
    using calculation(4) by (metis add.assoc add.commute)
  ultimately show ?thesis using S assms(2) unfolding pre_unref_def LRU_Remove_def by (auto simp: entry_at_def)
qed

lemma evict_oldest_ok: "shard_ok c held \<Longrightarrow> lru_list c \<noteq> [] \<Longrightarrow> shard_ok (evict_oldest c) held"
proof -
  assume s: "shard_ok c held" and n: "lru_list c \<noteq> []"
  let ?a = "hd (lru_list c)" and ?c1 = "LRU_Remove (hd (lru_list c)) c"
  let ?t = "snd (ht_Remove (lru_entries c) (lh_key (entry_at c ?a)) (lh_hash (entry_at c ?a)) (lru_table c))"
  have "evict_oldest c = Unref_handle ?a (?c1\<lparr>lru_table := ?t\<rparr>)" by (simp add: evict_oldest_def Let_def LRU_Remove_def entry_at_def)
  with Unref_ok [OF unlink_ok [OF s _ refl, of ?a]] n show ?thesis by simp
qed

lemma evict_ok: "shard_ok c held \<Longrightarrow> shard_ok (evict c) held \<and> (lru_usage (evict c) \<le> lru_capacity (evict c) \<or> lru_list (evict c) = [])"
proof (induction c rule: evict.induct)
  case (1 c)
  show ?case
  proof (cases "lru_capacity c < lru_usage c \<and> lru_list c \<noteq> []")
    case True
    have e: "evict c = evict (evict_oldest c)" using True by (subst evict.simps) simp
    show ?thesis unfolding e by (rule 1(1) [OF True evict_oldest_ok [OF 1(2)]]) (use True in simp)
  next
    case False
    then have "evict c = c" by (subst evict.simps) auto
    then show ?thesis using 1(2) False by auto
  qed
qed

lemma Lookup_ok:
  assumes "shard_ok c held" "lru_Lookup key hash c = (r, c')"
  shows "shard_ok c' (held + old_entries r)"
proof -
  note S = assms(1) [unfolded shard_ok_def]
  have T: "table_ok (lru_entries c) (lru_table c)" and M: "mset (ht_entries (lru_table c)) = mset (lru_list c)" using S by simp_all
  show ?thesis
  proof (cases "ht_Lookup (lru_entries c) key hash (lru_table c)")
    case None
    then show ?thesis using assms by (simp add: lru_Lookup_def)
  next
    case (Some a)
    let ?e = "(entry_at c a)\<lparr>lh_refs := lh_refs (entry_at c a) + 1\<rparr>"
    let ?hp = "(lru_entries c)(a \<mapsto> ?e)" and ?l = "remove1 a (lru_list c) @ [a]"
    have al: "a \<in> set (lru_list c)" using Some ht_Lookup_iff [OF T] M by (metis mset_eq_setD)
    have c': "c' = c\<lparr>lru_entries := ?hp, lru_list := ?l\<rparr>" "r = Some a"
      using assms(2) Some by (auto simp: lru_Lookup_def LRU_Append_def LRU_Remove_def)
    have t: "table_ok ?hp (lru_table c)" using table_ok_cong [OF _ T, of ?hp] by (auto simp: name_of_def entry_at_def)
    have m: "mset ?l = mset (lru_list c)" using al by simp
    have d: "dom ?hp = dom (lru_entries c)" using al S by auto
    have e: "entry_at c' x = (if x = a then ?e else entry_at c x)" for x by (simp add: entry_at_def c')
    have "(\<Sum>x\<in>dom ?hp. lh_charge (entry_at c' x)) = (\<Sum>x\<in>dom (lru_entries c). lh_charge (entry_at c x))"
      unfolding d by (rule sum.cong) (auto simp: e)
    moreover have "distinct ?l" using S by simp
    moreover have "set ?l = set (lru_list c)" using m by (rule mset_eq_setD)
    moreover have "lh_refs (entry_at c' x) = count (mset ?l + (held + {#a#})) x" if "x \<in> dom ?hp" for x
      using that S unfolding m d by (auto simp: e)
    ultimately show ?thesis using S t m d al unfolding shard_ok_def by (simp add: c' insert_absorb)
  qed
qed

lemma Release_ok: "shard_ok c (held + {#a#}) \<Longrightarrow> shard_ok (lru_Release a c) held"
  unfolding lru_Release_def by (rule Unref_ok) (auto simp: shard_ok_def pre_unref_def)

lemma Erase_ok:
  assumes "shard_ok c held"
  shows "shard_ok (lru_Erase key hash c) held"
proof -
  note S = assms [unfolded shard_ok_def]
  have T: "table_ok (lru_entries c) (lru_table c)" and M: "mset (ht_entries (lru_table c)) = mset (lru_list c)" using S by simp_all
  show ?thesis
  proof (cases "ht_Lookup (lru_entries c) key hash (lru_table c)")
    case None
    then have "ht_Remove (lru_entries c) key hash (lru_table c) = (None, lru_table c)"
      by (simp add: ht_Remove_def ht_Lookup_def Let_def)
    then show ?thesis using assms by (simp add: lru_Erase_def)
  next
    case (Some a)
    then have a: "a \<in> set (lru_list c)" and e: "is_entry (lru_entries c) key hash a"
      using ht_Lookup_iff [OF T] M by (metis mset_eq_setD)+
    then have k: "lh_key (entry_at c a) = key" "lh_hash (entry_at c a) = hash" by (simp_all add: is_entry_def entry_at_def)
    obtain t where t: "ht_Remove (lru_entries c) key hash (lru_table c) = (Some a, t)"
      using ht_Remove_ok(1) [OF T, of key hash] Some by (metis prod.collapse)
    have "lru_Erase key hash c = Unref_handle a ((LRU_Remove a c)\<lparr>lru_table := t\<rparr>)"
      by (simp add: lru_Erase_def t LRU_Remove_table)
    with Unref_ok [OF unlink_ok [OF assms a, of t]] show ?thesis by (simp add: k t)
  qed
qed

section \<open>What an entry is stays what it is\<close>

definition keeps :: "'v lru_cache \<Rightarrow> 'v lru_cache \<Rightarrow> bool" where
  "keeps c c' \<longleftrightarrow> lru_fresh c \<le> lru_fresh c' \<and> (\<forall>a e'. lru_entries c' a = Some e' \<longrightarrow> a < lru_fresh c \<longrightarrow>
     (\<exists>e. lru_entries c a = Some e \<and> lh_key e' = lh_key e \<and> lh_value e' = lh_value e \<and> lh_hash e' = lh_hash e))"

lemma keeps_refl: "keeps c c" by (simp add: keeps_def)

lemma keepsD:
  assumes "keeps c c'" "lru_entries c a = Some e" "lru_entries c' a = Some e'" "a < lru_fresh c"
  shows "lh_key e' = lh_key e" "lh_value e' = lh_value e" "lh_hash e' = lh_hash e"
  using assms by (fastforce simp: keeps_def)+

lemma keeps_trans:
  assumes "keeps c c1" "keeps c1 c2"
  shows "keeps c c2"
proof -
  have "\<exists>e. lru_entries c a = Some e \<and> lh_key e2 = lh_key e \<and> lh_value e2 = lh_value e \<and> lh_hash e2 = lh_hash e"
    if a: "lru_entries c2 a = Some e2" "a < lru_fresh c" for a e2
  proof -
    have "a < lru_fresh c1" using a(2) assms(1) by (simp add: keeps_def)
    then obtain e1 where e1: "lru_entries c1 a = Some e1" "lh_key e2 = lh_key e1" "lh_value e2 = lh_value e1" "lh_hash e2 = lh_hash e1"
      using assms(2) a(1) by (auto simp: keeps_def)
    then show ?thesis using assms(1) a(2) by (fastforce simp: keeps_def)
  qed
  then show ?thesis using assms by (simp add: keeps_def)
qed

lemma keeps_fields [simp]:
  "keeps c (c'\<lparr>lru_table := t\<rparr>) = keeps c c'" "keeps c (c'\<lparr>lru_list := l\<rparr>) = keeps c c'" "keeps c (LRU_Remove a c') = keeps c c'"
  "keeps c (LRU_Append a c') = keeps c c'" "keeps c (c'\<lparr>lru_usage := u\<rparr>) = keeps c c'"
  by (simp_all add: keeps_def LRU_Remove_def LRU_Append_def)

lemma Unref_keeps:
  assumes "a \<in> dom (lru_entries c)"
  shows "keeps c (Unref_handle a c)"
  using assms by (auto simp: keeps_def Unref_handle_def Let_def entry_at_def)

lemma shard_dom: "shard_ok c held \<Longrightarrow> a \<in> set (lru_list c) \<or> a \<in># held \<Longrightarrow> a \<in> dom (lru_entries c)"
  by (auto simp: shard_ok_def)

lemma evict_oldest_keeps:
  assumes "shard_ok c held" "lru_list c \<noteq> []"
  shows "keeps c (evict_oldest c)"
proof -
  let ?a = "hd (lru_list c)"
  let ?c = "(LRU_Remove ?a c)\<lparr>lru_table := snd (ht_Remove (lru_entries c) (lh_key (entry_at c ?a)) (lh_hash (entry_at c ?a)) (lru_table c))\<rparr>"
  have "evict_oldest c = Unref_handle ?a ?c" by (simp add: evict_oldest_def Let_def LRU_Remove_def entry_at_def)
  moreover have "?a \<in> dom (lru_entries ?c)" using shard_dom [OF assms(1), of ?a] assms(2) by (simp add: LRU_Remove_def)
  ultimately show ?thesis using Unref_keeps [of ?a ?c] keeps_trans [of c ?c] keeps_refl by (metis keeps_fields(1,3))
qed

lemma evict_keeps: "shard_ok c held \<Longrightarrow> keeps c (evict c) \<and> (\<exists>j. lru_list (evict c) = drop j (lru_list c))"
proof (induction c rule: evict.induct)
  case (1 c)
  show ?case
  proof (cases "lru_capacity c < lru_usage c \<and> lru_list c \<noteq> []")
    case True
    then have e: "evict c = evict (evict_oldest c)" by (subst evict.simps) simp
    have IH: "keeps (evict_oldest c) (evict (evict_oldest c))" "\<exists>j. lru_list (evict (evict_oldest c)) = drop j (lru_list (evict_oldest c))"
      using 1(1) [OF True evict_oldest_ok [OF 1(2)]] True by simp_all
    have "lru_list (evict_oldest c) = drop 1 (lru_list c)" using True by (cases "lru_list c") (simp_all add: evict_oldest_list)
    then show ?thesis unfolding e using IH keeps_trans [OF evict_oldest_keeps [OF 1(2)]] True by (auto simp: drop_drop)
  next
    case False
    then have "evict c = c" by (subst evict.simps) auto
    then show ?thesis using keeps_refl by (auto intro: exI [of _ 0])
  qed
qed

lemma Lookup_keeps:
  assumes "lru_Lookup key hash c = (r, c')" "shard_ok c held"
  shows "keeps c c'"
proof (cases "ht_Lookup (lru_entries c) key hash (lru_table c)")
  case None
  then show ?thesis using assms(1) keeps_refl by (simp add: lru_Lookup_def)
next
  case (Some a)
  have T: "table_ok (lru_entries c) (lru_table c)" and M: "mset (ht_entries (lru_table c)) = mset (lru_list c)"
    using assms(2) by (simp_all add: shard_ok_def)
  have "a \<in> set (lru_list c)" using Some ht_Lookup_iff [OF T] M by (metis mset_eq_setD)
  then obtain e where e: "lru_entries c a = Some e" using shard_dom [OF assms(2)] by blast
  show ?thesis using assms(1) Some e by (auto simp: lru_Lookup_def keeps_def LRU_Append_def LRU_Remove_def entry_at_def split: if_splits)
qed

lemma Erase_keeps:
  assumes "shard_ok c held"
  shows "keeps c (lru_Erase key hash c)"
proof -
  have T: "table_ok (lru_entries c) (lru_table c)" and M: "mset (ht_entries (lru_table c)) = mset (lru_list c)"
    using assms by (simp_all add: shard_ok_def)
  obtain r t where r: "ht_Remove (lru_entries c) key hash (lru_table c) = (r, t)" by (cases "ht_Remove (lru_entries c) key hash (lru_table c)")
  show ?thesis
  proof (cases r)
    case None
    then show ?thesis using r keeps_refl by (simp add: lru_Erase_def)
  next
    case (Some a)
    then have "ht_Lookup (lru_entries c) key hash (lru_table c) = Some a" using ht_Remove_ok(1) [OF T, of key hash] r by simp
    then have "a \<in> dom (lru_entries c)" using ht_Lookup_iff [OF T] M shard_dom [OF assms] by (metis mset_eq_setD)
    then have "keeps (LRU_Remove a (c\<lparr>lru_table := t\<rparr>)) (Unref_handle a (LRU_Remove a (c\<lparr>lru_table := t\<rparr>)))"
      by (intro Unref_keeps) (simp add: LRU_Remove_def)
    with keeps_trans [of c "LRU_Remove a (c\<lparr>lru_table := t\<rparr>)"] keeps_refl [of c] show ?thesis by (simp add: lru_Erase_def r Some)
  qed
qed

text \<open>An insertion: the list before evictions, and the new entry.\<close>

lemma Insert_inner:
  assumes "shard_ok c held" "lru_Insert key hash value chrg c = (a, c')"
  obtains c4 where "c' = evict c4" "a = lru_fresh c" "shard_ok c4 (held + {#a#})" "keeps c c4"
    "lru_entries c4 a = Some \<lparr>lh_value = value, lh_charge = chrg, lh_refs = 2, lh_hash = hash, lh_key = key\<rparr>"
    "lru_list c4 = filter (\<lambda>x. \<not> is_entry (lru_entries c) key hash x) (lru_list c) @ [a]"
    "lru_capacity c4 = lru_capacity c" "lru_usage c4 \<le> lru_usage c + chrg" "a < lru_fresh c4"
proof -
  note S = assms(1) [unfolded shard_ok_def]
  have T: "table_ok (lru_entries c) (lru_table c)" and M: "mset (ht_entries (lru_table c)) = mset (lru_list c)" using S by simp_all
  let ?a = "lru_fresh c" and ?e = "\<lparr>lh_value = value, lh_charge = chrg, lh_refs = 2, lh_hash = hash, lh_key = key\<rparr>"
  define hp where "hp = (lru_entries c)(?a \<mapsto> ?e)"
  let ?c2 = "new_entry key hash value chrg c"
  have c2: "lru_entries ?c2 = hp" "lru_fresh ?c2 = ?a + 1" "lru_list ?c2 = lru_list c @ [?a]" "lru_usage ?c2 = lru_usage c + chrg"
      "lru_table ?c2 = lru_table c"
    by (simp_all add: new_entry_def Let_def LRU_Append_def hp_def)
  have na: "?a \<notin> dom (lru_entries c)" "?a \<notin> set (lru_list c)" "?a \<notin># held" using S by (auto dest: bspec)
  have sl: "set (ht_entries (lru_table c)) = set (lru_list c)" using M by (rule mset_eq_setD)
  have "name_of hp x = name_of (lru_entries c) x" if "x \<in> set (ht_entries (lru_table c))" for x
    using that na(2) sl by (auto simp: name_of_def hp_def)
  then have T': "table_ok hp (lru_table c)" using table_ok_cong T by blast
  have nt: "?a \<notin> set (ht_entries (lru_table c))" using na(2) sl by simp
  let ?r = "ht_Lookup hp key hash (lru_table c)"
  define t where "t = snd (ht_Insert hp ?a (lru_table c))"
  have hpa: "the (hp ?a) = ?e" by (simp add: hp_def)
  note I = ht_Insert_ok [OF T' nt, folded t_def, unfolded hpa, simplified]
  let ?c3 = "?c2\<lparr>lru_table := t\<rparr>"
  let ?c4 = "drop_old ?r ?c3"
  have ht: "ht_Insert hp ?a (lru_table c) = (?r, t)" using I(1) by (metis t_def prod.collapse)
  have "lru_Insert key hash value chrg c = (?a, evict ?c4)" by (simp add: lru_Insert_def Let_def c2 ht)
  then have ins: "a = ?a" "c' = evict ?c4" using assms(2) by simp_all
  have d: "dom hp = insert ?a (dom (lru_entries c))" by (auto simp: hp_def)
  have e: "entry_at ?c3 x = (if x = ?a then ?e else entry_at c x)" for x by (simp add: entry_at_def c2 hp_def)
  have "(\<Sum>x\<in>dom hp. lh_charge (entry_at ?c3 x)) = chrg + (\<Sum>x\<in>dom (lru_entries c). lh_charge (entry_at ?c3 x))"
    unfolding d using S na(1) by (subst sum.insert) (auto simp: e)
  also have "(\<Sum>x\<in>dom (lru_entries c). lh_charge (entry_at ?c3 x)) = (\<Sum>x\<in>dom (lru_entries c). lh_charge (entry_at c x))"
    by (rule sum.cong) (use na(1) in \<open>auto simp: e\<close>)
  finally have us: "(\<Sum>x\<in>dom hp. lh_charge (entry_at ?c3 x)) = lru_usage c + chrg" using S by simp
  have refs: "lh_refs (entry_at ?c3 x) = count (mset (lru_list c @ [?a]) + (held + {#?a#})) x" if "x \<in> dom hp" for x
    using that S na unfolding d by (auto simp: e not_in_iff count_mset_0_iff)
  have fr: "x < lru_fresh ?c3" if "x \<in> dom hp" for x
  proof -
    have "x = ?a \<or> x < ?a" using that S unfolding d by blast
    then show ?thesis using c2(2) by auto
  qed
  have dm: "dom hp = set (lru_list c @ [?a]) \<union> set_mset (held + {#?a#})" using S unfolding d by auto
  have dis: "distinct (lru_list c @ [?a])" using S na by simp
  have fin: "finite (dom hp)" using S unfolding d by simp
  have pre: "shard_ok ?c3 (held + {#?a#})" if "?r = None"
    by (rule shard_okI) (use I that us refs fr dm dis fin M c2 in simp_all)
  have ok4: "shard_ok ?c4 (held + {#?a#})"
  proof (cases ?r)
    case None
    then have "?c4 = ?c3" by (simp add: drop_old_def)
    then show ?thesis using pre None by simp
  next
    case (Some b)
    have b: "b \<in> set (lru_list c)" using Some ht_Lookup_iff [OF T'] sl by blast
    let ?l = "remove1 b (lru_list c @ [?a])"
    have bl: "b \<in> set (lru_list c @ [?a])" using b by simp
    have ml: "mset ?l + {#b#} = mset (lru_list c @ [?a])" using bl by simp
    have mt: "mset (ht_entries t) = mset ?l" using I(3) Some M b by (simp add: remove1_append)
    have sl': "insert b (set ?l) = set (lru_list c @ [?a])" using dis bl by auto
    have c4: "lru_entries (LRU_Remove b ?c3) = hp" "lru_table (LRU_Remove b ?c3) = t" "lru_list (LRU_Remove b ?c3) = ?l"
        "lru_fresh (LRU_Remove b ?c3) = lru_fresh ?c3" "lru_usage (LRU_Remove b ?c3) = lru_usage c + chrg"
        "entry_at (LRU_Remove b ?c3) = entry_at ?c3"
      by (simp_all add: LRU_Remove_def c2 entry_at_def fun_eq_iff)
    have "pre_unref (LRU_Remove b ?c3) (held + {#?a#}) b"
    proof (rule pre_unrefI, unfold c4)
      show "x < lru_fresh ?c3" if "x \<in> dom hp" for x by (rule fr [OF that])
      show "lh_refs (entry_at ?c3 x) = count (mset ?l + (held + {#?a#}) + {#b#}) x" if "x \<in> dom hp" for x
        using refs [OF that] unfolding ml [symmetric] by (simp only: add.assoc add.commute [of "{#b#}"])
      show "dom hp = insert b (set ?l \<union> set_mset (held + {#?a#}))" using dm sl' by (simp del: set_append) blast
      show "distinct ?l" using dis by (rule distinct_remove1)
    qed (use I(2) mt fin us in simp_all)
    then show ?thesis using Unref_ok Some by (simp add: drop_old_def)
  qed
  have k3: "keeps c ?c3" using c2 S by (auto simp: keeps_def hp_def)
  have k4: "keeps c ?c4"
  proof (cases ?r)
    case (Some b)
    then have "b \<in> dom (lru_entries (LRU_Remove b ?c3))" using ht_Lookup_iff [OF T'] sl S c2 by (auto simp: LRU_Remove_def hp_def)
    from keeps_trans [OF _ Unref_keeps [OF this], of c] k3 Some show ?thesis by (simp add: drop_old_def)
  qed (use k3 in \<open>simp add: drop_old_def\<close>)
  have same: "is_entry hp key hash x = is_entry (lru_entries c) key hash x" if "x \<in> set (lru_list c)" for x
    using that na(2) by (auto simp: is_entry_def hp_def)
  have "lru_entries ?c4 ?a = Some ?e \<and> lru_list ?c4 = filter (\<lambda>x. \<not> is_entry (lru_entries c) key hash x) (lru_list c) @ [?a] \<and>
      lru_capacity ?c4 = lru_capacity c \<and> lru_usage ?c4 \<le> lru_usage c + chrg \<and> lru_fresh ?c4 = ?a + 1"
  proof (cases ?r)
    case None
    then have "\<forall>x\<in>set (lru_list c). \<not> is_entry (lru_entries c) key hash x"
      using ht_Lookup_iff [OF T', of key hash] sl same by (metis option.distinct(1))
    then have "filter (\<lambda>x. \<not> is_entry (lru_entries c) key hash x) (lru_list c) = lru_list c" by (simp add: filter_id_conv)
    then show ?thesis using None c2 by (simp add: drop_old_def hp_def new_entry_def Let_def LRU_Append_def)
  next
    case (Some b)
    then have b: "b \<in> set (lru_list c)" "is_entry hp key hash b" using ht_Lookup_iff [OF T'] sl by auto
    have "is_entry (lru_entries c) key hash x \<longleftrightarrow> x = b" if "x \<in> set (lru_list c)" for x
      using that Some ht_Lookup_iff [OF T', of key hash] sl same by (metis option.inject)
    then have "filter (\<lambda>x. \<not> is_entry (lru_entries c) key hash x) (lru_list c) = filter (\<lambda>x. x \<noteq> b) (lru_list c)"
      by (auto intro: filter_cong)
    also have "\<dots> = remove1 b (lru_list c)" using S by (simp add: distinct_remove1_removeAll removeAll_filter_not_eq) metis
    finally have f: "filter (\<lambda>x. \<not> is_entry (lru_entries c) key hash x) (lru_list c) = remove1 b (lru_list c)" .
    have "b \<noteq> ?a" using b na by auto
    then show ?thesis unfolding f using Some b(1) c2
      by (simp add: drop_old_def Unref_handle_def Let_def LRU_Remove_def remove1_append hp_def)
        (simp add: new_entry_def Let_def LRU_Append_def)
  qed
  then show ?thesis using that [OF ins(2,1)] ok4 k4 ins(1) by simp
qed

lemma Insert_ok:
  assumes "shard_ok c held" "lru_Insert key hash value chrg c = (a, c')"
  shows "shard_ok c' (held + {#a#})" "lru_usage c' \<le> lru_capacity c' \<or> lru_list c' = []" "keeps c c'" "lru_fresh c = a"
proof -
  obtain c4 where c4: "c' = evict c4" "a = lru_fresh c" "shard_ok c4 (held + {#a#})" "keeps c c4"
    by (rule Insert_inner [OF assms])
  show "shard_ok c' (held + {#a#})" "lru_usage c' \<le> lru_capacity c' \<or> lru_list c' = []" "keeps c c'" "lru_fresh c = a"
    using evict_ok [OF c4(3)] evict_keeps [OF c4(3)] keeps_trans c4 by blast+
qed

section \<open>Clients\<close>

text \<open>A client has handles with the key and the value they were given for, and gives them back.\<close>

inductive shard_run :: "nat \<Rightarrow> 'v lru_cache \<Rightarrow> (nat \<times> slice \<times> 'v) multiset \<Rightarrow> bool" for cap where
  run_start: "shard_run cap (LRUCache cap) {#}"
| run_insert: "shard_run cap c H \<Longrightarrow> lru_Insert key hash v chrg c = (a, c') \<Longrightarrow> shard_run cap c' (add_mset (a, key, v) H)"
| run_hit: "shard_run cap c H \<Longrightarrow> lru_Lookup key hash c = (Some a, c') \<Longrightarrow> shard_run cap c' (add_mset (a, key, lh_value (entry_at c' a)) H)"
| run_miss: "shard_run cap c H \<Longrightarrow> lru_Lookup key hash c = (None, c') \<Longrightarrow> shard_run cap c' H"
| run_release: "shard_run cap c (add_mset h H) \<Longrightarrow> shard_run cap (lru_Release (fst h) c) H"
| run_erase: "shard_run cap c H \<Longrightarrow> shard_run cap (lru_Erase key hash c) H"

inductive_cases shard_runE: "shard_run cap c H"

definition holds_handles :: "'v lru_cache \<Rightarrow> (nat \<times> slice \<times> 'v) multiset \<Rightarrow> bool" where
  "holds_handles c H \<longleftrightarrow> (\<forall>(a, k, v)\<in>#H. \<exists>e. lru_entries c a = Some e \<and> lh_key e = k \<and> lh_value e = v)"

lemma holds_keeps:
  assumes "holds_handles c H" "keeps c c'" "shard_ok c (image_mset fst H)" "shard_ok c' K" "image_mset fst H \<subseteq># K"
  shows "holds_handles c' H"
  unfolding holds_handles_def
proof (clarify)
  fix a k v assume h: "(a, k, v) \<in># H"
  then obtain e where e: "lru_entries c a = Some e" "lh_key e = k" "lh_value e = v" using assms(1) by (auto simp: holds_handles_def)
  have "a \<in># image_mset fst H" using h by force
  then have "a \<in> dom (lru_entries c')" using shard_dom [OF assms(4)] assms(5) by (metis mset_subset_eqD)
  then obtain e' where e': "lru_entries c' a = Some e'" by blast
  have "a < lru_fresh c" using assms(3) e(1) by (auto simp: shard_ok_def)
  then show "\<exists>e. lru_entries c' a = Some e \<and> lh_key e = k \<and> lh_value e = v" using keepsD [OF assms(2) e(1) e'] e e' by auto
qed

lemma holds_add: "holds_handles c (add_mset (a, k, v) H) \<longleftrightarrow>
    (\<exists>e. lru_entries c a = Some e \<and> lh_key e = k \<and> lh_value e = v) \<and> holds_handles c H"
  by (auto simp: holds_handles_def)

lemma evict_capacity: "lru_capacity (evict c) = lru_capacity c"
proof (induction c rule: evict.induct)
  case (1 c)
  show ?case
  proof (cases "lru_capacity c < lru_usage c \<and> lru_list c \<noteq> []")
    case True
    have "lru_capacity (evict_oldest c) = lru_capacity c"
      by (simp add: evict_oldest_def Unref_handle_def LRU_Remove_def Let_def)
    then show ?thesis using 1 [OF True] True by (subst evict.simps) simp
  qed (subst evict.simps, auto)
qed

lemma Insert_handle:
  assumes "shard_ok c held" "lru_Insert key hash value chrg c = (a, c')"
  shows "\<exists>e. lru_entries c' a = Some e \<and> lh_key e = key \<and> lh_value e = value \<and> lh_hash e = hash"
proof -
  obtain c4 where c4: "c' = evict c4" "shard_ok c4 (held + {#a#})"
      "lru_entries c4 a = Some \<lparr>lh_value = value, lh_charge = chrg, lh_refs = 2, lh_hash = hash, lh_key = key\<rparr>" "a < lru_fresh c4"
    by (rule Insert_inner [OF assms])
  have "a \<in> dom (lru_entries c')" using shard_dom [OF Insert_ok(1) [OF assms], of a] by simp
  then obtain e where e: "lru_entries c' a = Some e" by blast
  have k: "keeps c4 c'" using evict_keeps [OF c4(2)] c4(1) by blast
  show ?thesis using keepsD [OF k c4(3) e c4(4)] e by simp
qed

lemma run_ok: "shard_run cap c H \<Longrightarrow> shard_ok c (image_mset fst H) \<and> holds_handles c H \<and> lru_capacity c = cap"
proof (induction rule: shard_run.induct)
  case run_start
  show ?case by (simp add: empty_shard holds_handles_def) (simp add: LRUCache_def)
next
  case (run_insert c H key hash v chrg a c')
  then have s: "shard_ok c (image_mset fst H)" and h: "holds_handles c H" by simp_all
  note I = Insert_ok [OF s run_insert.hyps(2)]
  have "holds_handles c' H" by (rule holds_keeps [OF h I(3) s I(1)]) simp
  moreover obtain c4 where "c' = evict c4" "lru_capacity c4 = lru_capacity c" by (rule Insert_inner [OF s run_insert.hyps(2)])
  ultimately show ?case
    using I(1) Insert_handle [OF s run_insert.hyps(2)] run_insert.IH by (auto simp: holds_add evict_capacity)
next
  case (run_hit c H key hash a c')
  then have s: "shard_ok c (image_mset fst H)" and h: "holds_handles c H" by simp_all
  have s': "shard_ok c' (image_mset fst H + {#a#})" using Lookup_ok [OF s run_hit.hyps(2)] by simp
  have "holds_handles c' H" by (rule holds_keeps [OF h Lookup_keeps [OF run_hit.hyps(2) s] s s']) simp
  moreover have T: "table_ok (lru_entries c) (lru_table c)" using s by (simp add: shard_ok_def)
  have l: "ht_Lookup (lru_entries c) key hash (lru_table c) = Some a" using run_hit.hyps(2) by (auto simp: lru_Lookup_def split: option.splits)
  then have "lh_key (entry_at c a) = key" using ht_Lookup_iff [OF T] by (auto simp: is_entry_def entry_at_def)
  moreover have "c' = LRU_Append a (LRU_Remove a (c\<lparr>lru_entries := (lru_entries c)(a \<mapsto> (entry_at c a)\<lparr>lh_refs := lh_refs (entry_at c a) + 1\<rparr>)\<rparr>))"
    using run_hit.hyps(2) l by (simp add: lru_Lookup_def)
  ultimately show ?case using s' run_hit.IH by (auto simp: holds_add LRU_Append_def LRU_Remove_def entry_at_def)
next
  case (run_miss c H key hash c')
  then have "c' = c" by (auto simp: lru_Lookup_def split: option.splits)
  then show ?case using run_miss.IH by simp
next
  case (run_release c h H)
  then have s: "shard_ok c (image_mset fst H + {#fst h#})" and hd: "holds_handles c (add_mset h H)" by simp_all
  have s': "shard_ok (lru_Release (fst h) c) (image_mset fst H)" by (rule Release_ok [OF s])
  have k: "keeps c (lru_Release (fst h) c)"
    unfolding lru_Release_def by (rule Unref_keeps) (use shard_dom [OF s, of "fst h"] in simp)
  have hH: "holds_handles c H" using hd by (simp add: holds_handles_def)
  have "holds_handles (lru_Release (fst h) c) H"
    unfolding holds_handles_def
  proof (clarify)
    fix a k v assume m: "(a, k, v) \<in># H"
    then obtain e where e: "lru_entries c a = Some e" "lh_key e = k" "lh_value e = v" using hH by (auto simp: holds_handles_def)
    have "a \<in># image_mset fst H" using m by force
    then obtain e' where e': "lru_entries (lru_Release (fst h) c) a = Some e'" using shard_dom [OF s'] by blast
    have "a < lru_fresh c" using s e(1) by (auto simp: shard_ok_def)
    with keepsD [OF k e(1) e'] e e' show "\<exists>e. lru_entries (lru_Release (fst h) c) a = Some e \<and> lh_key e = k \<and> lh_value e = v" by auto
  qed
  moreover have "lru_capacity (lru_Release (fst h) c) = lru_capacity c" by (simp add: lru_Release_def Unref_handle_def Let_def)
  ultimately show ?case using s' run_release.IH by simp
next
  case (run_erase c H key hash)
  then have s: "shard_ok c (image_mset fst H)" and h: "holds_handles c H" by simp_all
  have "holds_handles (lru_Erase key hash c) H" by (rule holds_keeps [OF h Erase_keeps [OF s] s Erase_ok [OF s]]) simp
  moreover have "lru_capacity (lru_Erase key hash c) = lru_capacity c"
    by (simp add: lru_Erase_def Unref_handle_def LRU_Remove_def Let_def split: prod.split option.split)
  ultimately show ?case using Erase_ok [OF s] run_erase.IH by simp
qed

section \<open>Properties\<close>





end
