(* ===== verification/Ldb_Arena.thy ===== *)
theory Ldb_Arena
  imports Prelude
begin

text \<open>
  The allocator of the memtable, \<open>util/arena.cc\<close> and \<open>util/arena.h\<close>.  Addresses are natural numbers, 0 for NULL, and
  the address that \<open>new char[]\<close> returns when it is called is an argument of the allocations.
\<close>

section \<open>The arena\<close>

definition arena_block_size :: nat where "arena_block_size = 4096"

record arena =
  alloc_ptr :: nat
  alloc_bytes_remaining :: nat
  arena_blocks :: "(nat \<times> nat) list"
  blocks_memory :: nat

definition Arena :: arena where
  "Arena = \<lparr>alloc_ptr = 0, alloc_bytes_remaining = 0, arena_blocks = [], blocks_memory = 0\<rparr>"

text \<open>\<open>cap\<close> is the capacity of the vector \<open>blocks_\<close>.\<close>

definition MemoryUsage :: "nat \<Rightarrow> arena \<Rightarrow> nat" where "MemoryUsage cap a = blocks_memory a + cap * 8"

definition AllocateNewBlock :: "nat \<Rightarrow> nat \<Rightarrow> arena \<Rightarrow> nat \<times> arena" where
  "AllocateNewBlock new block_bytes a =
     (new, a\<lparr>blocks_memory := blocks_memory a + block_bytes, arena_blocks := arena_blocks a @ [(new, block_bytes)]\<rparr>)"

definition take_bytes :: "nat \<Rightarrow> arena \<Rightarrow> arena" where
  "take_bytes n a = a\<lparr>alloc_ptr := alloc_ptr a + n, alloc_bytes_remaining := alloc_bytes_remaining a - n\<rparr>"

definition AllocateFallback :: "nat \<Rightarrow> nat \<Rightarrow> arena \<Rightarrow> nat \<times> arena" where
  "AllocateFallback new bytes a =
     (if arena_block_size div 4 < bytes then AllocateNewBlock new bytes a
      else
        let (p, a1) = AllocateNewBlock new arena_block_size a;
            a2 = a1\<lparr>alloc_ptr := p, alloc_bytes_remaining := arena_block_size\<rparr>
        in (alloc_ptr a2, take_bytes bytes a2))"

definition Allocate :: "nat \<Rightarrow> nat \<Rightarrow> arena \<Rightarrow> nat \<times> arena" where
  "Allocate new bytes a =
     (if bytes \<le> alloc_bytes_remaining a then (alloc_ptr a, take_bytes bytes a) else AllocateFallback new bytes a)"

definition AllocateAligned :: "nat \<Rightarrow> nat \<Rightarrow> arena \<Rightarrow> nat \<times> arena" where
  "AllocateAligned new bytes a =
     (let align = 8; current_mod = alloc_ptr a mod align; slop = (if current_mod = 0 then 0 else align - current_mod);
          needed = bytes + slop
      in if needed \<le> alloc_bytes_remaining a then (alloc_ptr a + slop, take_bytes needed a) else AllocateFallback new bytes a)"

section \<open>Memory is given out once\<close>

definition span :: "nat \<times> nat \<Rightarrow> nat set" where "span r = {fst r..<fst r + snd r}"

definition apart :: "nat \<times> nat \<Rightarrow> nat \<times> nat \<Rightarrow> bool" where "apart r s \<longleftrightarrow> span r \<inter> span s = {}"

text \<open>
  What the allocator of the language promises: the new block is aligned and overlaps none that is in use.
  A request of \<open>bytes\<close> asks for a block of \<open>new_size bytes\<close>, when it asks for one.
\<close>

definition new_size :: "nat \<Rightarrow> nat" where "new_size bytes = (if arena_block_size div 4 < bytes then bytes else arena_block_size)"

definition new_ok :: "arena \<Rightarrow> nat \<Rightarrow> nat \<Rightarrow> bool" where
  "new_ok a bytes new \<longleftrightarrow> new mod 8 = 0 \<and> (\<forall>b\<in>set (arena_blocks a). apart (new, new_size bytes) b)"

text \<open>A use of the arena, with the pieces it has given out, the latest first, and whether they were asked to be aligned.\<close>

inductive arena_run :: "arena \<Rightarrow> (bool \<times> nat \<times> nat) list \<Rightarrow> bool" where
  start: "arena_run Arena []"
| plain: "arena_run a rs \<Longrightarrow> 0 < n \<Longrightarrow> new_ok a n new \<Longrightarrow> Allocate new n a = (p, a') \<Longrightarrow> arena_run a' ((False, p, n) # rs)"
| aligned: "arena_run a rs \<Longrightarrow> new_ok a n new \<Longrightarrow> AllocateAligned new n a = (p, a') \<Longrightarrow> arena_run a' ((True, p, n) # rs)"

definition free :: "arena \<Rightarrow> nat \<times> nat" where "free a = (alloc_ptr a, alloc_bytes_remaining a)"

definition in_blocks :: "arena \<Rightarrow> nat \<times> nat \<Rightarrow> bool" where
  "in_blocks a r \<longleftrightarrow> span r = {} \<or> (\<exists>b\<in>set (arena_blocks a). span r \<subseteq> span b)"

definition arena_ok :: "arena \<Rightarrow> (nat \<times> nat) list \<Rightarrow> bool" where
  "arena_ok a rs \<longleftrightarrow>
     sorted_wrt apart (free a # rs) \<and> list_all (in_blocks a) (free a # rs) \<and>
     sorted_wrt apart (arena_blocks a) \<and> blocks_memory a = sum_list (map snd (arena_blocks a))"

lemma span_sub: "p' = p + k \<Longrightarrow> k + n \<le> m \<Longrightarrow> span (p', n) \<subseteq> span (p, m)"
  by (auto simp: span_def)

lemma apart_sub: "span r' \<subseteq> span r \<Longrightarrow> apart r s \<Longrightarrow> apart r' s"
  unfolding apart_def by blast

lemma apart_sym: "apart r s \<longleftrightarrow> apart s r"
  unfolding apart_def by blast

lemma in_blocks_sub: "span r' \<subseteq> span r \<Longrightarrow> in_blocks a r \<Longrightarrow> in_blocks a r'"
  unfolding in_blocks_def by blast

lemma arena_ok_take:
  \<comment> \<open>a piece of the free rest, after \<open>k\<close> bytes that are left out\<close>
  assumes ok: "arena_ok a rs" and n: "k + n \<le> alloc_bytes_remaining a"
  shows "arena_ok (take_bytes (k + n) a) ((alloc_ptr a + k, n) # rs)"
proof -
  define a' where "a' = take_bytes (k + n) a"
  have a': "arena_blocks a' = arena_blocks a" "blocks_memory a' = blocks_memory a"
    "free a' = (alloc_ptr a + (k + n), alloc_bytes_remaining a - (k + n))"
    by (simp_all add: a'_def take_bytes_def free_def)
  have f: "span (free a') \<subseteq> span (free a)" and p: "span (alloc_ptr a + k, n) \<subseteq> span (free a)"
    using n unfolding a'(3) unfolding free_def by (auto simp: span_def)
  have d: "apart (free a') (alloc_ptr a + k, n)" by (auto simp: apart_def span_def a')
  have "in_blocks a' = in_blocks a" by (simp add: fun_eq_iff in_blocks_def a')
  moreover have "apart (free a) r \<Longrightarrow> apart (free a') r \<and> apart (alloc_ptr a + k, n) r" for r
    using apart_sub[OF f] apart_sub[OF p] by blast
  moreover have "in_blocks a (free a) \<Longrightarrow> in_blocks a (free a') \<and> in_blocks a (alloc_ptr a + k, n)"
    using in_blocks_sub[OF f] in_blocks_sub[OF p] by blast
  ultimately show ?thesis
    using ok d unfolding a'_def[symmetric] arena_ok_def by (simp add: a'(1,2))
qed

lemma apart_block:
  \<comment> \<open>what lies in the old blocks is apart from a new one\<close>
  assumes "in_blocks a r" and "\<forall>b\<in>set (arena_blocks a). apart q b"
  shows "apart q r"
  using assms unfolding in_blocks_def apart_def by blast

lemma arena_ok_block:
  assumes ok: "arena_ok a rs" and new: "\<forall>b\<in>set (arena_blocks a). apart (new, n) b"
    and a': "a' = snd (AllocateNewBlock new n a)"
  shows "arena_ok a' ((new, n) # rs)"
    and "arena_ok (a'\<lparr>alloc_ptr := new, alloc_bytes_remaining := n\<rparr>) rs"
proof -
  have s: "arena_blocks a' = arena_blocks a @ [(new, n)]" "blocks_memory a' = blocks_memory a + n" "free a' = free a"
    by (simp_all add: a' AllocateNewBlock_def free_def)
  have keep: "in_blocks a r \<Longrightarrow> in_blocks a' r" for r by (auto simp: in_blocks_def s)
  have upd: "in_blocks (a'\<lparr>alloc_ptr := new, alloc_bytes_remaining := n\<rparr>) r = in_blocks a' r" for r by (simp add: in_blocks_def)
  have here: "in_blocks a' (new, n)" by (auto simp: in_blocks_def s)
  have far: "in_blocks a r \<Longrightarrow> apart (new, n) r" for r using apart_block[OF _ new] .
  have bl: "sorted_wrt apart (arena_blocks a @ [(new, n)])"
    using ok new by (auto simp: arena_ok_def sorted_wrt_append apart_sym)
  have f: "free (a'\<lparr>alloc_ptr := new, alloc_bytes_remaining := n\<rparr>) = (new, n)" by (simp add: free_def)
  show "arena_ok a' ((new, n) # rs)"
    using ok bl here far keep unfolding arena_ok_def s by (auto simp: list_all_iff apart_sym[of _ "(new, n)"])
  show "arena_ok (a'\<lparr>alloc_ptr := new, alloc_bytes_remaining := n\<rparr>) rs"
    using ok bl here far keep unfolding arena_ok_def f by (auto simp: list_all_iff upd s)
qed

lemma arena_ok_fallback:
  assumes ok: "arena_ok a rs" and new: "new_ok a n new" and f: "AllocateFallback new n a = (p, a')"
  shows "arena_ok a' ((p, n) # rs) \<and> p = new"
proof (cases "arena_block_size div 4 < n")
  case True
  then have "\<forall>b\<in>set (arena_blocks a). apart (new, n) b" using new by (simp add: new_ok_def new_size_def)
  from arena_ok_block(1)[OF ok this refl] show ?thesis
    using f True by (auto simp: AllocateFallback_def AllocateNewBlock_def)
next
  case False
  define a2 where "a2 = (snd (AllocateNewBlock new arena_block_size a))\<lparr>alloc_ptr := new, alloc_bytes_remaining := arena_block_size\<rparr>"
  have "\<forall>b\<in>set (arena_blocks a). apart (new, arena_block_size) b" using new False by (simp add: new_ok_def new_size_def)
  from arena_ok_block(2)[OF ok this refl] have "arena_ok a2 rs" by (simp add: a2_def)
  from arena_ok_take[OF this, of 0 n] have "arena_ok (take_bytes n a2) ((new, n) # rs)"
    using False by (simp add: a2_def arena_block_size_def)
  moreover have "p = new" "a' = take_bytes n a2"
    using f False by (auto simp: AllocateFallback_def AllocateNewBlock_def a2_def Let_def)
  ultimately show ?thesis by simp
qed

lemma arena_ok_aligned:
  assumes ok: "arena_ok a rs" and new: "new_ok a n new" and f: "AllocateAligned new n a = (p, a')"
  shows "arena_ok a' ((p, n) # rs) \<and> p mod 8 = 0"
proof -
  define k where "k = (if alloc_ptr a mod 8 = 0 then 0 else 8 - alloc_ptr a mod 8)"
  have k: "(alloc_ptr a + k) mod 8 = 0" unfolding k_def by presburger
  have e: "AllocateAligned new n a = (if k + n \<le> alloc_bytes_remaining a then (alloc_ptr a + k, take_bytes (k + n) a)
      else AllocateFallback new n a)"
    by (simp add: AllocateAligned_def Let_def k_def add.commute)
  show ?thesis
  proof (cases "k + n \<le> alloc_bytes_remaining a")
    case True
    then show ?thesis using arena_ok_take[OF ok True] f k by (auto simp: e)
  next
    case False
    then have "AllocateFallback new n a = (p, a')" using f by (simp add: e)
    from arena_ok_fallback[OF ok new this] show ?thesis using new by (auto simp: new_ok_def)
  qed
qed

lemma arena_run_ok: "arena_run a rs \<Longrightarrow> arena_ok a (map snd rs) \<and> (\<forall>(al, p, n)\<in>set rs. al \<longrightarrow> p mod 8 = 0)"
proof (induction rule: arena_run.induct)
  case start
  then show ?case by (simp add: arena_ok_def Arena_def free_def in_blocks_def span_def)
next
  case (plain a rs n new p a')
  then have ok: "arena_ok a (map snd rs)" by simp
  have "arena_ok a' ((p, n) # map snd rs)"
  proof (cases "n \<le> alloc_bytes_remaining a")
    case True
    then show ?thesis using arena_ok_take[OF ok, of 0 n] plain.hyps by (auto simp: Allocate_def)
  next
    case False
    then show ?thesis using arena_ok_fallback[OF ok plain.hyps(3), of p a'] plain.hyps(4) by (auto simp: Allocate_def)
  qed
  then show ?case using plain.IH by auto
next
  case (aligned a rs n new p a')
  then show ?case using arena_ok_aligned[of a "map snd rs" n new p a'] by auto
qed



end
