(* ===== verification/Ldb_Table_Cache.thy ===== *)
theory Ldb_Table_Cache
  imports Ldb_Table_Props Ldb_Cache Ldb_Filename
begin

text \<open>
  The cache of open tables, \<open>db/table_cache.cc\<close>: tables are opened when they are asked for, under the
  number of their file, and kept in the sharded cache.

  The environment is a parameter: \<open>open_file\<close> is its \<open>NewRandomAccessFile\<close>, a status and the file.  \<open>new_id\<close> is
  what \<open>NewId\<close> of the block cache gives a table that is opened.  The deleter of an entry only frees memory.
\<close>

section \<open>State\<close>

record table_and_file =
  taf_file :: random_file
  taf_table :: table

record table_cache =
  tc_dbname :: string
  tc_options :: options
  tc_cache :: "table_and_file sharded_cache"

type_synonym open_file = "string \<Rightarrow> status \<times> random_file option"

definition TableCache :: "string \<Rightarrow> options \<Rightarrow> nat \<Rightarrow> table_cache" where
  "TableCache dbname opt n = \<lparr>tc_dbname = dbname, tc_options = opt, tc_cache = NewLRUCache n\<rparr>"

section \<open>Opening tables\<close>

text \<open>The file under its name or under its old name.\<close>

definition open_table_file :: "open_file \<Rightarrow> string \<Rightarrow> u64 \<Rightarrow> status \<times> random_file option" where
  "open_table_file open_f dbname num =
     (case open_f (TableFileName dbname num) of
        (s, f) \<Rightarrow>
          if is_ok s then (s, f)
          else (case open_f (SSTTableFileName dbname num) of (s2, f2) \<Rightarrow> if is_ok s2 then (OK, f2) else (s, f2)))"

definition FindTable ::
    "open_file \<Rightarrow> snappy \<Rightarrow> u64 \<Rightarrow> u64 \<Rightarrow> u64 \<Rightarrow> table_cache \<Rightarrow> status \<times> (nat \<times> nat) option \<times> table_cache" where
  "FindTable open_f sn new_id num fsize tc =
     (let key = EncodeFixed64 num in
      case sharded_Lookup key (tc_cache tc) of
        (Some h, ca) \<Rightarrow> (OK, Some h, tc\<lparr>tc_cache := ca\<rparr>)
      | (None, ca) \<Rightarrow>
          (case open_table_file open_f (tc_dbname tc) num of
             (s1, f) \<Rightarrow>
               let (s2, t) = (if is_ok s1 then Table_Open sn (tc_options tc) (the f) fsize new_id else (s1, None))
               in if \<not> is_ok s2 then (s2, None, tc\<lparr>tc_cache := ca\<rparr>)
                  else (case sharded_Insert key \<lparr>taf_file = the f, taf_table = the t\<rparr> 1 ca of
                          (h, ca') \<Rightarrow> (s2, Some h, tc\<lparr>tc_cache := ca'\<rparr>))))"

definition handle_table_of :: "table_cache \<Rightarrow> nat \<times> nat \<Rightarrow> table" where
  "handle_table_of tc h = taf_table (sharded_Value (tc_cache tc) h)"

section \<open>Reading\<close>

definition UnrefEntry :: "nat \<times> nat \<Rightarrow> table_cache \<Rightarrow> table_cache" where
  "UnrefEntry h tc = tc\<lparr>tc_cache := sharded_Release h (tc_cache tc)\<rparr>"

definition TableCache_Get ::
    "open_file \<Rightarrow> snappy \<Rightarrow> u64 \<Rightarrow> read_options \<Rightarrow> u64 \<Rightarrow> u64 \<Rightarrow> slice \<Rightarrow> ('a \<Rightarrow> slice \<Rightarrow> slice \<Rightarrow> 'a) \<Rightarrow> 'a \<Rightarrow>
     table_cache \<Rightarrow> status \<times> 'a \<times> table_cache" where
  "TableCache_Get open_f sn new_id ro num fsize k saver arg tc =
     (case FindTable open_f sn new_id num fsize tc of
        (s, h, tc1) \<Rightarrow>
          if is_ok s then
            (case InternalGet sn (handle_table_of tc1 (the h)) ro k saver arg of
               (s2, arg') \<Rightarrow> (s2, arg', UnrefEntry (the h) tc1))
          else (s, arg, tc1))"

definition TableCache_Evict :: "u64 \<Rightarrow> table_cache \<Rightarrow> table_cache" where
  "TableCache_Evict num tc = tc\<lparr>tc_cache := sharded_Erase (EncodeFixed64 num) (tc_cache tc)\<rparr>"

text \<open>
  An iterator of the cache: the error iterator, or the iterator of a table with the handle that its cleanup
  releases.
\<close>

datatype cached_iter = NoTable status | OnTable "nat \<times> nat" table "(block_iterator, block_iterator) two_level"

definition TableCache_NewIterator ::
    "open_file \<Rightarrow> snappy \<Rightarrow> u64 \<Rightarrow> u64 \<Rightarrow> u64 \<Rightarrow> table_cache \<Rightarrow> cached_iter \<times> table option \<times> table_cache" where
  "TableCache_NewIterator open_f sn new_id num fsize tc =
     (case FindTable open_f sn new_id num fsize tc of
        (s, h, tc1) \<Rightarrow>
          if \<not> is_ok s then (NoTable s, None, tc1)
          else let t = handle_table_of tc1 (the h) in (OnTable (the h) t (table_NewIterator t), Some t, tc1))"

definition delete_cached :: "cached_iter \<Rightarrow> table_cache \<Rightarrow> table_cache" where
  "delete_cached it tc = (case it of NoTable _ \<Rightarrow> tc | OnTable h _ _ \<Rightarrow> UnrefEntry h tc)"

definition on_cached ::
    "(table \<Rightarrow> (block_iterator, block_iterator) two_level \<Rightarrow> (block_iterator, block_iterator) two_level option) \<Rightarrow>
     cached_iter \<Rightarrow> cached_iter option" where
  "on_cached f it = (case it of NoTable s \<Rightarrow> Some (NoTable s) | OnTable h t i \<Rightarrow> map_option (OnTable h t) (f t i))"

definition cached_ops :: "snappy \<Rightarrow> read_options \<Rightarrow> cached_iter iter_ops" where
  "cached_ops sn ro =
     \<lparr>it_Valid = (\<lambda>it. case it of NoTable _ \<Rightarrow> False | OnTable h t i \<Rightarrow> it_Valid (table_ops sn t ro) i),
      it_key = (\<lambda>it. case it of NoTable _ \<Rightarrow> [] | OnTable h t i \<Rightarrow> it_key (table_ops sn t ro) i),
      it_value = (\<lambda>it. case it of NoTable _ \<Rightarrow> [] | OnTable h t i \<Rightarrow> it_value (table_ops sn t ro) i),
      it_status = (\<lambda>it. case it of NoTable s \<Rightarrow> s | OnTable h t i \<Rightarrow> it_status (table_ops sn t ro) i),
      it_Seek = (\<lambda>k. on_cached (\<lambda>t. it_Seek (table_ops sn t ro) k)),
      it_SeekToFirst = on_cached (\<lambda>t. it_SeekToFirst (table_ops sn t ro)),
      it_SeekToLast = on_cached (\<lambda>t. it_SeekToLast (table_ops sn t ro)),
      it_Next = on_cached (\<lambda>t. it_Next (table_ops sn t ro)), it_Prev = on_cached (\<lambda>t. it_Prev (table_ops sn t ro))\<rparr>"

end
