(* ===== verification/Ldb_Version.thy ===== *)
theory Ldb_Version
  imports Ldb_Table_Cache Ldb_Edit Ldb_Merger
begin

text \<open>
  Versions, the first part of \<open>db/version_set.cc\<close>: the files of every level, the search for files by key, the
  lookup of a key, and the statistics that trigger compactions by seeks.

  Files are objects on a heap, because versions share them and change their counters; a version has the
  addresses of its files.  A slice pointer that may be NULL is an option.  \<open>double\<close> scores are exact quotients of a
  numerator and a denominator.
\<close>

type_synonym file_heap = "nat \<Rightarrow> FileMetaData option"

definition fm :: "file_heap \<Rightarrow> nat \<Rightarrow> FileMetaData" where "fm hp a = the (hp a)"

abbreviation small_key :: "file_heap \<Rightarrow> nat \<Rightarrow> slice" where "small_key hp a \<equiv> smallest (fm hp a)"
abbreviation large_key :: "file_heap \<Rightarrow> nat \<Rightarrow> slice" where "large_key hp a \<equiv> largest (fm hp a)"

record version =
  v_files :: "nat list list"
  file_to_compact :: "nat option"
  file_to_compact_level :: int
  compaction_score :: "int \<times> int"
  compaction_level :: int
  v_refs :: int

definition Version :: version where
  "Version = \<lparr>v_files = replicate kNumLevels [], file_to_compact = None, file_to_compact_level = -1,
     compaction_score = (-1, 1), compaction_level = -1, v_refs = 0\<rparr>"

definition level_files :: "version \<Rightarrow> nat \<Rightarrow> nat list" where "level_files v level = v_files v ! level"

definition kTargetFileSize :: int where "kTargetFileSize = 2 * 1048576"
definition kMaxGrandParentOverlapBytes :: int where "kMaxGrandParentOverlapBytes = 10 * kTargetFileSize"
definition kMaxMemCompactLevel :: nat where "kMaxMemCompactLevel = 2"

text \<open>The sum is an \<open>int64_t\<close>.\<close>

definition TotalFileSize :: "file_heap \<Rightarrow> nat list \<Rightarrow> int" where
  "TotalFileSize hp files = sint (sum_list (map (\<lambda>a. file_size (fm hp a)) files))"

section \<open>Finding files\<close>

function find_file_loop :: "comparator \<Rightarrow> file_heap \<Rightarrow> nat list \<Rightarrow> slice \<Rightarrow> nat \<Rightarrow> nat \<Rightarrow> nat" where
  "find_file_loop c hp files key left right =
     (if left < right then
        let mid = (left + right) div 2 in
        if internal_compare c (large_key hp (files ! mid)) key < 0 then find_file_loop c hp files key (mid + 1) right
        else find_file_loop c hp files key left mid
      else right)"
  by pat_completeness auto
termination by (relation "measure (\<lambda>(_, _, _, _, l, r). r - l)") auto

declare find_file_loop.simps [simp del]

definition FindFile :: "comparator \<Rightarrow> file_heap \<Rightarrow> nat list \<Rightarrow> slice \<Rightarrow> nat" where
  "FindFile c hp files key = find_file_loop c hp files key 0 (length files)"

definition AfterFile :: "comparator \<Rightarrow> slice option \<Rightarrow> FileMetaData \<Rightarrow> bool" where
  "AfterFile ucmp user_key f \<longleftrightarrow> (case user_key of None \<Rightarrow> False | Some k \<Rightarrow> Compare ucmp k (ExtractUserKey (largest f)) > 0)"

definition BeforeFile :: "comparator \<Rightarrow> slice option \<Rightarrow> FileMetaData \<Rightarrow> bool" where
  "BeforeFile ucmp user_key f \<longleftrightarrow> (case user_key of None \<Rightarrow> False | Some k \<Rightarrow> Compare ucmp k (ExtractUserKey (smallest f)) < 0)"

definition SomeFileOverlapsRange :: "comparator \<Rightarrow> file_heap \<Rightarrow> bool \<Rightarrow> nat list \<Rightarrow> slice option \<Rightarrow> slice option \<Rightarrow> bool" where
  "SomeFileOverlapsRange c hp disjoint_sorted_files files smallest_user_key largest_user_key =
     (if \<not> disjoint_sorted_files then
        list_ex (\<lambda>a. \<not> (AfterFile c smallest_user_key (fm hp a) \<or> BeforeFile c largest_user_key (fm hp a))) files
      else
        let index = (case smallest_user_key of
              None \<Rightarrow> 0
            | Some k \<Rightarrow> FindFile c hp files (InternalKey_EncodeOf k kMaxSequenceNumber kValueTypeForSeek))
        in if length files \<le> index then False else \<not> BeforeFile c largest_user_key (fm hp (files ! index)))"

definition OverlapInLevel :: "comparator \<Rightarrow> file_heap \<Rightarrow> version \<Rightarrow> nat \<Rightarrow> slice option \<Rightarrow> slice option \<Rightarrow> bool" where
  "OverlapInLevel c hp v level small large = SomeFileOverlapsRange c hp (0 < level) (level_files v level) small large"

text \<open>
  The search for overlapping files starts again when a file of level 0 widens the range; whether it ends
  depends on the comparator.
\<close>

partial_function (option) overlap_loop ::
    "comparator \<Rightarrow> file_heap \<Rightarrow> bool \<Rightarrow> nat list \<Rightarrow> nat \<Rightarrow> slice option \<Rightarrow> slice option \<Rightarrow> nat list \<Rightarrow> nat list option" where
  "overlap_loop c hp level0 files i user_begin user_end inputs =
     (if i < length files then
        let a = files ! i; f = fm hp a; file_start = ExtractUserKey (smallest f); file_limit = ExtractUserKey (largest f) in
        if user_begin \<noteq> None \<and> Compare c file_limit (the user_begin) < 0 then
          overlap_loop c hp level0 files (i + 1) user_begin user_end inputs
        else if user_end \<noteq> None \<and> Compare c file_start (the user_end) > 0 then
          overlap_loop c hp level0 files (i + 1) user_begin user_end inputs
        else if level0 \<and> user_begin \<noteq> None \<and> Compare c file_start (the user_begin) < 0 then
          overlap_loop c hp level0 files 0 (Some file_start) user_end []
        else if level0 \<and> user_end \<noteq> None \<and> Compare c file_limit (the user_end) > 0 then
          overlap_loop c hp level0 files 0 user_begin (Some file_limit) []
        else overlap_loop c hp level0 files (i + 1) user_begin user_end (inputs @ [a])
      else Some inputs)"

definition GetOverlappingInputs :: "comparator \<Rightarrow> file_heap \<Rightarrow> version \<Rightarrow> nat \<Rightarrow> slice option \<Rightarrow> slice option \<Rightarrow> nat list option" where
  "GetOverlappingInputs c hp v level begin_key end_key =
     overlap_loop c hp (level = 0) (level_files v level) 0 (map_option ExtractUserKey begin_key) (map_option ExtractUserKey end_key) []"

text \<open>The level for the output of a memtable.\<close>

function pick_level :: "comparator \<Rightarrow> file_heap \<Rightarrow> version \<Rightarrow> slice \<Rightarrow> slice \<Rightarrow> nat \<Rightarrow> nat option" where
  "pick_level c hp v small large level =
     (if level < kMaxMemCompactLevel then
        if OverlapInLevel c hp v (level + 1) (Some small) (Some large) then Some level
        else if level + 2 < kNumLevels then
          (case GetOverlappingInputs c hp v (level + 2) (Some (InternalKey_EncodeOf small kMaxSequenceNumber kValueTypeForSeek))
                 (Some (InternalKey_EncodeOf large 0 kTypeDeletion)) of
             None \<Rightarrow> None
           | Some overlaps \<Rightarrow>
               if TotalFileSize hp overlaps > kMaxGrandParentOverlapBytes then Some level else pick_level c hp v small large (level + 1))
        else pick_level c hp v small large (level + 1)
      else Some level)"
  by pat_completeness auto
termination by (relation "measure (\<lambda>(_, _, _, _, _, l). kMaxMemCompactLevel - l)") auto

declare pick_level.simps [simp del]

definition PickLevelForMemTableOutput :: "comparator \<Rightarrow> file_heap \<Rightarrow> version \<Rightarrow> slice \<Rightarrow> slice \<Rightarrow> nat option" where
  "PickLevelForMemTableOutput c hp v small large =
     (if \<not> OverlapInLevel c hp v 0 (Some small) (Some large) then pick_level c hp v small large 0 else Some 0)"

section \<open>Looking up a key\<close>

datatype SaverState = kNothing | kFound | kDeleted | kCorrupt

record saver =
  sv_state :: SaverState
  sv_user_key :: slice
  sv_value :: slice

definition SaveValue :: "comparator \<Rightarrow> saver \<Rightarrow> slice \<Rightarrow> slice \<Rightarrow> saver" where
  "SaveValue ucmp s key v = (case ParseInternalKey key of
     None \<Rightarrow> s\<lparr>sv_state := kCorrupt\<rparr>
   | Some parsed_key \<Rightarrow>
       if Compare ucmp (key_user parsed_key) (sv_user_key s) = 0 then
         let s1 = s\<lparr>sv_state := (if key_type parsed_key = kTypeValue then kFound else kDeleted)\<rparr>
         in if sv_state s1 = kFound then s1\<lparr>sv_value := v\<rparr> else s1
       else s)"

text \<open>Files have numbers of their own, so that sorting with \<open>NewestFirst\<close> has one outcome.\<close>

definition NewestFirst :: "file_heap \<Rightarrow> nat list \<Rightarrow> nat list" where
  "NewestFirst hp files = sort_key (\<lambda>a. - int (unat (fm_number (fm hp a)))) files"

definition in_file_range :: "comparator \<Rightarrow> file_heap \<Rightarrow> slice \<Rightarrow> nat \<Rightarrow> bool" where
  "in_file_range c hp user_key a \<longleftrightarrow>
     Compare c user_key (ExtractUserKey (small_key hp a)) \<ge> 0 \<and> Compare c user_key (ExtractUserKey (large_key hp a)) \<le> 0"

text \<open>The files to search in a level.\<close>

definition files_to_search :: "comparator \<Rightarrow> file_heap \<Rightarrow> version \<Rightarrow> slice \<Rightarrow> slice \<Rightarrow> nat \<Rightarrow> nat list" where
  "files_to_search c hp v key user_key level =
     (let files = level_files v level in
      if files = [] then []
      else if level = 0 then NewestFirst hp (filter (in_file_range c hp user_key) files)
      else
        let index = FindFile c hp files key in
        if length files \<le> index then []
        else if Compare c user_key (ExtractUserKey (small_key hp (files ! index))) < 0 then [] else [files ! index])"

record get_stats =
  seek_file :: "nat option"
  seek_file_level :: int

record 't get_state =
  gs_stats :: get_stats
  gs_last :: "nat option"
  gs_last_level :: int
  gs_value :: slice
  gs_tables :: 't

text \<open>The second file that is read charges the first one.\<close>

definition charge_seek :: "nat \<Rightarrow> int \<Rightarrow> 't get_state \<Rightarrow> 't get_state" where
  "charge_seek a level g =
     (let g1 = (if gs_last g \<noteq> None \<and> seek_file (gs_stats g) = None
                then g\<lparr>gs_stats := \<lparr>seek_file = gs_last g, seek_file_level = gs_last_level g\<rparr>\<rparr> else g)
      in g1\<lparr>gs_last := Some a, gs_last_level := level\<rparr>)"

text \<open>\<open>tget\<close> is \<open>Get\<close> of the table cache, on its state.\<close>

type_synonym 't table_get =
  "u64 \<Rightarrow> u64 \<Rightarrow> slice \<Rightarrow> (saver \<Rightarrow> slice \<Rightarrow> slice \<Rightarrow> saver) \<Rightarrow> saver \<Rightarrow> 't \<Rightarrow> status \<times> saver \<times> 't"

definition get_from_file ::
    "'t table_get \<Rightarrow> comparator \<Rightarrow> file_heap \<Rightarrow> slice \<Rightarrow> slice \<Rightarrow> nat \<Rightarrow> nat \<Rightarrow> 't get_state \<Rightarrow> status option \<times> 't get_state" where
  "get_from_file tget c hp key user_key level a g =
     (let g1 = charge_seek a (int level) g in
      case tget (fm_number (fm hp a)) (file_size (fm hp a)) key (SaveValue c)
          \<lparr>sv_state = kNothing, sv_user_key = user_key, sv_value = gs_value g1\<rparr> (gs_tables g1) of
        (s, sv, t) \<Rightarrow>
          let g2 = g1\<lparr>gs_value := sv_value sv, gs_tables := t\<rparr> in
          if \<not> is_ok s then (Some s, g2)
          else (case sv_state sv of
              kNothing \<Rightarrow> (None, g2)
            | kFound \<Rightarrow> (Some s, g2)
            | kDeleted \<Rightarrow> (Some (status_msg Ldb_Base.kNotFound [] []), g2)
            | kCorrupt \<Rightarrow> (Some (status_msg kCorruption ''corrupted key for '' (map (\<lambda>b. char_of (unat b)) user_key)), g2)))"

fun get_from_files ::
    "'t table_get \<Rightarrow> comparator \<Rightarrow> file_heap \<Rightarrow> slice \<Rightarrow> slice \<Rightarrow> nat \<Rightarrow> nat list \<Rightarrow> 't get_state \<Rightarrow> status option \<times> 't get_state" where
  "get_from_files tget c hp key user_key level [] g = (None, g)"
| "get_from_files tget c hp key user_key level (a # as) g =
     (case get_from_file tget c hp key user_key level a g of
        (Some s, g1) \<Rightarrow> (Some s, g1)
      | (None, g1) \<Rightarrow> get_from_files tget c hp key user_key level as g1)"

fun get_from_levels ::
    "'t table_get \<Rightarrow> comparator \<Rightarrow> file_heap \<Rightarrow> version \<Rightarrow> slice \<Rightarrow> slice \<Rightarrow> nat list \<Rightarrow> 't get_state \<Rightarrow> status option \<times> 't get_state" where
  "get_from_levels tget c hp v key user_key [] g = (None, g)"
| "get_from_levels tget c hp v key user_key (level # levels) g =
     (case get_from_files tget c hp key user_key level (files_to_search c hp v key user_key level) g of
        (Some s, g1) \<Rightarrow> (Some s, g1)
      | (None, g1) \<Rightarrow> get_from_levels tget c hp v key user_key levels g1)"

text \<open>The status, the value, the statistics, and the state of the tables; \<open>old\<close> is what the value was before.\<close>

definition Version_Get ::
    "'t table_get \<Rightarrow> comparator \<Rightarrow> file_heap \<Rightarrow> version \<Rightarrow> byte list \<times> nat \<Rightarrow> slice \<Rightarrow> 't \<Rightarrow> status \<times> slice \<times> get_stats \<times> 't" where
  "Version_Get tget c hp v k old tables =
     (case get_from_levels tget c hp v (lookup_internal_key k) (lookup_user_key k) [0..<kNumLevels]
         \<lparr>gs_stats = \<lparr>seek_file = None, seek_file_level = -1\<rparr>, gs_last = None, gs_last_level = -1, gs_value = old, gs_tables = tables\<rparr> of
        (r, g) \<Rightarrow>
          (case r of Some s \<Rightarrow> s | None \<Rightarrow> status_msg Ldb_Base.kNotFound [] [], gs_value g, gs_stats g, gs_tables g))"

section \<open>Statistics\<close>

definition UpdateStats :: "get_stats \<Rightarrow> file_heap \<Rightarrow> version \<Rightarrow> bool \<times> file_heap \<times> version" where
  "UpdateStats stats hp v = (case seek_file stats of
     None \<Rightarrow> (False, hp, v)
   | Some a \<Rightarrow>
       let f = (fm hp a)\<lparr>allowed_seeks := allowed_seeks (fm hp a) - 1\<rparr>; hp1 = hp(a \<mapsto> f) in
       if allowed_seeks f \<le> 0 \<and> file_to_compact v = None
       then (True, hp1, v\<lparr>file_to_compact := Some a, file_to_compact_level := seek_file_level stats\<rparr>)
       else (False, hp1, v))"

text \<open>The calls of \<open>func\<close> until one of them returns false.\<close>

fun call_until :: "('a \<Rightarrow> nat \<Rightarrow> nat \<Rightarrow> bool \<times> 'a) \<Rightarrow> nat \<Rightarrow> nat list \<Rightarrow> 'a \<Rightarrow> bool \<times> 'a" where
  "call_until func level [] arg = (True, arg)"
| "call_until func level (a # as) arg =
     (case func arg level a of (True, arg1) \<Rightarrow> call_until func level as arg1 | (False, arg1) \<Rightarrow> (False, arg1))"

fun for_levels ::
    "comparator \<Rightarrow> file_heap \<Rightarrow> version \<Rightarrow> slice \<Rightarrow> slice \<Rightarrow> ('a \<Rightarrow> nat \<Rightarrow> nat \<Rightarrow> bool \<times> 'a) \<Rightarrow> nat list \<Rightarrow> 'a \<Rightarrow> 'a" where
  "for_levels c hp v user_key key func [] arg = arg"
| "for_levels c hp v user_key key func (level # levels) arg =
     (case call_until func level (files_to_search c hp v key user_key level) arg of
        (True, arg1) \<Rightarrow> for_levels c hp v user_key key func levels arg1
      | (False, arg1) \<Rightarrow> arg1)"

definition ForEachOverlapping ::
    "comparator \<Rightarrow> file_heap \<Rightarrow> version \<Rightarrow> slice \<Rightarrow> slice \<Rightarrow> 'a \<Rightarrow> ('a \<Rightarrow> nat \<Rightarrow> nat \<Rightarrow> bool \<times> 'a) \<Rightarrow> 'a" where
  "ForEachOverlapping c hp v user_key key arg func = for_levels c hp v user_key key func [0..<kNumLevels] arg"

text \<open>The statistics are not initialised; they are only read behind a match.\<close>

definition Match :: "get_stats \<times> nat \<Rightarrow> nat \<Rightarrow> nat \<Rightarrow> bool \<times> (get_stats \<times> nat)" where
  "Match st level a =
     (let matches = snd st + 1;
          stats = (if matches = 1 then \<lparr>seek_file = Some a, seek_file_level = int level\<rparr> else fst st)
      in (matches < 2, (stats, matches)))"

definition RecordReadSample :: "comparator \<Rightarrow> get_stats \<Rightarrow> slice \<Rightarrow> file_heap \<Rightarrow> version \<Rightarrow> bool \<times> file_heap \<times> version" where
  "RecordReadSample c junk key hp v = (case ParseInternalKey key of
     None \<Rightarrow> (False, hp, v)
   | Some ik \<Rightarrow>
       (case ForEachOverlapping c hp v (key_user ik) key (junk, 0) Match of
          (stats, matches) \<Rightarrow> if 2 \<le> matches then UpdateStats stats hp v else (False, hp, v)))"

end
