(* ===== verification/Ldb_Table_Cache_Props.thy ===== *)
theory Ldb_Table_Cache_Props
  imports Ldb_Table_Cache Ldb_Cache_Props
begin

text \<open>
  What the cached tables are: every table in the cache is the one of the file whose number is its key, so that a
  lookup through the cache gives what the file on disk holds, whatever was read, evicted or released before.
\<close>

section \<open>Values of a cache\<close>

definition values_ok :: "(slice \<Rightarrow> 'v \<Rightarrow> bool) \<Rightarrow> 'v lru_cache \<Rightarrow> bool" where
  "values_ok Q c \<longleftrightarrow> (\<forall>a e. lru_entries c a = Some e \<longrightarrow> Q (lh_key e) (lh_value e))"

lemma values_keeps:
  assumes "values_ok Q c" "keeps c c'" "shard_ok c' held" "lru_fresh c' = lru_fresh c"
  shows "values_ok Q c'"
  unfolding values_ok_def
proof (intro allI impI)
  fix a e assume a: "lru_entries c' a = Some e"
  then have "a < lru_fresh c" using assms(3,4) by (auto simp: shard_ok_def)
  then obtain e0 where "lru_entries c a = Some e0" "lh_key e = lh_key e0" "lh_value e = lh_value e0"
    using assms(2) a by (auto simp: keeps_def)
  then show "Q (lh_key e) (lh_value e)" using assms(1) by (auto simp: values_ok_def)
qed

lemma fresh_same:
  "lru_fresh (Unref_handle a c) = lru_fresh c" "lru_fresh (LRU_Remove a c) = lru_fresh c" "lru_fresh (LRU_Append a c) = lru_fresh c"
  "lru_fresh (evict_oldest c) = lru_fresh c" "lru_fresh (drop_old r c) = lru_fresh c"
  by (simp_all add: Unref_handle_def LRU_Remove_def LRU_Append_def evict_oldest_def drop_old_def Let_def split: option.split)

lemma evict_fresh: "lru_fresh (evict c) = lru_fresh c"
proof (induction c rule: evict.induct)
  case (1 c)
  then show ?case by (subst evict.simps) (simp add: fresh_same)
qed

lemma Lookup_fresh: "lru_Lookup key hash c = (r, c') \<Longrightarrow> lru_fresh c' = lru_fresh c"
  by (auto simp: lru_Lookup_def fresh_same split: option.splits)

lemma Erase_fresh: "lru_fresh (lru_Erase key hash c) = lru_fresh c"
  by (simp add: lru_Erase_def fresh_same split: prod.split option.split)

lemma Insert_fresh: "lru_Insert key hash v chrg c = (a, c') \<Longrightarrow> lru_fresh c' = Suc (lru_fresh c)"
  by (auto simp: lru_Insert_def Let_def evict_fresh fresh_same new_entry_def split: prod.splits)

lemma Lookup_value:
  assumes "shard_ok c held" "values_ok Q c" "lru_Lookup key hash c = (Some a, c')"
  shows "Q key (lh_value (entry_at c' a)) \<and> values_ok Q c' \<and> shard_ok c' (held + {#a#})"
proof -
  have s': "shard_ok c' (held + {#a#})" using Lookup_ok [OF assms(1,3)] by simp
  have v': "values_ok Q c'"
    by (rule values_keeps [OF assms(2) Lookup_keeps [OF assms(3,1)] s' Lookup_fresh [OF assms(3)]])
  have T: "table_ok (lru_entries c) (lru_table c)" using assms(1) by (simp add: shard_ok_def)
  have "ht_Lookup (lru_entries c) key hash (lru_table c) = Some a" using assms(3) by (auto simp: lru_Lookup_def split: option.splits)
  then have k: "lh_key (entry_at c a) = key" using ht_Lookup_iff [OF T] by (auto simp: is_entry_def entry_at_def)
  obtain e' where e': "lru_entries c' a = Some e'" using shard_dom [OF s', of a] by auto
  have "a < lru_fresh c" using s' e' Lookup_fresh [OF assms(3)] by (auto simp: shard_ok_def)
  then obtain e where "lru_entries c a = Some e" "lh_key e' = lh_key e" using Lookup_keeps [OF assms(3,1)] e' by (auto simp: keeps_def)
  then have "lh_key e' = key" using k by (simp add: entry_at_def)
  then show ?thesis using v' s' e' by (auto simp: values_ok_def entry_at_def)
qed

lemma Insert_value:
  assumes "shard_ok c held" "values_ok Q c" "lru_Insert key hash v chrg c = (a, c')" "Q key v"
  shows "lh_value (entry_at c' a) = v \<and> values_ok Q c' \<and> shard_ok c' (held + {#a#})"
proof -
  note I = Insert_ok [OF assms(1,3)]
  obtain e where e: "lru_entries c' a = Some e" "lh_key e = key" "lh_value e = v" using Insert_handle [OF assms(1,3)] by blast
  have "Q (lh_key x) (lh_value x)" if x: "lru_entries c' b = Some x" for b x
  proof (cases "b = a")
    case True
    then show ?thesis using x e assms(4) by simp
  next
    case False
    have "b < Suc (lru_fresh c)" using x I(1) Insert_fresh [OF assms(3)] by (auto simp: shard_ok_def)
    then have "b < lru_fresh c" using False I(4) by simp
    then obtain e0 where "lru_entries c b = Some e0" "lh_key x = lh_key e0" "lh_value x = lh_value e0"
      using I(3) x by (auto simp: keeps_def)
    then show ?thesis using assms(2) by (auto simp: values_ok_def)
  qed
  then show ?thesis using e I(1) by (auto simp: values_ok_def entry_at_def)
qed

lemma Release_value:
  assumes "shard_ok c (held + {#a#})" "values_ok Q c"
  shows "values_ok Q (lru_Release a c) \<and> shard_ok (lru_Release a c) held"
proof -
  have "a \<in> dom (lru_entries c)" using shard_dom [OF assms(1), of a] by simp
  from values_keeps [OF assms(2) Unref_keeps [OF this] Release_ok [OF assms(1), unfolded lru_Release_def]]
  show ?thesis using Release_ok [OF assms(1)] by (simp add: lru_Release_def fresh_same)
qed

section \<open>The sharded cache\<close>

definition good_shard :: "(slice \<Rightarrow> 'v \<Rightarrow> bool) \<Rightarrow> 'v lru_cache \<Rightarrow> bool" where
  "good_shard Q s \<longleftrightarrow> (\<exists>held. shard_ok s held) \<and> values_ok Q s"

definition sharded_ok :: "(slice \<Rightarrow> 'v \<Rightarrow> bool) \<Rightarrow> 'v sharded_cache \<Rightarrow> bool" where
  "sharded_ok Q c \<longleftrightarrow> length (shards c) = kNumShards \<and> (\<forall>i<kNumShards. good_shard Q (shards c ! i))"

lemma Shard_less: "Shard hash < kNumShards"
proof -
  have "Shard hash = unat hash div 2 ^ 28" by (simp add: Shard_def kNumShardBits_def drop_bit_eq_div unat_div)
  moreover have "unat hash < 2 ^ 32" using unsigned_less [of hash] by simp
  ultimately show ?thesis by (simp add: kNumShards_def kNumShardBits_def div_less_iff_less_mult)
qed

lemma sharded_update:
  assumes "sharded_ok Q c" "good_shard Q s"
  shows "sharded_ok Q (c\<lparr>shards := (shards c)[i := s]\<rparr>)"
proof -
  have "good_shard Q ((shards c)[i := s] ! j)" if "j < kNumShards" for j
    using assms that by (cases "i = j") (simp_all add: sharded_ok_def)
  then show ?thesis using assms(1) by (simp add: sharded_ok_def)
qed

lemma NewLRUCache_ok: "sharded_ok Q (NewLRUCache n)"
proof -
  have "good_shard Q (LRUCache m)" for m using empty_shard by (auto simp: good_shard_def values_ok_def LRUCache_def)
  then show ?thesis by (simp add: sharded_ok_def NewLRUCache_def)
qed

text \<open>A handle that was just given out can be released.\<close>

definition fresh_handle :: "(slice \<Rightarrow> 'v \<Rightarrow> bool) \<Rightarrow> 'v sharded_cache \<Rightarrow> nat \<times> nat \<Rightarrow> bool" where
  "fresh_handle Q c h \<longleftrightarrow> sharded_ok Q c \<and> sharded_ok Q (sharded_Release h c)"

lemma fresh_handleI:
  assumes "sharded_ok Q c" "values_ok Q s" "shard_ok s (held + {#a#})" "i < kNumShards"
  shows "fresh_handle Q (c\<lparr>shards := (shards c)[i := s]\<rparr>) (i, a)"
proof -
  have l: "i < length (shards c)" using assms(1,4) by (simp add: sharded_ok_def)
  have s: "sharded_ok Q (c\<lparr>shards := (shards c)[i := s]\<rparr>)"
    by (rule sharded_update [OF assms(1)]) (use assms(2,3) in \<open>auto simp: good_shard_def\<close>)
  have r: "good_shard Q (lru_Release a s)" using Release_value [OF assms(3,2)] by (auto simp: good_shard_def)
  have "sharded_Release (i, a) (c\<lparr>shards := (shards c)[i := s]\<rparr>) = c\<lparr>shards := (shards c)[i := lru_Release a s]\<rparr>"
    using l by (simp add: sharded_Release_def)
  then show ?thesis using s sharded_update [OF assms(1) r] by (simp add: fresh_handle_def)
qed

lemma sharded_Lookup_value:
  assumes "sharded_ok Q c" "sharded_Lookup key c = (r, c')"
  shows "sharded_ok Q c' \<and> (\<forall>h. r = Some h \<longrightarrow> Q key (sharded_Value c' h) \<and> fresh_handle Q c' h)"
proof -
  define i where "i = Shard (HashSlice key)"
  have i: "i < kNumShards" unfolding i_def by (rule Shard_less)
  have l: "i < length (shards c)" using assms(1) i by (simp add: sharded_ok_def)
  obtain held where g: "shard_ok (shards c ! i) held" "values_ok Q (shards c ! i)"
    using assms(1) i by (auto simp: sharded_ok_def good_shard_def)
  obtain x s where x: "lru_Lookup key (HashSlice key) (shards c ! i) = (x, s)" by fastforce
  have c': "c' = c\<lparr>shards := (shards c)[i := s]\<rparr>" and r: "r = map_option (Pair i) x"
    using assms(2) x by (auto simp: sharded_Lookup_def Let_def i_def)
  show ?thesis
  proof (cases x)
    case None
    then have "s = shards c ! i" using x by (auto simp: lru_Lookup_def split: option.splits)
    then have "good_shard Q s" using g by (auto simp: good_shard_def)
    then show ?thesis using sharded_update [OF assms(1)] None by (simp add: c' r)
  next
    case (Some a)
    from Lookup_value [OF g x [unfolded Some]] have v: "Q key (lh_value (entry_at s a))" "values_ok Q s" "shard_ok s (held + {#a#})" by simp_all
    from fresh_handleI [OF assms(1) v(2,3) i] v(1) show ?thesis using Some l by (simp add: c' r sharded_Value_def fresh_handle_def)
  qed
qed

lemma sharded_Insert_value:
  assumes "sharded_ok Q c" "sharded_Insert key v chrg c = (h, c')" "Q key v"
  shows "sharded_Value c' h = v \<and> fresh_handle Q c' h"
proof -
  define i where "i = Shard (HashSlice key)"
  have i: "i < kNumShards" unfolding i_def by (rule Shard_less)
  have l: "i < length (shards c)" using assms(1) i by (simp add: sharded_ok_def)
  obtain held where g: "shard_ok (shards c ! i) held" "values_ok Q (shards c ! i)"
    using assms(1) i by (auto simp: sharded_ok_def good_shard_def)
  obtain a s where x: "lru_Insert key (HashSlice key) v chrg (shards c ! i) = (a, s)" by fastforce
  have c': "c' = c\<lparr>shards := (shards c)[i := s]\<rparr>" and h: "h = (i, a)"
    using assms(2) x by (auto simp: sharded_Insert_def Let_def i_def)
  from Insert_value [OF g x assms(3)] have v: "lh_value (entry_at s a) = v" "values_ok Q s" "shard_ok s (held + {#a#})" by simp_all
  from fresh_handleI [OF assms(1) v(2,3) i] v(1) show ?thesis using l by (simp add: c' h sharded_Value_def)
qed

lemma sharded_Erase_ok:
  assumes "sharded_ok Q c"
  shows "sharded_ok Q (sharded_Erase key c)"
proof -
  define i where "i = Shard (HashSlice key)"
  have i: "i < kNumShards" unfolding i_def by (rule Shard_less)
  obtain held where g: "shard_ok (shards c ! i) held" "values_ok Q (shards c ! i)"
    using assms(1) i by (auto simp: sharded_ok_def good_shard_def)
  have "good_shard Q (lru_Erase key (HashSlice key) (shards c ! i))"
    using values_keeps [OF g(2) Erase_keeps [OF g(1)] Erase_ok [OF g(1)] Erase_fresh] Erase_ok [OF g(1)]
    unfolding good_shard_def by blast
  from sharded_update [OF assms this] show ?thesis by (simp add: sharded_Erase_def Let_def i_def)
qed

section \<open>Tables\<close>

text \<open>The files of the disk: what is in the file of a number, and how long it is.\<close>

type_synonym disk = "u64 \<Rightarrow> kvs list option"

definition file_size_of :: "snappy \<Rightarrow> options \<Rightarrow> kvs list \<Rightarrow> u64" where
  "file_size_of sn o1 bs = word_of_nat (length (table_image sn o1 bs))"

definition disk_ok :: "open_file \<Rightarrow> snappy \<Rightarrow> string \<Rightarrow> options \<Rightarrow> disk \<Rightarrow> bool" where
  "disk_ok open_f sn dbname o1 d \<longleftrightarrow> (\<forall>num bs. d num = Some bs \<longrightarrow> table_fits sn o1 bs \<and>
     (\<exists>in_buf. open_table_file open_f dbname num = (OK, Some (memory_file in_buf (table_image sn o1 bs)))))"

definition table_of_disk :: "snappy \<Rightarrow> options \<Rightarrow> disk \<Rightarrow> slice \<Rightarrow> table_and_file \<Rightarrow> bool" where
  "table_of_disk sn o1 d key tf \<longleftrightarrow>
     (\<forall>num bs. key = EncodeFixed64 num \<longrightarrow> d num = Some bs \<longrightarrow> (\<exists>in_buf. opened sn o1 bs in_buf (taf_table tf)))"

definition tables_ok :: "snappy \<Rightarrow> string \<Rightarrow> options \<Rightarrow> disk \<Rightarrow> table_cache \<Rightarrow> bool" where
  "tables_ok sn dbname o1 d tc \<longleftrightarrow> tc_dbname tc = dbname \<and> tc_options tc = o1 \<and> sharded_ok (table_of_disk sn o1 d) (tc_cache tc)"

lemma TableCache_ok: "tables_ok sn dbname o1 d (TableCache dbname o1 n)"
  by (simp add: tables_ok_def TableCache_def NewLRUCache_ok)

lemma Evict_tables_ok: "tables_ok sn dbname o1 d tc \<Longrightarrow> tables_ok sn dbname o1 d (TableCache_Evict num tc)"
  by (simp add: tables_ok_def TableCache_Evict_def sharded_Erase_ok)

lemma EncodeFixed64_inj: "EncodeFixed64 a = EncodeFixed64 b \<Longrightarrow> a = b"
  by (metis DecodeFixed64_Encode append_Nil2)

lemma FindTable_finds:
  assumes "snappy_ok sn" "disk_ok open_f sn dbname o1 d" "tables_ok sn dbname o1 d tc" "d num = Some bs"
  obtains h tc1 in_buf where "FindTable open_f sn new_id num (file_size_of sn o1 bs) tc = (OK, Some h, tc1)"
    "opened sn o1 bs in_buf (handle_table_of tc1 h)" "tables_ok sn dbname o1 d tc1" "tables_ok sn dbname o1 d (UnrefEntry h tc1)"
proof -
  let ?Q = "table_of_disk sn o1 d" and ?k = "EncodeFixed64 num"
  note t = assms(3) [unfolded tables_ok_def]
  obtain r ca where r: "sharded_Lookup ?k (tc_cache tc) = (r, ca)" by fastforce
  have L: "sharded_ok ?Q ca" "\<And>h. r = Some h \<Longrightarrow> ?Q ?k (sharded_Value ca h) \<and> fresh_handle ?Q ca h"
    using sharded_Lookup_value [OF _ r, of ?Q] t by simp_all
  show ?thesis
  proof (cases r)
    case (Some h)
    then have h: "?Q ?k (sharded_Value ca h)" "fresh_handle ?Q ca h" using L(2) by simp_all
    obtain in_buf where "opened sn o1 bs in_buf (taf_table (sharded_Value ca h))" using h(1) assms(4) by (auto simp: table_of_disk_def)
    moreover have "FindTable open_f sn new_id num (file_size_of sn o1 bs) tc = (OK, Some h, tc\<lparr>tc_cache := ca\<rparr>)"
      using r Some by (simp add: FindTable_def)
    ultimately show ?thesis
      using that t h(2) by (simp add: handle_table_of_def tables_ok_def fresh_handle_def UnrefEntry_def)
  next
    case None
    obtain in_buf where f: "table_fits sn o1 bs"
        "open_table_file open_f dbname num = (OK, Some (memory_file in_buf (table_image sn o1 bs)))"
      using assms(2,4) by (auto simp: disk_ok_def)
    obtain tb where tb: "Table_Open sn o1 (memory_file in_buf (table_image sn o1 bs)) (file_size_of sn o1 bs) new_id = (OK, Some tb)"
        "opened sn o1 bs in_buf tb"
      unfolding file_size_of_def using table_opens [OF assms(1) f(1)] by blast
    let ?v = "\<lparr>taf_file = memory_file in_buf (table_image sn o1 bs), taf_table = tb\<rparr>"
    obtain h ca' where i: "sharded_Insert ?k ?v 1 ca = (h, ca')" by fastforce
    have "?Q ?k ?v" using tb(2) assms(4) by (auto simp: table_of_disk_def dest!: EncodeFixed64_inj)
    from sharded_Insert_value [OF L(1) i this] have "sharded_Value ca' h = ?v" "fresh_handle ?Q ca' h" by simp_all
    moreover have "FindTable open_f sn new_id num (file_size_of sn o1 bs) tc = (OK, Some h, tc\<lparr>tc_cache := ca'\<rparr>)"
      using r None f(2) tb(1) i t by (simp add: FindTable_def Let_def)
    ultimately show ?thesis
      using that tb(2) t by (simp add: handle_table_of_def tables_ok_def fresh_handle_def UnrefEntry_def)
  qed
qed

end
