(* ===== verification/Ldb_Version_Props.thy ===== *)
theory Ldb_Version_Props
  imports Ldb_Version Ldb_Table_Cache_Props Ldb_Db_Reads
begin

text \<open>
  Versions are read correctly: the searches for files find the files they promise, and \<open>Version::Get\<close> finds the
  first visible entry of a key in the order in which the files are searched.
\<close>

section \<open>Finding files\<close>

lemma find_file_loop_first:
  assumes "left \<le> right" "right \<le> length files"
    "\<forall>i j. i < j \<longrightarrow> j < length files \<longrightarrow> internal_compare c (large_key hp (files ! j)) key < 0 \<longrightarrow>
      internal_compare c (large_key hp (files ! i)) key < 0"
    "\<forall>i<left. internal_compare c (large_key hp (files ! i)) key < 0"
    "\<forall>i. right \<le> i \<longrightarrow> i < length files \<longrightarrow> \<not> internal_compare c (large_key hp (files ! i)) key < 0"
  shows "find_file_loop c hp files key left right =
    length (takeWhile (\<lambda>a. internal_compare c (large_key hp a) key < 0) files)"
  using assms
proof (induction "right - left" arbitrary: left right rule: less_induct)
  case less
  let ?P = "\<lambda>a. internal_compare c (large_key hp a) key < 0"
  show ?case
  proof (cases "left < right")
    case True
    define mid where "mid = (left + right) div 2"
    have m: "left \<le> mid" "mid < right" unfolding mid_def using True by auto
    have e: "find_file_loop c hp files key left right =
        (if ?P (files ! mid) then find_file_loop c hp files key (mid + 1) right else find_file_loop c hp files key left mid)"
      using True by (subst find_file_loop.simps) (simp add: mid_def Let_def)
    show ?thesis
    proof (cases "?P (files ! mid)")
      case True
      have "\<forall>i<mid + 1. ?P (files ! i)"
      proof (intro allI impI)
        fix i assume "i < mid + 1"
        then consider "i < mid" | "i = mid" by linarith
        then show "?P (files ! i)" using True less.prems(2,3) m by cases auto
      qed
      with less.hyps [of right "mid + 1"] less.prems m True show ?thesis unfolding e by simp
    next
      case False
      have "\<forall>i. mid \<le> i \<longrightarrow> i < length files \<longrightarrow> \<not> ?P (files ! i)"
        using False less.prems(3) le_eq_less_or_eq by metis
      with less.hyps [of mid left] less.prems m False show ?thesis unfolding e by simp
    qed
  next
    case False
    then have lr: "left = right" using less.prems(1) by simp
    have t: "takeWhile ?P files = take right files"
    proof (rule takeWhile_eq_take_P_nth)
      show "?P (files ! i)" if "i < right" "i < length files" for i using less.prems(4) that lr by blast
      show "\<not> ?P (files ! right)" if "right < length files" using less.prems(5) that by blast
    qed
    show ?thesis using lr less.prems(2) t by (subst find_file_loop.simps) simp
  qed
qed

section \<open>The entries of a version\<close>

text \<open>\<open>ct\<close> gives the entries of a file; its keys are those of its entries.\<close>

definition file_ok :: "comparator \<Rightarrow> file_heap \<Rightarrow> (nat \<Rightarrow> entry list) \<Rightarrow> nat \<Rightarrow> bool" where
  "file_ok c hp ct a \<longleftrightarrow> ct a \<noteq> [] \<and> ascending_keys (InternalKeyComparator c) (map ikey (ct a)) \<and>
     small_key hp a = ikey (hd (ct a)) \<and> large_key hp a = ikey (last (ct a)) \<and>
     (\<forall>e\<in>set (ct a). key_sequence (fst e) \<le> kMaxSequenceNumber)"

definition level_ok :: "comparator \<Rightarrow> file_heap \<Rightarrow> nat list \<Rightarrow> bool" where
  "level_ok c hp files \<longleftrightarrow> sorted_wrt (\<lambda>a b. internal_compare c (large_key hp a) (small_key hp b) < 0) files"

definition version_ok :: "comparator \<Rightarrow> file_heap \<Rightarrow> (nat \<Rightarrow> entry list) \<Rightarrow> version \<Rightarrow> bool" where
  "version_ok c hp ct v \<longleftrightarrow> length (v_files v) = kNumLevels \<and>
     (\<forall>level<kNumLevels. (\<forall>a\<in>set (level_files v level). file_ok c hp ct a) \<and> (0 < level \<longrightarrow> level_ok c hp (level_files v level)))"

text \<open>The entries in the order in which the files are searched.\<close>

definition search_order :: "file_heap \<Rightarrow> version \<Rightarrow> nat \<Rightarrow> nat list" where
  "search_order hp v level = (if level = 0 then NewestFirst hp (level_files v level) else level_files v level)"

definition files_entries :: "(nat \<Rightarrow> entry list) \<Rightarrow> nat list \<Rightarrow> entry list" where
  "files_entries ct as = concat (map ct as)"

definition version_entries :: "file_heap \<Rightarrow> (nat \<Rightarrow> entry list) \<Rightarrow> version \<Rightarrow> entry list" where
  "version_entries hp ct v = concat (map (\<lambda>level. files_entries ct (search_order hp v level)) [0..<kNumLevels])"

definition sees :: "slice \<Rightarrow> u64 \<Rightarrow> entry \<Rightarrow> bool" where "sees u s e \<longleftrightarrow> user_of e = u \<and> in_snapshot s e"

definition first_visible :: "slice \<Rightarrow> u64 \<Rightarrow> entry list \<Rightarrow> entry option" where "first_visible u s es = find (sees u s) es"

lemma first_visible_append: "first_visible u s (xs @ ys) = (case first_visible u s xs of None \<Rightarrow> first_visible u s ys | Some e \<Rightarrow> Some e)"
  by (induction xs) (simp_all add: first_visible_def)

lemma first_visible_None: "first_visible u s es = None \<longleftrightarrow> (\<forall>e\<in>set es. \<not> sees u s e)"
  unfolding first_visible_def find_None_iff by blast

lemma first_visible_nil [simp]: "first_visible u s [] = None" by (simp add: first_visible_def)

lemma first_visible_Some: "first_visible u s es = Some e \<Longrightarrow> e \<in> set es \<and> sees u s e"
  by (auto simp: first_visible_def find_Some_iff in_set_conv_nth)

lemma files_entries_simps [simp]:
  "files_entries ct [] = []" "files_entries ct (a # as) = ct a @ files_entries ct as"
  "files_entries ct (as @ bs) = files_entries ct as @ files_entries ct bs"
  by (simp_all add: files_entries_def)

lemma files_entries_filter:
  "(\<And>a. a \<in> set as \<Longrightarrow> \<not> P a \<Longrightarrow> first_visible u s (ct a) = None) \<Longrightarrow>
    first_visible u s (files_entries ct (filter P as)) = first_visible u s (files_entries ct as)"
  by (induction as) (auto simp: first_visible_append split: option.split)

lemma NewestFirst_filter: "NewestFirst hp (filter P as) = filter P (NewestFirst hp as)"
  by (simp add: NewestFirst_def filter_sort)

lemma set_NewestFirst [simp]: "set (NewestFirst hp as) = set as"
  by (simp add: NewestFirst_def)

context user_order
begin

lemma internal_less_trans: "internal_compare c x y < 0 \<Longrightarrow> internal_compare c y z < 0 \<Longrightarrow> internal_compare c x z < 0"
  using internal.compare_trans [of x y z] by simp

lemma file_bounds:
  assumes "file_ok c hp ct a" "e \<in> set (ct a)"
  shows "ikey e = small_key hp a \<or> internal_compare c (small_key hp a) (ikey e) < 0"
    "ikey e = large_key hp a \<or> internal_compare c (ikey e) (large_key hp a) < 0"
proof -
  note f = assms(1) [unfolded file_ok_def]
  have asc: "sorted_wrt (\<lambda>x y. internal_compare c x y < 0) (map ikey (ct a))" using f by (simp add: ascending_keys_def)
  obtain x xs where x: "ct a = x # xs" using f by (cases "ct a") auto
  then show "ikey e = small_key hp a \<or> internal_compare c (small_key hp a) (ikey e) < 0" using asc f assms(2) by auto
  obtain ys y where y: "ct a = ys @ [y]" using f by (cases "ct a" rule: rev_cases) auto
  then show "ikey e = large_key hp a \<or> internal_compare c (ikey e) (large_key hp a) < 0"
    using asc f assms(2) by (auto simp: sorted_wrt_append)
qed

lemma file_range:
  assumes "file_ok c hp ct a" "e \<in> set (ct a)"
  shows "in_file_range c hp (user_of e) a"
proof -
  have "Compare c (ExtractUserKey (small_key hp a)) (user_of e) \<le> 0" "Compare c (user_of e) (ExtractUserKey (large_key hp a)) \<le> 0"
    using file_bounds [OF assms] user_zero by (auto simp: internal_less) (metis ikey_parts(1) order_refl user_zero)+
  then show ?thesis using compare_flip [of "user_of e" "ExtractUserKey (small_key hp a)"] by (auto simp: in_file_range_def)
qed

text \<open>What is seen at a lookup key is at or behind it.\<close>

lemma sees_iff:
  assumes "s \<le> kMaxSequenceNumber" "key_sequence (fst e) \<le> kMaxSequenceNumber" "user_of e = u"
  shows "in_snapshot s e \<longleftrightarrow> \<not> internal_compare c (ikey e) (lookup_internal_key (LookupKey u s)) < 0"
  using pack_le(1) [OF assms(2,1), of "key_type (fst e)"] assms(3) compare_eq [of u u]
  by (auto simp: internal_less in_snapshot_def not_less)

lemma large_mono:
  assumes "level_ok c hp files" "\<forall>a\<in>set files. file_ok c hp ct a" "i < j" "j < length files"
  shows "internal_compare c (large_key hp (files ! i)) (large_key hp (files ! j)) < 0"
proof -
  have s: "internal_compare c (large_key hp (files ! i)) (small_key hp (files ! j)) < 0"
    using assms(1,3,4) by (simp add: level_ok_def sorted_wrt_iff_nth_less)
  have f: "file_ok c hp ct (files ! j)" using assms(2,4) by simp
  then have "last (ct (files ! j)) \<in> set (ct (files ! j))" "large_key hp (files ! j) = ikey (last (ct (files ! j)))"
    by (simp_all add: file_ok_def)
  with file_bounds(1) [OF f] s internal_less_trans show ?thesis by metis
qed

lemma FindFile_first:
  assumes "level_ok c hp files" "\<forall>a\<in>set files. file_ok c hp ct a"
  shows "FindFile c hp files key = length (takeWhile (\<lambda>a. internal_compare c (large_key hp a) key < 0) files)"
  unfolding FindFile_def
proof (rule find_file_loop_first)
  show "\<forall>i j. i < j \<longrightarrow> j < length files \<longrightarrow> internal_compare c (large_key hp (files ! j)) key < 0 \<longrightarrow>
      internal_compare c (large_key hp (files ! i)) key < 0"
    using large_mono [OF assms] internal_less_trans by blast
qed simp_all

text \<open>The files that are not searched hold nothing that is visible.\<close>

lemma search_complete:
  assumes "version_ok c hp ct v" "level < kNumLevels" "s \<le> kMaxSequenceNumber"
  shows "first_visible u s (files_entries ct (files_to_search c hp v (lookup_internal_key (LookupKey u s)) u level)) =
    first_visible u s (files_entries ct (search_order hp v level))"
proof -
  let ?k = "lookup_internal_key (LookupKey u s)" and ?fs = "level_files v level"
  have ok: "\<forall>a\<in>set ?fs. file_ok c hp ct a" using assms(1,2) by (simp add: version_ok_def)
  have out: "first_visible u s (ct a) = None" if "a \<in> set ?fs" "\<not> in_file_range c hp u a" for a
    using file_range [of hp ct a] ok that by (auto simp: first_visible_None sees_def)
  show ?thesis
  proof (cases "level = 0")
    case True
    have "files_to_search c hp v ?k u level = NewestFirst hp (filter (in_file_range c hp u) ?fs)"
      using True by (simp add: files_to_search_def Let_def NewestFirst_def)
    moreover have "first_visible u s (files_entries ct (filter (in_file_range c hp u) (NewestFirst hp ?fs))) =
        first_visible u s (files_entries ct (NewestFirst hp ?fs))"
      by (rule files_entries_filter) (use out in simp)
    ultimately show ?thesis using True by (simp add: NewestFirst_filter search_order_def)
  next
    case False
    then have lo: "level_ok c hp ?fs" using assms(1,2) by (simp add: version_ok_def)
    let ?P = "\<lambda>a. internal_compare c (large_key hp a) ?k < 0"
    define i where "i = FindFile c hp ?fs ?k"
    have i: "i = length (takeWhile ?P ?fs)" unfolding i_def by (rule FindFile_first [OF lo ok])
    have il: "i \<le> length ?fs" unfolding i by (rule length_takeWhile_le)
    have split: "?fs = takeWhile ?P ?fs @ drop i ?fs" unfolding i by (simp add: dropWhile_eq_drop [symmetric])
    have seen: "\<not> internal_compare c (ikey e) ?k < 0" if "e \<in> set (ct a)" "a \<in> set ?fs" "sees u s e" for a e
      using sees_iff [OF assms(3), of e u] that ok by (auto simp: sees_def file_ok_def)
    have "first_visible u s (files_entries ct (takeWhile ?P ?fs)) = None"
    proof -
      have "\<not> sees u s e" if a: "a \<in> set (takeWhile ?P ?fs)" "e \<in> set (ct a)" for a e
      proof
        assume v: "sees u s e"
        have f: "a \<in> set ?fs" "?P a" using set_takeWhileD [OF a(1)] by simp_all
        then have "internal_compare c (ikey e) ?k < 0"
          using file_bounds(2) [of hp ct a e] ok a(2) internal_less_trans by metis
        then show False using seen [OF a(2) f(1) v] by simp
      qed
      then show ?thesis by (auto simp: first_visible_None files_entries_def)
    qed
    then have before: "first_visible u s (files_entries ct ?fs) = first_visible u s (files_entries ct (drop i ?fs))"
      by (subst split) (simp add: first_visible_append)
    have tosearch: "files_to_search c hp v ?k u level =
        (if length ?fs \<le> i \<or> Compare c u (ExtractUserKey (small_key hp (?fs ! i))) < 0 then [] else [?fs ! i])"
      using False il by (auto simp: files_to_search_def Let_def i_def [symmetric])
    show ?thesis
    proof (cases "length ?fs \<le> i")
      case True
      then show ?thesis using False before tosearch by (simp add: search_order_def)
    next
      case l: False
      let ?a = "?fs ! i"
      have a: "?a \<in> set ?fs" "file_ok c hp ct ?a" "drop i ?fs = ?a # drop (Suc i) ?fs"
        using l ok by (simp_all add: Cons_nth_drop_Suc)
      have np: "\<not> ?P ?a" unfolding i by (rule nth_length_takeWhile) (use l i in simp)
      have later: "first_visible u s (files_entries ct (drop (Suc i) ?fs)) = None"
        if n: "\<not> sees u s (last (ct ?a))"
      proof -
        have la: "last (ct ?a) \<in> set (ct ?a)" "large_key hp ?a = ikey (last (ct ?a))" using a(2) by (simp_all add: file_ok_def)
        have lt: "Compare c u (user_of (last (ct ?a))) < 0"
        proof (rule ccontr)
          assume "\<not> Compare c u (user_of (last (ct ?a))) < 0"
          moreover have "Compare c u (user_of (last (ct ?a))) \<le> 0"
            using np la(2) compare_flip [of "user_of (last (ct ?a))" u] by (auto simp: internal_less)
          ultimately have u: "user_of (last (ct ?a)) = u" using user_zero by (metis le_less)
          have "key_sequence (fst (last (ct ?a))) \<le> kMaxSequenceNumber" using a(2) la(1) by (simp add: file_ok_def)
          with sees_iff [OF assms(3) this u] np la(2) u n show False by (simp add: sees_def)
        qed
        have le: "Compare c (user_of (last (ct ?a))) (user_of e) \<le> 0" if b: "b \<in> set (drop (Suc i) ?fs)" "e \<in> set (ct b)" for b e
        proof -
          obtain j where "i < j" "j < length ?fs" "b = ?fs ! j"
          proof -
            obtain n where "n < length (drop (Suc i) ?fs)" "b = drop (Suc i) ?fs ! n" using b(1) by (metis in_set_conv_nth)
            then show thesis by (intro that [of "Suc i + n"]) simp_all
          qed
          then have "internal_compare c (large_key hp ?a) (small_key hp b) < 0" "file_ok c hp ct b"
            using lo ok by (simp_all add: level_ok_def sorted_wrt_iff_nth_less)
          then have "internal_compare c (ikey (last (ct ?a))) (ikey e) < 0"
            using file_bounds(1) [of hp ct b e] b(2) internal_less_trans la(2) by metis
          then show ?thesis using compare_eq by (auto simp: internal_less)
        qed
        have "\<not> sees u s e" if b: "b \<in> set (drop (Suc i) ?fs)" "e \<in> set (ct b)" for b e
          using lt le [OF b] compare_flip [of u "user_of (last (ct ?a))"] by (metis sees_def not_less)
        then show ?thesis by (auto simp: first_visible_None files_entries_def)
      qed
      have "first_visible u s (files_entries ct (drop i ?fs)) = first_visible u s (ct ?a)"
      proof (cases "first_visible u s (ct ?a)")
        case None
        moreover have "last (ct ?a) \<in> set (ct ?a)" using a(2) by (simp add: file_ok_def)
        ultimately have "first_visible u s (files_entries ct (drop (Suc i) ?fs)) = None"
          by (intro later) (auto simp: first_visible_None)
        then show ?thesis using None a(3) by (simp add: first_visible_append)
      next
        case (Some e)
        then show ?thesis using a(3) by (simp add: first_visible_append)
      qed
      moreover have "first_visible u s (ct ?a) = None" if "Compare c u (ExtractUserKey (small_key hp ?a)) < 0"
        using out [OF a(1)] that by (simp add: in_file_range_def)
      ultimately show ?thesis using False before tosearch l by (auto simp: search_order_def)
    qed
  qed
qed

end

section \<open>Ranges of files\<close>

text \<open>The file has a user key in the range, and the file lies in the range.\<close>

definition meets :: "comparator \<Rightarrow> slice option \<Rightarrow> slice option \<Rightarrow> FileMetaData \<Rightarrow> bool" where
  "meets c b e f \<longleftrightarrow> \<not> (b \<noteq> None \<and> Compare c (ExtractUserKey (largest f)) (the b) < 0) \<and>
     \<not> (e \<noteq> None \<and> Compare c (ExtractUserKey (smallest f)) (the e) > 0)"

definition inside :: "comparator \<Rightarrow> slice option \<Rightarrow> slice option \<Rightarrow> FileMetaData \<Rightarrow> bool" where
  "inside c b e f \<longleftrightarrow> \<not> (b \<noteq> None \<and> Compare c (ExtractUserKey (smallest f)) (the b) < 0) \<and>
     \<not> (e \<noteq> None \<and> Compare c (ExtractUserKey (largest f)) (the e) > 0)"

text \<open>The range \<open>b'\<close>, \<open>e'\<close> contains the range \<open>b\<close>, \<open>e\<close>, and is unbounded where that is.\<close>

definition wider :: "comparator \<Rightarrow> slice option \<Rightarrow> slice option \<Rightarrow> slice option \<Rightarrow> slice option \<Rightarrow> bool" where
  "wider c b e b' e' \<longleftrightarrow> (b' = None \<longleftrightarrow> b = None) \<and> (e' = None \<longleftrightarrow> e = None) \<and>
     (b \<noteq> None \<longrightarrow> Compare c (the b') (the b) \<le> 0) \<and> (e \<noteq> None \<longrightarrow> Compare c (the e) (the e') \<le> 0)"

text \<open>A range that no file reaches out of.\<close>

definition closed_range :: "comparator \<Rightarrow> file_heap \<Rightarrow> nat list \<Rightarrow> slice option \<Rightarrow> slice option \<Rightarrow> bool" where
  "closed_range c hp files b e \<longleftrightarrow> (\<forall>a\<in>set files. meets c b e (fm hp a) \<longrightarrow> inside c b e (fm hp a))"

text \<open>How many files reach out of the range: the measure of the restarts.\<close>

definition reach :: "comparator \<Rightarrow> file_heap \<Rightarrow> nat list \<Rightarrow> slice option \<Rightarrow> slice option \<Rightarrow> nat" where
  "reach c hp files b e =
     length (filter (\<lambda>a. b \<noteq> None \<and> Compare c (ExtractUserKey (small_key hp a)) (the b) < 0) files) +
     length (filter (\<lambda>a. e \<noteq> None \<and> Compare c (ExtractUserKey (large_key hp a)) (the e) > 0) files)"

lemma filter_shrinks:
  assumes "a \<in> set xs" "P a" "\<not> Q a" "\<And>x. Q x \<Longrightarrow> P x"
  shows "length (filter Q xs) < length (filter P xs)"
proof -
  have "filter Q xs = filter Q (filter P xs)" using assms(4) by (auto intro: filter_cong)
  moreover have "length (filter Q (filter P xs)) < length (filter P xs)" by (rule length_filter_less [of a]) (use assms in auto)
  ultimately show ?thesis by simp
qed

context user_order
begin

lemma le_less_user: "Compare c x y \<le> 0 \<Longrightarrow> Compare c y z < 0 \<Longrightarrow> Compare c x z < 0"
  using compare_eq [of x y] compare_trans [of x y z] by (cases "Compare c x y = 0") auto

lemma less_le_user: "Compare c x y < 0 \<Longrightarrow> Compare c y z \<le> 0 \<Longrightarrow> Compare c x z < 0"
  using compare_eq [of y z] compare_trans [of x y z] by (cases "Compare c y z = 0") auto

lemma le_user: "Compare c x y \<le> 0 \<longleftrightarrow> \<not> Compare c y x < 0"
  using compare_flip [of y x] by auto

lemma wider_refl: "wider c b e b e"
  by (auto simp: wider_def)

lemma wider_trans: "wider c b e b1 e1 \<Longrightarrow> wider c b1 e1 b2 e2 \<Longrightarrow> wider c b e b2 e2"
  unfolding wider_def using compare_le_trans by auto

lemma wider_low: "b \<noteq> None \<Longrightarrow> Compare c x (the b) < 0 \<Longrightarrow> wider c b e (Some x) e"
  by (auto simp: wider_def)

lemma wider_high: "e \<noteq> None \<Longrightarrow> Compare c x (the e) > 0 \<Longrightarrow> wider c b e b (Some x)"
  using compare_flip [of "the e" x] by (auto simp: wider_def)

lemma reach_low:
  assumes "a \<in> set files" "b \<noteq> None" "Compare c (ExtractUserKey (small_key hp a)) (the b) < 0"
  shows "reach c hp files (Some (ExtractUserKey (small_key hp a))) e < reach c hp files b e"
proof -
  let ?f = "\<lambda>b x. b \<noteq> None \<and> Compare c (ExtractUserKey (small_key hp x)) (the b) < 0"
  have "length (filter (?f (Some (ExtractUserKey (small_key hp a)))) files) < length (filter (?f b) files)"
    by (rule filter_shrinks [OF assms(1)]) (use assms(2,3) compare_eq in \<open>auto intro: compare_trans\<close>)
  then show ?thesis unfolding reach_def by linarith
qed

lemma reach_high:
  assumes "a \<in> set files" "e \<noteq> None" "Compare c (ExtractUserKey (large_key hp a)) (the e) > 0"
  shows "reach c hp files b (Some (ExtractUserKey (large_key hp a))) < reach c hp files b e"
proof -
  let ?f = "\<lambda>e x. e \<noteq> None \<and> Compare c (ExtractUserKey (large_key hp x)) (the e) > 0"
  have "length (filter (?f (Some (ExtractUserKey (large_key hp a)))) files) < length (filter (?f e) files)"
  proof (rule filter_shrinks [OF assms(1)])
    show "?f e x" if "?f (Some (ExtractUserKey (large_key hp a))) x" for x
      using that assms(2,3) compare_trans [of "the e" "ExtractUserKey (large_key hp a)" "ExtractUserKey (large_key hp x)"]
      by (simp add: compare_flip [symmetric])
  qed (use assms(2,3) compare_eq in auto)
  then show ?thesis unfolding reach_def by linarith
qed

text \<open>The range of the result contains the given one, and every closed range with it.\<close>

lemma overlap_loop_finds:
  assumes "i \<le> length files" "inputs = filter (\<lambda>a. meets c b e (fm hp a)) (take i files)"
    "level0 \<longrightarrow> (\<forall>a\<in>set inputs. inside c b e (fm hp a))"
  shows "\<exists>b' e'. overlap_loop c hp level0 files i b e inputs = Some (filter (\<lambda>a. meets c b' e' (fm hp a)) files) \<and>
    wider c b e b' e' \<and> (\<not> level0 \<longrightarrow> b' = b \<and> e' = e) \<and> (level0 \<longrightarrow> closed_range c hp files b' e') \<and>
    (\<forall>B E. wider c b e B E \<and> closed_range c hp files B E \<longrightarrow> wider c b' e' B E)"
  using assms
proof (induction "(reach c hp files b e, length files - i)" arbitrary: i b e inputs rule: wf_induct_rule [OF wf_lex_prod [OF wf_less wf_less]])
  case (1 i b e inputs)
  note IH = "1.hyps" and prems = "1.prems"
  show ?case
  proof (cases "i < length files")
    case False
    then have "i = length files" using prems(1) by simp
    then have "overlap_loop c hp level0 files i b e inputs = Some (filter (\<lambda>a. meets c b e (fm hp a)) files)"
      using prems(2) by (subst overlap_loop.simps) simp
    moreover have "level0 \<longrightarrow> closed_range c hp files b e"
      using prems(2,3) \<open>i = length files\<close> by (auto simp: closed_range_def)
    ultimately show ?thesis using wider_refl by blast
  next
    case True
    let ?f = "fm hp (files ! i)"
    let ?s = "ExtractUserKey (smallest ?f)" and ?l = "ExtractUserKey (largest ?f)"
    have mem: "files ! i \<in> set files" using True by simp
    have tk: "take (Suc i) files = take i files @ [files ! i]" using True by (rule take_Suc_conv_app_nth)
    have step: "overlap_loop c hp level0 files i b e inputs =
        (if \<not> meets c b e ?f then overlap_loop c hp level0 files (Suc i) b e inputs
         else if level0 \<and> b \<noteq> None \<and> Compare c ?s (the b) < 0 then overlap_loop c hp level0 files 0 (Some ?s) e []
         else if level0 \<and> e \<noteq> None \<and> Compare c ?l (the e) > 0 then overlap_loop c hp level0 files 0 b (Some ?l) []
         else overlap_loop c hp level0 files (Suc i) b e (inputs @ [files ! i]))"
      unfolding overlap_loop.simps [of c hp level0 files i b e inputs] using True
      by (cases "b \<noteq> None \<and> Compare c ?l (the b) < 0"; cases "e \<noteq> None \<and> Compare c ?s (the e) > 0")
        (simp_all only: Let_def meets_def if_True if_False Suc_eq_plus1 simp_thms)
    have widen: ?thesis if r: "reach c hp files b1 e1 < reach c hp files b e" "level0" "wider c b e b1 e1"
        "overlap_loop c hp level0 files i b e inputs = overlap_loop c hp level0 files 0 b1 e1 []"
        "\<And>B E. wider c b e B E \<Longrightarrow> closed_range c hp files B E \<Longrightarrow> wider c b1 e1 B E" for b1 e1
    proof -
      have "\<exists>b' e'. overlap_loop c hp level0 files 0 b1 e1 [] = Some (filter (\<lambda>a. meets c b' e' (fm hp a)) files) \<and>
          wider c b1 e1 b' e' \<and> (\<not> level0 \<longrightarrow> b' = b1 \<and> e' = e1) \<and> (level0 \<longrightarrow> closed_range c hp files b' e') \<and>
          (\<forall>B E. wider c b1 e1 B E \<and> closed_range c hp files B E \<longrightarrow> wider c b' e' B E)"
        by (rule IH) (use r(1) in simp_all)
      then obtain b' e' where h: "overlap_loop c hp level0 files 0 b1 e1 [] = Some (filter (\<lambda>a. meets c b' e' (fm hp a)) files)"
          "wider c b1 e1 b' e'" "closed_range c hp files b' e'"
          "\<And>B E. wider c b1 e1 B E \<Longrightarrow> closed_range c hp files B E \<Longrightarrow> wider c b' e' B E"
        using r(2) by blast
      show ?thesis
        by (intro exI [of _ b'] exI [of _ e'] conjI) (use h r(2,4,5) wider_trans [OF r(3)] in auto)
    qed
    have shift: ?thesis if r: "overlap_loop c hp level0 files i b e inputs = overlap_loop c hp level0 files (Suc i) b e inputs'"
        "inputs' = filter (\<lambda>a. meets c b e (fm hp a)) (take (Suc i) files)"
        "level0 \<longrightarrow> (\<forall>a\<in>set inputs'. inside c b e (fm hp a))" for inputs'
      unfolding r(1) by (rule IH) (use True r(2,3) in auto)
    have in_closed: "inside c B E ?f" if "wider c b e B E" "closed_range c hp files B E" "meets c b e ?f" for B E
    proof -
      have "meets c B E ?f"
        using that(1,3) unfolding meets_def wider_def
        by (metis less_le_user le_less_user compare_flip le_user)
      then show ?thesis using that(2) mem by (simp add: closed_range_def)
    qed
    consider "\<not> meets c b e ?f" | "meets c b e ?f" "level0" "b \<noteq> None" "Compare c ?s (the b) < 0"
      | "meets c b e ?f" "level0" "\<not> (b \<noteq> None \<and> Compare c ?s (the b) < 0)" "e \<noteq> None" "Compare c ?l (the e) > 0"
      | "meets c b e ?f" "\<not> (level0 \<and> b \<noteq> None \<and> Compare c ?s (the b) < 0)" "\<not> (level0 \<and> e \<noteq> None \<and> Compare c ?l (the e) > 0)"
      by blast
    then show ?thesis
    proof cases
      case 1
      show ?thesis by (rule shift [of inputs]) (use 1 step tk prems(2,3) in auto)
    next
      case 2
      show ?thesis
      proof (rule widen [OF reach_low [OF mem 2(3,4)] 2(2) wider_low [OF 2(3,4)]])
        show "overlap_loop c hp level0 files i b e inputs = overlap_loop c hp level0 files 0 (Some ?s) e []" using 2 step by simp
        show "wider c (Some ?s) e B E" if "wider c b e B E" "closed_range c hp files B E" for B E
          using in_closed [OF that 2(1)] that(1) 2(3) le_user by (auto simp: wider_def inside_def)
      qed
    next
      case 3
      show ?thesis
      proof (rule widen [OF reach_high [OF mem 3(4,5)] 3(2) wider_high [OF 3(4,5)]])
        show "overlap_loop c hp level0 files i b e inputs = overlap_loop c hp level0 files 0 b (Some ?l) []" using 3 step by auto
        show "wider c b (Some ?l) B E" if "wider c b e B E" "closed_range c hp files B E" for B E
          using in_closed [OF that 3(1)] that(1) 3(4) by (auto simp: wider_def inside_def not_less)
      qed
    next
      case 4
      show ?thesis by (rule shift [of "inputs @ [files ! i]"]) (use 4 step tk prems(2,3) in \<open>auto simp: inside_def\<close>)
    qed
  qed
qed

lemma GetOverlappingInputs_finds:
  "\<exists>b' e'. GetOverlappingInputs c hp v level b e = Some (filter (\<lambda>a. meets c b' e' (fm hp a)) (level_files v level)) \<and>
    wider c (map_option ExtractUserKey b) (map_option ExtractUserKey e) b' e' \<and>
    (0 < level \<longrightarrow> b' = map_option ExtractUserKey b \<and> e' = map_option ExtractUserKey e) \<and>
    (level = 0 \<longrightarrow> closed_range c hp (level_files v level) b' e') \<and>
    (\<forall>B E. wider c (map_option ExtractUserKey b) (map_option ExtractUserKey e) B E \<and> closed_range c hp (level_files v level) B E \<longrightarrow>
      wider c b' e' B E)"
  using overlap_loop_finds [of 0 "level_files v level" "[]" "map_option ExtractUserKey b" "map_option ExtractUserKey e" hp "level = 0"]
  unfolding GetOverlappingInputs_def by simp

text \<open>The search by halves.\<close>

lemma earliest_less:
  assumes "file_ok c hp ct a"
  shows "internal_compare c (large_key hp a) (InternalKey_EncodeOf k kMaxSequenceNumber kValueTypeForSeek) < 0 \<longleftrightarrow>
    Compare c (ExtractUserKey (large_key hp a)) k < 0"
proof -
  have l: "large_key hp a = ikey (last (ct a))" "key_sequence (fst (last (ct a))) \<le> kMaxSequenceNumber"
    using assms by (simp_all add: file_ok_def)
  have "PackSequenceAndType (key_sequence (fst (last (ct a)))) (key_type (fst (last (ct a)))) \<le> PackSequenceAndType kMaxSequenceNumber kTypeValue"
    using pack_le(1) [OF l(2), of kMaxSequenceNumber] l(2) by simp
  then show ?thesis
    by (simp add: internal_less l(1) InternalKey_EncodeOf_def AppendInternalKey_def kValueTypeForSeek_def not_less [symmetric])
qed

lemma small_user_mono:
  assumes "level_ok c hp files" "\<forall>a\<in>set files. file_ok c hp ct a" "i \<le> j" "j < length files"
  shows "Compare c (ExtractUserKey (small_key hp (files ! i))) (ExtractUserKey (small_key hp (files ! j))) \<le> 0"
proof (cases "i = j")
  case True
  then show ?thesis using compare_eq by simp
next
  case False
  then have s: "internal_compare c (large_key hp (files ! i)) (small_key hp (files ! j)) < 0"
    using assms(1,3,4) by (simp add: level_ok_def sorted_wrt_iff_nth_less)
  have f: "file_ok c hp ct (files ! i)" using assms(2-4) by simp
  then have "last (ct (files ! i)) \<in> set (ct (files ! i))" "large_key hp (files ! i) = ikey (last (ct (files ! i)))"
    by (simp_all add: file_ok_def)
  with file_bounds(1) [OF f] s internal_less_trans have "internal_compare c (small_key hp (files ! i)) (small_key hp (files ! j)) < 0" by metis
  then show ?thesis using compare_eq by (auto simp: internal_less)
qed

lemma overlap_search_eq:
  assumes "level_ok c hp files" "\<forall>a\<in>set files. file_ok c hp ct a"
  shows "SomeFileOverlapsRange c hp True files small large = SomeFileOverlapsRange c hp False files small large"
proof -
  let ?A = "\<lambda>a. AfterFile c small (fm hp a)" and ?B = "\<lambda>a. BeforeFile c large (fm hp a)"
  define i where "i = length (takeWhile ?A files)"
  have mono: "?A (files ! k)" if a: "?A (files ! j)" "k \<le> j" "j < length files" for j k
  proof -
    obtain x where x: "small = Some x" "Compare c x (ExtractUserKey (large_key hp (files ! j))) > 0"
      using a(1) by (auto simp: AfterFile_def split: option.splits)
    have "Compare c (ExtractUserKey (large_key hp (files ! k))) (ExtractUserKey (large_key hp (files ! j))) \<le> 0"
      using large_mono [OF assms, of k j] a(2,3) compare_eq by (cases "k = j") (auto simp: internal_less)
    with x show ?thesis using le_less_user compare_flip by (auto simp: AfterFile_def)
  qed
  have idx: "(case small of None \<Rightarrow> 0 | Some k \<Rightarrow> FindFile c hp files (InternalKey_EncodeOf k kMaxSequenceNumber kValueTypeForSeek)) = i"
  proof (cases small)
    case None
    then show ?thesis by (cases files) (simp_all add: i_def AfterFile_def)
  next
    case (Some k)
    have "takeWhile (\<lambda>a. internal_compare c (large_key hp a) (InternalKey_EncodeOf k kMaxSequenceNumber kValueTypeForSeek) < 0) files = takeWhile ?A files"
      by (rule takeWhile_cong) (use Some assms(2) earliest_less compare_flip in \<open>auto simp: AfterFile_def\<close>)
    then show ?thesis using Some FindFile_first [OF assms] by (simp add: i_def)
  qed
  have before: "?B (files ! j)" if a: "?B (files ! i)" "i \<le> j" "j < length files" for j
  proof -
    obtain x where "large = Some x" "Compare c x (ExtractUserKey (small_key hp (files ! i))) < 0"
      using a(1) by (auto simp: BeforeFile_def split: option.splits)
    then show ?thesis using small_user_mono [OF assms a(2,3)] less_le_user by (auto simp: BeforeFile_def)
  qed
  have at: "\<not> ?A (files ! i)" if "i < length files" unfolding i_def by (rule nth_length_takeWhile) (use that i_def in simp)
  have "(\<exists>j<length files. \<not> ?A (files ! j) \<and> \<not> ?B (files ! j)) \<longleftrightarrow> i < length files \<and> \<not> ?B (files ! i)"
  proof
    assume "\<exists>j<length files. \<not> ?A (files ! j) \<and> \<not> ?B (files ! j)"
    then obtain j where j: "j < length files" "\<not> ?A (files ! j)" "\<not> ?B (files ! j)" by blast
    have "i \<le> j"
    proof (rule ccontr)
      assume "\<not> i \<le> j"
      then have "j < length (takeWhile ?A files)" by (simp add: i_def)
      then have "?A (files ! j)" using takeWhile_nth [of j ?A files] nth_mem set_takeWhileD by metis
      then show False using j(2) by simp
    qed
    then show "i < length files \<and> \<not> ?B (files ! i)" using before [OF _ _ j(1)] j by auto
  qed (use at in blast)
  then show ?thesis by (auto simp: SomeFileOverlapsRange_def Let_def idx list_ex_length)
qed

end

section \<open>Looking up a key\<close>

text \<open>What \<open>Version::Get\<close> needs of the table cache.  \<open>stored num sz es\<close> says that the file with this number and size
  holds the entries \<open>es\<close>.\<close>

definition saved :: "slice \<Rightarrow> slice \<Rightarrow> entry option \<Rightarrow> saver" where
  "saved u old r = \<lparr>sv_state = (case r of None \<Rightarrow> kNothing | Some e \<Rightarrow> if key_type (fst e) = kTypeValue then kFound else kDeleted),
     sv_user_key = u, sv_value = (case r of Some e \<Rightarrow> if key_type (fst e) = kTypeValue then snd e else old | None \<Rightarrow> old)\<rparr>"

locale table_gets = user_order c for c +
  fixes tget :: "'t table_get" and good :: "'t \<Rightarrow> bool" and stored :: "u64 \<Rightarrow> u64 \<Rightarrow> entry list \<Rightarrow> bool"
  assumes gets: "good t \<Longrightarrow> stored num sz es \<Longrightarrow> s \<le> kMaxSequenceNumber \<Longrightarrow>
    \<exists>t'. tget num sz (lookup_internal_key (LookupKey u s)) (SaveValue c) (saved u old None) t =
      (OK, saved u old (first_visible u s es), t') \<and> good t'"
begin

text \<open>What a lookup answers.\<close>

definition found :: "entry option \<Rightarrow> status option" where
  "found r = (case r of None \<Rightarrow> None
     | Some e \<Rightarrow> Some (if key_type (fst e) = kTypeValue then OK else status_msg Ldb_Base.kNotFound [] []))"

definition new_value :: "slice \<Rightarrow> entry option \<Rightarrow> slice" where
  "new_value old r = (case r of Some e \<Rightarrow> if key_type (fst e) = kTypeValue then snd e else old | None \<Rightarrow> old)"

definition all_stored :: "file_heap \<Rightarrow> (nat \<Rightarrow> entry list) \<Rightarrow> nat list \<Rightarrow> bool" where
  "all_stored hp ct as \<longleftrightarrow> (\<forall>a\<in>set as. stored (fm_number (fm hp a)) (file_size (fm hp a)) (ct a))"

definition answers :: "status option \<times> 't get_state \<Rightarrow> entry option \<Rightarrow> slice \<Rightarrow> bool" where
  "answers r e old \<longleftrightarrow> fst r = found e \<and> gs_value (snd r) = new_value old e \<and> good (gs_tables (snd r))"

lemma get_from_file_finds:
  assumes "stored (fm_number (fm hp a)) (file_size (fm hp a)) es" "s \<le> kMaxSequenceNumber" "good (gs_tables g)"
  shows "answers (get_from_file tget c hp (lookup_internal_key (LookupKey u s)) u level a g) (first_visible u s es) (gs_value g)"
proof -
  let ?g = "charge_seek a (int level) g" and ?k = "lookup_internal_key (LookupKey u s)"
  have g: "gs_value ?g = gs_value g" "gs_tables ?g = gs_tables g" by (simp_all add: charge_seek_def Let_def)
  obtain t' where t': "tget (fm_number (fm hp a)) (file_size (fm hp a)) ?k (SaveValue c) (saved u (gs_value g) None) (gs_tables g) =
      (OK, saved u (gs_value g) (first_visible u s es), t')" "good t'"
    using gets [OF assms(3,1,2)] by blast
  have "saved u (gs_value g) None = \<lparr>sv_state = kNothing, sv_user_key = u, sv_value = gs_value g\<rparr>" by (simp add: saved_def)
  then show ?thesis
    using t' unfolding get_from_file_def Let_def g
    by (cases "first_visible u s es") (simp_all add: answers_def found_def new_value_def saved_def)
qed

lemma get_from_files_finds:
  assumes "all_stored hp ct as" "s \<le> kMaxSequenceNumber" "good (gs_tables g)"
  shows "answers (get_from_files tget c hp (lookup_internal_key (LookupKey u s)) u level as g)
    (first_visible u s (files_entries ct as)) (gs_value g)"
  using assms
proof (induction as arbitrary: g)
  case Nil
  then show ?case by (simp add: answers_def found_def new_value_def)
next
  case (Cons a as)
  obtain r g1 where f: "get_from_file tget c hp (lookup_internal_key (LookupKey u s)) u level a g = (r, g1)" by fastforce
  have A: "answers (r, g1) (first_visible u s (ct a)) (gs_value g)"
    using get_from_file_finds [of hp a "ct a" s g u level] Cons.prems unfolding f by (simp add: all_stored_def)
  show ?case
  proof (cases "first_visible u s (ct a)")
    case None
    then have "r = None" "gs_value g1 = gs_value g" "good (gs_tables g1)" using A by (simp_all add: answers_def found_def new_value_def)
    with Cons.IH [of g1] Cons.prems None f show ?thesis by (simp add: first_visible_append all_stored_def)
  next
    case (Some e)
    then show ?thesis using A f by (auto simp: answers_def found_def first_visible_append split: option.split)
  qed
qed

lemma get_from_levels_finds:
  assumes "version_ok c hp ct v" "\<forall>level<kNumLevels. all_stored hp ct (level_files v level)" "set levels \<subseteq> {..<kNumLevels}"
    "s \<le> kMaxSequenceNumber" "good (gs_tables g)"
  shows "answers (get_from_levels tget c hp v (lookup_internal_key (LookupKey u s)) u levels g)
    (first_visible u s (concat (map (\<lambda>level. files_entries ct (search_order hp v level)) levels))) (gs_value g)"
  using assms(3,5)
proof (induction levels arbitrary: g)
  case Nil
  then show ?case by (simp add: answers_def found_def new_value_def)
next
  case (Cons level levels)
  let ?k = "lookup_internal_key (LookupKey u s)"
  define as where "as = files_to_search c hp v ?k u level"
  obtain r g1 where f: "get_from_files tget c hp ?k u level as g = (r, g1)" by fastforce
  have l: "level < kNumLevels" using Cons.prems by simp
  have "set as \<subseteq> set (level_files v level)"
    unfolding as_def by (auto simp: files_to_search_def Let_def split: if_splits)
  then have "all_stored hp ct as" using assms(2) l by (auto simp: all_stored_def)
  from get_from_files_finds [OF this assms(4) Cons.prems(2), of u level]
  have A: "answers (r, g1) (first_visible u s (files_entries ct (search_order hp v level))) (gs_value g)"
    unfolding f search_complete [OF assms(1) l assms(4), of u, folded as_def] .
  show ?case
  proof (cases "first_visible u s (files_entries ct (search_order hp v level))")
    case None
    then have "r = None" "gs_value g1 = gs_value g" "good (gs_tables g1)" using A by (simp_all add: answers_def found_def new_value_def)
    with Cons.IH [of g1] Cons.prems None f show ?thesis by (simp add: first_visible_append as_def)
  next
    case (Some e)
    then show ?thesis using A f by (auto simp: answers_def found_def first_visible_append as_def split: option.split)
  qed
qed

lemma Version_Get_finds:
  assumes "version_ok c hp ct v" "\<forall>level<kNumLevels. all_stored hp ct (level_files v level)" "s \<le> kMaxSequenceNumber" "good t"
  shows "\<exists>stats t'. Version_Get tget c hp v (LookupKey u s) old t =
    ((case first_visible u s (version_entries hp ct v) of
        Some e \<Rightarrow> if key_type (fst e) = kTypeValue then OK else status_msg Ldb_Base.kNotFound [] []
      | None \<Rightarrow> status_msg Ldb_Base.kNotFound [] []),
     new_value old (first_visible u s (version_entries hp ct v)), stats, t') \<and> good t'"
proof -
  let ?g = "\<lparr>gs_stats = \<lparr>seek_file = None, seek_file_level = -1\<rparr>, gs_last = None, gs_last_level = -1, gs_value = old, gs_tables = t\<rparr>"
  obtain r g where f: "get_from_levels tget c hp v (lookup_internal_key (LookupKey u s)) u [0..<kNumLevels] ?g = (r, g)" by fastforce
  have "answers (r, g) (first_visible u s (version_entries hp ct v)) old"
    using get_from_levels_finds [OF assms(1,2) _ assms(3), of "[0..<kNumLevels]" ?g u] assms(4)
    unfolding f version_entries_def by (auto simp: subset_eq)
  then show ?thesis
    unfolding Version_Get_def lookup_user_key_eq f
    by (auto simp: answers_def found_def split: option.split)
qed

end

section \<open>The table cache gives the entries of files\<close>

context user_order
begin

lemma first_visible_lower:
  assumes "ascending_keys (InternalKeyComparator c) (map ikey es)" "\<forall>e\<in>set es. key_sequence (fst e) \<le> kMaxSequenceNumber"
    "s \<le> kMaxSequenceNumber"
    and p_def: "p = lower_bound (InternalKeyComparator c) (lookup_internal_key (LookupKey u s)) (raw_entries es)"
  shows "first_visible u s es = (if p < length es \<and> user_of (es ! p) = u then Some (es ! p) else None)"
proof -
  let ?k = "lookup_internal_key (LookupKey u s)"
  have si: "in_snapshot s e \<longleftrightarrow> \<not> internal_compare c (ikey e) ?k < 0" if "e \<in> set es" "user_of e = u" for e
    using sees_iff [OF assms(3) _ that(2)] assms(2) that(1) by blast
  have before: "\<not> sees u s (es ! j)" if "j < p" for j
  proof -
    have "p \<le> length es" using lower_bound_le [of "InternalKeyComparator c" ?k "raw_entries es"] by (simp add: p_def)
    then have l: "j < length es" using that by simp
    then have "internal_compare c (ikey (es ! j)) ?k < 0"
      using lower_bound_before [of j "InternalKeyComparator c" ?k "raw_entries es"] that by (simp add: p_def)
    then show ?thesis using si [of "es ! j"] l by (auto simp: sees_def)
  qed
  have at: "\<not> internal_compare c (ikey (es ! p)) ?k < 0" if "p < length es"
    using lower_bound_at [of "InternalKeyComparator c" ?k "raw_entries es"] that by (simp add: p_def)
  show ?thesis
  proof (cases "p < length es \<and> user_of (es ! p) = u")
    case True
    then have "sees u s (es ! p)" using at si [of "es ! p"] by (simp add: sees_def)
    then have "find (sees u s) es = Some (es ! p)" unfolding find_Some_iff using True before by blast
    then show ?thesis using True by (simp add: first_visible_def)
  next
    case False
    have "\<not> sees u s (es ! j)" if j: "j < length es" for j
    proof (cases "j < p")
      case False
      then have p: "p < length es" using j by simp
      then have ne: "user_of (es ! p) \<noteq> u" using \<open>\<not> (p < length es \<and> user_of (es ! p) = u)\<close> by simp
      have "\<not> Compare c (user_of (es ! p)) u < 0" using at [OF p] by (auto simp: internal_less)
      then have "Compare c u (user_of (es ! p)) < 0" using user_trichotomy ne by metis
      moreover have "Compare c (user_of (es ! p)) (user_of (es ! j)) \<le> 0"
      proof (cases "p = j")
        case True
        then show ?thesis using compare_eq by simp
      next
        case False
        then have "internal_compare c (ikey (es ! p)) (ikey (es ! j)) < 0"
          using assms(1) j \<open>\<not> j < p\<close> by (simp add: ascending_keys_def sorted_wrt_iff_nth_less)
        then show ?thesis using compare_eq by (auto simp: internal_less)
      qed
      ultimately have "Compare c u (user_of (es ! j)) < 0" by (rule less_le_user)
      then show ?thesis using compare_eq by (auto simp: sees_def)
    qed (rule before)
    then have "first_visible u s es = None" unfolding first_visible_None by (metis in_set_conv_nth)
    then show ?thesis using False by simp
  qed
qed

lemma SaveValue_entry:
  assumes "key_sequence (fst e) \<le> kMaxSequenceNumber"
  shows "SaveValue c (saved u old None) (ikey e) (snd e) = saved u old (if user_of e = u then Some e else None)"
  using Append_Parse [OF assms] user_zero
  by (cases "key_type (fst e)") (auto simp: SaveValue_def saved_def ikey_def Let_def)

end

text \<open>What it takes of the options, the disk and the cache; \<open>b\<close> is the number of bits of the Bloom filter.\<close>

definition cache_good :: "comparator \<Rightarrow> open_file \<Rightarrow> snappy \<Rightarrow> string \<Rightarrow> options \<Rightarrow> disk \<Rightarrow> nat \<Rightarrow> table_cache \<Rightarrow> bool" where
  "cache_good c open_f sn dbname o1 d b tc \<longleftrightarrow> snappy_ok sn \<and> opt_comparator o1 = InternalKeyComparator c \<and>
     disk_ok open_f sn dbname o1 d \<and> tables_ok sn dbname o1 d tc \<and>
     (opt_filter_policy o1 = None \<or> (\<exists>name. opt_filter_policy o1 = Some (name, InternalFilterPolicy (NewBloomFilterPolicy b))))"

definition cache_stored :: "comparator \<Rightarrow> snappy \<Rightarrow> options \<Rightarrow> disk \<Rightarrow> nat \<Rightarrow> u64 \<Rightarrow> u64 \<Rightarrow> entry list \<Rightarrow> bool" where
  "cache_stored c sn o1 d b num sz es \<longleftrightarrow> (\<exists>bs. d num = Some bs \<and> concat bs = raw_entries es \<and> (\<forall>x\<in>set bs. x \<noteq> []) \<and>
     sz = file_size_of sn o1 bs \<and> ascending_keys (InternalKeyComparator c) (map ikey es) \<and>
     (\<forall>e\<in>set es. key_sequence (fst e) \<le> kMaxSequenceNumber) \<and> (opt_filter_policy o1 \<noteq> None \<longrightarrow> filter_fits sn o1 bs b))"

lemma table_cache_gets:
  assumes "user_order c"
  shows "table_gets c (TableCache_Get open_f sn new_id ro) (cache_good c open_f sn dbname o1 d b) (cache_stored c sn o1 d b)"
  unfolding table_gets_def table_gets_axioms_def
proof (intro conjI allI impI)
  show "user_order c" by fact
  fix t num sz es s u old
  assume good: "cache_good c open_f sn dbname o1 d b t" and st: "cache_stored c sn o1 d b num sz es" and s: "s \<le> kMaxSequenceNumber"
  let ?ic = "InternalKeyComparator c" and ?k = "lookup_internal_key (LookupKey u s)" and ?ok = "\<lambda>k. 8 \<le> length (k :: slice)"
  note g = good [unfolded cache_good_def]
  obtain bs where bs: "d num = Some bs" "concat bs = raw_entries es" "\<forall>x\<in>set bs. x \<noteq> []" "sz = file_size_of sn o1 bs"
      "ascending_keys ?ic (map ikey es)" "\<forall>e\<in>set es. key_sequence (fst e) \<le> kMaxSequenceNumber"
      "opt_filter_policy o1 \<noteq> None \<longrightarrow> filter_fits sn o1 bs b"
    using st unfolding cache_stored_def by blast
  have fits: "table_fits sn o1 bs" using g bs(1) by (auto simp: disk_ok_def)
  obtain h tc1 in_buf where f: "FindTable open_f sn new_id num sz t = (OK, Some h, tc1)"
      "opened sn o1 bs in_buf (handle_table_of tc1 h)" "tables_ok sn dbname o1 d (UnrefEntry h tc1)"
    unfolding bs(4) by (rule FindTable_finds [where open_f = open_f and num = num and d = d]) (use g bs(1) in auto)
  have C: "comparator_contract (opt_comparator o1) ?ok"
    using user_order.internal_contract [OF assms] g by simp
  have keys: "map fst (raw_entries es) = map ikey es" by (simp add: raw_entries_def)
  have blk: "blocks_ok ?ic ?ok bs"
    using bs(2,3,5) unfolding blocks_ok_def keys [symmetric] bs(2) by (auto simp: raw_entries_def)
  have k8: "?ok ?k" by (simp add: lookup_internal_key_eq AppendInternalKey_def PutFixed64_def)
  note I = InternalGet_opened [OF _ fits f(2) C _ k8, where ro = ro and saver = "SaveValue c" and arg = "saved u old None"]
  have get: "TableCache_Get open_f sn new_id ro num sz ?k (SaveValue c) (saved u old None) t =
      (OK, case get_entry sn o1 bs (handle_table_of tc1 h) ?k of None \<Rightarrow> saved u old None
        | Some kv \<Rightarrow> SaveValue c (saved u old None) (fst kv) (snd kv), UnrefEntry h tc1)"
    unfolding TableCache_Get_def f(1) using I g blk by simp
  define p where "p = lower_bound ?ic ?k (raw_entries es)"
  have fv: "first_visible u s es = (if p < length es \<and> user_of (es ! p) = u then Some (es ! p) else None)"
    unfolding p_def by (rule user_order.first_visible_lower [OF assms bs(5,6) s refl])
  have "(case get_entry sn o1 bs (handle_table_of tc1 h) ?k of None \<Rightarrow> saved u old None
        | Some kv \<Rightarrow> SaveValue c (saved u old None) (fst kv) (snd kv)) = saved u old (first_visible u s es)"
  proof (cases "get_entry sn o1 bs (handle_table_of tc1 h) ?k")
    case None
    have "user_of (es ! p) \<noteq> u" if "p < length es"
    proof -
      have "ExtractUserKey (fst (concat bs ! p)) \<noteq> ExtractUserKey ?k"
        unfolding p_def bs(2) [symmetric]
      proof (rule user_order.get_entry_misses [OF assms _ fits f(2) _ blk k8 None])
        show "filter_passes (handle_table_of tc1 h) (data_handle sn o1 bs j) ?k"
          if "j < length bs" "kv \<in> set (bs ! j)" "ExtractUserKey (fst kv) = ExtractUserKey ?k" for j kv
        proof (cases "opt_filter_policy o1")
          case None
          then show ?thesis using f(2) by (simp add: filter_passes_def opened_def)
        next
          case (Some np)
          then show ?thesis using filter_lets_pass [OF fits f(2) _ _ that] bs(7) g by fastforce
        qed
      qed (use g bs(2) \<open>p < length es\<close> in \<open>simp_all add: p_def\<close>)
      then show ?thesis using \<open>p < length es\<close> by (simp add: bs(2))
    qed
    then have "first_visible u s es = None" unfolding fv by auto
    then show ?thesis using None by simp
  next
    case (Some kv)
    have "p < length es \<and> kv = raw_entries es ! p"
      using get_entry_lower [OF _ fits f(2) C _ k8 Some] g blk by (simp add: p_def bs(2))
    then have p: "p < length es" "kv = (ikey (es ! p), snd (es ! p))" by simp_all
    then have "SaveValue c (saved u old None) (fst kv) (snd kv) = saved u old (if user_of (es ! p) = u then Some (es ! p) else None)"
      using user_order.SaveValue_entry [OF assms, of "es ! p"] bs(6) by simp
    then show ?thesis using Some fv p(1) by simp
  qed
  then show "\<exists>t'. TableCache_Get open_f sn new_id ro num sz ?k (SaveValue c) (saved u old None) t = (OK, saved u old (first_visible u s es), t') \<and>
      cache_good c open_f sn dbname o1 d b t'"
    unfolding get using g f(3) by (simp add: cache_good_def)
qed

interpretation cached_tables: table_gets BytewiseComparator "TableCache_Get open_f sn new_id ro"
    "cache_good BytewiseComparator open_f sn dbname o1 d b" "cache_stored BytewiseComparator sn o1 d b"
    for open_f sn new_id ro dbname o1 d b
  by (rule table_cache_gets) (rule bytewise_user.user_order_axioms)

section \<open>The newest version\<close>

text \<open>Of two entries of one user key the one that is searched earlier is the newer one.\<close>

definition newer :: "entry \<Rightarrow> entry \<Rightarrow> bool" where
  "newer e e' \<longleftrightarrow> (user_of e = user_of e' \<longrightarrow> key_sequence (fst e') < key_sequence (fst e))"

lemma first_visible_newest:
  assumes "sorted_wrt newer es" "mset es0 = mset es" "in_order es0"
  shows "(case first_visible u s es of None \<Rightarrow> Absent | Some e \<Rightarrow> says e) = newest (visible es0 u s)"
proof -
  have vis: "e \<in> set (visible es0 u s) \<longleftrightarrow> e \<in> set es \<and> sees u s e" for e
    using mset_eq_setD [OF assms(2)] by (auto simp: visible_def sees_def in_snapshot_def)
  show ?thesis
  proof (cases "first_visible u s es")
    case None
    have "e \<notin> set (visible es0 u s)" for e using None vis [of e] by (simp add: first_visible_None)
    then have "visible es0 u s = []" by (metis list.set_intros(1) neq_Nil_conv)
    then show ?thesis using None by (simp add: newest_def)
  next
    case (Some e)
    then obtain i where i: "i < length es" "sees u s (es ! i)" "e = es ! i" "\<forall>j<i. \<not> sees u s (es ! j)"
      unfolding first_visible_def find_Some_iff by blast
    have le: "key_sequence (fst e') \<le> key_sequence (fst e)" if e': "e' \<in> set es" "sees u s e'" for e'
    proof -
      obtain j where j: "j < length es" "e' = es ! j" using e'(1) by (metis in_set_conv_nth)
      then have "i = j \<or> i < j" using i(4) e'(2) by (meson linorder_neqE_nat)
      then show ?thesis using assms(1) i j e'(2) by (auto simp: sorted_wrt_iff_nth_less newer_def sees_def less_imp_le)
    qed
    have e: "e \<in> set (visible es0 u s)" using vis i by simp
    then have ne: "visible es0 u s \<noteq> []" by auto
    then have "last (visible es0 u s) \<in> set (visible es0 u s)" by simp
    then have "key_sequence (fst (last (visible es0 u s))) \<le> key_sequence (fst e)" using vis le by blast
    moreover have "in_order (visible es0 u s)" using in_order_filter assms(3) by (simp add: visible_def)
    ultimately have "e = last (visible es0 u s)" using in_order_last e by (metis leD)
    then show ?thesis using Some ne by (simp add: newest_def)
  qed
qed

text \<open>The status and the value that a result stands for.\<close>

definition reply :: "slice \<Rightarrow> mem_result \<Rightarrow> status \<times> slice" where
  "reply old r = (case r of Present x \<Rightarrow> (OK, x) | Deleted st \<Rightarrow> (st, old) | Absent \<Rightarrow> (status_msg Ldb_Base.kNotFound [] [], old))"

section \<open>An example\<close>

text \<open>A file in level 0 that deletes a key, and an older one in level 1.\<close>

definition example_meta :: "u64 \<Rightarrow> kvs list \<Rightarrow> FileMetaData" where
  "example_meta num bs = \<lparr>fm_refs = 1, allowed_seeks = 100, fm_number = num, file_size = file_size_of no_snappy internal_options bs,
     smallest = fst (hd (concat bs)), largest = fst (last (concat bs))\<rparr>"

definition example_heap :: file_heap where
  "example_heap = [2 \<mapsto> example_meta 9 (example_tables ! 0), 3 \<mapsto> example_meta 7 (example_tables ! 1)]"

definition example_contents :: "nat \<Rightarrow> entry list" where
  "example_contents a = (if a = 2 then take 1 example_versions else drop 1 example_versions)"

definition example_version :: version where "example_version = Version\<lparr>v_files := [[2], [3], [], [], [], [], []]\<rparr>"

definition example_disk :: disk where "example_disk = [9 \<mapsto> example_tables ! 0, 7 \<mapsto> example_tables ! 1]"

definition example_open :: open_file where
  "example_open name = (OK, Some (memory_file True (table_image no_snappy internal_options
     (if name = TableFileName ''db'' 7 then example_tables ! 1 else example_tables ! 0))))"

lemma example_levels:
  "level < kNumLevels \<Longrightarrow> level_files example_version level = (if level = 0 then [2] else if level = 1 then [3] else [])"
  by (auto simp: level_files_def example_version_def kNumLevels_def less_Suc_eq numeral_eq_Suc)

lemma example_file_contents:
  "example_contents 2 = [version [1] 5 kTypeDeletion []]" "example_contents 3 = [version [1] 3 kTypeValue [10], version [2] 4 kTypeValue [20]]"
  by (simp_all add: example_contents_def example_versions_def)

lemma example_file_keys:
  "map ikey (example_contents 2) = [[1, 0, 5, 0, 0, 0, 0, 0, 0]]" "map ikey (example_contents 3) = [[1, 1, 3, 0, 0, 0, 0, 0, 0], [2, 1, 4, 0, 0, 0, 0, 0, 0]]"
  using example_ikeys by (simp_all add: example_file_contents example_versions_def)

lemma example_raw_files:
  "raw_entries (example_contents 2) = concat (example_tables ! 0)" "raw_entries (example_contents 3) = concat (example_tables ! 1)"
proof -
  have "map fst (raw_entries (example_contents a)) = map ikey (example_contents a)" for a by (rule raw_keys)
  moreover have "map snd (raw_entries (example_contents 2)) = [[]]" "map snd (raw_entries (example_contents 3)) = [[10], [20]]"
    by (simp_all add: raw_entries_def example_file_contents version_def)
  ultimately have "raw_entries (example_contents 2) = zip [[1, 0, 5, 0, 0, 0, 0, 0, 0]] [[]]"
    "raw_entries (example_contents 3) = zip [[1, 1, 3, 0, 0, 0, 0, 0, 0], [2, 1, 4, 0, 0, 0, 0, 0, 0]] [[10], [20]]"
    by (metis zip_map_fst_snd example_file_keys)+
  then show "raw_entries (example_contents 2) = concat (example_tables ! 0)" "raw_entries (example_contents 3) = concat (example_tables ! 1)"
    by (simp_all add: example_tables_def)
qed

lemma example_ascending: "ascending_keys (InternalKeyComparator BytewiseComparator) (map ikey (example_contents a))"
proof (cases "a = 2")
  case False
  then have e: "example_contents a = example_contents 3" by (simp add: example_contents_def)
  show ?thesis
    unfolding e example_file_keys by (simp add: ascending_keys_def bytewise_user.internal_less ExtractUserKey_def Compare_bytewise)
qed (simp add: example_file_keys ascending_keys_def)

lemma example_sequences: "\<forall>e\<in>set (example_contents a). key_sequence (fst e) \<le> kMaxSequenceNumber"
  by (cases "a = 2") (simp_all add: example_contents_def example_versions_def version_def kMaxSequenceNumber_def)

lemma example_file_ok:
  assumes a: "a = 2 \<or> a = 3"
  shows "file_ok BytewiseComparator example_heap example_contents a"
proof -
  have k: "hd (map ikey (example_contents a)) = small_key example_heap a" "last (map ikey (example_contents a)) = large_key example_heap a"
    using a example_file_keys by (auto simp: fm_def example_heap_def example_meta_def example_tables_def)
  have "example_contents a \<noteq> []" by (simp add: example_contents_def example_versions_def)
  then show ?thesis
    using k example_ascending [of a] example_sequences [of a] by (simp add: file_ok_def hd_map last_map)
qed

lemma example_version_ok: "version_ok BytewiseComparator example_heap example_contents example_version"
  using example_file_ok by (auto simp: version_ok_def example_levels level_ok_def) (simp add: example_version_def kNumLevels_def)

lemma example_stored:
  assumes "level < kNumLevels" "a \<in> set (level_files example_version level)"
  shows "cache_stored BytewiseComparator no_snappy internal_options example_disk 10
    (fm_number (fm example_heap a)) (file_size (fm example_heap a)) (example_contents a)"
proof -
  have "a = 2 \<or> a = 3" using assms by (auto simp: example_levels split: if_splits)
  then obtain bs where bs: "example_disk (fm_number (fm example_heap a)) = Some bs" "concat bs = raw_entries (example_contents a)"
      "bs \<in> set example_tables" "file_size (fm example_heap a) = file_size_of no_snappy internal_options bs"
    using example_raw_files by (auto simp: fm_def example_heap_def example_meta_def example_disk_def example_tables_def)
  moreover have "\<forall>x\<in>set bs. x \<noteq> []" using bs(3) by (auto simp: example_tables_def)
  ultimately show ?thesis unfolding cache_stored_def using example_ascending example_sequences by auto
qed

lemma example_cache_good:
  "cache_good BytewiseComparator example_open no_snappy ''db'' internal_options example_disk 10 (TableCache ''db'' internal_options 100)"
proof -
  have "TableFileName ''db'' 9 \<noteq> TableFileName ''db'' 7" by code_simp
  then have "disk_ok example_open no_snappy ''db'' internal_options example_disk"
    using internal_fits by (auto simp: disk_ok_def example_disk_def open_table_file_def example_open_def example_tables_def)
  then show ?thesis using no_snappy_ok TableCache_ok by (simp add: cache_good_def)
qed

lemma example_version_entries: "version_entries example_heap example_contents example_version = example_versions"
proof -
  have "map (\<lambda>level. files_entries example_contents (search_order example_heap example_version level)) [0..<kNumLevels] =
      map (\<lambda>level. if level = 0 then example_contents 2 else if level = 1 then example_contents 3 else []) [0..<kNumLevels]"
    by (rule map_cong) (auto simp: search_order_def example_levels NewestFirst_def)
  then show ?thesis
    by (simp add: version_entries_def kNumLevels_def upt_rec example_file_contents example_versions_def)
qed

section \<open>Properties\<close>

text \<open>C5: \<open>Version::Get\<close> through the table cache finds the newest visible version of a key.  For every comparator
  that keeps its contract, a version whose files hold the entries \<open>ct\<close> on disk, sorted and apart from each other in
  the levels above 0 and newer in the files that are searched first, whatever tables the cache holds: the lookup of
  a key at a snapshot answers what the newest of its entries that the snapshot includes says, which is what
  a memtable with the same entries answers, and the cache stays in order.\<close>

theorem version_get_newest:
  assumes "user_order c" "version_ok c hp ct v" "s \<le> kMaxSequenceNumber" "cache_good c open_f sn dbname o1 d b tc"
    "\<forall>level<kNumLevels. \<forall>a\<in>set (level_files v level). cache_stored c sn o1 d b (fm_number (fm hp a)) (file_size (fm hp a)) (ct a)"
    "sorted_wrt newer (version_entries hp ct v)" "mset es0 = mset (version_entries hp ct v)" "in_order es0"
  shows "\<exists>st val stats tc'. Version_Get (TableCache_Get open_f sn new_id ro) c hp v (LookupKey u s) old tc = (st, val, stats, tc') \<and>
    (st, val) = reply old (newest (visible es0 u s)) \<and> cache_good c open_f sn dbname o1 d b tc'"
proof -
  note G = table_cache_gets [OF assms(1), of open_f sn new_id ro dbname o1 d b]
  have "\<forall>level<kNumLevels. table_gets.all_stored (cache_stored c sn o1 d b) hp ct (level_files v level)"
    using assms(5) by (simp add: table_gets.all_stored_def [OF G])
  from table_gets.Version_Get_finds [OF G assms(2) this assms(3,4), of u old]
  show ?thesis
    unfolding first_visible_newest [OF assms(6-8), of u s, symmetric] table_gets.new_value_def [OF G]
    by (cases "first_visible u s (version_entries hp ct v)")
      (auto simp: reply_def says_def split: ValueType.splits)
qed

theorem version_get_newest_witness:
  "\<exists>stats tc'. Version_Get (TableCache_Get example_open no_snappy 0 ReadOptions) BytewiseComparator example_heap example_version
      (LookupKey [1] 4) [] (TableCache ''db'' internal_options 100) = (OK, [10], stats, tc')"
proof -
  let ?es0 = "[version [1] 3 kTypeValue [10], version [2] 4 kTypeValue [20], version [1] 5 kTypeDeletion []]"
  have h: "4 \<le> kMaxSequenceNumber" "sorted_wrt newer example_versions" "mset ?es0 = mset example_versions" "in_order ?es0"
    "newest (visible ?es0 [1] 4) = Present [10]"
    by (simp_all add: kMaxSequenceNumber_def example_versions_def in_order_def version_def newer_def newest_def visible_def says_def)
  show ?thesis
    using version_get_newest [OF bytewise_user.user_order_axioms example_version_ok h(1) example_cache_good _ _ _ h(4),
        unfolded example_version_entries, OF _ h(2,3), of 0 ReadOptions "[1]" "[]"] example_stored
    unfolding h(5) reply_def mem_result.case by blast
qed

text \<open>C19: \<open>GetOverlappingInputs\<close> returns, and finds what a compaction needs.  In a level above 0 it gives the files
  with a user key in the range.  In level 0, where files overlap, it gives those of the smallest range that contains
  the given one and that no file of the level reaches out of.\<close>

theorem overlapping_inputs_closed:
  assumes "user_order c"
  shows "\<exists>b' e'. GetOverlappingInputs c hp v level b e = Some (filter (\<lambda>a. meets c b' e' (fm hp a)) (level_files v level)) \<and>
    wider c (map_option ExtractUserKey b) (map_option ExtractUserKey e) b' e' \<and>
    (0 < level \<longrightarrow> b' = map_option ExtractUserKey b \<and> e' = map_option ExtractUserKey e) \<and>
    (level = 0 \<longrightarrow> closed_range c hp (level_files v level) b' e') \<and>
    (\<forall>B E. wider c (map_option ExtractUserKey b) (map_option ExtractUserKey e) B E \<and> closed_range c hp (level_files v level) B E \<longrightarrow>
      wider c b' e' B E)"
  by (rule user_order.GetOverlappingInputs_finds [OF assms])

text \<open>A file of level 0 that reaches out of the range, and one that only the first one reaches.\<close>

definition chained_heap :: file_heap where
  "chained_heap = (\<lambda>a. Some \<lparr>fm_refs = 1, allowed_seeks = 100, fm_number = word_of_nat a, file_size = 1,
     smallest = [word_of_nat a] @ replicate 8 0, largest = [word_of_nat a + 1] @ replicate 8 0\<rparr>)"

theorem overlapping_inputs_closed_witness:
  "\<exists>fs. GetOverlappingInputs BytewiseComparator chained_heap (Version\<lparr>v_files := [[3, 4, 9], [], [], [], [], [], []]\<rparr>) 0
      (Some ([5] @ replicate 8 0)) (Some ([5] @ replicate 8 0)) = Some fs \<and> 4 \<in> set fs \<and> 3 \<in> set fs"
proof -
  let ?v = "Version\<lparr>v_files := [[3, 4, 9], [], [], [], [], [], []]\<rparr>" and ?k = "Some ([5 :: byte] @ replicate 8 0)"
  have f: "level_files ?v 0 = [3, 4, 9]" by (simp add: level_files_def)
  have e: "map_option ExtractUserKey ?k = Some [5]" by (simp add: ExtractUserKey_def)
  obtain b' e' where h: "GetOverlappingInputs BytewiseComparator chained_heap ?v 0 ?k ?k =
        Some (filter (\<lambda>a. meets BytewiseComparator b' e' (fm chained_heap a)) [3, 4, 9])"
      "wider BytewiseComparator (Some [5]) (Some [5]) b' e'" "closed_range BytewiseComparator chained_heap [3, 4, 9] b' e'"
    using overlapping_inputs_closed [OF bytewise_user.user_order_axioms, of chained_heap ?v 0 ?k ?k] unfolding f e by blast
  obtain b1 e1 where be: "b' = Some b1" "e' = Some e1" "slice_compare b1 [5] \<le> 0" "slice_compare [5] e1 \<le> 0"
    using h(2) by (auto simp: wider_def Compare_bytewise)
  have k: "ExtractUserKey (small_key chained_heap a) = [word_of_nat a]" "ExtractUserKey (large_key chained_heap a) = [word_of_nat a + 1]" for a
    by (simp_all add: fm_def chained_heap_def ExtractUserKey_def)
  have tr: "slice_compare x z \<le> 0" if "slice_compare x y \<le> 0" "slice_compare y z \<le> 0" for x y z
    using bytewise.compare_le_trans [of x y z] that by (simp add: Compare_bytewise)
  have n: "\<not> slice_compare x y < 0" if "slice_compare y x \<le> 0" for x y
    using bytewise_user.le_user [of y x] that by (simp add: Compare_bytewise)
  have m4: "meets BytewiseComparator b' e' (fm chained_heap 4)"
    using n [OF be(3)] tr [OF _ be(4), of "[4]"] by (simp add: meets_def be(1,2) k Compare_bytewise)
  then have "inside BytewiseComparator b' e' (fm chained_heap 4)" using h(3) by (simp add: closed_range_def)
  then have b4: "slice_compare b1 [4] \<le> 0"
    using bytewise_user.le_user [of b1 "[4]"] by (simp add: inside_def be(1) k Compare_bytewise)
  have "meets BytewiseComparator b' e' (fm chained_heap 3)"
    using n [OF b4] tr [OF _ be(4), of "[3]"] by (simp add: meets_def be(1,2) k Compare_bytewise)
  with m4 h(1) show ?thesis by simp
qed

text \<open>C20: the search by halves of \<open>SomeFileOverlapsRange\<close>, for the files of a level above 0, gives the same answer as
  looking at every file.\<close>

theorem overlap_search_exact:
  assumes "user_order c" "level_ok c hp files" "\<forall>a\<in>set files. file_ok c hp ct a"
  shows "SomeFileOverlapsRange c hp True files small large \<longleftrightarrow>
    (\<exists>a\<in>set files. \<not> AfterFile c small (fm hp a) \<and> \<not> BeforeFile c large (fm hp a))"
  using user_order.overlap_search_eq [OF assms, of small large] by (simp add: SomeFileOverlapsRange_def list_ex_iff)

theorem overlap_search_exact_witness:
  "SomeFileOverlapsRange BytewiseComparator example_heap True [3] (Some [2]) (Some [7]) \<longleftrightarrow>
    \<not> AfterFile BytewiseComparator (Some [2]) (fm example_heap 3) \<and> \<not> BeforeFile BytewiseComparator (Some [7]) (fm example_heap 3)"
proof -
  have "\<forall>a\<in>set [3]. file_ok BytewiseComparator example_heap example_contents a"
    using example_file_ok by simp
  moreover have "level_ok BytewiseComparator example_heap [3]" by (simp add: level_ok_def)
  ultimately show ?thesis
    using overlap_search_exact [OF bytewise_user.user_order_axioms, of example_heap "[3]" example_contents "Some [2]" "Some [7]"] by simp
qed

end
