(* ===== verification/Spec2Isabelle.thy ===== *)
theory Spec2Isabelle
  imports Pb_Layout Pb_Varint Pb_Decode_Props Pb_Encode_Props Pb_Value_Props
    Ldb_Coding Ldb_Crc_Props Ldb_Filter_Props Ldb_Log_Props Ldb_Key_Props
    Ldb_Skiplist_Steps Ldb_Memtable_Props Ldb_Batch_Props Ldb_Block_Props
    Ldb_Filename Ldb_Edit_Props Ldb_Table_Props Ldb_Merger_Props Ldb_Db_Reads
    Ldb_Cache_Props Ldb_Arena Ldb_Version_Props
begin

section \<open>The program\<close>

text \<open>
  The repository is an iOS application with the libraries it ships under \<open>src/Recover Now/Pods\<close>.  Its C
  and C++ code is two storage libraries, and this development models them:

  \<^item> \<open>nanopb\<close>, a decoder and an encoder of protocol buffers that work on C structs through tables of field
    descriptors (\<open>pb.h\<close>, \<open>pb_common.c\<close>, \<open>pb_decode.c\<close>, \<open>pb_encode.c\<close>);
  \<^item> \<open>leveldb-library\<close>, an ordered key-value store: a log and a memtable for recent writes, tables on
    disk for older ones, and iterators that merge them (\<open>db/\<close>, \<open>table/\<close>, \<open>util/\<close>, \<open>include/leveldb/\<close>).

  In leveldb a write goes into a write batch (\<open>db/write_batch.cc\<close>), whose bytes are a record of the log
  (\<open>db/log_writer.cc\<close>, \<open>util/crc32c.cc\<close>) and are then inserted into the memtable (\<open>db/memtable.cc\<close> over
  \<open>db/skiplist.h\<close>) under internal keys (\<open>db/dbformat.cc\<close>).  A table is a sequence of blocks with an index,
  a filter and a footer (\<open>table/\<close>).  A read goes through iterators: of a block, of a table over its
  blocks (\<open>two_level_iterator.cc\<close>), of several tables (\<open>merger.cc\<close>), and of the user's view at a snapshot
  (\<open>db/db_iter.cc\<close>).  The manifest is a log of version edits (\<open>db/version_edit.cc\<close>).
\<close>

section \<open>The theories\<close>

text \<open>
  \<open>Prelude\<close> holds the machine types, the byte memory and the little-endian accessors that all use.

  nanopb:
  \<^item> \<open>Pb_Types\<close>, \<open>Pb_Layout\<close>: the type byte, the descriptor record and the macros of \<open>pb.h\<close>; \<open>Pb_Common\<close>: the
    field iterator of \<open>pb_common.c\<close>, which walks the descriptors and adds up member addresses.  The
    declared layout and the walked one agree.
  \<^item> \<open>Pb_Input\<close>, \<open>Pb_Output\<close>: the streams and the scalar codes.  A stream state is a parameter \<open>'s\<close> of a user
    callback; the memory buffers of the library are an instance.  \<open>Pb_Varint\<close>, \<open>Pb_Value_Props\<close>: round trips
    and ranges.
  \<^item> \<open>Pb_Decode\<close>: all of \<open>pb_decode.c\<close> from single values to whole messages with submessages, extensions,
    oneofs, arrays and callbacks, over a byte memory; pointer fields are the code without
    \<open>PB_ENABLE_MALLOC\<close>.  \<open>Pb_Account\<close>, \<open>Pb_Buffer\<close>, \<open>Pb_Sound\<close>, \<open>Pb_Message_Sound\<close>: the contract of the decoders,
    by induction over the structure of the code; \<open>Pb_Decode_Loop\<close>, \<open>Pb_Decode_Props\<close>: what follows for
    any input bytes.
  \<^item> \<open>Pb_Encode\<close>: all of \<open>pb_encode.c\<close>.  \<open>Pb_Enc_Spec\<close>: the wire format as a function of the message in
    memory; \<open>Pb_Enc_Message\<close>, \<open>Pb_Encode_Props\<close>: the encoder writes it.

  leveldb:
  \<^item> \<open>Ldb_Base\<close>, \<open>Ldb_Coding\<close>: slices, statuses and \<open>util/coding.cc\<close>; its variable-length integers agree with
    those of nanopb.  \<open>Ldb_Logging\<close>, \<open>Ldb_Filename\<close>: numbers in text, the names of files and \<open>util/env.cc\<close>.
  \<^item> \<open>Ldb_Crc\<close>, \<open>Ldb_Crc_Props\<close>: the table-driven checksum against division bit by bit.
  \<^item> \<open>Ldb_Filter\<close>, \<open>Ldb_Filter_Props\<close>: the hash, the Bloom filter and the filter block.
  \<^item> \<open>Ldb_Log\<close>, \<open>Ldb_Log_Props\<close>: writer and reader of the log.
  \<^item> \<open>Ldb_Key\<close>, \<open>Ldb_Key_Props\<close>: comparators with their contract (\<open>comparator_contract\<close>, \<open>user_order\<close>), internal
    keys and the filter policy for them.
  \<^item> \<open>Ldb_Skiplist\<close>, \<open>Ldb_Skiplist_Props\<close>, \<open>Ldb_Skiplist_Steps\<close>: the skip list over a heap of nodes, sequentially,
    and a search that is interleaved with the steps of an insertion.
  \<^item> \<open>Ldb_Memtable\<close>, \<open>Ldb_Batch\<close> with their \<open>_Props\<close>: the memtable and write batches.
  \<^item> \<open>Ldb_Block\<close>, \<open>Ldb_Block_Props\<close>: builder, parser and iterator of blocks.
  \<^item> \<open>Ldb_Iterator\<close>: the interface of iterators as a record of operations, and its contract as the locale
    \<open>list_iterator\<close>: the iterator goes over a list and stands at a position of it.  \<open>Ldb_Two_Level\<close>,
    \<open>Ldb_Merger\<close>, \<open>Ldb_Db_Iter\<close> with their \<open>_Props\<close> each show that an iterator keeps the contract if those below it
    do; blocks are the base.
  \<^item> \<open>Ldb_Format\<close>, \<open>Ldb_Table_Builder\<close>, \<open>Ldb_Table_Build_Props\<close>, \<open>Ldb_Table\<close>, \<open>Ldb_Table_Props\<close>: the format of tables,
    their builder with the image it writes, and their reader.
  \<^item> \<open>Ldb_Edit\<close>, \<open>Ldb_Edit_Props\<close>: the records of the manifest.
  \<^item> \<open>Ldb_Db_Reads\<close>: tables, merging and the user's view together, and their agreement with the memtable.
  \<^item> \<open>Ldb_Cache\<close>, \<open>Ldb_Cache_Props\<close>: the sharded cache of tables and blocks.  \<open>Ldb_Arena\<close>: the allocator.
  \<^item> \<open>Ldb_Table_Cache\<close>, \<open>Ldb_Table_Cache_Props\<close>: the tables that are open, on top of the cache; a lookup gives what the
    table on disk gives.
  \<^item> \<open>Ldb_Version\<close>, \<open>Ldb_Version_Props\<close>: the files of every level.  The locale \<open>table_gets\<close> is what a version needs of
    the table cache, and is interpreted on it; the lookup of a key is related to the memtable with the same entries.
\<close>

section \<open>How the code is rendered\<close>

text \<open>
  Integers have the width they have in the code; \<open>size_t\<close> and pointers differences are natural numbers
  where the code cannot wrap them, and are reduced explicitly where it can (\<open>size_add\<close> of \<open>pb_write\<close>, the
  32-bit sums of \<open>DecodeEntry\<close>).  Slices are lists of bytes.  Errors are values: \<open>bool\<close> with the error message
  in the stream for nanopb, a \<open>status\<close> for leveldb, \<open>option\<close> for pointers that may be NULL.  Memory is a
  function from addresses to bytes where the code writes through pointers (nanopb structs, skip list
  nodes are a heap of records); elsewhere the state is passed explicitly.

  Bounds and loops.  The decoder recurses over nested descriptors with a depth argument and loops with
  a number of rounds; both are shown not to matter once they reach the nesting of the descriptors and
  the number of input bytes.  Loops over abstract
  iterators, the search in a skip list and the loops of the sampling are \<open>partial_function (option)\<close>; the
  theorems about them say that they return.  All other loops are structural or come with a measure.

  Parameters.  User callbacks of nanopb, comparators, filter policies, the environment's files, the
  block cache and the compression library are arguments; what the proofs need of them is named
  (\<open>comparator_contract\<close>, \<open>snappy_ok\<close>, \<open>callbacks_spec\<close>) and every such hypothesis is met by a concrete
  instance in a witness.
\<close>

section \<open>Not modelled\<close>

text \<open>
  \<^item> The rest of \<open>db/version_set.cc\<close> (applying edits to versions, the manifest, the choice of compactions),
    \<open>db/db_impl.cc\<close>, \<open>db/builder.cc\<close>, \<open>db/repair.cc\<close>: the management of versions, compactions and threads.
  \<^item> \<open>db/c.cc\<close> and its test (bindings), \<open>db/dumpfile.cc\<close>, \<open>db/leveldb_main.cc\<close>, \<open>util/histogram.cc\<close>, the
    benchmarks and the tests: glue, printing and test programs.
  \<^item> \<open>util/env_posix.cc\<close>, \<open>port/\<close>: system calls.  Files are abstract.
  \<^item> The application itself, Firebase, GTMSessionFetcher, GoogleToolboxForMac and the headers of binary
    frameworks: Swift and Objective-C interface code without a part in C.
\<close>

end
